(* ===== verification/Prelude.thy ===== *)
theory Prelude
  imports Main "HOL-Library.Word"
begin

text \<open>
  JavaScript numbers and arrays, as every component of the web demo uses them.

  The code computes with Numbers that always hold integers of magnitude below \<open>2^53\<close>, where a
  Number is exact; they are modelled by \<open>int\<close>. The bitwise operators convert their operands with
  \<open>ToInt32\<close> (\<open>ToUint32\<close> for the operator \<open>>>>\<close>) and mask shift counts to five bits; this is written
  out here. The lemmas say when such an operator is the arithmetic one (collection \<open>js_arith\<close>).
\<close>

unbundle bit_operations_syntax

named_theorems js_arith \<open>bit operators as arithmetic, inside the int32 range\<close>

section \<open>Integer division\<close>

lemma div_less_of_less_mult:
  fixes x k b :: int
  assumes "0 < b" "x < k * b"
  shows "x div b < k"
proof (rule ccontr)
  assume "\<not> x div b < k"
  then have "k * b \<le> (x div b) * b" using assms(1) by (intro mult_right_mono) auto
  also have "\<dots> \<le> x" using assms(1) by (simp add: minus_mod_eq_div_mult [symmetric])
  finally show False using assms(2) by simp
qed

lemma div_nonneg: "0 \<le> x \<Longrightarrow> 0 < (b::int) \<Longrightarrow> 0 \<le> x div b"
  by (simp add: pos_imp_zdiv_nonneg_iff)

lemma div_minus1_range:
  fixes x b :: int
  assumes "- b \<le> x" "x < 0"
  shows "x div b = -1"
proof -
  have b: "0 < b" using assms by linarith
  have "x div b < 0" using assms(2) b by (simp add: neg_imp_zdiv_neg_iff div_neg_pos_less0)
  moreover have "- b div b \<le> x div b" using assms(1) b by (intro zdiv_mono1)
  moreover have "- b div b = -1" using b by (simp add: zdiv_zminus1_eq_if)
  ultimately show ?thesis by linarith
qed

section \<open>The bitwise operators\<close>

definition toInt32 :: "int \<Rightarrow> int" where
  "toInt32 x = signed_take_bit 31 x"

definition toUint32 :: "int \<Rightarrow> int" where
  "toUint32 x = take_bit 32 x"

definition js_and :: "int \<Rightarrow> int \<Rightarrow> int" where
  "js_and x y = toInt32 x AND toInt32 y"

definition js_or :: "int \<Rightarrow> int \<Rightarrow> int" where
  "js_or x y = toInt32 x OR toInt32 y"

definition js_xor :: "int \<Rightarrow> int \<Rightarrow> int" where
  "js_xor x y = toInt32 x XOR toInt32 y"

definition js_not :: "int \<Rightarrow> int" where
  "js_not x = NOT (toInt32 x)"

definition js_shl :: "int \<Rightarrow> int \<Rightarrow> int" where
  "js_shl x n = toInt32 (push_bit (nat (n mod 32)) (toInt32 x))"

definition js_shr :: "int \<Rightarrow> int \<Rightarrow> int" where
  "js_shr x n = drop_bit (nat (n mod 32)) (toInt32 x)"

definition js_ushr :: "int \<Rightarrow> int \<Rightarrow> int" where
  "js_ushr x n = drop_bit (nat (n mod 32)) (toUint32 x)"

lemma toInt32_id: "- (2 ^ 31) \<le> x \<Longrightarrow> x < 2 ^ 31 \<Longrightarrow> toInt32 x = x"
  unfolding toInt32_def by (rule signed_take_bit_int_eq_self) auto

lemma toUint32_id: "0 \<le> x \<Longrightarrow> x < 2 ^ 32 \<Longrightarrow> toUint32 x = x"
  unfolding toUint32_def by (rule take_bit_int_eq_self) auto

lemma toInt32_range: "- (2 ^ 31) \<le> toInt32 x" "toInt32 x < 2 ^ 31"
  unfolding toInt32_def
  by (rule signed_take_bit_int_greater_eq_minus_exp, rule signed_take_bit_int_less_exp)

lemma toUint32_range: "0 \<le> toUint32 x" "toUint32 x < 2 ^ 32"
  unfolding toUint32_def by simp (rule take_bit_int_less_exp)

lemma bit_toInt32: "bit (toInt32 x) n = bit x (min n 31)"
  by (simp add: toInt32_def bit_signed_take_bit_iff min.commute)

lemma toInt32_idem [simp]: "toInt32 (toInt32 x) = toInt32 x"
  by (rule bit_eqI) (simp add: bit_toInt32)

lemma toInt32_and: "toInt32 x AND toInt32 y = toInt32 (x AND y)"
  by (rule bit_eqI) (simp add: bit_toInt32 bit_and_iff)

lemma toInt32_or: "toInt32 x OR toInt32 y = toInt32 (x OR y)"
  by (rule bit_eqI) (simp add: bit_toInt32 bit_or_iff)

lemma toInt32_xor: "toInt32 x XOR toInt32 y = toInt32 (x XOR y)"
  by (rule bit_eqI) (simp add: bit_toInt32 bit_xor_iff)

lemma take_bit_toInt32: "k \<le> 32 \<Longrightarrow> take_bit k (toInt32 x) = take_bit k x"
  by (rule bit_eqI) (auto simp: bit_toInt32 bit_take_bit_iff min_def)

lemma toInt32_mod: "k \<le> 32 \<Longrightarrow> toInt32 x mod 2 ^ k = x mod 2 ^ k"
  using take_bit_toInt32 [of k x] by (simp add: take_bit_eq_mod)

lemma toUint32_eq_mod: "toUint32 x = x mod 2 ^ 32"
  by (simp add: toUint32_def take_bit_eq_mod)

section \<open>When a bitwise operator is arithmetic\<close>

lemma js_and_mask:
  assumes "k < 32"
  shows "js_and x (2 ^ k - 1) = x mod 2 ^ k"
proof -
  have "js_and x (2 ^ k - 1) = toInt32 x AND mask k"
  proof (cases "k = 31")
    case True
    then show ?thesis by (simp add: js_and_def toInt32_id mask_eq_exp_minus_1)
  next
    case False
    with assms have "(2::int) ^ k \<le> 2 ^ 31" by (intro power_increasing) auto
    then have "toInt32 (2 ^ k - 1) = 2 ^ k - 1"
      by (intro toInt32_id) (smt (verit) zero_less_power)+
    then show ?thesis by (simp add: js_and_def mask_eq_exp_minus_1)
  qed
  also have "\<dots> = x mod 2 ^ k"
    using assms toInt32_mod [of k x] by (simp add: take_bit_eq_mod flip: take_bit_eq_mask)
  finally show ?thesis .
qed

lemma js_shr_div:
  assumes "- (2 ^ 31) \<le> x" "x < 2 ^ 31" "0 \<le> k" "k < 32"
  shows "js_shr x k = x div 2 ^ nat k"
  using assms by (simp add: js_shr_def toInt32_id drop_bit_eq_div)

lemma js_ushr_div:
  assumes "0 \<le> x" "x < 2 ^ 32" "0 \<le> k" "k < 32"
  shows "js_ushr x k = x div 2 ^ nat k"
  using assms by (simp add: js_ushr_def toUint32_id drop_bit_eq_div)

lemma js_shl_mult:
  assumes "- (2 ^ 31) \<le> x * 2 ^ nat k" "x * 2 ^ nat k < 2 ^ 31" "0 \<le> k" "k < 32"
  shows "js_shl x k = x * 2 ^ nat k"
proof -
  have p: "(1::int) \<le> 2 ^ nat k" by simp
  have "toInt32 x = x"
  proof (rule toInt32_id)
    show "- (2 ^ 31) \<le> x"
    proof (rule ccontr)
      assume "\<not> - (2 ^ 31) \<le> x"
      then have "x * 2 ^ nat k \<le> x * 1" using p by (intro mult_left_mono_neg) auto
      with \<open>\<not> - (2 ^ 31) \<le> x\<close> assms(1) show False by linarith
    qed
    show "x < 2 ^ 31"
    proof (rule ccontr)
      assume "\<not> x < 2 ^ 31"
      then have "x * 1 \<le> x * 2 ^ nat k" using p by (intro mult_left_mono) auto
      with \<open>\<not> x < 2 ^ 31\<close> assms(2) show False by linarith
    qed
  qed
  then show ?thesis using assms by (simp add: js_shl_def push_bit_eq_mult toInt32_id)
qed

lemma js_shl_mult_pos:
  assumes "0 \<le> x" "x * 2 ^ nat k < 2 ^ 31" "0 \<le> k" "k < 32"
  shows "js_shl x k = x * 2 ^ nat k"
proof -
  have "0 \<le> x * 2 ^ nat k" using assms(1) by simp
  then have "- (2 ^ 31) \<le> x * 2 ^ nat k" by (rule order_trans [rotated]) simp
  then show ?thesis using assms by (intro js_shl_mult)
qed

lemma or_eq_add:
  fixes a b :: int
  assumes "0 \<le> b" "b < 2 ^ k"
  shows "(a * 2 ^ k) OR b = a * 2 ^ k + b"
proof -
  have b: "b = take_bit k b" using assms by (simp add: take_bit_int_eq_self)
  have "push_bit k a + take_bit k b = push_bit k a OR take_bit k b"
    by (rule disjunctive_add)
       (auto simp: bit_push_bit_iff bit_take_bit_iff)
  with b show ?thesis by (simp add: push_bit_eq_mult)
qed

lemma js_or_add:
  assumes "0 \<le> a" "0 \<le> b" "b < 2 ^ k" "a * 2 ^ k + b < 2 ^ 31"
  shows "js_or (a * 2 ^ k) b = a * 2 ^ k + b"
proof -
  have a: "0 \<le> a * 2 ^ k" using assms(1) by simp
  then have "toInt32 (a * 2 ^ k) = a * 2 ^ k" using assms by (intro toInt32_id) linarith+
  moreover have "toInt32 b = b" using assms a by (intro toInt32_id) linarith+
  ultimately show ?thesis using assms by (simp add: js_or_def or_eq_add)
qed

lemma js_and_mask_num [js_arith]:
  "js_and x 1 = x mod 2"
  "js_and x 3 = x mod 4"
  "js_and x 7 = x mod 8"
  "js_and x 15 = x mod 16"
  "js_and x 63 = x mod 64"
  "js_and x 127 = x mod 128"
  "js_and x 255 = x mod 256"
  "js_and x 0x3fff = x mod 0x4000"
  "js_and x 0x7fff = x mod 0x8000"
  "js_and x 0xffff = x mod 0x10000"
  "js_and x 0x3ffffff = x mod 0x4000000"
  "js_and x 0xfffffff = x mod 0x10000000"
  "js_and x 0x3fffffff = x mod 0x40000000"
  by (rule js_and_mask [of 1, simplified], rule js_and_mask [of 2, simplified],
    rule js_and_mask [of 3, simplified],
    rule js_and_mask [of 4, simplified],
    rule js_and_mask [of 6, simplified],
    rule js_and_mask [of 7, simplified],
    rule js_and_mask [of 8, simplified],
    rule js_and_mask [of 14, simplified],
    rule js_and_mask [of 15, simplified],
    rule js_and_mask [of 16, simplified],
    rule js_and_mask [of 26, simplified],
    rule js_and_mask [of 28, simplified],
    rule js_and_mask [of 30, simplified])

lemma js_and_comm: "js_and x y = js_and y x"
  by (simp add: js_and_def and.commute)

lemma js_or_comm: "js_or x y = js_or y x"
  by (simp add: js_or_def or.commute)

lemma js_or_0 [simp]: "js_or 0 x = toInt32 x" "js_or x 0 = toInt32 x"
  by (simp_all add: js_or_def toInt32_def)

section \<open>Arrays\<close>

text \<open>
  A JavaScript array is a list. Reading outside it yields \<open>undefined\<close>: \<open>js_get\<close> returns \<open>None\<close>
  there. In the operand of a bitwise operator \<open>undefined\<close> counts as 0 (\<open>ToInt32(undefined) = 0\<close>):
  \<open>js_num\<close>. Writing past the end extends the array; the holes that arise are only ever read by
  bitwise operators, so they are stored as 0.
\<close>

definition js_get :: "'a list \<Rightarrow> nat \<Rightarrow> 'a option" where
  "js_get xs i = (if i < length xs then Some (xs ! i) else None)"

definition js_num :: "int list \<Rightarrow> nat \<Rightarrow> int" where
  "js_num xs i = (if i < length xs then xs ! i else 0)"

definition js_set :: "int list \<Rightarrow> nat \<Rightarrow> int \<Rightarrow> int list" where
  "js_set xs i v = (if i < length xs then xs[i := v] else xs @ replicate (i - length xs) 0 @ [v])"

definition js_slice :: "nat \<Rightarrow> nat \<Rightarrow> 'a list \<Rightarrow> 'a list" where
  "js_slice i j xs = drop i (take j xs)"

lemma js_num_nth [simp]: "i < length xs \<Longrightarrow> js_num xs i = xs ! i"
  by (simp add: js_num_def)

lemma js_num_out [simp]: "length xs \<le> i \<Longrightarrow> js_num xs i = 0"
  by (simp add: js_num_def)

lemma length_js_set: "length (js_set xs i v) = max (length xs) (i + 1)"
  by (simp add: js_set_def max_def)

lemma js_num_js_set: "js_num (js_set xs i v) j = (if j = i then v else js_num xs j)"
  by (auto simp: js_num_def js_set_def nth_append nth_Cons' split: if_splits)

section \<open>Results\<close>

text \<open>An exception of the code is the left value of a sum.\<close>

type_synonym 'a result = "string + 'a"

definition bind_result :: "'a result \<Rightarrow> ('a \<Rightarrow> 'b result) \<Rightarrow> 'b result" where
  "bind_result r f = (case r of Inl e \<Rightarrow> Inl e | Inr x \<Rightarrow> f x)"

lemma bind_result_simps [simp]:
  "bind_result (Inl e) f = Inl e"
  "bind_result (Inr x) f = f x"
  by (simp_all add: bind_result_def)

lemma bind_result_Inr:
  "bind_result r f = Inr y \<longleftrightarrow> (\<exists>x. r = Inr x \<and> f x = Inr y)"
  by (cases r) simp_all

end
