(* ===== verification/Radix.thy ===== *)
theory Radix
  imports Prelude
begin

text \<open>
  Positional notation, least significant digit first, as the digit arrays of the code store numbers:
  the base conversions of \<open>common.js\<close> (bases 10 and 16), the big integers of \<open>biginteger.js\<close> (base
  \<open>2^DB\<close>), byte strings (base 256) and Base58. \<open>val b ds\<close> is the number that \<open>ds\<close> denotes in base \<open>b\<close>.
  The locale \<open>radix\<close> holds the laws of digit lists for a base of at least 2.
\<close>

named_theorems val_simps \<open>the value of digit lists built by the code\<close>

primrec val :: "int \<Rightarrow> int list \<Rightarrow> int" where
  "val b [] = 0"
| "val b (d # ds) = d + b * val b ds"

definition digits_in :: "int \<Rightarrow> int list \<Rightarrow> bool" where
  "digits_in b ds \<longleftrightarrow> (\<forall>d \<in> set ds. 0 \<le> d \<and> d < b)"

definition no_lead0 :: "int list \<Rightarrow> bool" where
  "no_lead0 ds \<longleftrightarrow> ds = [] \<or> last ds \<noteq> 0"

lemma val_append [val_simps]: "val b (xs @ ys) = val b xs + b ^ length xs * val b ys"
  by (induction xs) (simp_all add: algebra_simps)

lemma val_replicate0 [val_simps]: "val b (replicate n 0) = 0"
  by (induction n) simp_all

lemma val_snoc: "val b (xs @ [d]) = val b xs + b ^ length xs * d"
  by (simp add: val_simps)

lemma val_update [val_simps]:
  "i < length xs \<Longrightarrow> val b (xs[i := v]) = val b xs + (v - xs ! i) * b ^ i"
proof (induction xs arbitrary: i)
  case Nil
  then show ?case by simp
next
  case (Cons x xs)
  show ?case
  proof (cases i)
    case 0
    then show ?thesis by simp
  next
    case (Suc k)
    then have "val b (xs[k := v]) = val b xs + (v - xs ! k) * b ^ k"
      using Cons.prems by (intro Cons.IH) simp
    with Suc show ?thesis by (simp add: distrib_left)
  qed
qed

lemma val_take_drop: "val b xs = val b (take n xs) + b ^ min n (length xs) * val b (drop n xs)"
  using val_append [of b "take n xs" "drop n xs"] by (simp add: min.commute)

lemma digits_in_simps [simp]:
  "digits_in b []"
  "digits_in b (x # xs) \<longleftrightarrow> 0 \<le> x \<and> x < b \<and> digits_in b xs"
  "digits_in b (xs @ ys) \<longleftrightarrow> digits_in b xs \<and> digits_in b ys"
  "digits_in b (rev xs) \<longleftrightarrow> digits_in b xs"
  by (auto simp: digits_in_def)

lemma digits_in_take [simp, intro]: "digits_in b xs \<Longrightarrow> digits_in b (take n xs)"
  by (auto simp: digits_in_def dest: in_set_takeD)

lemma digits_in_drop [simp, intro]: "digits_in b xs \<Longrightarrow> digits_in b (drop n xs)"
  by (auto simp: digits_in_def dest: in_set_dropD)

lemma digits_in_nth: "digits_in b xs \<Longrightarrow> i < length xs \<Longrightarrow> 0 \<le> xs ! i \<and> xs ! i < b"
  by (auto simp: digits_in_def)

lemma digits_in_update [intro]: "digits_in b xs \<Longrightarrow> 0 \<le> v \<Longrightarrow> v < b \<Longrightarrow> digits_in b (xs[i := v])"
  by (auto simp: digits_in_def dest: set_update_subset_insert [THEN subsetD])

lemma digits_in_replicate0: "0 < b \<Longrightarrow> digits_in b (replicate n 0)"
  by (auto simp: digits_in_def)

lemma no_lead0_Cons: "no_lead0 (x # xs) \<longleftrightarrow> (if xs = [] then x \<noteq> 0 else no_lead0 xs)"
  by (simp add: no_lead0_def)

lemma no_lead0_Nil [simp]: "no_lead0 []"
  by (simp add: no_lead0_def)

lemma no_lead0_drop: "no_lead0 xs \<Longrightarrow> no_lead0 (drop n xs)"
  by (auto simp: no_lead0_def last_drop)

lemma no_lead0_nth: "no_lead0 xs \<Longrightarrow> length xs = Suc i \<Longrightarrow> xs ! i \<noteq> 0"
  by (cases xs rule: rev_cases) (auto simp: no_lead0_def)

lemma foldl_horner: "foldl (\<lambda>a c. b * a + f c) a0 s = val b (rev (map f s)) + b ^ length s * a0"
  by (induction s arbitrary: a0) (simp_all add: val_simps algebra_simps)

section \<open>Laws of digit lists\<close>

locale radix =
  fixes b :: int
  assumes base_ge_2: "2 \<le> b"
begin

lemma val_nonneg: "digits_in b ds \<Longrightarrow> 0 \<le> val b ds"
  using base_ge_2 by (induction ds) auto

lemma val_less: "digits_in b ds \<Longrightarrow> val b ds < b ^ length ds"
proof (induction ds)
  case Nil
  then show ?case by simp
next
  case (Cons d ds)
  then have "val b ds \<le> b ^ length ds - 1" and d: "d < b" by auto
  then have "b * val b ds \<le> b * (b ^ length ds - 1)"
    using base_ge_2 by (intro mult_left_mono) auto
  then show ?case using d by (simp add: algebra_simps)
qed

lemma val_mod_base: "digits_in b (d # ds) \<Longrightarrow> val b (d # ds) mod b = d"
  by simp

lemma val_div_base: "digits_in b (d # ds) \<Longrightarrow> val b (d # ds) div b = val b ds"
  by simp

lemma val_eq_iff:
  "length xs = length ys \<Longrightarrow> digits_in b xs \<Longrightarrow> digits_in b ys \<Longrightarrow> val b xs = val b ys \<longleftrightarrow> xs = ys"
proof (induction xs ys rule: list_induct2)
  case Nil
  then show ?case by simp
next
  case (Cons x xs y ys)
  have "x = y \<and> val b xs = val b ys" if eq: "val b (x # xs) = val b (y # ys)"
  proof
    show "x = y"
      using val_mod_base [OF Cons.prems(1)] val_mod_base [OF Cons.prems(2)] eq by metis
    show "val b xs = val b ys"
      using val_div_base [OF Cons.prems(1)] val_div_base [OF Cons.prems(2)] eq by metis
  qed
  moreover have "val b xs = val b ys \<longleftrightarrow> xs = ys"
    using Cons.prems by (intro Cons.IH) auto
  ultimately show ?case by auto
qed

lemma val_0_iff: "digits_in b xs \<Longrightarrow> val b xs = 0 \<longleftrightarrow> set xs \<subseteq> {0}"
proof (induction xs)
  case Nil
  then show ?case by simp
next
  case (Cons x xs)
  have "0 \<le> b * val b xs" using Cons.prems base_ge_2 val_nonneg [of xs] by simp
  then have "val b (x # xs) = 0 \<longleftrightarrow> x = 0 \<and> b * val b xs = 0"
    using Cons.prems by (simp only: val.simps digits_in_simps) linarith
  moreover have "b * val b xs = 0 \<longleftrightarrow> val b xs = 0" using base_ge_2 by simp
  moreover have "val b xs = 0 \<longleftrightarrow> set xs \<subseteq> {0}" using Cons by simp
  ultimately show ?case by (simp del: val.simps)
qed

lemma val_0_canonical: "digits_in b xs \<Longrightarrow> no_lead0 xs \<Longrightarrow> val b xs = 0 \<Longrightarrow> xs = []"
  using val_0_iff [of xs] by (metis last_in_set no_lead0_def singletonD subset_iff)

lemma drop_digit: "i < length x \<Longrightarrow> val b (drop i x) = x ! i + b * val b (drop (Suc i) x)"
  by (simp flip: Cons_nth_drop_Suc)

lemma drop_digit0:
  "val b (drop i x) = (if i < length x then x ! i else 0) + b * val b (drop (Suc i) x)"
  by (simp add: drop_digit)

lemma val_ge_lead:
  assumes "digits_in b ds" "ds \<noteq> []" "no_lead0 ds"
  shows "b ^ (length ds - 1) \<le> val b ds"
proof -
  obtain xs d where ds: "ds = xs @ [d]" using assms(2) by (cases ds rule: rev_cases) auto
  have "1 \<le> d" using assms ds by (simp add: no_lead0_def)
  then have "b ^ length xs * 1 \<le> b ^ length xs * d"
    using base_ge_2 by (intro mult_left_mono) auto
  moreover have "0 \<le> val b xs" using assms ds val_nonneg by simp
  ultimately show ?thesis by (simp add: ds val_simps)
qed

lemma val_less_of_shorter:
  assumes "digits_in b xs" "digits_in b ys" "no_lead0 ys" "length xs < length ys"
  shows "val b xs < val b ys"
proof -
  have "val b xs < b ^ length xs" using assms by (intro val_less)
  also have "\<dots> \<le> b ^ (length ys - 1)"
    using assms base_ge_2 by (intro power_increasing) auto
  also have "\<dots> \<le> val b ys" using assms by (intro val_ge_lead) auto
  finally show ?thesis .
qed

lemma canonical_unique:
  assumes "digits_in b xs" "digits_in b ys" "no_lead0 xs" "no_lead0 ys" "val b xs = val b ys"
  shows "xs = ys"
proof -
  have "length xs = length ys"
    using assms val_less_of_shorter [of xs ys] val_less_of_shorter [of ys xs]
    by (cases "length xs" "length ys" rule: linorder_cases) auto
  then show ?thesis using assms val_eq_iff by blast
qed

lemma val_nth: "digits_in b ds \<Longrightarrow> i < length ds \<Longrightarrow> ds ! i = val b ds div b ^ i mod b"
proof (induction ds arbitrary: i)
  case Nil
  then show ?case by simp
next
  case (Cons d ds)
  then show ?case
  proof (cases i)
    case 0
    then show ?thesis using Cons.prems val_mod_base [of d ds] by simp
  next
    case (Suc k)
    have "val b (d # ds) div b ^ Suc k = val b (d # ds) div b div b ^ k"
      using base_ge_2 by (simp add: zdiv_zmult2_eq)
    also have "\<dots> = val b ds div b ^ k" using val_div_base [OF Cons.prems(1)] by simp
    finally show ?thesis using Cons Suc by simp
  qed
qed

lemma val_take: "digits_in b ds \<Longrightarrow> val b (take n ds) = val b ds mod b ^ n"
proof -
  assume ds: "digits_in b ds"
  have lt: "val b (take n ds) < b ^ n"
  proof -
    have "val b (take n ds) < b ^ length (take n ds)" using ds by (intro val_less) auto
    also have "\<dots> \<le> b ^ n" using base_ge_2 by (intro power_increasing) auto
    finally show ?thesis .
  qed
  have nn: "0 \<le> val b (take n ds)" using ds by (intro val_nonneg) auto
  show ?thesis
  proof (cases "n \<le> length ds")
    case True
    then have "val b ds = val b (take n ds) + b ^ n * val b (drop n ds)"
      using val_take_drop [of b ds n] by (simp add: min_absorb1)
    then show ?thesis using lt nn by simp
  next
    case False
    then show ?thesis using lt nn by simp
  qed
qed

lemma val_drop: "digits_in b ds \<Longrightarrow> val b (drop n ds) = val b ds div b ^ n"
proof -
  assume ds: "digits_in b ds"
  show ?thesis
  proof (cases "n \<le> length ds")
    case True
    then have "val b ds = val b ds mod b ^ n + b ^ n * val b (drop n ds)"
      using val_take_drop [of b ds n] val_take [OF ds, of n] by (simp add: min_absorb1)
    moreover have "val b ds = val b ds mod b ^ n + b ^ n * (val b ds div b ^ n)" by simp
    ultimately have "b ^ n * val b (drop n ds) = b ^ n * (val b ds div b ^ n)" by linarith
    then show ?thesis using base_ge_2 by simp
  next
    case False
    have "val b ds < b ^ length ds" using ds by (rule val_less)
    also have "\<dots> \<le> b ^ n" using False base_ge_2 by (intro power_increasing) auto
    finally show ?thesis using False val_nonneg [OF ds] by simp
  qed
qed

end

interpretation radix10: radix "10 :: int" by unfold_locales simp
interpretation radix16: radix "16 :: int" by unfold_locales simp
interpretation radix256: radix "256 :: int" by unfold_locales simp

end
