(* ===== verification/CommonJs.thy ===== *)
theory CommonJs
  imports Radix
begin

text \<open>
  \<open>javascripts/common.js\<close>: conversion between decimal and hexadecimal strings without loss of
  precision, on arrays of digits (least significant first). A \<open>while\<close> loop with no structural bound is a
  \<open>partial_function (option)\<close> whose \<open>None\<close> means that no value is returned; the lemmas show when it
  returns. The inner option of a result is the code's \<open>null\<close>.
\<close>

section \<open>Model\<close>

partial_function (option) add_loop ::
    "int list \<Rightarrow> int list \<Rightarrow> int \<Rightarrow> nat \<Rightarrow> nat \<Rightarrow> int \<Rightarrow> int list \<Rightarrow> int list option" where
  "add_loop x y base n i carry z =
     (if i < n \<or> carry \<noteq> 0 then
        let xi = (if i < length x then x ! i else 0);
            yi = (if i < length y then y ! i else 0);
            zi = carry + xi + yi
        in add_loop x y base n (Suc i) (zi div base) (z @ [zi mod base])
      else Some z)"

definition add :: "int list \<Rightarrow> int list \<Rightarrow> int \<Rightarrow> int list option" where
  "add x y base = add_loop x y base (max (length x) (length y)) 0 0 []"

partial_function (option) mbn_loop :: "int \<Rightarrow> int list \<Rightarrow> int list \<Rightarrow> int \<Rightarrow> int list option" where
  "mbn_loop num result pw base =
     Option.bind (if js_and num 1 \<noteq> 0 then add result pw base else Some result)
       (\<lambda>result'. if js_shr num 1 = 0 then Some result'
          else Option.bind (add pw pw base)
            (\<lambda>pw'. mbn_loop (js_shr num 1) result' pw' base))"

definition multiplyByNumber :: "int \<Rightarrow> int list \<Rightarrow> int \<Rightarrow> int list option option" where
  "multiplyByNumber num x base =
     (if num < 0 then Some None
      else if num = 0 then Some (Some [])
      else map_option Some (mbn_loop num [] x base))"

text \<open>\<open>parseInt\<close> of a one-character string: the digit's value, or \<open>NaN\<close> (\<open>None\<close>).\<close>

definition char_digit :: "char \<Rightarrow> int option" where
  "char_digit c =
     (let n = (of_char c :: int) in
      if 48 \<le> n \<and> n \<le> 57 then Some (n - 48)
      else if 97 \<le> n \<and> n \<le> 122 then Some (n - 87)
      else if 65 \<le> n \<and> n \<le> 90 then Some (n - 55)
      else None)"

definition parseInt1 :: "char \<Rightarrow> int \<Rightarrow> int option" where
  "parseInt1 c base =
     (case char_digit c of None \<Rightarrow> None | Some d \<Rightarrow> if d < base then Some d else None)"

text \<open>The loop runs from the last character to the first and pushes each digit.\<close>

fun ptda_loop :: "char list \<Rightarrow> int \<Rightarrow> int list \<Rightarrow> int list option" where
  "ptda_loop [] base ary = Some ary"
| "ptda_loop (c # cs) base ary =
     (case parseInt1 c base of None \<Rightarrow> None | Some n \<Rightarrow> ptda_loop cs base (ary @ [n]))"

definition parseToDigitsArray :: "string \<Rightarrow> int \<Rightarrow> int list option" where
  "parseToDigitsArray str base = ptda_loop (rev str) base []"

text \<open>\<open>Number.prototype.toString(radix)\<close> of a single digit.\<close>

definition digit_char :: "int \<Rightarrow> char" where
  "digit_char d = ''0123456789abcdefghijklmnopqrstuvwxyz'' ! nat d"

fun convert_loop :: "int \<Rightarrow> int \<Rightarrow> int list \<Rightarrow> int list \<Rightarrow> int list \<Rightarrow> int list option" where
  "convert_loop fromBase toBase [] pw outArray = Some outArray"
| "convert_loop fromBase toBase (d # ds) pw outArray =
     Option.bind
       (if d \<noteq> 0
        then Option.bind (Option.bind (multiplyByNumber d pw toBase) id)
               (\<lambda>m. add outArray m toBase)
        else Some outArray)
       (\<lambda>outArray'. Option.bind (Option.bind (multiplyByNumber fromBase pw toBase) id)
          (\<lambda>pw'. convert_loop fromBase toBase ds pw' outArray'))"

definition convertBase :: "string \<Rightarrow> int \<Rightarrow> int \<Rightarrow> string option option" where
  "convertBase str fromBase toBase =
     (case parseToDigitsArray str fromBase of
        None \<Rightarrow> Some None
      | Some digits \<Rightarrow>
          map_option (\<lambda>outArray. Some (map digit_char (rev outArray)))
            (convert_loop fromBase toBase digits [1] []))"

text \<open>
  The guard \<open>decStr==0\<close> compares a string with a number: it holds when \<open>Number(decStr)\<close> is zero. The
  string is trimmed; the empty string counts as 0; a decimal literal is zero when its value rounds to
  zero, that is when it is at most \<open>2^-1075\<close>; the prefixes \<open>0x\<close>, \<open>0o\<close>, \<open>0b\<close> are read in their base.
\<close>

definition js_space :: "char \<Rightarrow> bool" where
  "js_space c \<longleftrightarrow> of_char c \<in> {9, 10, 11, 12, 13, 32, 160 :: int}"

definition js_trim :: "string \<Rightarrow> string" where
  "js_trim s = rev (dropWhile js_space (rev (dropWhile js_space s)))"

definition dec_char :: "char \<Rightarrow> bool" where
  "dec_char c \<longleftrightarrow> (case char_digit c of None \<Rightarrow> False | Some d \<Rightarrow> d < 10)"

definition dec_int :: "string \<Rightarrow> int" where
  "dec_int s = foldl (\<lambda>a c. 10 * a + the (char_digit c)) 0 s"

definition split_sign :: "string \<Rightarrow> bool \<times> string" where
  "split_sign s = (case s of
     c # cs \<Rightarrow> if c = CHR ''-'' then (True, cs) else if c = CHR ''+'' then (False, cs) else (False, s)
   | [] \<Rightarrow> (False, []))"

definition split_exponent :: "string \<Rightarrow> int option" where
  "split_exponent s = (case s of
     [] \<Rightarrow> Some 0
   | c # cs \<Rightarrow>
       if c \<noteq> CHR ''e'' \<and> c \<noteq> CHR ''E'' then None
       else let (neg, ds) = split_sign cs in
         if ds = [] \<or> \<not> list_all dec_char ds then None
         else Some (if neg then - dec_int ds else dec_int ds))"

definition zero_decimal :: "string \<Rightarrow> bool" where
  "zero_decimal s =
     (let u = snd (split_sign s);
          ip = takeWhile dec_char u; r = dropWhile dec_char u;
          fp = (case r of [] \<Rightarrow> [] | c # cs \<Rightarrow> if c = CHR ''.'' then takeWhile dec_char cs else []);
          ex = (case r of [] \<Rightarrow> [] | c # cs \<Rightarrow> if c = CHR ''.'' then dropWhile dec_char cs else r);
          m = dec_int (ip @ fp)
      in ip @ fp \<noteq> [] \<and>
         (case split_exponent ex of
            None \<Rightarrow> False
          | Some e \<Rightarrow> m = 0 \<or>
              (let k = e - int (length fp) in k < 0 \<and> m * 2 ^ 1075 \<le> 10 ^ nat (- k))))"

definition loosely_zero :: "string \<Rightarrow> bool" where
  "loosely_zero str =
     (let s = js_trim str in
      s = [] \<or>
      (case s of
         z # x # ds \<Rightarrow>
           (if z = CHR ''0'' \<and> x \<in> set ''xXoObB''
            then ds \<noteq> [] \<and> list_all (\<lambda>c. c = CHR ''0'') ds else zero_decimal s)
       | _ \<Rightarrow> zero_decimal s))"

definition decToHex :: "string \<Rightarrow> string option option" where
  "decToHex decStr =
     (if loosely_zero decStr then Some (Some ''0x00'')
      else map_option
        (\<lambda>hex. case hex of None \<Rightarrow> None | Some h \<Rightarrow> if h = [] then None else Some (''0x'' @ h))
        (convertBase decStr 10 16))"

definition to_lower_char :: "char \<Rightarrow> char" where
  "to_lower_char c =
     (let n = (of_char c :: int) in
      if (65 \<le> n \<and> n \<le> 90) \<or> (192 \<le> n \<and> n \<le> 222 \<and> n \<noteq> 215) then char_of (n + 32) else c)"

definition hexToDec :: "string \<Rightarrow> string option option" where
  "hexToDec hexStr =
     (let s = (if take 2 hexStr = ''0x'' then drop 2 hexStr else hexStr)
      in convertBase (map to_lower_char s) 16 10)"

section \<open>The digit arithmetic\<close>

context radix
begin

lemma add_loop_ok:
  assumes "digits_in b x" "digits_in b y" "0 \<le> carry" "carry \<le> 1" "n = max (length x) (length y)"
  shows "\<exists>t. add_loop x y b n i carry z = Some (z @ t) \<and> digits_in b t \<and>
     val b t = val b (drop i x) + val b (drop i y) + carry \<and>
     (no_lead0 x \<longrightarrow> no_lead0 y \<longrightarrow> no_lead0 t)"
  using assms(3,4)
proof (induction "2 * (n - i) + nat carry" arbitrary: i carry z rule: less_induct)
  case less
  show ?case
  proof (cases "i < n \<or> carry \<noteq> 0")
    case False
    then have "carry = 0" "drop i x = []" "drop i y = []" using assms(5) by auto
    then show ?thesis using False by (intro exI [of _ "[]"]) (simp add: add_loop.simps)
  next
    case True
    define xi where "xi = (if i < length x then x ! i else 0)"
    define yi where "yi = (if i < length y then y ! i else 0)"
    define zi where "zi = carry + xi + yi"
    have xi: "0 \<le> xi" "xi < b" and yi: "0 \<le> yi" "yi < b"
      using assms(1,2) base_ge_2 digits_in_nth by (auto simp: xi_def yi_def)
    have zi: "0 \<le> zi" "zi < 2 * b" using xi yi less.prems by (auto simp: zi_def)
    have c: "0 \<le> zi div b" "zi div b \<le> 1"
      using zi base_ge_2 div_less_of_less_mult [of b zi 2] by (simp_all add: div_nonneg)
    have dec: "2 * (n - Suc i) + nat (zi div b) < 2 * (n - i) + nat carry"
    proof (cases "i < n")
      case False
      then have "xi = 0" "yi = 0" "carry = 1"
        using assms(5) True less.prems by (auto simp: xi_def yi_def)
      then show ?thesis using False base_ge_2 by (simp add: zi_def)
    next
      case True
      have "nat (zi div b) \<le> 1" using c by simp
      with True show ?thesis by linarith
    qed
    obtain t where t: "add_loop x y b n (Suc i) (zi div b) (z @ [zi mod b]) = Some ((z @ [zi mod b]) @ t)"
      "digits_in b t" "val b t = val b (drop (Suc i) x) + val b (drop (Suc i) y) + zi div b"
      "no_lead0 x \<longrightarrow> no_lead0 y \<longrightarrow> no_lead0 t"
      using less.hyps [OF dec c] by blast
    have step: "add_loop x y b n i carry z = Some (z @ (zi mod b # t))"
      using True t(1) by (subst add_loop.simps) (simp add: Let_def zi_def xi_def yi_def)
    have "val b (zi mod b # t) = zi + b * (val b (drop (Suc i) x) + val b (drop (Suc i) y))"
      by (simp add: t(3) distrib_left)
    also have "\<dots> = val b (drop i x) + val b (drop i y) + carry"
      unfolding drop_digit0 [of i x] drop_digit0 [of i y]
      by (simp only: zi_def xi_def yi_def distrib_left)
    finally have veq: "val b (zi mod b # t) = val b (drop i x) + val b (drop i y) + carry" .
    have lead: "no_lead0 (zi mod b # t)" if nl: "no_lead0 x" "no_lead0 y"
    proof (cases "t = []")
      case False
      then show ?thesis using t(4) nl by (simp add: no_lead0_Cons)
    next
      case nil: True
      have "0 \<le> val b (drop (Suc i) x)" "0 \<le> val b (drop (Suc i) y)"
        using assms(1,2) by (auto intro: val_nonneg)
      then have z0: "val b (drop (Suc i) x) = 0" "val b (drop (Suc i) y) = 0" "zi div b = 0"
        using t(3) nil c by auto
      have "drop (Suc i) x = []" "drop (Suc i) y = []"
        using z0(1,2) assms(1,2) nl no_lead0_drop by (blast intro: val_0_canonical)+
      then have len: "length x \<le> Suc i" "length y \<le> Suc i" by simp_all
      have "zi \<noteq> 0"
      proof (cases "i < n")
        case True
        then have "length x = Suc i \<or> length y = Suc i" using len assms(5) by auto
        then have "xi \<noteq> 0 \<or> yi \<noteq> 0"
          using nl by (auto simp: xi_def yi_def no_lead0_nth)
        then show ?thesis using xi yi less.prems by (auto simp: zi_def)
      next
        case False
        then show ?thesis using True xi yi less.prems by (auto simp: zi_def)
      qed
      then have "zi mod b \<noteq> 0" using z0(3) by (metis add_0 div_mult_mod_eq mult_zero_left)
      then show ?thesis using nil by (simp add: no_lead0_Cons)
    qed
    show ?thesis
      using step t(2) veq lead base_ge_2 by (intro exI [of _ "zi mod b # t"]) auto
  qed
qed

lemma add_ok:
  assumes "digits_in b x" "digits_in b y"
  obtains z where "add x y b = Some z" "digits_in b z" "val b z = val b x + val b y"
    "no_lead0 x \<Longrightarrow> no_lead0 y \<Longrightarrow> no_lead0 z"
  using add_loop_ok [of x y 0 _ 0 "[]"] assms by (auto simp: add_def)

lemma mbn_loop_ok:
  assumes "0 < num" "num < 2 ^ 31" "digits_in b result" "digits_in b pw"
  shows "\<exists>z. mbn_loop num result pw b = Some z \<and> digits_in b z \<and>
    val b z = val b result + num * val b pw \<and>
    (no_lead0 result \<longrightarrow> no_lead0 pw \<longrightarrow> no_lead0 z)"
  using assms
proof (induction "nat num" arbitrary: num result pw rule: less_induct)
  case less
  have bit: "js_and num 1 = num mod 2" by (simp add: js_arith)
  have half: "js_shr num 1 = num div 2" using less.prems by (subst js_shr_div) auto
  obtain r where r: "(if js_and num 1 \<noteq> 0 then add result pw b else Some result) = Some r"
    "digits_in b r" "val b r = val b result + (num mod 2) * val b pw"
    "no_lead0 result \<longrightarrow> no_lead0 pw \<longrightarrow> no_lead0 r"
  proof (cases "num mod 2 = 0")
    case True
    then show ?thesis using that less.prems bit by auto
  next
    case False
    then have "num mod 2 = 1" by auto
    then show ?thesis
      using that bit add_ok [OF less.prems(3,4)] by (metis (full_types) mult_1 zero_neq_one)
  qed
  show ?case
  proof (cases "num div 2 = 0")
    case True
    then have "num mod 2 = num" using less.prems by auto
    then have "mbn_loop num result pw b = Some r"
      using r(1) half True by (subst mbn_loop.simps) simp
    then show ?thesis using r \<open>num mod 2 = num\<close> by auto
  next
    case False
    obtain p where p: "add pw pw b = Some p" "digits_in b p" "val b p = val b pw + val b pw"
      "no_lead0 pw \<longrightarrow> no_lead0 p"
      using add_ok [OF less.prems(4,4)] by metis
    have "0 < num div 2" "num div 2 < 2 ^ 31" "nat (num div 2) < nat num"
      using less.prems False by auto
    then obtain z where z: "mbn_loop (num div 2) r p b = Some z" "digits_in b z"
      "val b z = val b r + num div 2 * val b p" "no_lead0 r \<longrightarrow> no_lead0 p \<longrightarrow> no_lead0 z"
      using less.hyps [of "num div 2" r p] r(2) p(2) by blast
    have "mbn_loop num result pw b = Some z"
      using r(1) p(1) z(1) half False by (subst mbn_loop.simps) simp
    moreover have "val b z = val b result + num * val b pw"
    proof -
      have "val b z = val b result + (num mod 2 + 2 * (num div 2)) * val b pw"
        unfolding z(3) r(3) p(3) by (simp only: distrib_left distrib_right mult_2 add.assoc)
      then show ?thesis by simp
    qed
    ultimately show ?thesis using z r p by auto
  qed
qed

lemma multiplyByNumber_ok:
  assumes "0 \<le> num" "num < 2 ^ 31" "digits_in b x" "no_lead0 x"
  obtains z where "multiplyByNumber num x b = Some (Some z)" "digits_in b z" "no_lead0 z"
    "val b z = num * val b x"
  using mbn_loop_ok [of num "[]" x] assms by (cases "num = 0") (auto simp: multiplyByNumber_def)

lemma convert_loop_ok:
  assumes "0 \<le> fb" "fb < 2 ^ 31" "digits_in fb ds" "digits_in b pw" "digits_in b out"
    "no_lead0 pw" "no_lead0 out"
  shows "\<exists>z. convert_loop fb b ds pw out = Some z \<and> digits_in b z \<and> no_lead0 z \<and>
    val b z = val b out + val b pw * val fb ds"
  using assms(3-7)
proof (induction ds arbitrary: pw out)
  case Nil
  then show ?case by simp
next
  case (Cons d ds)
  have d: "0 \<le> d" "d < 2 ^ 31" using Cons.prems assms(2) by auto
  obtain m where m: "multiplyByNumber d pw b = Some (Some m)" "digits_in b m" "no_lead0 m"
    "val b m = d * val b pw"
    using multiplyByNumber_ok [OF d] Cons.prems by metis
  obtain o' where o': "add out m b = Some o'" "digits_in b o'" "val b o' = val b out + val b m" "no_lead0 o'"
    using add_ok [of out m] Cons.prems m by metis
  define out' where "out' = (if d \<noteq> 0 then o' else out)"
  have out': "digits_in b out'" "no_lead0 out'" "val b out' = val b out + d * val b pw"
    using o' m Cons.prems by (auto simp: out'_def)
  obtain p where p: "multiplyByNumber fb pw b = Some (Some p)" "digits_in b p" "no_lead0 p"
    "val b p = fb * val b pw"
    using multiplyByNumber_ok [OF assms(1,2)] Cons.prems by metis
  obtain z where z: "convert_loop fb b ds p out' = Some z" "digits_in b z" "no_lead0 z"
    "val b z = val b out' + val b p * val fb ds"
    using Cons.IH [of p out'] Cons.prems p out' by auto
  have "convert_loop fb b (d # ds) pw out = Some z"
    using m(1) o'(1) p(1) z(1) by (simp add: out'_def split: if_splits)
  then show ?case using z out' p by (auto simp: algebra_simps)
qed

end

section \<open>Strings of digits\<close>

lemma ptda_loop_eq:
  "ptda_loop cs base ary = map_option (append ary) (those (map (\<lambda>c. parseInt1 c base) cs))"
proof (induction cs arbitrary: ary)
  case Nil
  then show ?case by simp
next
  case (Cons c cs)
  then show ?case
    by (cases "those (map (\<lambda>c. parseInt1 c base) cs)") (auto split: option.splits)
qed

lemma parseToDigitsArray_eq:
  "parseToDigitsArray s base = those (map (\<lambda>c. parseInt1 c base) (rev s))"
  by (simp add: parseToDigitsArray_def ptda_loop_eq option.map_id0 [unfolded id_def] append_Nil [abs_def])

lemma those_SomeD: "those xs = Some ys \<Longrightarrow> xs = map Some ys"
  by (induction xs arbitrary: ys) (auto split: option.splits)

lemma those_map_Some [simp]: "those (map Some ys) = Some ys"
  by (induction ys) auto

lemma char_digit_nonneg: "char_digit c = Some d \<Longrightarrow> 0 \<le> d"
  by (auto simp: char_digit_def Let_def split: if_splits)

lemma parseInt1_range: "parseInt1 c b = Some d \<Longrightarrow> 0 \<le> d \<and> d < b"
  by (auto simp: parseInt1_def dest: char_digit_nonneg split: option.splits if_splits)

lemma parseToDigitsArray_digits_in: "parseToDigitsArray s b = Some ds \<Longrightarrow> digits_in b ds"
proof -
  assume "parseToDigitsArray s b = Some ds"
  then have "map (\<lambda>c. parseInt1 c b) (rev s) = map Some ds"
    unfolding parseToDigitsArray_eq by (rule those_SomeD)
  then have "\<forall>d \<in> set ds. \<exists>c. parseInt1 c b = Some d"
    by (metis (no_types, lifting) image_iff list.set_map)
  then show ?thesis by (auto simp: digits_in_def dest: parseInt1_range)
qed

lemma char_digit_digit_char:
  assumes "0 \<le> d" "d < 36"
  shows "char_digit (digit_char d) = Some d"
proof -
  have "\<forall>d \<in> set [0..35]. char_digit (digit_char d) = Some d" by code_simp
  then show ?thesis using assms by simp
qed

lemma parseInt1_digit_char: "0 \<le> d \<Longrightarrow> d < b \<Longrightarrow> b \<le> 36 \<Longrightarrow> parseInt1 (digit_char d) b = Some d"
  by (simp add: parseInt1_def char_digit_digit_char)

lemma parse_digit_chars:
  assumes "digits_in b z" "b \<le> 36"
  shows "parseToDigitsArray (map digit_char (rev z)) b = Some z"
proof -
  have "map (\<lambda>c. parseInt1 c b) (rev (map digit_char (rev z))) = map Some z"
    using assms by (auto simp: rev_map digits_in_def parseInt1_digit_char)
  then show ?thesis by (simp only: parseToDigitsArray_eq those_map_Some)
qed

lemma convertBase_ok:
  assumes "2 \<le> fb" "fb < 2 ^ 31" "2 \<le> tb" "parseToDigitsArray s fb = Some ds"
  obtains z where "convertBase s fb tb = Some (Some (map digit_char (rev z)))" "digits_in tb z"
    "no_lead0 z" "val tb z = val fb ds"
proof -
  have r: "radix tb" using assms(3) by unfold_locales
  have "digits_in fb ds" using assms(4) by (rule parseToDigitsArray_digits_in)
  then obtain z where "convert_loop fb tb ds [1] [] = Some z" "digits_in tb z" "no_lead0 z"
    "val tb z = val fb ds"
    using radix.convert_loop_ok [OF r, of fb ds "[1]" "[]"] assms by (auto simp: no_lead0_def)
  then show ?thesis using that assms(4) by (simp add: convertBase_def)
qed

section \<open>Decimal and hexadecimal\<close>

text \<open>The number a string of digits denotes, most significant digit first.\<close>

definition str_int :: "int \<Rightarrow> string \<Rightarrow> int" where
  "str_int b s = foldl (\<lambda>a c. b * a + the (char_digit c)) 0 s"

definition str_digits :: "int \<Rightarrow> string \<Rightarrow> bool" where
  "str_digits b s \<longleftrightarrow> list_all (\<lambda>c. parseInt1 c b \<noteq> None) s"

lemma dec_int_str_int: "dec_int s = str_int 10 s"
  by (simp add: dec_int_def str_int_def)

lemma str_digits_dec: "str_digits 10 s \<longleftrightarrow> list_all dec_char s"
  by (auto simp: str_digits_def dec_char_def parseInt1_def list_all_iff split: option.splits)

lemma str_digits_parse:
  assumes "str_digits b s"
  obtains ds where "parseToDigitsArray s b = Some ds" "val b ds = str_int b s" "digits_in b ds"
    "rev ds = map (\<lambda>c. the (char_digit c)) s"
proof -
  define ds where "ds = rev (map (\<lambda>c. the (char_digit c)) s)"
  have "map (\<lambda>c. parseInt1 c b) (rev s) = map Some ds"
    using assms by (auto simp: ds_def str_digits_def list_all_iff rev_map parseInt1_def
        split: option.splits if_splits)
  then have "parseToDigitsArray s b = Some ds" by (simp only: parseToDigitsArray_eq those_map_Some)
  moreover have "val b ds = str_int b s" by (simp add: str_int_def foldl_horner ds_def)
  moreover from calculation(1) have "digits_in b ds" by (rule parseToDigitsArray_digits_in)
  moreover have "rev ds = map (\<lambda>c. the (char_digit c)) s" by (simp add: ds_def)
  ultimately show ?thesis by (rule that)
qed

lemma str_int_digit_chars:
  assumes "digits_in b z" "b \<le> 36"
  shows "str_digits b (map digit_char (rev z))" "str_int b (map digit_char (rev z)) = val b z"
proof -
  show "str_digits b (map digit_char (rev z))"
    using assms by (auto simp: str_digits_def list_all_iff digits_in_def parseInt1_digit_char)
  have "map ((\<lambda>c. the (char_digit c)) \<circ> digit_char) z = z"
    using assms by (intro map_idI) (auto simp: digits_in_def char_digit_digit_char)
  then show "str_int b (map digit_char (rev z)) = val b z"
    by (simp add: str_int_def foldl_horner rev_map)
qed

lemma dec_char_not_space: "dec_char c \<Longrightarrow> \<not> js_space c"
  by (auto simp: dec_char_def js_space_def char_digit_def Let_def split: option.splits if_splits)

lemma dec_char_not_special:
  "dec_char c \<Longrightarrow> c \<notin> set ''xXoObB+-.eE''"
  by (auto simp: dec_char_def char_digit_def Let_def split: option.splits if_splits)

lemma dropWhile_none: "list_all (\<lambda>c. \<not> P c) s \<Longrightarrow> dropWhile P s = s"
  by (cases s) auto

lemma js_trim_dec: "list_all dec_char s \<Longrightarrow> js_trim s = s"
  unfolding js_trim_def by (subst dropWhile_none, auto simp: list_all_iff dec_char_not_space)+

lemma zero_decimal_dec:
  assumes "list_all dec_char s" "s \<noteq> []"
  shows "zero_decimal s \<longleftrightarrow> dec_int s = 0"
proof -
  have "split_sign s = (False, s)"
    using assms dec_char_not_special [of "hd s"]
    by (cases s) (auto simp: split_sign_def)
  moreover have tw: "takeWhile dec_char s = s" "dropWhile dec_char s = []"
    using assms by (auto simp: list_all_iff)
  ultimately show ?thesis using assms(2)
    by (simp add: zero_decimal_def Let_def split_exponent_def del: takeWhile_eq_all_conv dropWhile_eq_Nil_conv)
qed

lemma loosely_zero_dec:
  assumes "list_all dec_char s"
  shows "loosely_zero s \<longleftrightarrow> dec_int s = 0"
proof (cases s)
  case Nil
  then show ?thesis by (simp add: loosely_zero_def js_trim_def dec_int_def)
next
  case (Cons z r)
  have "loosely_zero s \<longleftrightarrow> zero_decimal s"
  proof (cases r)
    case Nil
    then show ?thesis using Cons assms by (simp add: loosely_zero_def js_trim_dec)
  next
    case (Cons x ds)
    then have "dec_char x" using assms \<open>s = z # r\<close> by simp
    then have "x \<notin> set ''xXoObB''" using dec_char_not_special [of x] by simp
    then show ?thesis using Cons assms \<open>s = z # r\<close> by (simp add: loosely_zero_def js_trim_dec)
  qed
  then show ?thesis using zero_decimal_dec [of s] assms Cons by auto
qed

lemma hd_digit_chars_nonzero:
  assumes "digits_in b z" "b \<le> 36" "no_lead0 z" "z \<noteq> []"
  shows "hd (map digit_char (rev z)) \<noteq> CHR ''0''"
proof
  assume h: "hd (map digit_char (rev z)) = CHR ''0''"
  have "0 \<le> last z \<and> last z < b" using assms by (simp add: digits_in_def)
  then have "char_digit (digit_char (last z)) = Some (last z)"
    using assms(2) by (intro char_digit_digit_char) auto
  moreover have "char_digit (CHR ''0'') = Some 0" by code_simp
  ultimately show False using h assms by (auto simp: hd_map hd_rev no_lead0_def)
qed

lemma decToHex_cases:
  assumes "str_digits 10 s"
  shows "str_int 10 s = 0 \<Longrightarrow> decToHex s = Some (Some ''0x00'')"
    and "str_int 10 s \<noteq> 0 \<Longrightarrow> \<exists>h. decToHex s = Some (Some (''0x'' @ h)) \<and> str_digits 16 h \<and>
      str_int 16 h = str_int 10 s \<and> h \<noteq> [] \<and> hd h \<noteq> CHR ''0''"
proof -
  show "decToHex s = Some (Some ''0x00'')" if "str_int 10 s = 0"
    using that assms loosely_zero_dec [of s] by (simp add: decToHex_def dec_int_str_int str_digits_dec)
next
  assume False: "str_int 10 s \<noteq> 0"
  obtain ds where ds: "parseToDigitsArray s 10 = Some ds" "val 10 ds = str_int 10 s" "digits_in 10 ds"
    using str_digits_parse [OF assms] by metis
  obtain z where z: "convertBase s 10 16 = Some (Some (map digit_char (rev z)))" "digits_in 16 z"
    "no_lead0 z" "val 16 z = val 10 ds"
    using convertBase_ok [OF _ _ _ ds(1), of 16] by auto
  have "z \<noteq> []" using z(4) ds(2) False by auto
  moreover have "\<not> loosely_zero s"
    using assms False loosely_zero_dec [of s] by (simp add: dec_int_str_int str_digits_dec)
  ultimately show "\<exists>h. decToHex s = Some (Some (''0x'' @ h)) \<and> str_digits 16 h \<and>
      str_int 16 h = str_int 10 s \<and> h \<noteq> [] \<and> hd h \<noteq> CHR ''0''"
    using z ds(2) str_int_digit_chars [of 16 z] hd_digit_chars_nonzero [of 16 z]
    by (auto simp: decToHex_def)
qed

text \<open>
  C7: \<open>decToHex\<close> of a string of decimal digits returns \<open>0x00\<close> when it denotes zero, and otherwise
  \<open>0x\<close> followed by the hexadecimal digits of the same number with no leading zero; the call returns
  for every length.
\<close>

theorem decToHex_correct:
  assumes "str_digits 10 s"
  shows "if str_int 10 s = 0 then decToHex s = Some (Some ''0x00'')
    else \<exists>h. decToHex s = Some (Some (''0x'' @ h)) \<and> str_digits 16 h \<and>
      str_int 16 h = str_int 10 s \<and> h \<noteq> [] \<and> hd h \<noteq> CHR ''0''"
  using decToHex_cases [OF assms] by auto

theorem decToHex_correct_witness:
  "\<exists>h. decToHex ''4095'' = Some (Some (''0x'' @ h)) \<and> str_int 16 h = 4095"
proof -
  have "str_digits 10 ''4095''" "str_int 10 ''4095'' = 4095" by code_simp+
  then show ?thesis using decToHex_correct [of "''4095''"] by auto
qed

lemma digit_char_lower: "0 \<le> d \<Longrightarrow> d < 36 \<Longrightarrow> to_lower_char (digit_char d) = digit_char d"
proof -
  have "\<forall>d \<in> set [0..35]. to_lower_char (digit_char d) = digit_char d" by code_simp
  then show "0 \<le> d \<Longrightarrow> d < 36 \<Longrightarrow> to_lower_char (digit_char d) = digit_char d" by simp
qed

text \<open>Uppercase hexadecimal digits are read as the lowercase ones.\<close>

lemma char_digit_lower:
  assumes "parseInt1 c 16 \<noteq> None"
  shows "parseInt1 (to_lower_char c) 16 = parseInt1 c 16"
proof (cases "of_char c \<in> {65 .. 70 :: int}")
  case True
  then have "of_char (to_lower_char c) = (of_char c + 32 :: int)"
    by (simp add: to_lower_char_def Let_def)
  then show ?thesis using True by (simp add: parseInt1_def char_digit_def Let_def)
next
  case False
  then have "to_lower_char c = c"
    using assms by (auto simp: to_lower_char_def parseInt1_def char_digit_def Let_def split: if_splits)
  then show ?thesis by simp
qed

lemma str_digits_lower:
  assumes "str_digits 16 h"
  shows "str_digits 16 (map to_lower_char h)" "str_int 16 (map to_lower_char h) = str_int 16 h"
proof -
  show "str_digits 16 (map to_lower_char h)"
    using assms by (auto simp: str_digits_def list_all_iff char_digit_lower)
  have "char_digit (to_lower_char c) = char_digit c" if "c \<in> set h" for c
    using assms char_digit_lower [of c] that
    by (auto simp: str_digits_def list_all_iff parseInt1_def split: option.splits if_splits)
  then have "map ((\<lambda>c. the (char_digit c)) \<circ> to_lower_char) h = map (\<lambda>c. the (char_digit c)) h"
    by (intro map_cong) auto
  then show "str_int 16 (map to_lower_char h) = str_int 16 h"
    unfolding str_int_def foldl_horner map_map by (simp only: length_map)
qed

lemma str_digits_16_no_prefix:
  assumes "str_digits 16 h"
  shows "take 2 h \<noteq> ''0x''"
proof
  assume "take 2 h = ''0x''"
  then have "CHR ''x'' \<in> set h" by (metis in_set_takeD list.set_intros)
  moreover have "parseInt1 (CHR ''x'') 16 = None" by code_simp
  ultimately show False using assms by (auto simp: str_digits_def list_all_iff)
qed

lemma hexToDec_ok:
  assumes "str_digits 16 h"
  obtains z where "hexToDec (''0x'' @ h) = Some (Some (map digit_char (rev z)))"
    "hexToDec h = Some (Some (map digit_char (rev z)))" "digits_in 10 z"
    "no_lead0 z" "val 10 z = str_int 16 h"
proof -
  obtain ds where ds: "parseToDigitsArray (map to_lower_char h) 16 = Some ds"
    "val 16 ds = str_int 16 (map to_lower_char h)"
    using str_digits_parse [OF str_digits_lower(1) [OF assms]] by metis
  obtain z where "convertBase (map to_lower_char h) 16 10 = Some (Some (map digit_char (rev z)))"
    "digits_in 10 z" "no_lead0 z" "val 10 z = val 16 ds"
    using convertBase_ok [OF _ _ _ ds(1), of 10] by auto
  then show ?thesis
    using that ds str_digits_16_no_prefix [OF assms] str_digits_lower(2) [OF assms]
    by (simp add: hexToDec_def)
qed

lemma digit_char_char_digit:
  assumes "parseInt1 c 10 \<noteq> None"
  shows "digit_char (the (char_digit c)) = c"
proof -
  have "of_char c \<in> {48 .. 57 :: int}"
    using assms by (auto simp: parseInt1_def char_digit_def Let_def split: if_splits)
  then have "of_char c \<in> set [48 .. 57 :: int]" by (simp only: set_upto)
  moreover have "\<forall>n \<in> set [48 .. 57 :: int].
      digit_char (the (char_digit (char_of n))) = char_of n" by code_simp
  ultimately show ?thesis by (metis char_of_char)
qed

text \<open>
  A decimal string without leading zero that denotes a positive number survives the round trip
  through \<open>decToHex\<close> and \<open>hexToDec\<close> unchanged.
\<close>

theorem dec_hex_roundtrip:
  assumes "str_digits 10 s" "s \<noteq> []" "hd s \<noteq> CHR ''0''"
  shows "\<exists>h. decToHex s = Some (Some h) \<and> hexToDec h = Some (Some s)"
proof -
  have hd: "the (char_digit (hd s)) \<noteq> 0"
  proof
    assume "the (char_digit (hd s)) = 0"
    moreover have "parseInt1 (hd s) 10 \<noteq> None" using assms by (cases s) (auto simp: str_digits_def)
    ultimately have "char_digit (hd s) = Some 0"
      by (auto simp: parseInt1_def split: option.splits)
    then have "of_char (hd s) = (48 :: int)"
      by (auto simp: char_digit_def Let_def split: if_splits)
    then have "hd s = char_of (48 :: int)" by (metis char_of_char)
    moreover have "char_of (48 :: int) = CHR ''0''" by code_simp
    ultimately show False using assms by simp
  qed
  obtain ds where ds: "val 10 ds = str_int 10 s" "digits_in 10 ds"
    "rev ds = map (\<lambda>c. the (char_digit c)) s"
    using str_digits_parse [OF assms(1)] by metis
  have ne: "ds \<noteq> []" using ds(3) assms(2) by auto
  have "last ds = the (char_digit (hd s))" using ds(3) assms(2) ne
    by (metis hd_map hd_rev)
  then have lead: "no_lead0 ds" using hd by (simp add: no_lead0_def)
  have nz: "str_int 10 s \<noteq> 0" using radix10.val_0_canonical [OF ds(2) lead] ds(1) ne by auto
  obtain h where h: "decToHex s = Some (Some (''0x'' @ h))" "str_digits 16 h"
    "str_int 16 h = str_int 10 s"
    using decToHex_cases(2) [OF assms(1) nz] by auto
  obtain z where z: "hexToDec (''0x'' @ h) = Some (Some (map digit_char (rev z)))" "digits_in 10 z"
    "no_lead0 z" "val 10 z = str_int 16 h"
    using hexToDec_ok [OF h(2)] by metis
  have "z = ds" using z ds h lead by (intro radix10.canonical_unique) auto
  moreover have "map digit_char (rev ds) = s"
    using assms(1) by (auto simp: ds(3) str_digits_def list_all_iff intro!: map_idI digit_char_char_digit)
  ultimately show ?thesis using h z by auto
qed

theorem dec_hex_roundtrip_witness:
  "\<exists>h. decToHex ''79228162514264337593543950336'' = Some (Some h) \<and>
    hexToDec h = Some (Some ''79228162514264337593543950336'')"
proof -
  have "str_digits 10 ''79228162514264337593543950336''" by code_simp
  then show ?thesis using dec_hex_roundtrip [of "''79228162514264337593543950336''"] by simp
qed

text \<open>
  C8: the other direction loses the number zero: \<open>hexToDec\<close> of any string of hexadecimal digits
  returns the decimal digits of the same number without leading zero, and of a zero it returns the
  empty string.
\<close>

theorem hexToDec_correct:
  assumes "str_digits 16 h"
  shows "\<exists>d. hexToDec (''0x'' @ h) = Some (Some d) \<and> hexToDec h = Some (Some d) \<and> str_digits 10 d \<and>
    str_int 10 d = str_int 16 h \<and> (d = [] \<longleftrightarrow> str_int 16 h = 0)"
proof -
  obtain z where z: "hexToDec (''0x'' @ h) = Some (Some (map digit_char (rev z)))"
    "hexToDec h = Some (Some (map digit_char (rev z)))" "digits_in 10 z"
    "no_lead0 z" "val 10 z = str_int 16 h"
    using hexToDec_ok [OF assms] by metis
  moreover have "z = [] \<longleftrightarrow> str_int 16 h = 0"
    using z radix10.val_0_canonical [of z] by auto
  ultimately show ?thesis using str_int_digit_chars [of 10 z] by auto
qed

theorem hexToDec_correct_witness: "hexToDec ''0x00'' = Some (Some [])"
proof -
  have "str_digits 16 ''00''" "str_int 16 ''00'' = 0" by code_simp+
  then show ?thesis using hexToDec_correct [of "''00''"] by auto
qed

end
