(* ===== verification/JsNum.thy ===== *)
theory JsNum
  imports CommonJs
begin

text \<open>
  Strings of numbers and what an encoding promises: \<open>Number.prototype.toString(radix)\<close> and \<open>parseInt\<close>
  on the inputs the code gives them, and the locale \<open>codec\<close> (decoding after encoding gives the value
  back), which the byte, hexadecimal, Base64, Base58, DER and key formats of the library interpret.
\<close>

section \<open>Digits of a number\<close>

function to_digits :: "int \<Rightarrow> int \<Rightarrow> int list" where
  "to_digits b n = (if n \<le> 0 \<or> b < 2 then [] else n mod b # to_digits b (n div b))"
  by pat_completeness auto
termination
  by (relation "measure (\<lambda>(b, n). nat n)") (auto intro!: div_less_of_less_mult simp: zless_nat_eq_int_zless)

declare to_digits.simps [simp del]

lemma to_digits_0 [simp]: "to_digits b 0 = []"
  by (simp add: to_digits.simps)

lemma to_digits_pos: "0 < n \<Longrightarrow> 2 \<le> b \<Longrightarrow> to_digits b n = n mod b # to_digits b (n div b)"
  by (simp add: to_digits.simps)

lemma to_digits_ok:
  assumes "2 \<le> b" "0 \<le> n"
  shows "val b (to_digits b n) = n \<and> digits_in b (to_digits b n) \<and> no_lead0 (to_digits b n)"
  using assms
proof (induction b n rule: to_digits.induct)
  case (1 b n)
  show ?case
  proof (cases "n = 0")
    case False
    have nn: "0 \<le> n div b" using "1.prems" by (simp add: div_nonneg)
    then have IH: "val b (to_digits b (n div b)) = n div b" "digits_in b (to_digits b (n div b))"
      "no_lead0 (to_digits b (n div b))"
      using "1.IH" "1.prems" False by auto
    have "n div b = 0 \<longrightarrow> n mod b \<noteq> 0" using False by (metis div_mult_mod_eq add.right_neutral mult_zero_left)
    moreover have "to_digits b (n div b) = [] \<longleftrightarrow> n div b = 0"
      using IH(1) by auto
    ultimately show ?thesis
      using "1.prems" False IH by (simp add: to_digits_pos no_lead0_Cons)
  qed simp
qed

lemma to_digits_val:
  assumes "2 \<le> b" "digits_in b ds" "no_lead0 ds"
  shows "to_digits b (val b ds) = ds"
proof -
  have r: "radix b" using assms(1) by unfold_locales
  have "0 \<le> val b ds" by (rule radix.val_nonneg [OF r assms(2)])
  from to_digits_ok [OF assms(1) this] show ?thesis
    using assms by (intro radix.canonical_unique [OF r]) auto
qed

lemma length_to_digits:
  assumes "2 \<le> b" "0 \<le> n" "n < b ^ k"
  shows "length (to_digits b n) \<le> k"
proof (rule ccontr)
  assume "\<not> length (to_digits b n) \<le> k"
  then have l: "k \<le> length (to_digits b n) - 1" "to_digits b n \<noteq> []" by auto
  have r: "radix b" using assms(1) by unfold_locales
  note d = to_digits_ok [OF assms(1,2)]
  have "b ^ k \<le> b ^ (length (to_digits b n) - 1)" using l(1) assms(1) by (intro power_increasing) auto
  also have "\<dots> \<le> n" using radix.val_ge_lead [OF r _ l(2)] d by simp
  finally show False using assms(3) by simp
qed

text \<open>\<open>n.toString(b)\<close> of a number that is not negative.\<close>

definition num_str :: "int \<Rightarrow> int \<Rightarrow> string" where
  "num_str b n = (if n = 0 then ''0'' else map digit_char (rev (to_digits b n)))"

section \<open>parseInt\<close>

text \<open>
  \<open>parseInt(s, b)\<close>: blanks are skipped, then a sign, then for base 16 a prefix \<open>0x\<close>; the longest run of
  digits counts, and with no digit at all the result is \<open>NaN\<close> (\<open>None\<close>).
\<close>

definition digit_in_base :: "int \<Rightarrow> char \<Rightarrow> bool" where
  "digit_in_base b c \<longleftrightarrow> parseInt1 c b \<noteq> None"

definition js_parseInt :: "string \<Rightarrow> int \<Rightarrow> int option" where
  "js_parseInt s b =
     (let (neg, u) = split_sign (dropWhile js_space s);
          v = (if b = 16 \<and> (take 2 u = ''0x'' \<or> take 2 u = ''0X'') then drop 2 u else u);
          ds = takeWhile (digit_in_base b) v;
          n = foldl (\<lambda>a c. b * a + the (char_digit c)) 0 ds
      in if ds = [] then None else Some (if neg then - n else n))"

section \<open>Upper case\<close>

text \<open>\<open>toUpperCase\<close> on the letters the code has in its texts, those of ASCII.\<close>

definition to_upper_char :: "char \<Rightarrow> char" where
  "to_upper_char c =
     (let n = (of_char c :: int) in if 97 \<le> n \<and> n \<le> 122 then char_of (n - 32) else c)"

definition upper :: "string \<Rightarrow> string" where
  "upper s = map to_upper_char s"

section \<open>What an encoding promises\<close>

locale codec =
  fixes enc :: "'a \<Rightarrow> 'b" and dec :: "'b \<Rightarrow> 'a option" and valid :: "'a \<Rightarrow> bool"
  assumes dec_enc: "valid x \<Longrightarrow> dec (enc x) = Some x"
begin

lemma enc_inject: "valid x \<Longrightarrow> valid y \<Longrightarrow> enc x = enc y \<longleftrightarrow> x = y"
  by (metis dec_enc option.inject)

lemma enc_inj_on: "inj_on enc {x. valid x}"
  by (rule inj_onI) (simp add: enc_inject)

end

end
