(* ===== verification/CryptoUtil.thy ===== *)
theory CryptoUtil
  imports Complex_Main JsNum
begin

text \<open>
  \<open>src/cryptojs.js\<close>: the byte, word and text conversions of Crypto-JS. Bytes and words are Numbers; a
  word comes out of a bitwise operator as a signed 32-bit integer, and \<open>w32\<close> is the machine word it
  stands for. The collection \<open>w32\<close> turns the operators into the word operations, so that the hash
  functions can be compared with their standards on \<open>32 word\<close>.
\<close>

section \<open>Words\<close>

definition rotl :: "int \<Rightarrow> int \<Rightarrow> int" where
  "rotl n b = js_or (js_shl n b) (js_ushr n (32 - b))"

definition rotr :: "int \<Rightarrow> int \<Rightarrow> int" where
  "rotr n b = js_or (js_shl n (32 - b)) (js_ushr n b)"

definition endian :: "int \<Rightarrow> int" where
  "endian n = js_or (js_and (rotl n 8) 0x00FF00FF) (js_and (rotl n 24) 0xFF00FF00)"

definition endian_array :: "int list \<Rightarrow> int list" where
  "endian_array ns = map endian ns"

text \<open>\<open>Math.random\<close> is a source of numbers in \<open>[0, 1)\<close>; the calls draw them in order.\<close>

definition randomBytes :: "(nat \<Rightarrow> rat) \<Rightarrow> nat \<Rightarrow> int list" where
  "randomBytes random n = map (\<lambda>i. \<lfloor>random i * 256\<rfloor>) [0..<n]"

fun btw_loop :: "int list \<Rightarrow> int \<Rightarrow> int list \<Rightarrow> int list" where
  "btw_loop [] b ws = ws"
| "btw_loop (x # xs) b ws =
     (let i = nat (js_ushr b 5)
      in btw_loop xs (b + 8) (js_set ws i (js_or (js_num ws i) (js_shl (js_and x 0xFF) (24 - b mod 32)))))"

definition bytesToWords :: "int list \<Rightarrow> int list" where
  "bytesToWords bytes = btw_loop bytes 0 []"

definition wordsToBytes :: "int list \<Rightarrow> int list" where
  "wordsToBytes ws =
     map (\<lambda>k. let b = 8 * int k in js_and (js_ushr (js_num ws (nat (js_ushr b 5))) (24 - b mod 32)) 0xFF)
       [0..<4 * length ws]"

section \<open>Text encodings of bytes\<close>

definition bytesToHex :: "int list \<Rightarrow> string" where
  "bytesToHex bytes = concat (map (\<lambda>x. num_str 16 (js_ushr x 4) @ num_str 16 (js_and x 0xF)) bytes)"

text \<open>\<open>NaN\<close> is \<open>None\<close>; the last chunk of a string of odd length has one character.\<close>

fun hexToBytes :: "string \<Rightarrow> int option list" where
  "hexToBytes [] = []"
| "hexToBytes [c] = [js_parseInt [c] 16]"
| "hexToBytes (c # d # hex) = js_parseInt [c, d] 16 # hexToBytes hex"

definition base64map :: string where
  "base64map = ''ABCDEFGHIJKLMNOPQRSTUVWXYZabcdefghijklmnopqrstuvwxyz0123456789+/''"

definition b64_char :: "int \<Rightarrow> nat \<Rightarrow> nat \<Rightarrow> nat \<Rightarrow> char" where
  "b64_char triplet i len j =
     (if i * 8 + j * 6 \<le> len * 8
      then base64map ! nat (js_and (js_ushr triplet (6 * (3 - int j))) 0x3F)
      else CHR ''='')"

fun b64_loop :: "int list \<Rightarrow> nat \<Rightarrow> nat \<Rightarrow> string" where
  "b64_loop [] i len = []"
| "b64_loop (x # xs) i len =
     (let triplet = js_or (js_or (js_shl x 16) (js_shl (js_num xs 0) 8)) (js_num xs 1)
      in map (b64_char triplet i len) [0, 1, 2, 3] @ b64_loop (drop 2 xs) (i + 3) len)"

definition bytesToBase64 :: "int list \<Rightarrow> string" where
  "bytesToBase64 bytes = b64_loop bytes 0 (length bytes)"

text \<open>\<open>base64map.indexOf\<close>, \<open>-1\<close> when the character is not in the table.\<close>

definition index_of :: "char \<Rightarrow> string \<Rightarrow> int" where
  "index_of c s = (let i = length (takeWhile (\<lambda>d. d \<noteq> c) s) in if i < length s then int i else -1)"

definition b64_byte :: "string \<Rightarrow> nat \<Rightarrow> int" where
  "b64_byte base64 i =
     (let imod4 = int (i mod 4)
      in js_or
           (js_shl (js_and (index_of (base64 ! (i - 1)) base64map) (2 ^ nat (8 - 2 * imod4) - 1)) (imod4 * 2))
           (js_ushr (index_of (base64 ! i) base64map) (6 - imod4 * 2)))"

definition base64ToBytes :: "string \<Rightarrow> int list" where
  "base64ToBytes text =
     (let base64 = filter (\<lambda>c. c \<in> set base64map) text
      in map (b64_byte base64) (filter (\<lambda>i. i mod 4 \<noteq> 0) [0..<length base64]))"

section \<open>Character encodings\<close>

text \<open>A string is the list of its UTF-16 code units here.\<close>

definition Binary_stringToBytes :: "int list \<Rightarrow> int list" where
  "Binary_stringToBytes str = map (\<lambda>c. js_and c 0xFF) str"

definition Binary_bytesToString :: "int list \<Rightarrow> int list" where
  "Binary_bytesToString bytes = map (\<lambda>b. b mod 2 ^ 16) bytes"

section \<open>Words and bytes\<close>

definition is_bytes :: "int list \<Rightarrow> bool" where
  "is_bytes bs \<longleftrightarrow> digits_in 256 bs"

abbreviation w32 :: "int \<Rightarrow> 32 word" where "w32 x \<equiv> word_of_int x"

named_theorems word_ops \<open>the bit operators as operations on machine words\<close>

lemma bit_w32: "bit (w32 x) n \<longleftrightarrow> n < 32 \<and> bit x n"
  by (simp add: bit_word_of_int_iff)

lemma w32_toInt32 [word_ops]: "w32 (toInt32 x) = w32 x"
  by (rule bit_word_eqI) (simp add: bit_w32 bit_toInt32)

lemma w32_toUint32 [word_ops]: "w32 (toUint32 x) = w32 x"
  by (rule bit_word_eqI) (simp add: bit_w32 toUint32_def bit_take_bit_iff)

lemma w32_and [word_ops]: "w32 (js_and x y) = w32 x AND w32 y"
  by (rule bit_word_eqI) (simp add: js_and_def bit_w32 bit_and_iff bit_toInt32)

lemma w32_or [word_ops]: "w32 (js_or x y) = w32 x OR w32 y"
  by (rule bit_word_eqI) (simp add: js_or_def bit_w32 bit_or_iff bit_toInt32)

lemma w32_xor [word_ops]: "w32 (js_xor x y) = w32 x XOR w32 y"
  by (rule bit_word_eqI) (simp add: js_xor_def bit_w32 bit_xor_iff bit_toInt32)

lemma w32_not [word_ops]: "w32 (js_not x) = NOT (w32 x)"
  by (rule bit_word_eqI) (simp add: js_not_def bit_w32 bit_not_iff bit_toInt32)

lemma w32_shl [word_ops]: "0 \<le> k \<Longrightarrow> k < 32 \<Longrightarrow> w32 (js_shl x k) = push_bit (nat k) (w32 x)"
  by (rule bit_word_eqI)
     (auto simp: js_shl_def bit_w32 bit_toInt32 bit_push_bit_iff)

lemma w32_ushr [word_ops]: "0 \<le> k \<Longrightarrow> k < 32 \<Longrightarrow> w32 (js_ushr x k) = drop_bit (nat k) (w32 x)"
  by (rule bit_word_eqI)
     (auto simp: js_ushr_def bit_w32 toUint32_def bit_take_bit_iff bit_drop_bit_eq)

lemma w32_add [word_ops]: "w32 (x + y) = w32 x + w32 y"
  by simp

lemma bit_rot:
  assumes "0 < m" "m < 32" "n < 32"
  shows "bit (w32 (js_or (js_shl x (int m)) (js_ushr x (32 - int m)))) n
    \<longleftrightarrow> (if n < m then bit x (n + (32 - m)) else bit x (n - m))"
proof -
  have "nat (32 - int m) = 32 - m" by simp
  then have "w32 (js_or (js_shl x (int m)) (js_ushr x (32 - int m)))
      = push_bit m (w32 x) OR drop_bit (32 - m) (w32 x)"
    using assms by (simp add: word_ops del: of_int_or_eq)
  then show ?thesis using assms
    by (cases "n < m") (auto simp: bit_or_iff bit_push_bit_iff bit_drop_bit_eq bit_w32 add.commute)
qed

lemma w32_rotl [word_ops]:
  assumes "0 < k" "k < 32"
  shows "w32 (js_or (js_shl x k) (js_ushr x (32 - k))) = word_rotl (nat k) (w32 x)"
proof (rule bit_word_eqI)
  fix n assume "n < LENGTH(32)"
  then have n: "n < 32" by simp
  define m where "m = nat k"
  have m: "0 < m" "m < 32" "k = int m" using assms by (simp_all add: m_def)
  have "(n + (32 - m)) mod 32 = (if n < m then n + (32 - m) else n - m)"
    using n m by (simp add: mod_if)
  then show "bit (w32 (js_or (js_shl x k) (js_ushr x (32 - k)))) n = bit (word_rotl (nat k) (w32 x)) n"
    unfolding m(3) using n m by (subst bit_rot [OF m(1,2) n], cases "n < m") (auto simp: bit_word_rotl_iff bit_w32)
qed

lemma w32_rotr [word_ops]:
  assumes "0 < k" "k < 32"
  shows "w32 (js_or (js_shl x (32 - k)) (js_ushr x k)) = word_rotr (nat k) (w32 x)"
proof (rule bit_word_eqI)
  fix n assume "n < LENGTH(32)"
  then have n: "n < 32" by simp
  define m where "m = 32 - nat k"
  have m: "0 < m" "m < 32" "32 - k = int m" "k = 32 - int m" "nat k = 32 - m" using assms by (simp_all add: m_def)
  have "(n + (32 - m)) mod 32 = (if n < m then n + (32 - m) else n - m)"
    using n m(1,2) by (simp add: mod_if)
  then show "bit (w32 (js_or (js_shl x (32 - k)) (js_ushr x k))) n = bit (word_rotr (nat k) (w32 x)) n"
    unfolding m(3) m(5) unfolding m(4) using n m(1,2) bit_rot [OF m(1,2) n, of x]
    by (cases "n < m") (auto simp: bit_word_rotr_iff bit_w32)
qed

lemma toUint32_or: "toUint32 (js_or x y) = toUint32 x OR toUint32 y"
  by (rule bit_eqI) (auto simp: toUint32_def js_or_def bit_take_bit_iff bit_or_iff bit_toInt32)

lemma toUint32_toInt32: "toUint32 (toInt32 x) = toUint32 x"
  by (rule bit_eqI) (auto simp: toUint32_def bit_take_bit_iff bit_toInt32)

lemma toUint32_0 [simp]: "toUint32 0 = 0"
  by (simp add: toUint32_def)

lemma js_ushr_eq: "0 \<le> k \<Longrightarrow> k < 32 \<Longrightarrow> js_ushr x k = toUint32 x div 2 ^ nat k"
  by (simp add: js_ushr_def drop_bit_eq_div)

lemma js_ushr_int: "n < 32 \<Longrightarrow> js_ushr x (int n) = toUint32 x div 2 ^ n"
  by (simp add: js_ushr_eq)

lemma toUint32_shl:
  assumes "0 \<le> x" "x * 2 ^ nat k < 2 ^ 32" "0 \<le> k" "k < 32" "x < 2 ^ 31"
  shows "toUint32 (js_shl x k) = x * 2 ^ nat k"
proof -
  have "toInt32 x = x" using assms(1,5) by (simp add: toInt32_id)
  then have "toUint32 (js_shl x k) = toUint32 (x * 2 ^ nat k)"
    using assms(3,4) by (simp add: js_shl_def push_bit_eq_mult toUint32_toInt32)
  also have "\<dots> = x * 2 ^ nat k" using assms(1,2) by (intro toUint32_id) auto
  finally show ?thesis .
qed

text \<open>The big-endian word number \<open>k\<close> of a byte array, missing bytes counting as 0.\<close>

definition be_word :: "int list \<Rightarrow> nat \<Rightarrow> int" where
  "be_word bs k = js_num bs (4 * k) * 2 ^ 24 + js_num bs (4 * k + 1) * 2 ^ 16
     + js_num bs (4 * k + 2) * 2 ^ 8 + js_num bs (4 * k + 3)"

lemma btw_loop_append:
  "btw_loop (xs @ [x]) b ws =
     (let ws' = btw_loop xs b ws; b' = b + 8 * int (length xs); i = nat (js_ushr b' 5)
      in js_set ws' i (js_or (js_num ws' i) (js_shl (js_and x 0xFF) (24 - b' mod 32))))"
  by (induction xs arbitrary: b ws) (simp_all add: Let_def algebra_simps)

lemma is_bytes_simps [simp]:
  "is_bytes []"
  "is_bytes (x # xs) \<longleftrightarrow> 0 \<le> x \<and> x < 256 \<and> is_bytes xs"
  "is_bytes (xs @ ys) \<longleftrightarrow> is_bytes xs \<and> is_bytes ys"
  "is_bytes (rev xs) \<longleftrightarrow> is_bytes xs"
  by (simp_all add: is_bytes_def)

lemma is_bytes_nth: "is_bytes bs \<Longrightarrow> 0 \<le> js_num bs i \<and> js_num bs i < 256"
  using digits_in_nth [of 256 bs i] by (auto simp: is_bytes_def js_num_def)

lemma js_num_append: "js_num (xs @ ys) i = (if i < length xs then xs ! i else js_num ys (i - length xs))"
  by (auto simp: js_num_def nth_append)

lemma or_shift_add:
  assumes "toUint32 a = A * 256 * 2 ^ k" "0 \<le> x" "x < 256" "k \<le> 24"
  shows "toUint32 (js_or a (js_shl x (int k))) = A * 256 * 2 ^ k + x * 2 ^ k"
proof -
  have "(2::int) ^ k \<le> 2 ^ 24" using assms(4) by (intro power_increasing) auto
  then have "x * 2 ^ k \<le> 255 * 2 ^ 24" using assms(2,3) by (intro mult_mono) auto
  then have s: "toUint32 (js_shl x (int k)) = x * 2 ^ k" using assms by (subst toUint32_shl) auto
  have "x * 2 ^ k < 256 * 2 ^ k" using assms(3) by simp
  then have lt: "x * 2 ^ k < 2 ^ (8 + k)" by (simp add: power_add)
  have "toUint32 (js_or a (js_shl x (int k))) = (A * 2 ^ (8 + k)) OR (x * 2 ^ k)"
    by (simp add: toUint32_or s assms(1) power_add mult.assoc)
  also have "\<dots> = A * 2 ^ (8 + k) + x * 2 ^ k" using assms(2) lt by (intro or_eq_add) auto
  finally show ?thesis by (simp add: power_add)
qed

lemma bytesToWords_ok:
  assumes "is_bytes bs" "length bs < 2 ^ 29"
  shows "length (bytesToWords bs) = (length bs + 3) div 4 \<and>
    (\<forall>k. toUint32 (js_num (bytesToWords bs) k) = be_word bs k)"
  using assms
proof (induction bs rule: rev_induct)
  case Nil
  then show ?case by (simp add: bytesToWords_def be_word_def)
next
  case (snoc x bs)
  define p where "p = length bs"
  define ws where "ws = bytesToWords bs"
  define r where "r = p mod 4"
  have IH: "length ws = (p + 3) div 4" "\<And>k. toUint32 (js_num ws k) = be_word bs k"
    using snoc by (simp_all add: ws_def p_def)
  have x: "0 \<le> x" "x < 256" and p: "8 * int p < 2 ^ 32" using snoc.prems by (simp_all add: p_def)
  have i: "nat (js_ushr (8 * int p) 5) = p div 4"
    using p by (simp add: js_ushr_div)
  have sh: "24 - 8 * int p mod 32 = int (24 - 8 * r)"
  proof -
    have "8 * int p mod 32 = 8 * (int p mod 4)" using mult_mod_right [of 8 "int p" 4] by simp
    moreover have "int p mod 4 = int r" by (simp add: r_def zmod_int)
    moreover have "r < 4" by (simp add: r_def)
    ultimately show ?thesis by simp
  qed
  have x255: "js_and x 0xFF = x" using x by (simp add: js_and_mask_num)
  define v where "v = js_or (js_num ws (p div 4)) (js_shl x (int (24 - 8 * r)))"
  have new: "bytesToWords (bs @ [x]) = js_set ws (p div 4) v"
    by (simp add: bytesToWords_def btw_loop_append Let_def i x255 sh flip: p_def) (simp add: ws_def v_def bytesToWords_def)
  have "be_word bs (p div 4) = (be_word bs (p div 4) div (256 * 2 ^ (24 - 8 * r))) * 256 * 2 ^ (24 - 8 * r)
    \<and> be_word (bs @ [x]) (p div 4) = be_word bs (p div 4) + x * 2 ^ (24 - 8 * r)"
  proof -
    have p4: "p = 4 * (p div 4) + r" by (simp add: r_def)
    define q where "q = p div 4"
    have out: "js_num bs i = 0" if "p \<le> i" for i using that by (simp add: p_def)
    have inn: "js_num (bs @ [x]) i = (if i = p then x else js_num bs i)" for i
      by (auto simp: js_num_def nth_append p_def)
    have "r < 4" by (simp add: r_def)
    then consider "r = 0" | "r = 1" | "r = 2" | "r = 3" by linarith
    then show ?thesis using p4 out unfolding q_def [symmetric]
      by cases (simp_all add: be_word_def inn)
  qed
  then have "toUint32 v = be_word (bs @ [x]) (p div 4)"
    unfolding v_def using x by (subst or_shift_add [where A = "be_word bs (p div 4) div (256 * 2 ^ (24 - 8 * r))"])
      (simp_all add: IH(2))
  moreover have "be_word (bs @ [x]) k = be_word bs k" if "k \<noteq> p div 4" for k
  proof -
    have "js_num (bs @ [x]) i = js_num bs i" if "i \<noteq> p" for i
      using that by (auto simp: js_num_def nth_append p_def)
    moreover have "4 * k \<noteq> p" "4 * k + 1 \<noteq> p" "4 * k + 2 \<noteq> p" "4 * k + 3 \<noteq> p" using that by auto
    ultimately show ?thesis unfolding be_word_def by metis
  qed
  moreover have "length (js_set ws (p div 4) v) = (Suc p + 3) div 4"
    using IH(1) by (simp add: length_js_set)
  ultimately show ?case using IH(2) unfolding new by (simp add: js_num_js_set p_def)
qed

lemma be_word_nth:
  assumes "is_bytes bs" "r < 4"
  shows "be_word bs k div 2 ^ (24 - 8 * r) mod 256 = js_num bs (4 * k + r)"
    "0 \<le> be_word bs k" "be_word bs k < 2 ^ 32"
proof -
  define ds where "ds = [js_num bs (4 * k + 3), js_num bs (4 * k + 2), js_num bs (4 * k + 1), js_num bs (4 * k)]"
  have ds: "digits_in 256 ds" using is_bytes_nth [OF assms(1)] by (simp add: ds_def)
  have w: "be_word bs k = val 256 ds" unfolding be_word_def ds_def by simp
  have len: "3 - r < length ds" "length ds = 4" by (simp_all add: ds_def)
  have "(2::int) ^ (24 - 8 * r) = (2 ^ 8) ^ (3 - r)"
    by (simp only: power_mult [symmetric] diff_mult_distrib2 [symmetric]) (simp add: right_diff_distrib')
  then have "be_word bs k div 2 ^ (24 - 8 * r) mod 256 = val 256 ds div 256 ^ (3 - r) mod 256" by (simp add: w)
  also have "\<dots> = ds ! (3 - r)" by (rule radix256.val_nth [OF ds len(1), symmetric])
  also have "\<dots> = js_num bs (4 * k + r)"
  proof -
    have "r = 0 \<or> r = 1 \<or> r = 2 \<or> r = 3" using assms(2) by linarith
    then show ?thesis unfolding ds_def by (elim disjE) simp_all
  qed
  finally show "be_word bs k div 2 ^ (24 - 8 * r) mod 256 = js_num bs (4 * k + r)" .
  show "0 \<le> be_word bs k" unfolding w by (rule radix256.val_nonneg [OF ds])
  have "val 256 ds < 256 ^ length ds" by (rule radix256.val_less [OF ds])
  then show "be_word bs k < 2 ^ 32" unfolding w len(2) by simp
qed

lemma wordsToBytes_nth:
  assumes "i < 4 * length ws" "length ws < 2 ^ 27"
  shows "wordsToBytes ws ! i = toUint32 (ws ! (i div 4)) div 2 ^ (24 - 8 * (i mod 4)) mod 256"
proof -
  have b: "8 * int i < 2 ^ 32" using assms by simp
  then have 1: "nat (js_ushr (8 * int i) 5) = i div 4" by (simp add: js_ushr_div)
  have "8 * int i mod 32 = 8 * (int i mod 4)" using mult_mod_right [of 8 "int i" 4] by simp
  then have 2: "24 - 8 * int i mod 32 = int (24 - 8 * (i mod 4))" by (simp add: zmod_int)
  have "i div 4 < length ws" using assms(1) by simp
  moreover have "wordsToBytes ws ! i
      = js_and (js_ushr (js_num ws (nat (js_ushr (8 * int i) 5))) (24 - 8 * int i mod 32)) 0xFF"
    using assms(1) by (simp add: wordsToBytes_def Let_def)
  moreover have "js_ushr x (int (24 - 8 * (i mod 4))) = toUint32 x div 2 ^ (24 - 8 * (i mod 4))" for x
    by (rule js_ushr_int) simp
  ultimately show ?thesis unfolding 1 2 by (simp add: js_and_mask_num)
qed

lemma length_wordsToBytes [simp]: "length (wordsToBytes ws) = 4 * length ws"
  by (simp add: wordsToBytes_def)

lemma wordsToBytes_bytes: "is_bytes (wordsToBytes ws)"
  by (auto simp: is_bytes_def digits_in_def wordsToBytes_def Let_def js_and_mask_num)

text \<open>Packing bytes into words and unpacking them gives the bytes back, filled up with zeros.\<close>

lemma wordsToBytes_bytesToWords:
  assumes "is_bytes bs" "length bs < 2 ^ 28" "n = (length bs + 3) div 4"
  shows "wordsToBytes (bytesToWords bs) = bs @ replicate (4 * n - length bs) 0"
proof (rule nth_equalityI)
  have l: "length bs < 2 ^ 29" using assms(2) by simp
  define ws where "ws = bytesToWords bs"
  have ws: "length ws = n" "\<And>k. toUint32 (js_num ws k) = be_word bs k"
    using bytesToWords_ok [OF assms(1) l] by (simp_all add: ws_def assms(3))
  have n: "length bs \<le> 4 * n" "n < 2 ^ 27" using assms(2) unfolding assms(3) by simp_all
  show "length (wordsToBytes (bytesToWords bs)) = length (bs @ replicate (4 * n - length bs) 0)"
    using n(1) ws(1) by (simp flip: ws_def)
  fix i assume "i < length (wordsToBytes (bytesToWords bs))"
  then have i: "i < 4 * length ws" by (simp add: ws_def)
  define q r where "q = i div 4" and "r = i mod 4"
  have i4: "i = 4 * q + r" "r < 4" by (simp_all add: q_def r_def)
  have "q < length ws" using i i4(1) by simp
  then have "toUint32 (ws ! q) = be_word bs q" using ws(2) [of q] by simp
  then have "wordsToBytes ws ! i = be_word bs q div 2 ^ (24 - 8 * r) mod 256"
    using wordsToBytes_nth [OF i] n(2) ws(1) by (simp add: q_def r_def)
  also have "\<dots> = js_num bs i" unfolding i4(1) by (rule be_word_nth [OF assms(1) i4(2)])
  also have "\<dots> = (bs @ replicate (4 * n - length bs) 0) ! i"
    using i ws(1) by (auto simp: nth_append js_num_def)
  finally show "wordsToBytes (bytesToWords bs) ! i = (bs @ replicate (4 * n - length bs) 0) ! i"
    by (simp only: ws_def)
qed

section \<open>Hexadecimal\<close>

lemma hex_pair: "0 \<le> a \<Longrightarrow> a < 16 \<Longrightarrow> 0 \<le> b \<Longrightarrow> b < 16 \<Longrightarrow>
  js_parseInt (num_str 16 a @ num_str 16 b) 16 = Some (16 * a + b) \<and> length (num_str 16 a) = 1"
proof -
  have "\<forall>a \<in> set [0..15]. \<forall>b \<in> set [0..15].
      js_parseInt (num_str 16 a @ num_str 16 b) 16 = Some (16 * a + b) \<and> length (num_str 16 a) = 1"
    by code_simp
  moreover assume "0 \<le> a" "a < 16" "0 \<le> b" "b < 16"
  then have "a \<in> set [0..15]" "b \<in> set [0..15]" by simp_all
  ultimately show ?thesis by blast
qed

lemma hexToBytes_bytesToHex: "is_bytes bs \<Longrightarrow> hexToBytes (bytesToHex bs) = map Some bs"
proof (induction bs)
  case Nil
  then show ?case by (simp add: bytesToHex_def)
next
  case (Cons x bs)
  define a b where ab: "a = js_ushr x 4" "b = js_and x 15"
  have x: "0 \<le> x" "x < 256" using Cons.prems by auto
  then have ab': "a = x div 16" "b = x mod 16" by (simp_all add: ab js_ushr_div js_and_mask_num)
  have r: "0 \<le> a" "a < 16" "0 \<le> b" "b < 16" using x unfolding ab' by simp_all
  note p = hex_pair [OF r]
  have "length (num_str 16 b) = 1" using hex_pair [OF r(3,4) r(3,4)] by simp
  then obtain c d where cd: "num_str 16 a = [c]" "num_str 16 b = [d]"
    using p by (metis length_0_conv length_Suc_conv One_nat_def)
  have e: "bytesToHex (x # bs) = c # d # bytesToHex bs" by (simp add: bytesToHex_def cd flip: ab)
  have "16 * a + b = x" unfolding ab' by simp
  then have "js_parseInt [c, d] 16 = Some x" using p cd by simp
  then show ?case using Cons by (simp add: e)
qed

section \<open>Base 64\<close>

interpretation radix64: radix "64 :: int" by unfold_locales simp

lemma base64map_props:
  assumes "0 \<le> n" "n < 64"
  shows "index_of (base64map ! nat n) base64map = n" "base64map ! nat n \<in> set base64map"
proof -
  have "\<forall>n \<in> set [0..63]. index_of (base64map ! nat n) base64map = n \<and> base64map ! nat n \<in> set base64map"
    by code_simp
  moreover have "n \<in> set [0..63]" using assms by simp
  ultimately show "index_of (base64map ! nat n) base64map = n" "base64map ! nat n \<in> set base64map" by blast+
qed

definition b64_sextet :: "int \<Rightarrow> int \<Rightarrow> int \<Rightarrow> nat \<Rightarrow> int" where
  "b64_sextet x y z j = [x div 4, (x mod 4) * 16 + y div 16, (y mod 16) * 4 + z div 64, z mod 64] ! j"

lemma b64_triplet:
  assumes "0 \<le> x" "x < 256" "0 \<le> y" "y < 256" "0 \<le> z" "z < 256"
  shows "js_or (js_or (js_shl x 16) (js_shl y 8)) z = x * 2 ^ 16 + y * 2 ^ 8 + z"
proof -
  have "js_shl x 16 = x * 2 ^ 16" "js_shl y 8 = y * 2 ^ 8"
    using assms by (subst js_shl_mult_pos; simp)+
  moreover have "js_or (x * 2 ^ 16) (y * 2 ^ 8) = x * 2 ^ 16 + y * 2 ^ 8" using assms by (intro js_or_add) auto
  moreover have "js_or ((x * 2 ^ 8 + y) * 2 ^ 8) z = (x * 2 ^ 8 + y) * 2 ^ 8 + z" using assms by (intro js_or_add) auto
  ultimately show ?thesis by (simp add: algebra_simps)
qed

lemma b64_sextet_range:
  assumes "0 \<le> x" "x < 256" "0 \<le> y" "y < 256" "0 \<le> z" "z < 256" "j < 4"
  shows "0 \<le> b64_sextet x y z j" "b64_sextet x y z j < 64"
proof -
  have "j = 0 \<or> j = 1 \<or> j = 2 \<or> j = 3" using assms(7) by linarith
  then show "0 \<le> b64_sextet x y z j" "b64_sextet x y z j < 64"
    using assms by (auto simp: b64_sextet_def)
qed

lemma b64_sextet_eq:
  assumes "0 \<le> x" "x < 256" "0 \<le> y" "y < 256" "0 \<le> z" "z < 256" "j < 4"
  shows "js_and (js_ushr (x * 2 ^ 16 + y * 2 ^ 8 + z) (6 * (3 - int j))) 0x3F = b64_sextet x y z j"
proof -
  define t where "t = x * 2 ^ 16 + y * 2 ^ 8 + z"
  define ds where "ds = [z mod 64, (y mod 16) * 4 + z div 64, (x mod 4) * 16 + y div 16, x div 4]"
  have t: "0 \<le> t" "t < 2 ^ 24" using assms by (simp_all add: t_def)
  define x1 x0 y1 y0 z1 z0 where g: "x1 = x div 4" "x0 = x mod 4" "y1 = y div 16" "y0 = y mod 16"
    "z1 = z div 64" "z0 = z mod 64"
  have e: "x = 4 * x1 + x0" "y = 16 * y1 + y0" "z = 64 * z1 + z0" unfolding g by simp_all
  have v: "val 64 ds = t" unfolding ds_def t_def g [symmetric] unfolding e by simp
  have ds: "digits_in 64 ds"
  proof -
    have "ds = map (b64_sextet x y z) [3, 2, 1, 0]" by (simp add: ds_def b64_sextet_def)
    then show ?thesis using b64_sextet_range [OF assms(1-6)] by (auto simp: digits_in_def)
  qed
  have k: "6 * (3 - int j) = int (6 * (3 - j))" "6 * (3 - j) < 32" using assms(7) by simp_all
  have "t < 2 ^ 32" using t(2) by (rule order_less_le_trans) simp
  then have "toUint32 t = t" by (rule toUint32_id [OF t(1)])
  then have "js_ushr t (6 * (3 - int j)) = t div 2 ^ (6 * (3 - j))"
    unfolding k(1) js_ushr_int [OF k(2)] by (rule arg_cong)
  also have "(2::int) ^ (6 * (3 - j)) = 64 ^ (3 - j)" by (simp add: power_mult)
  finally have "js_and (js_ushr t (6 * (3 - int j))) 0x3F = t div 64 ^ (3 - j) mod 64"
    by (simp only: js_and_mask_num)
  also have "\<dots> = ds ! (3 - j)"
    unfolding v [symmetric] by (rule radix64.val_nth [OF ds, symmetric]) (simp add: ds_def)
  also have "\<dots> = b64_sextet x y z j"
  proof -
    have "j = 0 \<or> j = 1 \<or> j = 2 \<or> j = 3" using assms(7) by linarith
    then show ?thesis unfolding ds_def b64_sextet_def by (elim disjE) simp_all
  qed
  finally show ?thesis by (simp only: t_def)
qed

definition b64_decode :: "string \<Rightarrow> int list" where
  "b64_decode s = map (b64_byte s) (filter (\<lambda>i. i mod 4 \<noteq> 0) [0..<length s])"

lemma b64_byte_shift: "i mod 4 \<noteq> 0 \<Longrightarrow> b64_byte (a # b # c # d # s) (i + 4) = b64_byte s i"
proof -
  assume i: "i mod 4 \<noteq> 0"
  then obtain k where k: "i = Suc k" by (cases i) auto
  have "(i + 4) mod 4 = i mod 4" by simp
  moreover have "(a # b # c # d # s) ! (i + 4 - 1) = s ! (i - 1)" "(a # b # c # d # s) ! (i + 4) = s ! i"
    by (simp_all add: k)
  ultimately show ?thesis by (simp only: b64_byte_def)
qed

lemma b64_decode_step:
  "b64_decode (a # b # c # d # s) =
     b64_byte [a, b] 1 # b64_byte [a, b, c] 2 # b64_byte [a, b, c, d] 3 # b64_decode s"
proof -
  let ?t = "a # b # c # d # s"
  have l: "length ?t = 4 + length s" by simp
  have "[0..<length ?t] = [0..<4] @ [4..<4 + length s]" unfolding l by (rule upt_add_eq_append) simp
  also have "[0..<4] = [0, 1, 2, 3 :: nat]" by code_simp
  also have "[4..<4 + length s] = map (\<lambda>i. i + 4) [0..<length s]"
    unfolding map_add_upt by (simp add: add.commute)
  finally have u0: "[0..<length ?t] = [0, 1, 2, 3] @ map (\<lambda>i. i + 4) [0..<length s]" .
  have u: "filter (\<lambda>i. i mod 4 \<noteq> 0) [0..<length ?t]
      = [1, 2, 3] @ map (\<lambda>i. i + 4) (filter (\<lambda>i. i mod 4 \<noteq> 0) [0..<length s])"
    unfolding u0 filter_append filter_map by (simp add: comp_def)
  have "b64_byte ?t 1 = b64_byte [a, b] 1" "b64_byte ?t 2 = b64_byte [a, b, c] 2"
    "b64_byte ?t 3 = b64_byte [a, b, c, d] 3"
    by (simp_all add: b64_byte_def)
  moreover have "map (b64_byte ?t) (map (\<lambda>i. i + 4) (filter (\<lambda>i. i mod 4 \<noteq> 0) [0..<length s])) = b64_decode s"
    unfolding b64_decode_def map_map comp_def by (intro map_cong refl) (auto intro: b64_byte_shift)
  ultimately show ?thesis unfolding b64_decode_def [of ?t] u by simp
qed

lemma b64_join:
  assumes "0 \<le> m" "0 \<le> n" "n < 64" "m < 64" "k = 1 \<or> k = 2 \<or> k = 3"
  shows "js_or (js_shl (js_and m (2 ^ nat (8 - 2 * k) - 1)) (k * 2)) (js_ushr n (6 - k * 2))
    = (m mod 2 ^ nat (8 - 2 * k)) * 2 ^ nat (2 * k) + n div 2 ^ nat (6 - 2 * k)"
proof -
  have u: "js_ushr n (6 - k * 2) = n div 2 ^ nat (6 - 2 * k)"
    using assms by (subst js_ushr_div) (auto simp: mult.commute)
  have a: "js_and m (2 ^ nat (8 - 2 * k) - 1) = m mod 2 ^ nat (8 - 2 * k)"
    using assms(5) by (intro js_and_mask) auto
  have r: "0 \<le> m mod 2 ^ nat (8 - 2 * k)" "m mod 2 ^ nat (8 - 2 * k) < 64" using assms(1,4,5) by auto
  have s: "js_shl (m mod 2 ^ nat (8 - 2 * k)) (k * 2) = (m mod 2 ^ nat (8 - 2 * k)) * 2 ^ nat (2 * k)"
    using assms(5) r by (subst js_shl_mult_pos) (auto simp: mult.commute)
  have "js_or (m mod 2 ^ nat (8 - 2 * k) * 2 ^ nat (2 * k)) (n div 2 ^ nat (6 - 2 * k))
    = m mod 2 ^ nat (8 - 2 * k) * 2 ^ nat (2 * k) + n div 2 ^ nat (6 - 2 * k)"
    using assms r by (intro js_or_add) auto
  then show ?thesis by (simp only: a s u)
qed

lemma b64_bytes:
  assumes "0 \<le> x" "x < 256" "0 \<le> y" "y < 256" "0 \<le> z" "z < 256"
    and c: "\<And>j. j < 4 \<Longrightarrow> c j = base64map ! nat (b64_sextet x y z j)"
  shows "b64_byte [c 0, c 1] 1 = x" "b64_byte [c 0, c 1, c 2] 2 = y" "b64_byte [c 0, c 1, c 2, c 3] 3 = z"
proof -
  note r = b64_sextet_range [OF assms(1-6)]
  have ix: "index_of (c j) base64map = b64_sextet x y z j" if "j < 4" for j
    using base64map_props(1) [OF r [OF that]] c [OF that] by simp
  have "b64_byte [c 0, c 1] 1 = b64_sextet x y z 0 mod 64 * 4 + b64_sextet x y z 1 div 16"
    using b64_join [of "b64_sextet x y z 0" "b64_sextet x y z 1" 1] r [of 0] r [of 1]
    by (simp add: b64_byte_def Let_def ix)
  also have "\<dots> = x" using r [of 0] assms by (simp add: b64_sextet_def)
  finally show "b64_byte [c 0, c 1] 1 = x" .
  have "b64_byte [c 0, c 1, c 2] 2 = b64_sextet x y z 1 mod 16 * 16 + b64_sextet x y z 2 div 4"
    using b64_join [of "b64_sextet x y z 1" "b64_sextet x y z 2" 2] r [of 1] r [of 2]
    by (simp add: b64_byte_def Let_def ix)
  also have "\<dots> = y" using assms by (simp add: b64_sextet_def)
  finally show "b64_byte [c 0, c 1, c 2] 2 = y" .
  have "b64_byte [c 0, c 1, c 2, c 3] 3 = b64_sextet x y z 2 mod 4 * 64 + b64_sextet x y z 3"
    using b64_join [of "b64_sextet x y z 2" "b64_sextet x y z 3" 3] r [of 2] r [of 3]
    by (simp add: b64_byte_def Let_def ix)
  also have "\<dots> = z" using assms by (simp add: b64_sextet_def)
  finally show "b64_byte [c 0, c 1, c 2, c 3] 3 = z" .
qed

lemma b64_decode_short:
  "b64_decode [a, b] = [b64_byte [a, b] 1]"
  "b64_decode [a, b, c] = [b64_byte [a, b] 1, b64_byte [a, b, c] 2]"
  by (simp_all add: b64_decode_def b64_byte_def)

lemma b64_loop_ok:
  assumes "is_bytes xs" "len = i + length xs"
  shows "b64_decode (filter (\<lambda>c. c \<in> set base64map) (b64_loop xs i len)) = xs"
  using assms
proof (induction xs i len rule: b64_loop.induct)
  case (1 i len)
  then show ?case by (simp add: b64_decode_def)
next
  case (2 x xs i len)
  define y z where "y = js_num xs 0" and "z = js_num xs 1"
  have b: "0 \<le> x" "x < 256" "0 \<le> y" "y < 256" "0 \<le> z" "z < 256"
    using 2 is_bytes_nth [of xs] by (auto simp: y_def z_def)
  define c where "c j = base64map ! nat (b64_sextet x y z j)" for j
  have ch: "b64_char (x * 2 ^ 16 + y * 2 ^ 8 + z) i len j
      = (if i * 8 + j * 6 \<le> len * 8 then c j else CHR ''='')" if "j < 4" for j
    by (simp only: b64_char_def c_def b64_sextet_eq [OF b that])
  have inm: "c j \<in> set base64map" if "j < 4" for j
    using base64map_props(2) [OF b64_sextet_range [OF b that]] by (simp only: c_def)
  have eq: "CHR ''='' \<notin> set base64map" by (simp add: base64map_def)
  note bb = b64_bytes [OF b, of c, OF c_def]
  have tr: "js_or (js_or (js_shl x 16) (js_shl (js_num xs 0) 8)) (js_num xs 1) = x * 2 ^ 16 + y * 2 ^ 8 + z"
    using b64_triplet [OF b] by (simp only: y_def z_def)
  have step: "b64_loop (x # xs) i len
      = map (\<lambda>j. if i * 8 + j * 6 \<le> len * 8 then c j else CHR ''='') [0, 1, 2, 3] @ b64_loop (drop 2 xs) (i + 3) len"
  proof -
    have "map (b64_char (x * 2 ^ 16 + y * 2 ^ 8 + z) i len) [0, 1, 2, 3]
        = map (\<lambda>j. if i * 8 + j * 6 \<le> len * 8 then c j else CHR ''='') [0, 1, 2, 3]"
      by (intro map_cong refl ch) auto
    then show ?thesis by (simp only: b64_loop.simps Let_def tr)
  qed
  consider "xs = []" | u where "xs = [u]" | u v ys where "xs = u # v # ys"
    by (cases xs rule: remdups_adj.cases) auto
  then show ?case
  proof cases
    case 1
    then have "b64_decode (filter (\<lambda>c. c \<in> set base64map) (b64_loop (x # xs) i len)) = b64_decode [c 0, c 1]"
      unfolding step using "2.prems" inm eq by simp
    then show ?thesis using bb(1) 1 by (simp only: b64_decode_short)
  next
    case u: 2
    then have "b64_decode (filter (\<lambda>c. c \<in> set base64map) (b64_loop (x # xs) i len)) = b64_decode [c 0, c 1, c 2]"
      unfolding step using "2.prems" inm eq by simp
    moreover have "y = u" using u by (simp add: y_def)
    ultimately show ?thesis using bb(1,2) u by (simp only: b64_decode_short)
  next
    case u: 3
    have IH: "b64_decode (filter (\<lambda>c. c \<in> set base64map) (b64_loop (drop 2 xs) (i + 3) len)) = ys"
      using "2.IH" [OF refl] "2.prems" u by simp
    have "filter (\<lambda>c. c \<in> set base64map) (b64_loop (x # xs) i len)
        = c 0 # c 1 # c 2 # c 3 # filter (\<lambda>c. c \<in> set base64map) (b64_loop (drop 2 xs) (i + 3) len)"
      unfolding step using "2.prems" u inm by simp
    then show ?thesis using bb IH u by (simp add: b64_decode_step y_def z_def)
  qed
qed

lemma base64ToBytes_bytesToBase64: "is_bytes bs \<Longrightarrow> base64ToBytes (bytesToBase64 bs) = bs"
  using b64_loop_ok [of bs "length bs" 0]
  by (simp add: base64ToBytes_def bytesToBase64_def b64_decode_def Let_def)

section \<open>The encodings keep their promise\<close>

interpretation hex: codec bytesToHex "\<lambda>s. those (hexToBytes s)" is_bytes
  by unfold_locales (simp add: hexToBytes_bytesToHex those_map_Some)

interpretation b64: codec bytesToBase64 "\<lambda>s. Some (base64ToBytes s)" is_bytes
  by unfold_locales (simp add: base64ToBytes_bytesToBase64)

interpretation binary: codec Binary_bytesToString "\<lambda>s. Some (Binary_stringToBytes s)" is_bytes
proof unfold_locales
  fix bs :: "int list"
  assume "is_bytes bs"
  then show "Some (Binary_stringToBytes (Binary_bytesToString bs)) = Some bs"
    by (induction bs) (auto simp: Binary_stringToBytes_def Binary_bytesToString_def js_and_mask_num)
qed

section \<open>Padding of a message\<close>

text \<open>Both hash functions fill up with zeros to 56 bytes past a multiple of 64.\<close>

lemma pad_zeros:
  assumes "N = (n + 8) div 64"
  shows "n + 1 + nat ((55 - int n) mod 64) = 64 * N + 56"
proof -
  define r where "r = (n + 8) mod 64"
  have n: "n + 8 = 64 * N + r" "r < 64" by (simp_all add: assms r_def)
  then have "55 - int n = (63 - int r) + 64 * (- int N)" by simp
  then have "(55 - int n) mod 64 = (63 - int r) mod 64" by (simp only: mod_mult_self2)
  also have "\<dots> = 63 - int r" using n(2) by simp
  finally have "nat ((55 - int n) mod 64) = 63 - r" by simp
  then show ?thesis using n by simp
qed

definition byte_of :: "nat \<Rightarrow> nat \<Rightarrow> int" where
  "byte_of n k = int n div 256 ^ k mod 256"

lemma byte_of_small:
  assumes "n < 2 ^ 31"
  shows "byte_of n 0 + byte_of n 1 * 2 ^ 8 + byte_of n 2 * 2 ^ 16 + byte_of n 3 * 2 ^ 24 = int n"
    "4 \<le> k \<Longrightarrow> byte_of n k = 0"
proof -
  have n: "int n < 2 ^ 31" using assms by simp
  have "int n = 256 * (int n div 256) + byte_of n 0" by (simp add: byte_of_def)
  moreover have "int n div 256 = 256 * (int n div 256 ^ 2) + byte_of n 1"
    using mult_div_mod_eq [of 256 "int n div 256"] by (simp add: byte_of_def zdiv_zmult2_eq [symmetric])
  moreover have "int n div 256 ^ 2 = 256 * (int n div 256 ^ 3) + byte_of n 2"
    using mult_div_mod_eq [of 256 "int n div 256 ^ 2"] by (simp add: byte_of_def zdiv_zmult2_eq [symmetric])
  moreover have "int n div 256 ^ 3 = byte_of n 3" using n by (simp add: byte_of_def)
  ultimately show "byte_of n 0 + byte_of n 1 * 2 ^ 8 + byte_of n 2 * 2 ^ 16 + byte_of n 3 * 2 ^ 24 = int n"
    by simp
  assume "4 \<le> k"
  then have "(256::int) ^ 4 \<le> 256 ^ k" by (intro power_increasing) auto
  moreover have "int n < 256 ^ 4" using n by simp
  ultimately have "int n < 256 ^ k" by linarith
  then show "byte_of n k = 0" by (simp add: byte_of_def)
qed

section \<open>What the component promises\<close>

text \<open>
  C12: every encoding of byte arrays is undone by its decoder: hexadecimal, Base64 of any length, binary
  strings, and packing into 32-bit words, which returns the bytes followed by the filling zeros.
\<close>

theorem byte_encodings_roundtrip:
  assumes "is_bytes bs"
  shows "those (hexToBytes (bytesToHex bs)) = Some bs \<and> base64ToBytes (bytesToBase64 bs) = bs \<and>
    Binary_stringToBytes (Binary_bytesToString bs) = bs \<and>
    (length bs < 2 ^ 28 \<longrightarrow> take (length bs) (wordsToBytes (bytesToWords bs)) = bs)"
  using hex.dec_enc [OF assms] b64.dec_enc [OF assms] binary.dec_enc [OF assms]
    wordsToBytes_bytesToWords [OF assms _ refl]
  by simp

theorem byte_encodings_roundtrip_witness:
  "base64ToBytes (bytesToBase64 [77, 97]) = [77, 97] \<and> bytesToBase64 [77, 97] = ''TWE=''"
proof
  show "base64ToBytes (bytesToBase64 [77, 97]) = [77, 97]"
    using byte_encodings_roundtrip [of "[77, 97]"] by simp
  show "bytesToBase64 [77, 97] = ''TWE=''" by code_simp
qed

end
