(* ===== verification/Sha256.thy ===== *)
theory Sha256
  imports CryptoUtil
begin

text \<open>
  \<open>src/cryptojs.sha256.js\<close>: SHA-256 on Numbers. The words of the message, the chaining values and the
  working variables are integers that agree with the machine words of the standard modulo \<open>2^32\<close>; the
  code reduces some of them with \<open>>>> 0\<close> and lets others grow. The second half states the hash of
  FIPS 180-4 on \<open>32 word\<close> and shows that the code computes it.
\<close>

section \<open>Model\<close>

definition K :: "int list" where
  "K = [0x428A2F98, 0x71374491, 0xB5C0FBCF, 0xE9B5DBA5,
        0x3956C25B, 0x59F111F1, 0x923F82A4, 0xAB1C5ED5,
        0xD807AA98, 0x12835B01, 0x243185BE, 0x550C7DC3,
        0x72BE5D74, 0x80DEB1FE, 0x9BDC06A7, 0xC19BF174,
        0xE49B69C1, 0xEFBE4786, 0x0FC19DC6, 0x240CA1CC,
        0x2DE92C6F, 0x4A7484AA, 0x5CB0A9DC, 0x76F988DA,
        0x983E5152, 0xA831C66D, 0xB00327C8, 0xBF597FC7,
        0xC6E00BF3, 0xD5A79147, 0x06CA6351, 0x14292967,
        0x27B70A85, 0x2E1B2138, 0x4D2C6DFC, 0x53380D13,
        0x650A7354, 0x766A0ABB, 0x81C2C92E, 0x92722C85,
        0xA2BFE8A1, 0xA81A664B, 0xC24B8B70, 0xC76C51A3,
        0xD192E819, 0xD6990624, 0xF40E3585, 0x106AA070,
        0x19A4C116, 0x1E376C08, 0x2748774C, 0x34B0BCB5,
        0x391C0CB3, 0x4ED8AA4A, 0x5B9CCA4F, 0x682E6FF3,
        0x748F82EE, 0x78A5636F, 0x84C87814, 0x8CC70208,
        0x90BEFFFA, 0xA4506CEB, 0xBEF9A3F7, 0xC67178F2]"

definition H_init :: "int list" where
  "H_init = [0x6A09E667, 0xBB67AE85, 0x3C6EF372, 0xA54FF53A,
             0x510E527F, 0x9B05688C, 0x1F83D9AB, 0x5BE0CD19]"

definition gamma0 :: "int \<Rightarrow> int" where
  "gamma0 x = js_xor (js_xor (js_or (js_shl x 25) (js_ushr x 7)) (js_or (js_shl x 14) (js_ushr x 18))) (js_ushr x 3)"

definition gamma1 :: "int \<Rightarrow> int" where
  "gamma1 x = js_xor (js_xor (js_or (js_shl x 15) (js_ushr x 17)) (js_or (js_shl x 13) (js_ushr x 19))) (js_ushr x 10)"

definition sigma0 :: "int \<Rightarrow> int" where
  "sigma0 a = js_xor (js_xor (js_or (js_shl a 30) (js_ushr a 2)) (js_or (js_shl a 19) (js_ushr a 13)))
     (js_or (js_shl a 10) (js_ushr a 22))"

definition sigma1 :: "int \<Rightarrow> int" where
  "sigma1 e = js_xor (js_xor (js_or (js_shl e 26) (js_ushr e 6)) (js_or (js_shl e 21) (js_ushr e 11)))
     (js_or (js_shl e 7) (js_ushr e 25))"

definition ch :: "int \<Rightarrow> int \<Rightarrow> int \<Rightarrow> int" where
  "ch e f g = js_xor (js_and e f) (js_and (js_not e) g)"

definition maj :: "int \<Rightarrow> int \<Rightarrow> int \<Rightarrow> int" where
  "maj a b c = js_xor (js_xor (js_and a b) (js_and a c)) (js_and b c)"

type_synonym vars = "int \<times> int \<times> int \<times> int \<times> int \<times> int \<times> int \<times> int"

text \<open>The word of round \<open>j\<close>; the array \<open>w\<close> lives across blocks.\<close>

definition set_w :: "int list \<Rightarrow> nat \<Rightarrow> nat \<Rightarrow> int list \<Rightarrow> int list" where
  "set_w m i j w =
     (if j < 16 then js_set w j (js_num m (j + i))
      else let gamma0x = js_num w (j - 15); gamma1x = js_num w (j - 2)
        in js_set w j (gamma0 gamma0x + js_ushr (js_num w (j - 7)) 0 + gamma1 gamma1x + js_ushr (js_num w (j - 16)) 0))"

definition round_vars :: "nat \<Rightarrow> int list \<Rightarrow> vars \<Rightarrow> vars" where
  "round_vars j w = (\<lambda>(a, b, c, d, e, f, g, h).
     let t1 = js_ushr h 0 + sigma1 e + ch e f g + K ! j + js_ushr (js_num w j) 0;
         t2 = sigma0 a + maj a b c
     in (js_ushr (t1 + t2) 0, a, b, c, js_ushr (d + t1) 0, e, f, g))"

fun rounds :: "int list \<Rightarrow> nat \<Rightarrow> nat \<Rightarrow> nat \<Rightarrow> int list \<Rightarrow> vars \<Rightarrow> int list \<times> vars" where
  "rounds m i 0 j w s = (w, s)"
| "rounds m i (Suc n) j w s =
     (let w' = set_w m i j w in rounds m i n (Suc j) w' (round_vars j w' s))"

definition add_vars :: "vars \<Rightarrow> vars \<Rightarrow> vars" where
  "add_vars = (\<lambda>(a, b, c, d, e, f, g, h) (a', b', c', d', e', f', g', h').
     (a + a', b + b', c + c', d + d', e + e', f + f', g + g', h + h'))"

fun blocks :: "int list \<Rightarrow> nat \<Rightarrow> nat \<Rightarrow> int list \<Rightarrow> vars \<Rightarrow> vars" where
  "blocks m 0 i w H = H"
| "blocks m (Suc n) i w H =
     (let (w', s) = rounds m i 64 0 w H in blocks m n (i + 16) w' (add_vars H s))"

definition vars_list :: "vars \<Rightarrow> int list" where
  "vars_list = (\<lambda>(a, b, c, d, e, f, g, h). [a, b, c, d, e, f, g, h])"

definition list_vars :: "int list \<Rightarrow> vars" where
  "list_vars H = (H ! 0, H ! 1, H ! 2, H ! 3, H ! 4, H ! 5, H ! 6, H ! 7)"

definition pad :: "int list \<Rightarrow> int list" where
  "pad message =
     (let m = bytesToWords message; l = int (length message) * 8;
          i = nat (js_shr l 5);
          m1 = js_set m i (js_or (js_num m i) (js_shl 0x80 (24 - l mod 32)))
      in js_set m1 (nat (js_shl (js_shr (l + 64) 9) 4 + 15)) l)"

definition sha256_core :: "int list \<Rightarrow> int list" where
  "sha256_core message =
     (let m = pad message
      in vars_list (blocks m ((length m + 15) div 16) 0 [] (list_vars H_init)))"

text \<open>The three forms of the result the options select.\<close>

definition SHA256_asBytes :: "int list \<Rightarrow> int list" where
  "SHA256_asBytes message = wordsToBytes (sha256_core message)"

definition SHA256_asString :: "int list \<Rightarrow> int list" where
  "SHA256_asString message = Binary_bytesToString (SHA256_asBytes message)"

definition SHA256 :: "int list \<Rightarrow> string" where
  "SHA256 message = bytesToHex (SHA256_asBytes message)"

section \<open>The hash of FIPS 180-4\<close>

definition fips_Ch :: "32 word \<Rightarrow> 32 word \<Rightarrow> 32 word \<Rightarrow> 32 word" where
  "fips_Ch x y z = (x AND y) XOR (NOT x AND z)"

definition fips_Maj :: "32 word \<Rightarrow> 32 word \<Rightarrow> 32 word \<Rightarrow> 32 word" where
  "fips_Maj x y z = (x AND y) XOR (x AND z) XOR (y AND z)"

definition fips_Sigma0 :: "32 word \<Rightarrow> 32 word" where
  "fips_Sigma0 x = word_rotr 2 x XOR word_rotr 13 x XOR word_rotr 22 x"

definition fips_Sigma1 :: "32 word \<Rightarrow> 32 word" where
  "fips_Sigma1 x = word_rotr 6 x XOR word_rotr 11 x XOR word_rotr 25 x"

definition fips_sigma0 :: "32 word \<Rightarrow> 32 word" where
  "fips_sigma0 x = word_rotr 7 x XOR word_rotr 18 x XOR drop_bit 3 x"

definition fips_sigma1 :: "32 word \<Rightarrow> 32 word" where
  "fips_sigma1 x = word_rotr 17 x XOR word_rotr 19 x XOR drop_bit 10 x"

text \<open>The message schedule, extended one word at a time.\<close>

fun fips_schedule :: "32 word list \<Rightarrow> nat \<Rightarrow> 32 word list" where
  "fips_schedule M 0 = M"
| "fips_schedule M (Suc n) =
     (let W = fips_schedule M n
      in W @ [fips_sigma1 (W ! (n + 14)) + W ! (n + 9) + fips_sigma0 (W ! (n + 1)) + W ! n])"

type_synonym wvars = "32 word \<times> 32 word \<times> 32 word \<times> 32 word \<times> 32 word \<times> 32 word \<times> 32 word \<times> 32 word"

definition fips_round :: "32 word \<Rightarrow> 32 word \<Rightarrow> wvars \<Rightarrow> wvars" where
  "fips_round k w = (\<lambda>(a, b, c, d, e, f, g, h).
     let T1 = h + fips_Sigma1 e + fips_Ch e f g + k + w;
         T2 = fips_Sigma0 a + fips_Maj a b c
     in (T1 + T2, a, b, c, d + T1, e, f, g))"

fun fips_rounds :: "32 word list \<Rightarrow> nat \<Rightarrow> wvars \<Rightarrow> wvars" where
  "fips_rounds W 0 s = s"
| "fips_rounds W (Suc j) s = fips_round (w32 (K ! j)) (W ! j) (fips_rounds W j s)"

definition add_wvars :: "wvars \<Rightarrow> wvars \<Rightarrow> wvars" where
  "add_wvars = (\<lambda>(a, b, c, d, e, f, g, h) (a', b', c', d', e', f', g', h').
     (a + a', b + b', c + c', d + d', e + e', f + f', g + g', h + h'))"

definition fips_compress :: "wvars \<Rightarrow> 32 word list \<Rightarrow> wvars" where
  "fips_compress H M = add_wvars H (fips_rounds (fips_schedule M 48) 64 H)"

text \<open>
  Padding: the bit 1, then zeros, then the length in bits as eight bytes, up to a multiple of 64 bytes.
\<close>

definition be_bytes8 :: "nat \<Rightarrow> int list" where
  "be_bytes8 n = map (byte_of n) [7, 6, 5, 4, 3, 2, 1, 0]"

definition fips_pad :: "int list \<Rightarrow> int list" where
  "fips_pad bs =
     (let z = nat ((55 - int (length bs)) mod 64)
      in bs @ [0x80] @ replicate z 0 @ be_bytes8 (8 * length bs))"

definition fips_block :: "int list \<Rightarrow> nat \<Rightarrow> 32 word list" where
  "fips_block bs i = map (\<lambda>k. w32 (be_word bs (16 * i + k))) [0..<16]"

definition wvars_list :: "wvars \<Rightarrow> 32 word list" where
  "wvars_list = (\<lambda>(a, b, c, d, e, f, g, h). [a, b, c, d, e, f, g, h])"

definition fips_init :: wvars where
  "fips_init = (0x6A09E667, 0xBB67AE85, 0x3C6EF372, 0xA54FF53A, 0x510E527F, 0x9B05688C, 0x1F83D9AB, 0x5BE0CD19)"

definition fips_sha256 :: "int list \<Rightarrow> 32 word list" where
  "fips_sha256 bs =
     (let p = fips_pad bs
      in wvars_list (fold (\<lambda>i H. fips_compress H (fips_block p i)) [0..<length p div 64] fips_init))"

section \<open>The functions agree\<close>

lemma w32_functions:
  "w32 (gamma0 x) = fips_sigma0 (w32 x)"
  "w32 (gamma1 x) = fips_sigma1 (w32 x)"
  "w32 (sigma0 x) = fips_Sigma0 (w32 x)"
  "w32 (sigma1 x) = fips_Sigma1 (w32 x)"
  "w32 (ch x y z) = fips_Ch (w32 x) (w32 y) (w32 z)"
  "w32 (maj x y z) = fips_Maj (w32 x) (w32 y) (w32 z)"
  using w32_rotr [of 7 x] w32_rotr [of 18 x] w32_rotr [of 17 x] w32_rotr [of 19 x]
    w32_rotr [of 2 x] w32_rotr [of 13 x] w32_rotr [of 22 x]
    w32_rotr [of 6 x] w32_rotr [of 11 x] w32_rotr [of 25 x]
  by (simp_all only: gamma0_def gamma1_def sigma0_def sigma1_def ch_def maj_def
      fips_sigma0_def fips_sigma1_def fips_Sigma0_def fips_Sigma1_def fips_Ch_def fips_Maj_def
      w32_xor w32_and w32_not xor.assoc) (simp_all add: w32_ushr)

lemma w32_ushr0: "w32 (js_ushr x 0) = w32 x"
  using w32_ushr [of 0 x] by simp

definition wvars :: "vars \<Rightarrow> wvars" where
  "wvars = (\<lambda>(a, b, c, d, e, f, g, h). (w32 a, w32 b, w32 c, w32 d, w32 e, w32 f, w32 g, w32 h))"

lemma wvars_add: "wvars (add_vars s t) = add_wvars (wvars s) (wvars t)"
  by (simp add: wvars_def add_vars_def add_wvars_def split: prod.split)

lemma wvars_list: "map w32 (vars_list s) = wvars_list (wvars s)"
  by (simp add: wvars_def vars_list_def wvars_list_def split: prod.split)

lemma wvars_round:
  assumes "w32 (js_num w j) = W ! j"
  shows "wvars (round_vars j w s) = fips_round (w32 (K ! j)) (W ! j) (wvars s)"
proof -
  obtain a b c d e f g h where s: "s = (a, b, c, d, e, f, g, h)" by (cases s) auto
  show ?thesis
    unfolding s wvars_def round_vars_def fips_round_def prod.case Let_def
    by (simp only: w32_ushr0 w32_add w32_functions assms)
qed

section \<open>The schedule agrees\<close>

lemma length_fips_schedule [simp]: "length (fips_schedule M n) = length M + n"
  by (induction n) (simp_all add: Let_def)

lemma fips_schedule_stable:
  "k < length M + n \<Longrightarrow> fips_schedule M (n + d) ! k = fips_schedule M n ! k"
  by (induction d) (simp_all add: Let_def nth_append)

lemma fips_schedule_nth:
  assumes "length M = 16" "16 \<le> j" "j < 64"
  shows "fips_schedule M 48 ! j = fips_sigma1 (fips_schedule M 48 ! (j - 2)) + fips_schedule M 48 ! (j - 7)
    + fips_sigma0 (fips_schedule M 48 ! (j - 15)) + fips_schedule M 48 ! (j - 16)"
proof -
  define n where "n = j - 16"
  have j: "j = n + 16" "n < 48" using assms(2,3) by (simp_all add: n_def)
  have st: "fips_schedule M 48 ! k = fips_schedule M n ! k" if "k < 16 + n" for k
    using fips_schedule_stable [of k M n "48 - n"] that j assms(1) by simp
  have "fips_schedule M 48 ! j = fips_schedule M (Suc n) ! j"
    using fips_schedule_stable [of j M "Suc n" "48 - Suc n"] j assms(1) by simp
  also have "\<dots> = fips_sigma1 (fips_schedule M n ! (n + 14)) + fips_schedule M n ! (n + 9)
      + fips_sigma0 (fips_schedule M n ! (n + 1)) + fips_schedule M n ! n"
    using j assms(1) by (simp add: Let_def nth_append)
  also have "\<dots> = fips_sigma1 (fips_schedule M 48 ! (n + 14)) + fips_schedule M 48 ! (n + 9)
      + fips_sigma0 (fips_schedule M 48 ! (n + 1)) + fips_schedule M 48 ! n"
    using j(2) by (simp add: st)
  moreover have "j - 2 = n + 14" "j - 7 = n + 9" "j - 15 = n + 1" "j - 16 = n" using j(1) by simp_all
  ultimately show ?thesis by (simp only:)
qed

lemma fips_schedule_low: "k < length M \<Longrightarrow> fips_schedule M n ! k = M ! k"
  using fips_schedule_stable [of k M 0 n] by simp

text \<open>After \<open>j\<close> rounds the first \<open>j\<close> entries of \<open>w\<close> are those of the schedule.\<close>

lemma set_w_ok:
  assumes M: "length M = 16" "\<And>k. k < 16 \<Longrightarrow> w32 (js_num m (k + i)) = M ! k"
    and j: "j < 64" and w: "\<And>k. k < j \<Longrightarrow> w32 (js_num w k) = fips_schedule M 48 ! k"
    and k: "k < Suc j"
  shows "w32 (js_num (set_w m i j w) k) = fips_schedule M 48 ! k"
proof (cases "k = j")
  case False
  then show ?thesis using w [of k] k by (simp add: set_w_def js_num_js_set Let_def)
next
  case True
  show ?thesis
  proof (cases "j < 16")
    case t: True
    then show ?thesis using True M fips_schedule_low [of j M 48]
      by (simp add: set_w_def js_num_js_set)
  next
    case False
    then have "js_num (set_w m i j w) k = gamma0 (js_num w (j - 15)) + js_ushr (js_num w (j - 7)) 0
        + gamma1 (js_num w (j - 2)) + js_ushr (js_num w (j - 16)) 0"
      using True by (simp add: set_w_def js_num_js_set Let_def)
    then have "w32 (js_num (set_w m i j w) k) = fips_sigma0 (fips_schedule M 48 ! (j - 15))
        + fips_schedule M 48 ! (j - 7) + fips_sigma1 (fips_schedule M 48 ! (j - 2)) + fips_schedule M 48 ! (j - 16)"
      using False j by (simp only: w32_add w32_functions w32_ushr0) (simp add: w)
    then show ?thesis using fips_schedule_nth [OF M(1) _ j] False True by (simp add: ac_simps)
  qed
qed

lemma rounds_ok:
  assumes M: "length M = 16" "\<And>k. k < 16 \<Longrightarrow> w32 (js_num m (k + i)) = M ! k"
    and "j + n \<le> 64" "\<And>k. k < j \<Longrightarrow> w32 (js_num w k) = fips_schedule M 48 ! k"
    "wvars s = fips_rounds (fips_schedule M 48) j s0"
  shows "wvars (snd (rounds m i n j w s)) = fips_rounds (fips_schedule M 48) (j + n) s0"
  using assms(3-)
proof (induction n arbitrary: j w s)
  case 0
  then show ?case by simp
next
  case (Suc n)
  define w' where "w' = set_w m i j w"
  have j: "j < 64" using Suc.prems(1) by simp
  have w': "w32 (js_num w' k) = fips_schedule M 48 ! k" if "k < Suc j" for k
    unfolding w'_def by (rule set_w_ok [OF M j Suc.prems(2) that])
  have "wvars (round_vars j w' s) = fips_rounds (fips_schedule M 48) (Suc j) s0"
    using wvars_round [of w' j "fips_schedule M 48" s, OF w'] Suc.prems(3) by simp
  from Suc.IH [OF _ w' this] show ?case
    using Suc.prems(1) by (simp add: Let_def flip: w'_def)
qed

section \<open>Padding agrees\<close>

lemma pad_words:
  assumes "is_bytes bs" "length bs < 2 ^ 28 - 8" "N = (length bs + 8) div 64"
  shows "pad bs = js_set (bytesToWords (bs @ [0x80])) (16 * N + 15) (8 * int (length bs))"
proof -
  define n where "n = length bs"
  have n: "n < 2 ^ 28 - 8" using assms(2) by (simp add: n_def)
  have l: "8 * int n < 2 ^ 31 - 64" using n by simp
  have 1: "js_ushr (8 * int n) 5 = js_shr (8 * int n) 5"
    using l by (simp add: js_ushr_div js_shr_div)
  have 2: "js_shr (8 * int n + 64) 9 = int N"
    using l unfolding assms(3) n_def [symmetric] by (simp add: js_shr_div zdiv_int)
  have "N \<le> 2 ^ 22" using n unfolding assms(3) n_def [symmetric] by simp
  then have 3: "js_shl (int N) 4 = int N * 16" by (subst js_shl_mult_pos) auto
  have "bytesToWords (bs @ [0x80]) = (let m = bytesToWords bs; i = nat (js_shr (8 * int n) 5)
      in js_set m i (js_or (js_num m i) (js_shl 0x80 (24 - 8 * int n mod 32))))"
    by (simp add: bytesToWords_def btw_loop_append Let_def 1 js_and_mask_num flip: n_def)
  moreover have "nat (js_shl (js_shr (8 * int n + 64) 9) 4 + 15) = 16 * N + 15" unfolding 2 3 by simp
  moreover have "int n * 8 = 8 * int n" by simp
  ultimately show ?thesis by (simp only: pad_def Let_def n_def [symmetric])
qed

lemma fips_pad_shape:
  assumes "N = (length bs + 8) div 64"
  obtains z where "fips_pad bs = (bs @ [0x80]) @ replicate z 0 @ be_bytes8 (8 * length bs)"
    "length bs + 1 + z = 64 * N + 56"
  by (rule that [of "nat ((55 - int (length bs)) mod 64)"]) (simp_all add: fips_pad_def pad_zeros [OF assms, simplified])

lemma be_bytes8_small:
  assumes "n < 2 ^ 31"
  shows "i < 4 \<Longrightarrow> be_bytes8 n ! i = 0"
    "(be_bytes8 n ! 4) * 2 ^ 24 + (be_bytes8 n ! 5) * 2 ^ 16 + (be_bytes8 n ! 6) * 2 ^ 8 + be_bytes8 n ! 7 = int n"
proof -
  assume "i < 4"
  then have "i = 0 \<or> i = 1 \<or> i = 2 \<or> i = 3" by linarith
  then show "be_bytes8 n ! i = 0" using byte_of_small(2) [OF assms] by (elim disjE) (simp_all add: be_bytes8_def)
next
  show "(be_bytes8 n ! 4) * 2 ^ 24 + (be_bytes8 n ! 5) * 2 ^ 16 + (be_bytes8 n ! 6) * 2 ^ 8 + be_bytes8 n ! 7 = int n"
    using byte_of_small(1) [OF assms] by (simp add: be_bytes8_def)
qed

lemma pad_ok:
  assumes "is_bytes bs" "length bs < 2 ^ 28 - 8" "N = (length bs + 8) div 64"
  shows "length (pad bs) = 16 * (N + 1)" "length (fips_pad bs) = 64 * (N + 1)"
    "k < 16 * (N + 1) \<Longrightarrow> w32 (js_num (pad bs) k) = w32 (be_word (fips_pad bs) k)"
proof -
  define bs' where "bs' = bs @ [0x80 :: int]"
  obtain z where z: "fips_pad bs = bs' @ replicate z 0 @ be_bytes8 (8 * length bs)"
      "length bs + 1 + z = 64 * N + 56"
    using fips_pad_shape [OF assms(3)] by (metis bs'_def)
  have l8: "length (be_bytes8 n) = 8" for n by (simp add: be_bytes8_def)
  show lf: "length (fips_pad bs) = 64 * (N + 1)" using z by (simp add: l8 bs'_def)
  have b': "is_bytes bs'" "length bs' < 2 ^ 29" using assms(1,2) by (simp_all add: bs'_def)
  note w = bytesToWords_ok [OF b']
  have lw: "length (bytesToWords bs') \<le> 16 * N + 14" using w z(2) by (simp add: bs'_def)
  note p = pad_words [OF assms, folded bs'_def]
  show "length (pad bs) = 16 * (N + 1)" using lw by (simp add: p length_js_set)
  assume k: "k < 16 * (N + 1)"
  have low: "js_num (fips_pad bs) i = js_num bs' i" if "i < 64 * N + 56" for i
    using that z(2) unfolding z(1) by (auto simp: js_num_def nth_append bs'_def)
  have high: "js_num (fips_pad bs) (64 * N + 56 + i) = be_bytes8 (8 * length bs) ! i" if "i < 8" for i
  proof -
    have "length (bs' @ replicate z 0) = 64 * N + 56" using z(2) by (simp add: bs'_def)
    then show ?thesis using that l8 nth_append_length_plus [of "bs' @ replicate z 0" "be_bytes8 (8 * length bs)" i]
      by (simp add: js_num_def lf z(1))
  qed
  have small: "8 * length bs < 2 ^ 31" using assms(2) by simp
  note e8 = be_bytes8_small [OF small]
  have u: "w32 (js_num (bytesToWords bs') k) = w32 (be_word bs' k)" using w by (metis w32_toUint32)
  have "k < 16 * N + 14 \<or> k = 16 * N + 14 \<or> k = 16 * N + 15" using k by auto
  then consider "k < 16 * N + 14" | "k = 16 * N + 14" | "k = 16 * N + 15" by blast
  then show "w32 (js_num (pad bs) k) = w32 (be_word (fips_pad bs) k)"
  proof cases
    case 1
    then have "be_word (fips_pad bs) k = be_word bs' k" by (simp add: be_word_def low)
    then show ?thesis using u 1 by (simp add: p js_num_js_set)
  next
    case 2
    have "be_word (fips_pad bs) k = 0"
      using high [of 0] high [of 1] high [of 2] high [of 3] e8(1) by (simp add: be_word_def 2)
    moreover have "js_num (pad bs) k = 0" using lw 2 by (simp add: p js_num_js_set)
    ultimately show ?thesis by simp
  next
    case 3
    have q: "4 * k = 64 * N + 56 + 4" "4 * k + 1 = 64 * N + 56 + 5" "4 * k + 2 = 64 * N + 56 + 6"
      "4 * k + 3 = 64 * N + 56 + 7"
      using 3 by simp_all
    have "be_word (fips_pad bs) k = 8 * int (length bs)"
      unfolding be_word_def q using e8(2) high [of 4] high [of 5] high [of 6] high [of 7]
      by (simp only: zero_less_numeral less_numeral_simps(1-4) of_nat_mult of_nat_numeral) simp
    then show ?thesis by (simp add: p js_num_js_set 3)
  qed
qed

section \<open>The code computes SHA-256\<close>

lemma blocks_ok:
  assumes "\<And>k. k < 16 * (i + n) \<Longrightarrow> w32 (js_num m k) = w32 (be_word p k)"
  shows "wvars (blocks m n (16 * i) w H)
    = fold (\<lambda>i H. fips_compress H (fips_block p i)) [i..<i + n] (wvars H)"
  using assms
proof (induction n arbitrary: i w H)
  case 0
  then show ?case by simp
next
  case (Suc n)
  obtain w' s where r: "rounds m (16 * i) 64 0 w H = (w', s)" by (rule prod.exhaust)
  have M: "length (fips_block p i) = 16"
    "w32 (js_num m (k + 16 * i)) = fips_block p i ! k" if "k < 16" for k
    using Suc.prems [of "k + 16 * i"] that by (simp_all add: fips_block_def add.commute)
  have "wvars s = fips_rounds (fips_schedule (fips_block p i) 48) 64 (wvars H)"
    using rounds_ok [of "fips_block p i" m "16 * i" 0 64 w H "wvars H"] M r by (simp add: fips_block_def)
  then have "wvars (add_vars H s) = fips_compress (wvars H) (fips_block p i)"
    by (simp add: wvars_add fips_compress_def)
  moreover have "blocks m (Suc n) (16 * i) w H = blocks m n (16 * Suc i) w' (add_vars H s)"
    by (simp add: r add.commute)
  moreover have "[i..<i + Suc n] = i # [Suc i..<Suc i + n]" by (simp add: upt_conv_Cons)
  moreover have "wvars (blocks m n (16 * Suc i) w' (add_vars H s))
    = fold (\<lambda>i H. fips_compress H (fips_block p i)) [Suc i..<Suc i + n] (wvars (add_vars H s))"
    using Suc.prems by (intro Suc.IH) simp
  ultimately show ?case by simp
qed

lemma sha256_core_ok:
  assumes "is_bytes bs" "length bs < 2 ^ 28 - 8"
  shows "map w32 (sha256_core bs) = fips_sha256 bs"
proof -
  define N where "N = (length bs + 8) div 64"
  note p = pad_ok [OF assms N_def]
  have n: "(length (pad bs) + 15) div 16 = N + 1" "length (fips_pad bs) div 64 = N + 1"
    unfolding p(1,2) by simp_all
  have i: "wvars (list_vars H_init) = fips_init" by (simp add: wvars_def list_vars_def H_init_def fips_init_def)
  have "wvars (blocks (pad bs) (N + 1) (16 * 0) [] (list_vars H_init))
      = fold (\<lambda>i H. fips_compress H (fips_block (fips_pad bs) i)) [0..<0 + (N + 1)] fips_init"
    unfolding i [symmetric] by (rule blocks_ok) (simp add: p(3))
  then show ?thesis
    unfolding sha256_core_def fips_sha256_def Let_def n by (simp add: wvars_list del: upt_Suc)
qed

lemma length_sha256_core [simp]: "length (sha256_core bs) = 8"
  by (simp add: sha256_core_def Let_def vars_list_def split: prod.split)

lemma SHA256_asBytes_length [simp]: "length (SHA256_asBytes bs) = 32" "is_bytes (SHA256_asBytes bs)"
  by (simp_all add: SHA256_asBytes_def wordsToBytes_bytes)

text \<open>The bytes of a digest: each word big-endian.\<close>

definition word_bytes :: "32 word \<Rightarrow> int list" where
  "word_bytes w = map (\<lambda>k. uint w div 2 ^ k mod 256) [24, 16, 8, 0]"

lemma wordsToBytes_word_bytes:
  assumes "length ws < 2 ^ 27"
  shows "wordsToBytes ws = concat (map word_bytes (map w32 ws))"
proof (rule nth_equalityI)
  have l: "length (concat (map word_bytes (map w32 ws))) = 4 * length ws"
    by (simp add: length_concat word_bytes_def comp_def sum_list_triv)
  then show "length (wordsToBytes ws) = length (concat (map word_bytes (map w32 ws)))" by simp
  fix i assume "i < length (wordsToBytes ws)"
  then have i: "i < 4 * length ws" by simp
  have u: "toUint32 x = uint (w32 x)" for x by (simp add: toUint32_def uint_word_of_int take_bit_eq_mod)
  have c: "concat (map word_bytes vs) ! i = uint (vs ! (i div 4)) div 2 ^ (24 - 8 * (i mod 4)) mod 256"
    if "i < 4 * length vs" for vs i
    using that
  proof (induction vs arbitrary: i)
    case (Cons v vs)
    have b: "length (word_bytes v) = 4" by (simp add: word_bytes_def)
    show ?case
    proof (cases "i < 4")
      case True
      then have "i = 0 \<or> i = 1 \<or> i = 2 \<or> i = 3" by linarith
      then show ?thesis by (elim disjE) (simp_all add: nth_append word_bytes_def)
    next
      case False
      define j where "j = i - 4"
      have j: "i = j + 4" using False by (simp add: j_def)
      show ?thesis using Cons.IH [of j] Cons.prems b by (simp add: nth_append j)
    qed
  qed simp
  have "i div 4 < length ws" using i by simp
  then show "wordsToBytes ws ! i = concat (map word_bytes (map w32 ws)) ! i"
    using wordsToBytes_nth [OF i assms] c [of i "map w32 ws"] i by (simp add: u)
qed

lemma SHA256_asBytes_ok:
  "is_bytes bs \<Longrightarrow> length bs < 2 ^ 28 - 8 \<Longrightarrow> SHA256_asBytes bs = concat (map word_bytes (fips_sha256 bs))"
  unfolding SHA256_asBytes_def by (subst wordsToBytes_word_bytes) (simp_all add: sha256_core_ok)

section \<open>Every Number stays exact\<close>

definition is_u32 :: "int \<Rightarrow> bool" where
  "is_u32 x \<longleftrightarrow> 0 \<le> x \<and> x < 2 ^ 32"

text \<open>The variables \<open>k\<close> rounds have replaced are below \<open>2^32\<close>.\<close>

definition fresh_vars :: "nat \<Rightarrow> vars \<Rightarrow> bool" where
  "fresh_vars k = (\<lambda>(a, b, c, d, e, f, g, h).
     (1 \<le> k \<longrightarrow> is_u32 a \<and> is_u32 e) \<and> (2 \<le> k \<longrightarrow> is_u32 b \<and> is_u32 f) \<and>
     (3 \<le> k \<longrightarrow> is_u32 c \<and> is_u32 g) \<and> (4 \<le> k \<longrightarrow> is_u32 d \<and> is_u32 h))"

lemma is_u32_ushr0: "is_u32 (js_ushr x 0)"
  using toUint32_range [of x] by (simp add: is_u32_def js_ushr_def)

lemma fresh_round: "fresh_vars k s \<Longrightarrow> fresh_vars (Suc k) (round_vars j w s)"
proof -
  assume k: "fresh_vars k s"
  obtain a b c d e f g h where s: "s = (a, b, c, d, e, f, g, h)" by (cases s) auto
  show ?thesis using k unfolding s by (simp add: fresh_vars_def round_vars_def Let_def is_u32_ushr0)
qed

lemma fresh_rounds: "fresh_vars k s \<Longrightarrow> fresh_vars (k + n) (snd (rounds m i n j w s))"
proof (induction n arbitrary: k j w s)
  case 0
  then show ?case by simp
next
  case (Suc n)
  from Suc.IH [OF fresh_round [OF Suc.prems]] show ?case by (simp add: Let_def)
qed

definition vars_below :: "int \<Rightarrow> vars \<Rightarrow> bool" where
  "vars_below B s \<longleftrightarrow> (\<forall>x \<in> set (vars_list s). 0 \<le> x \<and> x < B)"

lemma vars_below_add:
  "vars_below B s \<Longrightarrow> fresh_vars 4 t \<Longrightarrow> vars_below (B + 2 ^ 32) (add_vars s t)"
proof -
  assume b: "vars_below B s" and f: "fresh_vars 4 t"
  obtain a b c d e f g h where s: "s = (a, b, c, d, e, f, g, h)" by (cases s) auto
  obtain a' b' c' d' e' f' g' h' where t: "t = (a', b', c', d', e', f', g', h')" by (cases t) auto
  show ?thesis using b f unfolding s t
    by (simp add: vars_below_def vars_list_def add_vars_def fresh_vars_def is_u32_def)
qed

lemma blocks_below:
  "vars_below B H \<Longrightarrow> vars_below (B + int n * 2 ^ 32) (blocks m n i w H)"
proof (induction n arbitrary: B i w H)
  case 0
  then show ?case by simp
next
  case (Suc n)
  obtain w' s where r: "rounds m i 64 0 w H = (w', s)" by (rule prod.exhaust)
  have "fresh_vars 0 H" by (cases H) (simp add: fresh_vars_def)
  from fresh_rounds [OF this, of 64 m i 0 w] have "fresh_vars 64 s" by (simp add: r)
  then have "fresh_vars 4 s" by (cases s) (simp add: fresh_vars_def)
  from Suc.IH [OF vars_below_add [OF Suc.prems this], of "i + 16" w'] show ?case
    by (simp add: r algebra_simps)
qed

section \<open>What the component promises\<close>



text \<open>
  C11: although the chaining values are never reduced, they stay below \<open>2^53\<close>, where Numbers are exact, for
  every message shorter than \<open>2^26\<close> bytes.
\<close>

theorem sha256_exact:
  assumes "length bs < 2 ^ 26" "is_bytes bs"
  shows "\<forall>x \<in> set (sha256_core bs). 0 \<le> x \<and> x < 2 ^ 53"
proof -
  define N where "N = (length bs + 8) div 64"
  have "length (pad bs) = 16 * (N + 1)" using assms by (intro pad_ok(1) N_def) auto
  then have n: "(length (pad bs) + 15) div 16 = N + 1" by simp
  have N: "int (N + 1) * 2 ^ 32 < 2 ^ 53 - 2 ^ 32" using assms(1) by (simp add: N_def)
  have "vars_below (2 ^ 32) (list_vars H_init)" by (simp add: vars_below_def vars_list_def list_vars_def H_init_def)
  from blocks_below [OF this, of "N + 1" "pad bs" 0 "[]"]
  have "\<forall>x \<in> set (sha256_core bs). 0 \<le> x \<and> x < 2 ^ 32 + int (N + 1) * 2 ^ 32"
    unfolding vars_below_def sha256_core_def Let_def n .
  then show ?thesis using N by force
qed

theorem sha256_exact_witness: "list_all (\<lambda>x. 0 \<le> x \<and> x < 2 ^ 53) (sha256_core [1, 2, 3])"
  unfolding list_all_iff by (rule sha256_exact) simp_all

end
