(* ===== verification/Ripemd160.thy ===== *)
theory Ripemd160
  imports CryptoUtil
begin

text \<open>
  \<open>src/cryptojs.ripemd160.js\<close>: RIPEMD-160 on Numbers. Additions go through \<open>safe_add\<close>, which adds the
  halves of the words, and yield signed 32-bit integers. The last sections state the hash on \<open>32 word\<close>
  with the tables built from the permutations of its specification, and show that the code computes it.
\<close>

section \<open>Model\<close>

fun btlw_loop :: "int list \<Rightarrow> int \<Rightarrow> int list \<Rightarrow> int list" where
  "btlw_loop [] i output = output"
| "btlw_loop (x # xs) i output =
     (let k = nat (js_shr i 5)
      in btlw_loop xs (i + 8) (js_set output k (js_or (js_num output k) (js_shl (js_and x 0xFF) (i mod 32)))))"

definition bytesToLWords :: "int list \<Rightarrow> int list" where
  "bytesToLWords bytes = btlw_loop bytes 0 (replicate (nat (js_shr (int (length bytes)) 2)) 0)"

definition lWordsToBytes :: "int list \<Rightarrow> int list" where
  "lWordsToBytes ws =
     map (\<lambda>k. let i = 8 * int k in js_and (js_ushr (js_num ws (nat (js_shr i 5))) (i mod 32)) 0xff)
       [0..<4 * length ws]"

definition rmd160_f :: "int \<Rightarrow> int \<Rightarrow> int \<Rightarrow> int \<Rightarrow> int result" where
  "rmd160_f j x y z =
     (if 0 \<le> j \<and> j \<le> 15 then Inr (js_xor (js_xor x y) z)
      else if 16 \<le> j \<and> j \<le> 31 then Inr (js_or (js_and x y) (js_and (js_not x) z))
      else if 32 \<le> j \<and> j \<le> 47 then Inr (js_xor (js_or x (js_not y)) z)
      else if 48 \<le> j \<and> j \<le> 63 then Inr (js_or (js_and x z) (js_and y (js_not z)))
      else if 64 \<le> j \<and> j \<le> 79 then Inr (js_xor x (js_or y (js_not z)))
      else Inl ''rmd160_f: j out of range'')"

definition rmd160_K1 :: "int \<Rightarrow> int result" where
  "rmd160_K1 j =
     (if 0 \<le> j \<and> j \<le> 15 then Inr 0x00000000
      else if 16 \<le> j \<and> j \<le> 31 then Inr 0x5a827999
      else if 32 \<le> j \<and> j \<le> 47 then Inr 0x6ed9eba1
      else if 48 \<le> j \<and> j \<le> 63 then Inr 0x8f1bbcdc
      else if 64 \<le> j \<and> j \<le> 79 then Inr 0xa953fd4e
      else Inl ''rmd160_K1: j out of range'')"

definition rmd160_K2 :: "int \<Rightarrow> int result" where
  "rmd160_K2 j =
     (if 0 \<le> j \<and> j \<le> 15 then Inr 0x50a28be6
      else if 16 \<le> j \<and> j \<le> 31 then Inr 0x5c4dd124
      else if 32 \<le> j \<and> j \<le> 47 then Inr 0x6d703ef3
      else if 48 \<le> j \<and> j \<le> 63 then Inr 0x7a6d76e9
      else if 64 \<le> j \<and> j \<le> 79 then Inr 0x00000000
      else Inl ''rmd160_K2: j out of range'')"

definition rmd160_r1 :: "nat list" where
  "rmd160_r1 = [
     0, 1, 2, 3, 4, 5, 6, 7, 8, 9, 10, 11, 12, 13, 14, 15,
     7, 4, 13, 1, 10, 6, 15, 3, 12, 0, 9, 5, 2, 14, 11, 8,
     3, 10, 14, 4, 9, 15, 8, 1, 2, 7, 0, 6, 13, 11, 5, 12,
     1, 9, 11, 10, 0, 8, 12, 4, 13, 3, 7, 15, 14, 5, 6, 2,
     4, 0, 5, 9, 7, 12, 2, 10, 14, 1, 3, 8, 11, 6, 15, 13]"

definition rmd160_r2 :: "nat list" where
  "rmd160_r2 = [
     5, 14, 7, 0, 9, 2, 11, 4, 13, 6, 15, 8, 1, 10, 3, 12,
     6, 11, 3, 7, 0, 13, 5, 10, 14, 15, 8, 12, 4, 9, 1, 2,
     15, 5, 1, 3, 7, 14, 6, 9, 11, 8, 12, 2, 10, 0, 4, 13,
     8, 6, 4, 1, 3, 11, 15, 0, 5, 12, 2, 13, 9, 7, 10, 14,
     12, 15, 10, 4, 1, 5, 8, 7, 6, 2, 13, 14, 0, 3, 9, 11]"

definition rmd160_s1 :: "int list" where
  "rmd160_s1 = [
     11, 14, 15, 12, 5, 8, 7, 9, 11, 13, 14, 15, 6, 7, 9, 8,
     7, 6, 8, 13, 11, 9, 7, 15, 7, 12, 15, 9, 11, 7, 13, 12,
     11, 13, 6, 7, 14, 9, 13, 15, 14, 8, 13, 6, 5, 12, 7, 5,
     11, 12, 14, 15, 14, 15, 9, 8, 9, 14, 5, 6, 8, 6, 5, 12,
     9, 15, 5, 11, 6, 8, 13, 12, 5, 12, 13, 14, 11, 8, 5, 6]"

definition rmd160_s2 :: "int list" where
  "rmd160_s2 = [
     8, 9, 9, 11, 13, 15, 15, 5, 7, 7, 8, 11, 14, 14, 12, 6,
     9, 13, 15, 7, 12, 8, 9, 11, 7, 7, 12, 7, 6, 15, 13, 11,
     9, 7, 15, 11, 8, 6, 6, 14, 12, 13, 5, 14, 13, 13, 7, 5,
     15, 5, 8, 11, 14, 14, 6, 14, 6, 9, 12, 9, 12, 5, 15, 8,
     8, 5, 12, 9, 12, 5, 14, 6, 8, 13, 6, 5, 15, 13, 11, 11]"

definition safe_add :: "int \<Rightarrow> int \<Rightarrow> int" where
  "safe_add x y =
     (let lsw = js_and x 0xFFFF + js_and y 0xFFFF;
          msw = js_shr x 16 + js_shr y 16 + js_shr lsw 16
      in js_or (js_shl msw 16) (js_and lsw 0xFFFF))"

definition bit_rol :: "int \<Rightarrow> int \<Rightarrow> int" where
  "bit_rol num cnt = js_or (js_shl num cnt) (js_ushr num (32 - cnt))"

text \<open>A string operand of a bitwise operator is \<open>NaN\<close> and counts as 0.\<close>

definition operand :: "int result \<Rightarrow> int" where
  "operand r = (case r of Inl msg \<Rightarrow> 0 | Inr n \<Rightarrow> n)"

type_synonym line = "int \<times> int \<times> int \<times> int \<times> int"

text \<open>The two lines of one iteration differ in the round function's index and in the tables.\<close>

definition line_step :: "int \<Rightarrow> int \<Rightarrow> int \<Rightarrow> int \<Rightarrow> line \<Rightarrow> line" where
  "line_step jf xw k s = (\<lambda>(A, B, C, D, E).
     let T1 = safe_add A (operand (rmd160_f jf B C D));
         T2 = safe_add T1 xw;
         T3 = safe_add T2 k;
         T = safe_add (bit_rol T3 s) E
     in (E, T, B, bit_rol C 10, D))"

fun rmd_loop :: "int list \<Rightarrow> nat \<Rightarrow> nat \<Rightarrow> nat \<Rightarrow> line \<Rightarrow> line \<Rightarrow> line \<times> line" where
  "rmd_loop x i 0 j l1 l2 = (l1, l2)"
| "rmd_loop x i (Suc n) j l1 l2 =
     rmd_loop x i n (Suc j)
       (line_step (int j) (js_num x (i + rmd160_r1 ! j)) (operand (rmd160_K1 (int j))) (rmd160_s1 ! j) l1)
       (line_step (79 - int j) (js_num x (i + rmd160_r2 ! j)) (operand (rmd160_K2 (int j))) (rmd160_s2 ! j) l2)"

definition rmd_combine :: "line \<Rightarrow> line \<Rightarrow> line \<Rightarrow> line" where
  "rmd_combine = (\<lambda>(h0, h1, h2, h3, h4) (A1, B1, C1, D1, E1) (A2, B2, C2, D2, E2).
     (safe_add h1 (safe_add C1 D2), safe_add h2 (safe_add D1 E2), safe_add h3 (safe_add E1 A2),
      safe_add h4 (safe_add A1 B2), safe_add h0 (safe_add B1 C2)))"

fun rmd_blocks :: "int list \<Rightarrow> nat \<Rightarrow> nat \<Rightarrow> line \<Rightarrow> line" where
  "rmd_blocks x 0 i h = h"
| "rmd_blocks x (Suc n) i h =
     (let (l1, l2) = rmd_loop x i 80 0 h h in rmd_blocks x n (i + 16) (rmd_combine h l1 l2))"

definition rmd_init :: line where
  "rmd_init = (0x67452301, 0xefcdab89, 0x98badcfe, 0x10325476, 0xc3d2e1f0)"

definition rmd_pad :: "int list \<Rightarrow> int list" where
  "rmd_pad message =
     (let x = bytesToLWords message; len = int (length message) * 8;
          i = nat (js_shr len 5);
          x1 = js_set x i (js_or (js_num x i) (js_shl 0x80 (len mod 32)))
      in js_set x1 (nat (js_shl (js_ushr (len + 64) 9) 4 + 14)) len)"

definition line_list :: "line \<Rightarrow> int list" where
  "line_list = (\<lambda>(h0, h1, h2, h3, h4). [h0, h1, h2, h3, h4])"

definition rmd160_core :: "int list \<Rightarrow> int list" where
  "rmd160_core message =
     (let x = rmd_pad message in line_list (rmd_blocks x ((length x + 15) div 16) 0 rmd_init))"

definition RIPEMD160_asBytes :: "int list \<Rightarrow> int list" where
  "RIPEMD160_asBytes message = lWordsToBytes (rmd160_core message)"

definition RIPEMD160_asString :: "int list \<Rightarrow> int list" where
  "RIPEMD160_asString message = Binary_bytesToString (RIPEMD160_asBytes message)"

definition RIPEMD160 :: "int list \<Rightarrow> string" where
  "RIPEMD160 message = bytesToHex (RIPEMD160_asBytes message)"

section \<open>The hash of the specification\<close>

definition spec_f :: "nat \<Rightarrow> 32 word \<Rightarrow> 32 word \<Rightarrow> 32 word \<Rightarrow> 32 word" where
  "spec_f j x y z =
     (if j < 16 then x XOR y XOR z
      else if j < 32 then (x AND y) OR (NOT x AND z)
      else if j < 48 then (x OR NOT y) XOR z
      else if j < 64 then (x AND z) OR (y AND NOT z)
      else x XOR (y OR NOT z))"

text \<open>The message words of a row: the permutation \<open>rho\<close> applied row by row, on the right line after \<open>pi\<close>.\<close>

definition rho :: "nat list" where
  "rho = [7, 4, 13, 1, 10, 6, 15, 3, 12, 0, 9, 5, 2, 14, 11, 8]"

definition spec_r :: "nat \<Rightarrow> nat" where
  "spec_r j = ((\<lambda>i. rho ! i) ^^ (j div 16)) (j mod 16)"

definition spec_r' :: "nat \<Rightarrow> nat" where
  "spec_r' j = ((\<lambda>i. rho ! i) ^^ (j div 16)) ((9 * (j mod 16) + 5) mod 16)"

text \<open>The rotation belongs to the message word and the row, not to the position: the same on both lines.\<close>

definition spec_shift :: "nat \<Rightarrow> nat \<Rightarrow> nat" where
  "spec_shift row w =
     [[11, 14, 15, 12, 5, 8, 7, 9, 11, 13, 14, 15, 6, 7, 9, 8],
      [12, 13, 11, 15, 6, 9, 9, 7, 12, 15, 11, 13, 7, 8, 7, 7],
      [13, 15, 14, 11, 7, 7, 6, 8, 13, 14, 13, 12, 5, 5, 6, 9],
      [14, 11, 12, 14, 8, 6, 5, 5, 15, 12, 15, 14, 9, 9, 8, 6],
      [15, 12, 13, 13, 9, 5, 8, 6, 14, 11, 12, 11, 8, 6, 5, 5]] ! row ! w"

definition spec_K :: "nat \<Rightarrow> 32 word" where
  "spec_K j = [0, 0x5a827999, 0x6ed9eba1, 0x8f1bbcdc, 0xa953fd4e] ! (j div 16)"

definition spec_K' :: "nat \<Rightarrow> 32 word" where
  "spec_K' j = [0x50a28be6, 0x5c4dd124, 0x6d703ef3, 0x7a6d76e9, 0] ! (j div 16)"

type_synonym wline = "32 word \<times> 32 word \<times> 32 word \<times> 32 word \<times> 32 word"

definition spec_step :: "nat \<Rightarrow> 32 word \<Rightarrow> 32 word \<Rightarrow> nat \<Rightarrow> wline \<Rightarrow> wline" where
  "spec_step jf xw k s = (\<lambda>(A, B, C, D, E).
     (E, word_rotl s (A + spec_f jf B C D + xw + k) + E, B, word_rotl 10 C, D))"

definition spec_left :: "32 word list \<Rightarrow> nat \<Rightarrow> wline \<Rightarrow> wline" where
  "spec_left X j = spec_step j (X ! spec_r j) (spec_K j) (spec_shift (j div 16) (spec_r j))"

definition spec_right :: "32 word list \<Rightarrow> nat \<Rightarrow> wline \<Rightarrow> wline" where
  "spec_right X j = spec_step (79 - j) (X ! spec_r' j) (spec_K' j) (spec_shift (j div 16) (spec_r' j))"

definition spec_compress :: "wline \<Rightarrow> 32 word list \<Rightarrow> wline" where
  "spec_compress h X =
     (let (h0, h1, h2, h3, h4) = h;
          (A, B, C, D, E) = fold (spec_left X) [0..<80] h;
          (A', B', C', D', E') = fold (spec_right X) [0..<80] h
      in (h1 + C + D', h2 + D + E', h3 + E + A', h4 + A + B', h0 + B + C'))"

definition le_bytes8 :: "nat \<Rightarrow> int list" where
  "le_bytes8 n = map (byte_of n) [0, 1, 2, 3, 4, 5, 6, 7]"

definition spec_pad :: "int list \<Rightarrow> int list" where
  "spec_pad bs =
     (let z = nat ((55 - int (length bs)) mod 64)
      in bs @ [0x80] @ replicate z 0 @ le_bytes8 (8 * length bs))"

definition le_word :: "int list \<Rightarrow> nat \<Rightarrow> int" where
  "le_word bs k = js_num bs (4 * k) + js_num bs (4 * k + 1) * 2 ^ 8
     + js_num bs (4 * k + 2) * 2 ^ 16 + js_num bs (4 * k + 3) * 2 ^ 24"

definition spec_block :: "int list \<Rightarrow> nat \<Rightarrow> 32 word list" where
  "spec_block bs i = map (\<lambda>k. w32 (le_word bs (16 * i + k))) [0..<16]"

definition wline_list :: "wline \<Rightarrow> 32 word list" where
  "wline_list = (\<lambda>(h0, h1, h2, h3, h4). [h0, h1, h2, h3, h4])"

definition spec_init :: wline where
  "spec_init = (0x67452301, 0xefcdab89, 0x98badcfe, 0x10325476, 0xc3d2e1f0)"

definition spec_rmd160 :: "int list \<Rightarrow> 32 word list" where
  "spec_rmd160 bs =
     (let p = spec_pad bs
      in wline_list (fold (\<lambda>i h. spec_compress h (spec_block p i)) [0..<length p div 64] spec_init))"

section \<open>Addition, functions and tables agree\<close>

lemma w32_safe_add: "w32 (safe_add x y) = w32 x + w32 y"
proof -
  define X Y where "X = toInt32 x" and "Y = toInt32 y"
  define low where "low = X mod 2 ^ 16 + Y mod 2 ^ 16"
  have ands: "js_and x 0xFFFF = X mod 2 ^ 16" "js_and y 0xFFFF = Y mod 2 ^ 16"
    by (simp_all add: js_and_mask_num X_def Y_def toInt32_mod [of 16, simplified])
  have shrs: "js_shr x 16 = X div 2 ^ 16" "js_shr y 16 = Y div 2 ^ 16"
    by (simp_all add: js_shr_def drop_bit_eq_div X_def Y_def)
  have m: "0 \<le> X mod 2 ^ 16" "X mod 2 ^ 16 < 2 ^ 16" "0 \<le> Y mod 2 ^ 16" "Y mod 2 ^ 16 < 2 ^ 16" by simp_all
  have "0 \<le> low" unfolding low_def by (intro add_nonneg_nonneg m)
  moreover have "low < 2 ^ 17" unfolding low_def using add_strict_mono [OF m(2,4)] by simp
  ultimately have l16: "js_shr low 16 = low div 2 ^ 16" by (subst js_shr_div) auto
  define msw where "msw = X div 2 ^ 16 + Y div 2 ^ 16 + low div 2 ^ 16"
  have "safe_add x y = js_or (js_shl msw 16) (low mod 2 ^ 16)"
    unfolding safe_add_def Let_def ands shrs low_def [symmetric] l16 msw_def [symmetric]
    by (simp add: js_and_mask_num)
  then have "w32 (safe_add x y) = push_bit 16 (w32 msw) OR w32 (low mod 2 ^ 16)"
    using w32_shl [of 16 msw] by (simp only: w32_or) simp
  also have "\<dots> = w32 (push_bit 16 msw OR low mod 2 ^ 16)"
    by (rule bit_word_eqI) (auto simp: bit_w32 bit_or_iff bit_push_bit_iff)
  also have "push_bit 16 msw OR low mod 2 ^ 16 = msw * 2 ^ 16 + low mod 2 ^ 16"
    unfolding push_bit_eq_mult by (rule or_eq_add) simp_all
  also have "\<dots> = X + Y"
  proof -
    have "X = X div 2 ^ 16 * 2 ^ 16 + X mod 2 ^ 16" "Y = Y div 2 ^ 16 * 2 ^ 16 + Y mod 2 ^ 16"
      "low = low div 2 ^ 16 * 2 ^ 16 + low mod 2 ^ 16"
      by (simp_all only: div_mult_mod_eq)
    then show ?thesis unfolding msw_def low_def [symmetric] distrib_right using low_def by linarith
  qed
  also have "w32 (X + Y) = w32 x + w32 y" by (simp only: w32_add X_def Y_def w32_toInt32)
  finally show ?thesis .
qed

lemma w32_bit_rol: "0 < s \<Longrightarrow> s < 32 \<Longrightarrow> w32 (bit_rol x s) = word_rotl (nat s) (w32 x)"
  unfolding bit_rol_def by (rule w32_rotl)

lemma w32_f: "j < 80 \<Longrightarrow> w32 (operand (rmd160_f (int j) x y z)) = spec_f j (w32 x) (w32 y) (w32 z)"
  unfolding rmd160_f_def spec_f_def operand_def
  by (auto simp: w32_xor w32_and w32_or w32_not xor.assoc simp del: of_int_and_eq of_int_or_eq of_int_xor_eq of_int_not_eq)

lemma tables:
  assumes "j < 80"
  shows "rmd160_r1 ! j = spec_r j" "rmd160_r2 ! j = spec_r' j"
    "rmd160_s1 ! j = int (spec_shift (j div 16) (spec_r j))"
    "rmd160_s2 ! j = int (spec_shift (j div 16) (spec_r' j))"
    "spec_r j < 16" "spec_r' j < 16" "0 < rmd160_s1 ! j" "rmd160_s1 ! j < 32" "0 < rmd160_s2 ! j" "rmd160_s2 ! j < 32"
    "w32 (operand (rmd160_K1 (int j))) = spec_K j" "w32 (operand (rmd160_K2 (int j))) = spec_K' j"
proof -
  have "\<forall>j \<in> set [0..<80]. rmd160_r1 ! j = spec_r j \<and> rmd160_r2 ! j = spec_r' j \<and>
      rmd160_s1 ! j = int (spec_shift (j div 16) (spec_r j)) \<and>
      rmd160_s2 ! j = int (spec_shift (j div 16) (spec_r' j)) \<and> spec_r j < 16 \<and> spec_r' j < 16 \<and>
      0 < rmd160_s1 ! j \<and> rmd160_s1 ! j < 32 \<and> 0 < rmd160_s2 ! j \<and> rmd160_s2 ! j < 32"
    by code_simp
  moreover have "j \<in> set [0..<80]" using assms by simp
  ultimately show "rmd160_r1 ! j = spec_r j" "rmd160_r2 ! j = spec_r' j"
    "rmd160_s1 ! j = int (spec_shift (j div 16) (spec_r j))"
    "rmd160_s2 ! j = int (spec_shift (j div 16) (spec_r' j))"
    "spec_r j < 16" "spec_r' j < 16" "0 < rmd160_s1 ! j" "rmd160_s1 ! j < 32" "0 < rmd160_s2 ! j" "rmd160_s2 ! j < 32"
    by blast+
  have "j < 16 \<or> 16 \<le> j \<and> j < 32 \<or> 32 \<le> j \<and> j < 48 \<or> 48 \<le> j \<and> j < 64 \<or> 64 \<le> j \<and> j < 80"
    using assms by auto
  then consider "j < 16" "j div 16 = 0" | "16 \<le> j" "j < 32" "j div 16 = 1" | "32 \<le> j" "j < 48" "j div 16 = 2"
    | "48 \<le> j" "j < 64" "j div 16 = 3" | "64 \<le> j" "j < 80" "j div 16 = 4"
    by (auto simp: div_nat_eqI)
  then show "w32 (operand (rmd160_K1 (int j))) = spec_K j" "w32 (operand (rmd160_K2 (int j))) = spec_K' j"
    by (cases; simp add: rmd160_K1_def rmd160_K2_def spec_K_def spec_K'_def operand_def)+
qed

definition wline :: "line \<Rightarrow> wline" where
  "wline = (\<lambda>(A, B, C, D, E). (w32 A, w32 B, w32 C, w32 D, w32 E))"

lemma wline_step:
  assumes "j < 80" "0 < s" "s < 32"
  shows "wline (line_step (int j) xw k s l) = spec_step j (w32 xw) (w32 k) (nat s) (wline l)"
proof -
  obtain A B C D E where l: "l = (A, B, C, D, E)" by (cases l) auto
  show ?thesis
    unfolding l wline_def line_step_def spec_step_def prod.case Let_def
    by (simp only: w32_safe_add w32_bit_rol [OF assms(2,3)] w32_f [OF assms(1)] w32_bit_rol [of 10, simplified]
        prod.inject refl simp_thms)
qed

lemma rmd_loop_ok:
  assumes "length X = 16" "\<And>k. k < 16 \<Longrightarrow> w32 (js_num x (i + k)) = X ! k" "j + n \<le> 80"
  shows "wline (fst (rmd_loop x i n j l1 l2)) = fold (spec_left X) [j..<j + n] (wline l1) \<and>
    wline (snd (rmd_loop x i n j l1 l2)) = fold (spec_right X) [j..<j + n] (wline l2)"
  using assms(3)
proof (induction n arbitrary: j l1 l2)
  case 0
  then show ?case by simp
next
  case (Suc n)
  have j: "j < 80" "79 - j < 80" "79 - int j = int (79 - j)" using Suc.prems by auto
  note t = tables [OF j(1)]
  define l1' where "l1' = line_step (int j) (js_num x (i + rmd160_r1 ! j)) (operand (rmd160_K1 (int j))) (rmd160_s1 ! j) l1"
  define l2' where "l2' = line_step (79 - int j) (js_num x (i + rmd160_r2 ! j)) (operand (rmd160_K2 (int j))) (rmd160_s2 ! j) l2"
  have "wline l1' = spec_left X j (wline l1)"
    unfolding l1'_def wline_step [OF j(1) t(7,8)] spec_left_def t(11)
    by (simp only: t(1,3) nat_int assms(2) [OF t(5)])
  moreover have "wline l2' = spec_right X j (wline l2)"
    unfolding l2'_def j(3) wline_step [OF j(2) t(9,10)] spec_right_def t(12)
    by (simp only: t(2,4) nat_int assms(2) [OF t(6)])
  moreover have "rmd_loop x i (Suc n) j l1 l2 = rmd_loop x i n (Suc j) l1' l2'"
    by (simp add: l1'_def l2'_def)
  moreover have "[j..<j + Suc n] = j # [Suc j..<Suc j + n]" by (simp add: upt_conv_Cons)
  ultimately show ?case using Suc.IH [of "Suc j" l1' l2'] Suc.prems by simp
qed

section \<open>Little-endian words\<close>

lemma btlw_loop_append:
  "btlw_loop (xs @ [x]) i ws =
     (let ws' = btlw_loop xs i ws; i' = i + 8 * int (length xs); k = nat (js_shr i' 5)
      in js_set ws' k (js_or (js_num ws' k) (js_shl (js_and x 0xFF) (i' mod 32))))"
  by (induction xs arbitrary: i ws) (simp_all add: Let_def algebra_simps)

lemma or_shift_add_low:
  assumes "toUint32 a = A" "0 \<le> A" "A < 2 ^ k" "0 \<le> x" "x < 256" "k \<le> 24"
  shows "toUint32 (js_or a (js_shl x (int k))) = A + x * 2 ^ k"
proof -
  have "(2::int) ^ k \<le> 2 ^ 24" using assms(6) by (intro power_increasing) auto
  then have "x * 2 ^ k \<le> 255 * 2 ^ 24" using assms(4,5) by (intro mult_mono) auto
  then have s: "toUint32 (js_shl x (int k)) = x * 2 ^ k" using assms(4-6) by (subst toUint32_shl) auto
  have "toUint32 (js_or a (js_shl x (int k))) = (x * 2 ^ k) OR A"
    by (simp add: toUint32_or s assms(1) or.commute)
  also have "\<dots> = x * 2 ^ k + A" using assms(2,3) by (rule or_eq_add)
  finally show ?thesis by simp
qed

lemma js_num_replicate0 [simp]: "js_num (replicate n 0) k = 0"
  by (simp add: js_num_def)

lemma btlw_loop_ok:
  assumes "is_bytes bs" "length bs < 2 ^ 28"
  shows "length (btlw_loop bs 0 (replicate z 0)) = max z ((length bs + 3) div 4) \<and>
    (\<forall>k. toUint32 (js_num (btlw_loop bs 0 (replicate z 0)) k) = le_word bs k)"
  using assms
proof (induction bs rule: rev_induct)
  case Nil
  then show ?case by (simp add: le_word_def)
next
  case (snoc x bs)
  define p q r where "p = length bs" and "q = p div 4" and "r = p mod 4"
  define ws where "ws = btlw_loop bs 0 (replicate z 0)"
  have IH: "length ws = max z ((p + 3) div 4)" "\<And>k. toUint32 (js_num ws k) = le_word bs k"
    using snoc by (simp_all add: ws_def p_def)
  have x: "0 \<le> x" "x < 256" and p: "8 * int p < 2 ^ 31" using snoc.prems by (simp_all add: p_def)
  have pq: "p = 4 * q + r" "r < 4" by (simp_all add: q_def r_def)
  have i: "nat (js_shr (8 * int p) 5) = q" using p by (simp add: js_shr_div q_def)
  have sh: "8 * int p mod 32 = int (8 * r)"
    using mult_mod_right [of 8 "int p" 4] by (simp add: r_def zmod_int)
  have x255: "js_and x 0xFF = x" using x by (simp add: js_and_mask_num)
  define v where "v = js_or (js_num ws q) (js_shl x (int (8 * r)))"
  have new: "btlw_loop (bs @ [x]) 0 (replicate z 0) = js_set ws q v"
    by (simp add: btlw_loop_append Let_def i x255 sh v_def flip: p_def ws_def)
  have out: "js_num bs k = 0" if "p \<le> k" for k using that by (simp add: p_def)
  have inn: "js_num (bs @ [x]) k = (if k = p then x else js_num bs k)" for k
    by (auto simp: js_num_def nth_append p_def)
  have byte: "0 \<le> js_num bs k \<and> js_num bs k \<le> 255" for k
    using is_bytes_nth [of bs k] snoc.prems by simp
  have "r = 0 \<or> r = 1 \<or> r = 2 \<or> r = 3" using pq(2) by linarith
  then have le: "0 \<le> le_word bs q \<and> le_word bs q < 2 ^ (8 * r) \<and>
      le_word (bs @ [x]) q = le_word bs q + x * 2 ^ (8 * r)"
    using byte [of "4 * q"] byte [of "4 * q + 1"] byte [of "4 * q + 2"]
    by (elim disjE) (simp_all add: le_word_def out inn pq(1))
  have "toUint32 v = le_word (bs @ [x]) q"
    unfolding v_def using le x pq(2) by (subst or_shift_add_low [OF IH(2)]) auto
  moreover have "le_word (bs @ [x]) k = le_word bs k" if "k \<noteq> q" for k
  proof -
    have "4 * k \<noteq> p" "4 * k + 1 \<noteq> p" "4 * k + 2 \<noteq> p" "4 * k + 3 \<noteq> p" using that by (auto simp: q_def)
    then show ?thesis unfolding le_word_def inn by simp
  qed
  moreover have "length (js_set ws q v) = max z ((Suc p + 3) div 4)"
    using IH(1) by (simp add: length_js_set q_def)
  ultimately show ?case using IH(2) unfolding new by (simp add: js_num_js_set p_def)
qed

lemma le_word_nth:
  assumes "is_bytes bs" "r < 4"
  shows "le_word bs k div 2 ^ (8 * r) mod 256 = js_num bs (4 * k + r)"
proof -
  define ds where "ds = [js_num bs (4 * k), js_num bs (4 * k + 1), js_num bs (4 * k + 2), js_num bs (4 * k + 3)]"
  have ds: "digits_in 256 ds" using is_bytes_nth [OF assms(1)] by (simp add: ds_def)
  have w: "le_word bs k = val 256 ds" unfolding le_word_def ds_def by simp
  have "(2::int) ^ (8 * r) = 256 ^ r" by (simp add: power_mult)
  then have "le_word bs k div 2 ^ (8 * r) mod 256 = val 256 ds div 256 ^ r mod 256" by (simp only: w)
  also have "\<dots> = ds ! r" using assms(2) by (intro radix256.val_nth [OF ds, symmetric]) (simp add: ds_def)
  also have "\<dots> = js_num bs (4 * k + r)"
  proof -
    have "r = 0 \<or> r = 1 \<or> r = 2 \<or> r = 3" using assms(2) by linarith
    then show ?thesis unfolding ds_def by (elim disjE) simp_all
  qed
  finally show ?thesis .
qed

section \<open>Padding agrees\<close>

lemma rmd_pad_words:
  assumes "is_bytes bs" "length bs < 2 ^ 28 - 8" "N = (length bs + 8) div 64"
  obtains z where "rmd_pad bs = js_set (btlw_loop (bs @ [0x80]) 0 (replicate z 0)) (16 * N + 14) (8 * int (length bs))"
    "z = length bs div 4"
proof -
  define n where "n = length bs"
  have n: "n < 2 ^ 28 - 8" using assms(2) by (simp add: n_def)
  have l: "8 * int n < 2 ^ 31 - 64" using n by simp
  have 2: "js_ushr (8 * int n + 64) 9 = int N"
    using l unfolding assms(3) n_def [symmetric] by (simp add: js_ushr_div zdiv_int)
  have "N \<le> 2 ^ 22" using n unfolding assms(3) n_def [symmetric] by simp
  then have 3: "js_shl (int N) 4 = int N * 16" by (subst js_shl_mult_pos) auto
  have "js_shr (int n) 2 = int n div 4" using n by (simp add: js_shr_div)
  then have 4: "nat (js_shr (int n) 2) = n div 4" by (simp flip: zdiv_int)
  have "btlw_loop (bs @ [0x80]) 0 ws = (let m = btlw_loop bs 0 ws; i = nat (js_shr (8 * int n) 5)
      in js_set m i (js_or (js_num m i) (js_shl 0x80 (8 * int n mod 32))))" for ws
    by (simp add: btlw_loop_append Let_def js_and_mask_num flip: n_def)
  moreover have "nat (js_shl (js_ushr (8 * int n + 64) 9) 4 + 14) = 16 * N + 14" unfolding 2 3 by simp
  moreover have "int n * 8 = 8 * int n" by simp
  ultimately have "rmd_pad bs = js_set (btlw_loop (bs @ [0x80]) 0 (replicate (n div 4) 0)) (16 * N + 14) (8 * int n)"
    by (simp only: rmd_pad_def bytesToLWords_def Let_def n_def [symmetric] 4)
  then show thesis by (rule that [unfolded n_def [symmetric]]) simp
qed

lemma spec_pad_shape:
  assumes "N = (length bs + 8) div 64"
  obtains z where "spec_pad bs = (bs @ [0x80]) @ replicate z 0 @ le_bytes8 (8 * length bs)"
    "length bs + 1 + z = 64 * N + 56"
  by (rule that [of "nat ((55 - int (length bs)) mod 64)"]) (simp_all add: spec_pad_def pad_zeros [OF assms, simplified])

lemma le_bytes8_small:
  assumes "n < 2 ^ 31"
  shows "le_bytes8 n ! 0 + (le_bytes8 n ! 1) * 2 ^ 8 + (le_bytes8 n ! 2) * 2 ^ 16 + (le_bytes8 n ! 3) * 2 ^ 24 = int n"
    "4 \<le> k \<Longrightarrow> k < 8 \<Longrightarrow> le_bytes8 n ! k = 0"
proof -
  show "le_bytes8 n ! 0 + (le_bytes8 n ! 1) * 2 ^ 8 + (le_bytes8 n ! 2) * 2 ^ 16 + (le_bytes8 n ! 3) * 2 ^ 24 = int n"
    using byte_of_small(1) [OF assms] by (simp add: le_bytes8_def)
  assume "4 \<le> k" "k < 8"
  then have "k = 4 \<or> k = 5 \<or> k = 6 \<or> k = 7" by linarith
  then show "le_bytes8 n ! k = 0" using byte_of_small(2) [OF assms] by (elim disjE) (simp_all add: le_bytes8_def)
qed

lemma rmd_pad_ok:
  assumes "is_bytes bs" "length bs < 2 ^ 28 - 8" "N = (length bs + 8) div 64"
  shows "(length (rmd_pad bs) + 15) div 16 = N + 1" "length (spec_pad bs) = 64 * (N + 1)"
    "k < 16 * (N + 1) \<Longrightarrow> w32 (js_num (rmd_pad bs) k) = w32 (le_word (spec_pad bs) k)"
proof -
  define bs' where "bs' = bs @ [0x80 :: int]"
  obtain z where z: "spec_pad bs = bs' @ replicate z 0 @ le_bytes8 (8 * length bs)"
      "length bs + 1 + z = 64 * N + 56"
    using spec_pad_shape [OF assms(3)] by (metis bs'_def)
  obtain y where p: "rmd_pad bs = js_set (btlw_loop bs' 0 (replicate y 0)) (16 * N + 14) (8 * int (length bs))"
      and y: "y = length bs div 4"
    using rmd_pad_words [OF assms] by (metis bs'_def)
  have l8: "length (le_bytes8 n) = 8" for n by (simp add: le_bytes8_def)
  show lf: "length (spec_pad bs) = 64 * (N + 1)" using z by (simp add: l8 bs'_def)
  have b': "is_bytes bs'" "length bs' < 2 ^ 28" using assms(1,2) by (simp_all add: bs'_def)
  note w = btlw_loop_ok [OF b', of y]
  have lw: "length (btlw_loop bs' 0 (replicate y 0)) \<le> 16 * N + 14" using w z(2) by (simp add: bs'_def y)
  have "length (rmd_pad bs) = 16 * N + 15" using lw by (simp add: p length_js_set)
  then show "(length (rmd_pad bs) + 15) div 16 = N + 1" by simp
  assume k: "k < 16 * (N + 1)"
  have low: "js_num (spec_pad bs) i = js_num bs' i" if "i < 64 * N + 56" for i
    using that z(2) unfolding z(1) by (auto simp: js_num_def nth_append bs'_def)
  have high: "js_num (spec_pad bs) (64 * N + 56 + i) = le_bytes8 (8 * length bs) ! i" if "i < 8" for i
  proof -
    have "length (bs' @ replicate z 0) = 64 * N + 56" using z(2) by (simp add: bs'_def)
    then show ?thesis using that l8 nth_append_length_plus [of "bs' @ replicate z 0" "le_bytes8 (8 * length bs)" i]
      by (simp add: js_num_def lf z(1))
  qed
  have small: "8 * length bs < 2 ^ 31" using assms(2) by simp
  note e8 = le_bytes8_small [OF small]
  have u: "w32 (js_num (btlw_loop bs' 0 (replicate y 0)) k) = w32 (le_word bs' k)" using w by (metis w32_toUint32)
  have "k < 16 * N + 14 \<or> k = 16 * N + 14 \<or> k = 16 * N + 15" using k by auto
  then consider "k < 16 * N + 14" | "k = 16 * N + 14" | "k = 16 * N + 15" by blast
  then show "w32 (js_num (rmd_pad bs) k) = w32 (le_word (spec_pad bs) k)"
  proof cases
    case 1
    then have "le_word (spec_pad bs) k = le_word bs' k" by (simp add: le_word_def low)
    then show ?thesis using u 1 by (simp add: p js_num_js_set)
  next
    case 2
    have h: "js_num (spec_pad bs) (4 * k + r) = le_bytes8 (8 * length bs) ! r" if "r < 4" for r
    proof -
      have "4 * k + r = 64 * N + 56 + r" using 2 by simp
      then show ?thesis using high [of r] that by (simp only:)
    qed
    note h0 = h [of 0, simplified] h [of 1, simplified] h [of 2, simplified] h [of 3, simplified]
    have "le_word (spec_pad bs) k = int (8 * length bs)"
      using e8(1) h0 by (simp add: le_word_def)
    then show ?thesis by (simp add: p js_num_js_set 2)
  next
    case 3
    have h: "js_num (spec_pad bs) (4 * k + r) = 0" if "r < 4" for r
    proof -
      have e: "4 * k + r = 64 * N + 56 + (4 + r)" using 3 by simp
      have "js_num (spec_pad bs) (64 * N + 56 + (4 + r)) = le_bytes8 (8 * length bs) ! (4 + r)"
        using that by (intro high) simp
      then show ?thesis unfolding e using e8(2) [of "4 + r"] that by simp
    qed
    note h0 = h [of 0, simplified] h [of 1, simplified] h [of 2, simplified] h [of 3, simplified]
    have "le_word (spec_pad bs) k = 0" using h0 by (simp add: le_word_def)
    then show ?thesis using lw 3 by (simp add: p js_num_js_set)
  qed
qed

section \<open>The code computes RIPEMD-160\<close>

lemma wline_combine:
  "wline (rmd_combine h l1 l2) =
     (let (h0, h1, h2, h3, h4) = wline h; (A, B, C, D, E) = wline l1; (A', B', C', D', E') = wline l2
      in (h1 + C + D', h2 + D + E', h3 + E + A', h4 + A + B', h0 + B + C'))"
  by (cases h; cases l1; cases l2) (simp add: wline_def rmd_combine_def w32_safe_add add.assoc)

lemma rmd_blocks_ok:
  assumes "\<And>k. k < 16 * (i + n) \<Longrightarrow> w32 (js_num m k) = w32 (le_word p k)"
  shows "wline (rmd_blocks m n (16 * i) h)
    = fold (\<lambda>i h. spec_compress h (spec_block p i)) [i..<i + n] (wline h)"
  using assms
proof (induction n arbitrary: i h)
  case 0
  then show ?case by simp
next
  case (Suc n)
  obtain l1 l2 where r: "rmd_loop m (16 * i) 80 0 h h = (l1, l2)" by (rule prod.exhaust)
  have M: "w32 (js_num m (16 * i + k)) = spec_block p i ! k" if "k < 16" for k
    using Suc.prems [of "16 * i + k"] that by (simp add: spec_block_def)
  have l: "wline l1 = fold (spec_left (spec_block p i)) [0..<80] (wline h)"
    "wline l2 = fold (spec_right (spec_block p i)) [0..<80] (wline h)"
    using rmd_loop_ok [of "spec_block p i" m "16 * i" 0 80 h h, OF _ M] r
    by (simp_all add: spec_block_def del: upt_Suc)
  have "wline (rmd_combine h l1 l2) = spec_compress (wline h) (spec_block p i)"
    unfolding wline_combine spec_compress_def l ..
  moreover have "rmd_blocks m (Suc n) (16 * i) h = rmd_blocks m n (16 * Suc i) (rmd_combine h l1 l2)"
    by (simp add: r add.commute)
  moreover have "[i..<i + Suc n] = i # [Suc i..<Suc i + n]" by (simp add: upt_conv_Cons)
  moreover have "wline (rmd_blocks m n (16 * Suc i) (rmd_combine h l1 l2))
    = fold (\<lambda>i h. spec_compress h (spec_block p i)) [Suc i..<Suc i + n] (wline (rmd_combine h l1 l2))"
    using Suc.prems by (intro Suc.IH) simp
  ultimately show ?case by simp
qed

lemma rmd160_core_ok:
  assumes "is_bytes bs" "length bs < 2 ^ 28 - 8"
  shows "map w32 (rmd160_core bs) = spec_rmd160 bs"
proof -
  define N where "N = (length bs + 8) div 64"
  note p = rmd_pad_ok [OF assms N_def]
  have n: "length (spec_pad bs) div 64 = N + 1" unfolding p(2) by simp
  have i: "wline rmd_init = spec_init" by (simp add: wline_def rmd_init_def spec_init_def)
  have l: "map w32 (line_list s) = wline_list (wline s)" for s
    by (cases s) (simp add: wline_def line_list_def wline_list_def)
  have "wline (rmd_blocks (rmd_pad bs) (N + 1) (16 * 0) rmd_init)
      = fold (\<lambda>i h. spec_compress h (spec_block (spec_pad bs) i)) [0..<0 + (N + 1)] spec_init"
    unfolding i [symmetric] by (rule rmd_blocks_ok) (simp add: p(3))
  then show ?thesis
    unfolding rmd160_core_def spec_rmd160_def Let_def n p(1) by (simp add: l del: upt_Suc)
qed

lemma length_rmd160_core [simp]: "length (rmd160_core bs) = 5"
  by (simp add: rmd160_core_def Let_def line_list_def split: prod.split)

lemma RIPEMD160_asBytes_length [simp]: "length (RIPEMD160_asBytes bs) = 20" "is_bytes (RIPEMD160_asBytes bs)"
  by (auto simp: RIPEMD160_asBytes_def lWordsToBytes_def Let_def is_bytes_def digits_in_def js_and_mask_num)

definition word_lbytes :: "32 word \<Rightarrow> int list" where
  "word_lbytes w = map (\<lambda>k. uint w div 2 ^ k mod 256) [0, 8, 16, 24]"

lemma lWordsToBytes_word_lbytes:
  assumes "length ws < 2 ^ 26"
  shows "lWordsToBytes ws = concat (map word_lbytes (map w32 ws))"
proof (rule nth_equalityI)
  show "length (lWordsToBytes ws) = length (concat (map word_lbytes (map w32 ws)))"
    by (simp add: lWordsToBytes_def length_concat word_lbytes_def comp_def sum_list_triv)
  fix i assume "i < length (lWordsToBytes ws)"
  then have i: "i < 4 * length ws" by (simp add: lWordsToBytes_def)
  have u: "toUint32 x = uint (w32 x)" for x by (simp add: toUint32_def uint_word_of_int take_bit_eq_mod)
  have c: "concat (map word_lbytes vs) ! i = uint (vs ! (i div 4)) div 2 ^ (8 * (i mod 4)) mod 256"
    if "i < 4 * length vs" for vs i
    using that
  proof (induction vs arbitrary: i)
    case (Cons v vs)
    have b: "length (word_lbytes v) = 4" by (simp add: word_lbytes_def)
    show ?case
    proof (cases "i < 4")
      case True
      then have "i = 0 \<or> i = 1 \<or> i = 2 \<or> i = 3" by linarith
      then show ?thesis by (elim disjE) (simp_all add: nth_append word_lbytes_def)
    next
      case False
      define j where "j = i - 4"
      have j: "i = j + 4" using False by (simp add: j_def)
      show ?thesis using Cons.IH [of j] Cons.prems b by (simp add: nth_append j)
    qed
  qed simp
  have b: "8 * int i < 2 ^ 31" using i assms by simp
  have k: "nat (js_shr (8 * int i) 5) = i div 4" using b by (simp add: js_shr_div)
  have m: "8 * int i mod 32 = int (8 * (i mod 4))"
    using mult_mod_right [of 8 "int i" 4] by (simp add: zmod_int)
  have q: "i div 4 < length ws" using i by simp
  have "lWordsToBytes ws ! i = js_and (js_ushr (js_num ws (nat (js_shr (8 * int i) 5))) (8 * int i mod 32)) 0xff"
    using i by (simp add: lWordsToBytes_def Let_def)
  also have "\<dots> = toUint32 (ws ! (i div 4)) div 2 ^ (8 * (i mod 4)) mod 256"
    unfolding k m using q by (subst js_ushr_int) (simp_all add: js_and_mask_num)
  finally show "lWordsToBytes ws ! i = concat (map word_lbytes (map w32 ws)) ! i"
    using c [of i "map w32 ws"] i q by (simp add: u)
qed

section \<open>What the component promises\<close>

text \<open>
  C10: on byte arrays shorter than \<open>2^28 - 8\<close> the code computes RIPEMD-160 as its specification defines it,
  the message words and rotations of its tables given by the permutations \<open>rho\<close> and \<open>pi\<close>.
\<close>

theorem ripemd160_spec:
  assumes "is_bytes bs" "length bs < 2 ^ 28 - 8"
  shows "map w32 (rmd160_core bs) = spec_rmd160 bs \<and>
    RIPEMD160_asBytes bs = concat (map word_lbytes (spec_rmd160 bs)) \<and>
    length (RIPEMD160_asBytes bs) = 20 \<and> is_bytes (RIPEMD160_asBytes bs)"
proof (intro conjI)
  show c: "map w32 (rmd160_core bs) = spec_rmd160 bs" by (rule rmd160_core_ok [OF assms])
  show "RIPEMD160_asBytes bs = concat (map word_lbytes (spec_rmd160 bs))"
    unfolding RIPEMD160_asBytes_def by (subst lWordsToBytes_word_lbytes) (simp_all add: c)
qed simp_all

theorem ripemd160_spec_witness:
  "RIPEMD160_asBytes [97, 98, 99] = concat (map word_lbytes (spec_rmd160 [97, 98, 99]))"
  using ripemd160_spec [of "[97, 98, 99]"] by simp

end
