(* ===== verification/BigCore.thy ===== *)
theory BigCore
  imports Radix
begin

text \<open>
  \<open>src/biginteger.js\<close>: the representation of big integers and the linear operations (set from an
  integer, clamp, add, subtract, compare, shift).

  An object holds \<open>t\<close> digits \<open>this[0..t-1]\<close> in base \<open>2^DB\<close>, least significant first, and a sign word \<open>s\<close>
  that is 0 or -1 and continues the digits upwards as in two's complement: it denotes
  \<open>\<Sum> this[i] * 2^(DB*i) + s * 2^(DB*t)\<close> (\<open>bval\<close>). The record \<open>big\<close> keeps the \<open>t\<close> digits as a list. The
  number of bits per digit and the multiplication kernel depend on the browser (\<open>engine\<close>). Operations of
  the code store into a result object \<open>r\<close>; each definition returns the contents of \<open>r\<close>. Where the code
  passes the same object as \<open>this\<close> (or \<open>a\<close>) and \<open>r\<close>, its loops read a digit before they overwrite it,
  so the returned contents are the same.
\<close>

section \<open>Engines and constants\<close>

datatype engine = MSIE | OtherBrowser | Netscape

definition j_lm :: bool where
  "j_lm \<longleftrightarrow> js_and 0xdeadbeefcafe 0xffffff = 0xefcafe"

definition select_engine :: "bool \<Rightarrow> string \<Rightarrow> engine" where
  "select_engine lm appName =
     (if lm \<and> appName = ''Microsoft Internet Explorer'' then MSIE
      else if lm \<and> appName \<noteq> ''Netscape'' then OtherBrowser
      else Netscape)"

fun DB :: "engine \<Rightarrow> nat" where
  "DB MSIE = 30"
| "DB OtherBrowser = 26"
| "DB Netscape = 28"

definition DV :: "engine \<Rightarrow> int" where
  "DV e = js_shl 1 (int (DB e))"

definition DM :: "engine \<Rightarrow> int" where
  "DM e = js_shl 1 (int (DB e)) - 1"

definition BI_FP :: nat where "BI_FP = 52"

definition FV :: "engine \<Rightarrow> int" where "FV e = 2 ^ BI_FP"

definition F1 :: "engine \<Rightarrow> nat" where "F1 e = BI_FP - DB e"

definition F2 :: "engine \<Rightarrow> nat" where "F2 e = 2 * DB e - BI_FP"

record big =
  digs :: "int list"
  sg :: int

abbreviation bt :: "big \<Rightarrow> nat" where "bt b \<equiv> length (digs b)"

text \<open>Bit length, lowest set bit and number of set bits of a Number.\<close>

definition nbits_step :: "int \<Rightarrow> int \<Rightarrow> int \<times> int \<Rightarrow> int \<times> int" where
  "nbits_step t k = (\<lambda>(x, r). if t \<noteq> 0 then (t, r + k) else (x, r))"

definition nbits :: "int \<Rightarrow> int" where
  "nbits x0 =
     (let p = (x0, 1);
          p = nbits_step (js_ushr (fst p) 16) 16 p;
          p = nbits_step (js_shr (fst p) 8) 8 p;
          p = nbits_step (js_shr (fst p) 4) 4 p;
          p = nbits_step (js_shr (fst p) 2) 2 p;
          p = nbits_step (js_shr (fst p) 1) 1 p
      in snd p)"

definition lbit :: "int \<Rightarrow> int" where
  "lbit x0 =
     (if x0 = 0 then -1
      else
        let (x, r) = (x0, 0);
            (x, r) = (if js_and x 0xffff = 0 then (js_shr x 16, r + 16) else (x, r));
            (x, r) = (if js_and x 0xff = 0 then (js_shr x 8, r + 8) else (x, r));
            (x, r) = (if js_and x 0xf = 0 then (js_shr x 4, r + 4) else (x, r));
            (x, r) = (if js_and x 3 = 0 then (js_shr x 2, r + 2) else (x, r));
            r = (if js_and x 1 = 0 then r + 1 else r)
        in r)"

partial_function (option) cbit_loop :: "int \<Rightarrow> int \<Rightarrow> int option" where
  "cbit_loop x r = (if x \<noteq> 0 then cbit_loop (js_and x (x - 1)) (r + 1) else Some r)"

definition cbit :: "int \<Rightarrow> int option" where
  "cbit x = cbit_loop x 0"

section \<open>The operations\<close>

definition fromInt :: "engine \<Rightarrow> int \<Rightarrow> big" where
  "fromInt e x =
     \<lparr>digs = (if x > 0 then [x] else if x < -1 then [x + DV e] else []),
      sg = (if x < 0 then -1 else 0)\<rparr>"

abbreviation nbv :: "engine \<Rightarrow> int \<Rightarrow> big" where "nbv e i \<equiv> fromInt e i"

definition ZERO :: "engine \<Rightarrow> big" where "ZERO e = nbv e 0"

definition ONE :: "engine \<Rightarrow> big" where "ONE e = nbv e 1"

definition clamp :: "engine \<Rightarrow> big \<Rightarrow> big" where
  "clamp e b =
     (let c = js_and (sg b) (DM e)
      in b\<lparr>digs := rev (dropWhile (\<lambda>d. d = c) (rev (digs b)))\<rparr>)"

definition dlShiftTo :: "nat \<Rightarrow> big \<Rightarrow> big" where
  "dlShiftTo n b = \<lparr>digs = replicate n 0 @ digs b, sg = sg b\<rparr>"

definition drShiftTo :: "nat \<Rightarrow> big \<Rightarrow> big" where
  "drShiftTo n b = \<lparr>digs = drop n (digs b), sg = sg b\<rparr>"

text \<open>The loop of \<open>lShiftTo\<close> runs from the top digit down (the list is reversed) and ends with \<open>r[ds] = c\<close>.\<close>

fun lshift_loop :: "int \<Rightarrow> int \<Rightarrow> int \<Rightarrow> int list \<Rightarrow> int \<Rightarrow> int list \<Rightarrow> int list" where
  "lshift_loop bs cbs bm [] c r = c # r"
| "lshift_loop bs cbs bm (d # ds) c r =
     lshift_loop bs cbs bm ds (js_shl (js_and d bm) bs) (js_or (js_shr d cbs) c # r)"

definition lShiftTo :: "engine \<Rightarrow> nat \<Rightarrow> big \<Rightarrow> big" where
  "lShiftTo e n b =
     (let bs = int (n mod DB e); cbs = int (DB e) - bs; bm = js_shl 1 cbs - 1;
          ds = n div DB e; c = js_and (js_shl (sg b) bs) (DM e)
      in clamp e
        \<lparr>digs = replicate ds 0 @ lshift_loop bs cbs bm (rev (digs b)) c [], sg = sg b\<rparr>)"

fun rshift_loop :: "int \<Rightarrow> int \<Rightarrow> int \<Rightarrow> int \<Rightarrow> int \<Rightarrow> int list \<Rightarrow> int list" where
  "rshift_loop bs cbs bm s cur [] =
     [if bs > 0 then js_or cur (js_shl (js_and s bm) cbs) else cur]"
| "rshift_loop bs cbs bm s cur (d # ds) =
     js_or cur (js_shl (js_and d bm) cbs) # rshift_loop bs cbs bm s (js_shr d bs) ds"

definition rShiftTo :: "engine \<Rightarrow> nat \<Rightarrow> big \<Rightarrow> big" where
  "rShiftTo e n b =
     (let ds = n div DB e in
      if ds \<ge> bt b then \<lparr>digs = [], sg = sg b\<rparr>
      else
        let bs = int (n mod DB e); cbs = int (DB e) - bs; bm = js_shl 1 bs - 1
        in clamp e
          \<lparr>digs = rshift_loop bs cbs bm (sg b) (js_shr (digs b ! ds) bs) (drop (Suc ds) (digs b)),
           sg = sg b\<rparr>)"

text \<open>The three loops of \<open>subTo\<close> and \<open>addTo\<close>; each returns the digits written and the last carry.\<close>

fun sub_loop :: "engine \<Rightarrow> int \<Rightarrow> int list \<Rightarrow> int list \<Rightarrow> int list \<times> int" where
  "sub_loop e c (x # xs) (y # ys) =
     (let c' = c + (x - y); (r, k) = sub_loop e (js_shr c' (int (DB e))) xs ys
      in (js_and c' (DM e) # r, k))"
| "sub_loop e c xs ys = ([], c)"

fun add_loop :: "engine \<Rightarrow> int \<Rightarrow> int list \<Rightarrow> int list \<Rightarrow> int list \<times> int" where
  "add_loop e c (x # xs) (y # ys) =
     (let c' = c + (x + y); (r, k) = add_loop e (js_shr c' (int (DB e))) xs ys
      in (js_and c' (DM e) # r, k))"
| "add_loop e c xs ys = ([], c)"

fun plus_loop :: "engine \<Rightarrow> int \<Rightarrow> int list \<Rightarrow> int list \<times> int" where
  "plus_loop e c [] = ([], c)"
| "plus_loop e c (x # xs) =
     (let c' = c + x; (r, k) = plus_loop e (js_shr c' (int (DB e))) xs
      in (js_and c' (DM e) # r, k))"

fun minus_loop :: "engine \<Rightarrow> int \<Rightarrow> int list \<Rightarrow> int list \<times> int" where
  "minus_loop e c [] = ([], c)"
| "minus_loop e c (x # xs) =
     (let c' = c - x; (r, k) = minus_loop e (js_shr c' (int (DB e))) xs
      in (js_and c' (DM e) # r, k))"

definition subTo :: "engine \<Rightarrow> big \<Rightarrow> big \<Rightarrow> big" where
  "subTo e this a =
     (let m = min (bt a) (bt this);
          (r1, c1) = sub_loop e 0 (take m (digs this)) (take m (digs a));
          (r2, c2) =
            (if bt a < bt this
             then let (r, c) = plus_loop e (c1 - sg a) (drop m (digs this)) in (r, c + sg this)
             else let (r, c) = minus_loop e (c1 + sg this) (drop m (digs a)) in (r, c - sg a));
          r3 = (if c2 < -1 then [DV e + c2] else if c2 > 0 then [c2] else [])
      in clamp e \<lparr>digs = r1 @ r2 @ r3, sg = (if c2 < 0 then -1 else 0)\<rparr>)"

definition addTo :: "engine \<Rightarrow> big \<Rightarrow> big \<Rightarrow> big" where
  "addTo e this a =
     (let m = min (bt a) (bt this);
          (r1, c1) = add_loop e 0 (take m (digs this)) (take m (digs a));
          (r2, c2) =
            (if bt a < bt this
             then let (r, c) = plus_loop e (c1 + sg a) (drop m (digs this)) in (r, c + sg this)
             else let (r, c) = plus_loop e (c1 + sg this) (drop m (digs a)) in (r, c + sg a));
          r3 = (if c2 > 0 then [c2] else if c2 < -1 then [DV e + c2] else [])
      in clamp e \<lparr>digs = r1 @ r2 @ r3, sg = (if c2 < 0 then -1 else 0)\<rparr>)"

definition negate :: "engine \<Rightarrow> big \<Rightarrow> big" where
  "negate e this = subTo e (ZERO e) this"

definition abs_big :: "engine \<Rightarrow> big \<Rightarrow> big" where
  "abs_big e this = (if sg this < 0 then negate e this else this)"

text \<open>The comparison loop runs from the top digit down, on the reversed digit lists.\<close>

fun compare_loop :: "int list \<Rightarrow> int list \<Rightarrow> int" where
  "compare_loop (x # xs) (y # ys) = (if x - y \<noteq> 0 then x - y else compare_loop xs ys)"
| "compare_loop xs ys = 0"

definition compareTo :: "big \<Rightarrow> big \<Rightarrow> int" where
  "compareTo this a =
     (let r = sg this - sg a in
      if r \<noteq> 0 then r
      else let r = int (bt this) - int (bt a) in
        if r \<noteq> 0 then (if sg this < 0 then - r else r)
        else compare_loop (rev (digs this)) (rev (digs a)))"

definition isEven :: "big \<Rightarrow> bool" where
  "isEven this = ((if digs this \<noteq> [] then js_and (hd (digs this)) 1 else sg this) = 0)"

definition bitLength :: "engine \<Rightarrow> big \<Rightarrow> int" where
  "bitLength e this =
     (if digs this = [] then 0
      else int (DB e) * (int (bt this) - 1)
        + nbits (js_xor (last (digs this)) (js_and (sg this) (DM e))))"

definition signum :: "big \<Rightarrow> int" where
  "signum this =
     (if sg this < 0 then -1
      else if digs this = [] \<or> (bt this = 1 \<and> hd (digs this) \<le> 0) then 0
      else 1)"

definition add :: "engine \<Rightarrow> big \<Rightarrow> big \<Rightarrow> big" where
  "add e this a = addTo e this a"

definition subtract :: "engine \<Rightarrow> big \<Rightarrow> big \<Rightarrow> big" where
  "subtract e this a = subTo e this a"

definition shiftLeft :: "engine \<Rightarrow> int \<Rightarrow> big \<Rightarrow> big" where
  "shiftLeft e n this = (if n < 0 then rShiftTo e (nat (- n)) this else lShiftTo e (nat n) this)"

definition shiftRight :: "engine \<Rightarrow> int \<Rightarrow> big \<Rightarrow> big" where
  "shiftRight e n this = (if n < 0 then lShiftTo e (nat (- n)) this else rShiftTo e (nat n) this)"

definition equals :: "big \<Rightarrow> big \<Rightarrow> bool" where
  "equals this a \<longleftrightarrow> compareTo this a = 0"

definition min_big :: "big \<Rightarrow> big \<Rightarrow> big" where
  "min_big this a = (if compareTo this a < 0 then this else a)"

definition max_big :: "big \<Rightarrow> big \<Rightarrow> big" where
  "max_big this a = (if compareTo this a > 0 then this else a)"

section \<open>Constants as powers of two\<close>

lemma DV_eq: "DV e = 2 ^ DB e"
  by (cases e) (simp_all add: DV_def js_shl_mult)

lemma DM_eq: "DM e = 2 ^ DB e - 1"
  using DV_eq [of e] by (simp add: DM_def DV_def)

lemma j_lm_holds: j_lm
  by (simp add: j_lm_def js_and_def toInt32_def)

lemma DB_bounds: "26 \<le> DB e" "DB e \<le> 30"
  by (cases e; simp)+

lemma DV_bounds: "0 < DV e" "2 \<le> DV e" "DV e \<le> 2 ^ 30" "2 ^ 26 \<le> DV e"
  by (cases e; simp add: DV_eq)+

lemma js_and_DM [js_arith]: "js_and c (DM e) = c mod DV e"
  unfolding DM_eq DV_eq using DB_bounds(2) [of e] by (intro js_and_mask) simp

lemma js_shr_DB [js_arith]:
  assumes "- (2 ^ 31) \<le> c" "c < 2 ^ 31"
  shows "js_shr c (int (DB e)) = c div DV e"
  using assms DB_bounds(2) [of e] by (simp add: js_shr_div DV_eq)

interpretation radixDV: radix "DV e" for e
  by unfold_locales (rule DV_bounds)

section \<open>Value and invariant\<close>

definition bval :: "engine \<Rightarrow> big \<Rightarrow> int" where
  "bval e b = val (DV e) (digs b) + sg b * DV e ^ bt b"

definition wf_big :: "engine \<Rightarrow> big \<Rightarrow> bool" where
  "wf_big e b \<longleftrightarrow> digits_in (DV e) (digs b) \<and> sg b \<in> {0, -1}"

definition clamped :: "engine \<Rightarrow> big \<Rightarrow> bool" where
  "clamped e b \<longleftrightarrow> digs b = [] \<or> last (digs b) \<noteq> sg b mod DV e"

definition ok_big :: "engine \<Rightarrow> big \<Rightarrow> bool" where
  "ok_big e b \<longleftrightarrow> wf_big e b \<and> clamped e b"

lemma minus1_mod_DV: "-1 mod DV e = DV e - 1"
  using DV_bounds(1) [of e] by (simp add: zmod_minus1)

lemma last_dropWhile_rev: "rev (dropWhile P (rev xs)) \<noteq> [] \<Longrightarrow> \<not> P (last (rev (dropWhile P (rev xs))))"
  by (metis hd_dropWhile last_rev rev_is_Nil_conv)

lemma val_drop_top:
  assumes "\<forall>d \<in> set ys. d = s mod b" "s \<in> {0, -1}" "2 \<le> b"
  shows "val b (xs @ ys) + s * b ^ length (xs @ ys) = val b xs + s * b ^ length xs"
  using assms(1)
proof (induction ys rule: rev_induct)
  case Nil
  then show ?case by simp
next
  case (snoc y ys)
  then have y: "y = s mod b" by simp
  have "y + s * b = s" using assms(2,3) y by (auto simp: zmod_minus1)
  then have "b ^ length (xs @ ys) * (y + s * b) = b ^ length (xs @ ys) * s" by simp
  moreover have "val b (xs @ ys @ [y]) = val b (xs @ ys) + b ^ length (xs @ ys) * y"
    using val_snoc [of b "xs @ ys" y] by simp
  ultimately show ?case using snoc by (simp add: algebra_simps)
qed

lemma clamp_ok:
  assumes "wf_big e b"
  shows "ok_big e (clamp e b)" "bval e (clamp e b) = bval e b" "sg (clamp e b) = sg b"
proof -
  define c where "c = sg b mod DV e"
  define top where "top = rev (takeWhile (\<lambda>d. d = c) (rev (digs b)))"
  define low where "low = rev (dropWhile (\<lambda>d. d = c) (rev (digs b)))"
  have split: "digs b = low @ top"
    by (simp add: low_def top_def flip: rev_append)
  have cl: "clamp e b = b\<lparr>digs := low\<rparr>" by (simp add: clamp_def Let_def js_arith low_def c_def)
  have "\<forall>d \<in> set top. d = sg b mod DV e"
    by (auto simp: top_def c_def dest: set_takeWhileD)
  then have "val (DV e) (low @ top) + sg b * DV e ^ length (low @ top)
      = val (DV e) low + sg b * DV e ^ length low"
    using assms DV_bounds(2) by (intro val_drop_top) (auto simp: wf_big_def)
  then show "bval e (clamp e b) = bval e b" by (simp add: cl bval_def split)
  show "sg (clamp e b) = sg b" by (simp add: cl)
  have "wf_big e (clamp e b)" using assms by (simp add: cl wf_big_def split)
  moreover have "clamped e (clamp e b)"
    using last_dropWhile_rev [of "\<lambda>d. d = c" "digs b"] by (auto simp: cl clamped_def low_def c_def)
  ultimately show "ok_big e (clamp e b)" by (simp add: ok_big_def)
qed

section \<open>Addition and subtraction\<close>

text \<open>A carry step of any of the four loops: \<open>c\<close> is small enough for \<open>>>\<close> to be a division.\<close>

lemma carry_step:
  assumes "- (2 ^ 31) \<le> c" "c < 2 ^ 31"
  shows "js_and c (DM e) + DV e * js_shr c (int (DB e)) = c" "0 \<le> js_and c (DM e)" "js_and c (DM e) < DV e"
  using assms DV_bounds(1) [of e] by (simp_all add: js_arith)

lemma DV_small: "2 * DV e \<le> 2 ^ 31"
  using DV_bounds(3) [of e] by simp

lemma shr_carry:
  assumes "lo * DV e \<le> c" "c < (hi + 1) * DV e" "-2 \<le> lo" "hi \<le> 1"
  shows "lo \<le> js_shr c (int (DB e))" "js_shr c (int (DB e)) \<le> hi" "- (2 ^ 31) \<le> c" "c < 2 ^ 31"
proof -
  have "-2 * DV e \<le> lo * DV e" using assms(3) DV_bounds(1) [of e]
    by (intro mult_right_mono) auto
  then show c: "- (2 ^ 31) \<le> c" using DV_small [of e] assms(1) by linarith
  have "(hi + 1) * DV e \<le> 2 * DV e" using assms(4) DV_bounds(1) [of e]
    by (intro mult_right_mono) auto
  then show c': "c < 2 ^ 31" using DV_small [of e] assms(2) by linarith
  have d: "js_shr c (int (DB e)) = c div DV e" using c c' by (rule js_shr_DB)
  have "lo * DV e div DV e \<le> c div DV e" using assms(1) DV_bounds(1) [of e]
    by (intro zdiv_mono1) auto
  then show "lo \<le> js_shr c (int (DB e))" using DV_bounds(1) [of e] by (simp add: d)
  have "c div DV e < hi + 1" using assms(2) DV_bounds(1) [of e]
    by (intro div_less_of_less_mult) auto
  then show "js_shr c (int (DB e)) \<le> hi" by (simp add: d)
qed

lemma sub_loop_ok:
  assumes "length xs = length ys" "digits_in (DV e) xs" "digits_in (DV e) ys" "c \<in> {-1, 0}"
    "sub_loop e c xs ys = (r, k)"
  shows "length r = length xs \<and> digits_in (DV e) r \<and> k \<in> {-1, 0} \<and>
    val (DV e) r + k * DV e ^ length xs = c + val (DV e) xs - val (DV e) ys"
  using assms
proof (induction xs ys arbitrary: c r k rule: list_induct2)
  case Nil
  then show ?case by simp
next
  case (Cons x xs y ys)
  define c' where "c' = c + (x - y)"
  have c': "-1 * DV e \<le> c'" "c' < (0 + 1) * DV e" using Cons.prems by (auto simp: c'_def)
  note s = shr_carry [OF c', simplified]
  obtain r' where r: "r = js_and c' (DM e) # r'" "sub_loop e (js_shr c' (int (DB e))) xs ys = (r', k)"
    using Cons.prems(4) by (auto simp: c'_def Let_def split: prod.splits)
  have "js_shr c' (int (DB e)) \<in> {-1, 0}" using s(1,2) by auto
  then have IH: "length r' = length xs" "digits_in (DV e) r'" "k \<in> {-1, 0}"
    "val (DV e) r' + k * DV e ^ length xs = js_shr c' (int (DB e)) + val (DV e) xs - val (DV e) ys"
    using Cons.IH [OF _ _ _ r(2)] Cons.prems by auto
  have "DV e * (val (DV e) r' + k * DV e ^ length xs)
      = DV e * (js_shr c' (int (DB e)) + val (DV e) xs - val (DV e) ys)"
    by (simp only: IH(4))
  then show ?case using IH(1-3) carry_step [of c' e] s(3,4)
    by (simp add: r(1) c'_def algebra_simps)
qed

lemma add_carry_ok:
  assumes "length xs = length ys" "digits_in (DV e) xs" "digits_in (DV e) ys" "c \<in> {0, 1}"
    "add_loop e c xs ys = (r, k)"
  shows "length r = length xs \<and> digits_in (DV e) r \<and> k \<in> {0, 1} \<and>
    val (DV e) r + k * DV e ^ length xs = c + val (DV e) xs + val (DV e) ys"
  using assms
proof (induction xs ys arbitrary: c r k rule: list_induct2)
  case Nil
  then show ?case by simp
next
  case (Cons x xs y ys)
  define c' where "c' = c + (x + y)"
  have c': "0 * DV e \<le> c'" "c' < (1 + 1) * DV e" using Cons.prems by (auto simp: c'_def)
  note s = shr_carry [OF c', simplified]
  obtain r' where r: "r = js_and c' (DM e) # r'" "add_loop e (js_shr c' (int (DB e))) xs ys = (r', k)"
    using Cons.prems(4) by (auto simp: c'_def Let_def split: prod.splits)
  have "js_shr c' (int (DB e)) \<in> {0, 1}" using s(1,2) by auto
  then have IH: "length r' = length xs" "digits_in (DV e) r'" "k \<in> {0, 1}"
    "val (DV e) r' + k * DV e ^ length xs = js_shr c' (int (DB e)) + val (DV e) xs + val (DV e) ys"
    using Cons.IH [OF _ _ _ r(2)] Cons.prems by auto
  have "DV e * (val (DV e) r' + k * DV e ^ length xs)
      = DV e * (js_shr c' (int (DB e)) + val (DV e) xs + val (DV e) ys)"
    by (simp only: IH(4))
  then show ?case using IH(1-3) carry_step [of c' e] s(3,4)
    by (simp add: r(1) c'_def algebra_simps)
qed

lemma plus_loop_ok:
  assumes "digits_in (DV e) xs" "c \<in> {-1, 0, 1}" "plus_loop e c xs = (r, k)"
  shows "length r = length xs \<and> digits_in (DV e) r \<and> k \<in> {-1, 0, 1} \<and> (c \<in> {0, 1} \<longrightarrow> k \<in> {0, 1}) \<and>
    (c \<in> {0, -1} \<longrightarrow> k \<in> {0, -1}) \<and>
    val (DV e) r + k * DV e ^ length xs = c + val (DV e) xs"
  using assms
proof (induction xs arbitrary: c r k)
  case Nil
  then show ?case by auto
next
  case (Cons x xs)
  define c' where "c' = c + x"
  have c': "-1 * DV e \<le> c'" "c' < (1 + 1) * DV e"
    using Cons.prems DV_bounds(2) [of e] by (auto simp: c'_def)
  note s = shr_carry [OF c', simplified]
  have s0: "c \<in> {0, 1} \<Longrightarrow> 0 \<le> js_shr c' (int (DB e))"
    using shr_carry(1) [of 0 e c' 1] c' Cons.prems(1) by (auto simp: c'_def)
  have s1: "c \<in> {0, -1} \<Longrightarrow> js_shr c' (int (DB e)) \<le> 0"
    using shr_carry(2) [of "-1" e c' 0] c' Cons.prems(1) by (auto simp: c'_def)
  obtain r' where r: "r = js_and c' (DM e) # r'" "plus_loop e (js_shr c' (int (DB e))) xs = (r', k)"
    using Cons.prems(3) by (auto simp: c'_def Let_def split: prod.splits)
  have k0: "js_shr c' (int (DB e)) \<in> {-1, 0, 1}" using s(1,2) by auto
  have IH: "length r' = length xs" "digits_in (DV e) r'" "k \<in> {-1, 0, 1}"
    "c \<in> {0, 1} \<longrightarrow> k \<in> {0, 1}" "c \<in> {0, -1} \<longrightarrow> k \<in> {0, -1}"
    "val (DV e) r' + k * DV e ^ length xs = js_shr c' (int (DB e)) + val (DV e) xs"
    using Cons.IH [OF _ k0 r(2)] Cons.prems(1) s(1,2) s0 s1 by auto
  have "DV e * (val (DV e) r' + k * DV e ^ length xs) = DV e * (js_shr c' (int (DB e)) + val (DV e) xs)"
    by (simp only: IH(6))
  then show ?case using IH(1-5) carry_step [of c' e] s(3,4)
    by (simp add: r(1) c'_def algebra_simps)
qed

lemma minus_loop_ok:
  assumes "digits_in (DV e) xs" "c \<in> {-2, -1, 0}" "minus_loop e c xs = (r, k)"
  shows "length r = length xs \<and> digits_in (DV e) r \<and> k \<in> {-2, -1, 0} \<and>
    val (DV e) r + k * DV e ^ length xs = c - val (DV e) xs"
  using assms
proof (induction xs arbitrary: c r k)
  case Nil
  then show ?case by auto
next
  case (Cons x xs)
  define c' where "c' = c - x"
  have c': "-2 * DV e \<le> c'" "c' < (0 + 1) * DV e"
    using Cons.prems DV_bounds(2) [of e] by (auto simp: c'_def)
  note s = shr_carry [OF c', simplified]
  obtain r' where r: "r = js_and c' (DM e) # r'" "minus_loop e (js_shr c' (int (DB e))) xs = (r', k)"
    using Cons.prems(3) by (auto simp: c'_def Let_def split: prod.splits)
  have k0: "js_shr c' (int (DB e)) \<in> {-2, -1, 0}" using s(1,2) by auto
  have IH: "length r' = length xs" "digits_in (DV e) r'" "k \<in> {-2, -1, 0}"
    "val (DV e) r' + k * DV e ^ length xs = js_shr c' (int (DB e)) - val (DV e) xs"
    using Cons.IH [OF _ k0 r(2)] Cons.prems(1) by auto
  have "DV e * (val (DV e) r' + k * DV e ^ length xs) = DV e * (js_shr c' (int (DB e)) - val (DV e) xs)"
    by (simp only: IH(4))
  then show ?case using IH(1-3) carry_step [of c' e] s(3,4)
    by (simp add: r(1) c'_def algebra_simps)
qed

lemma finish_carry:
  assumes "digits_in (DV e) r" "c \<in> {-2, -1, 0, 1}"
    "r3 = (if c < -1 then [DV e + c] else if c > 0 then [c] else [])"
  shows "wf_big e \<lparr>digs = r @ r3, sg = (if c < 0 then -1 else 0)\<rparr>"
    "bval e \<lparr>digs = r @ r3, sg = (if c < 0 then -1 else 0)\<rparr> = val (DV e) r + c * DV e ^ length r"
  using assms DV_bounds(4) [of e] by (auto simp: wf_big_def bval_def val_simps algebra_simps)

lemma finish_carry':
  "(if (c::int) > 0 then [c] else if c < -1 then [DV e + c] else []) =
   (if c < -1 then [DV e + c] else if c > 0 then [c] else [])"
  by auto

lemma subTo_ok:
  assumes "wf_big e this" "wf_big e a"
  shows "ok_big e (subTo e this a)" "bval e (subTo e this a) = bval e this - bval e a"
proof -
  define m where "m = min (bt a) (bt this)"
  let ?B = "DV e"
  obtain r1 c1 where l1: "sub_loop e 0 (take m (digs this)) (take m (digs a)) = (r1, c1)"
    by (cases "sub_loop e 0 (take m (digs this)) (take m (digs a))")
  obtain r2 c2 where l2: "(if bt a < bt this
       then let (r, c) = plus_loop e (c1 - sg a) (drop m (digs this)) in (r, c + sg this)
       else let (r, c) = minus_loop e (c1 + sg this) (drop m (digs a)) in (r, c - sg a)) = (r2, c2)"
    by fastforce
  have len: "length (take m (digs this)) = length (take m (digs a))" by (simp add: m_def)
  have wf: "digits_in ?B (digs this)" "digits_in ?B (digs a)" "sg this \<in> {0, -1}" "sg a \<in> {0, -1}"
    using assms by (auto simp: wf_big_def)
  have s1: "length r1 = m" "digits_in ?B r1" "c1 \<in> {-1, 0}"
    "val ?B r1 + c1 * ?B ^ m = val ?B (take m (digs this)) - val ?B (take m (digs a))"
    using sub_loop_ok [OF len _ _ _ l1] wf(1,2) by (auto simp: m_def)
  have s2: "length r2 = max (bt this) (bt a) - m \<and> digits_in ?B r2 \<and> c2 \<in> {-2, -1, 0, 1} \<and>
    val ?B r2 + c2 * ?B ^ length r2 = c1 + val ?B (drop m (digs this)) - val ?B (drop m (digs a))
      + sg this * ?B ^ (bt this - m) - sg a * ?B ^ (bt a - m)"
  proof (cases "bt a < bt this")
    case True
    then obtain c where p: "plus_loop e (c1 - sg a) (drop m (digs this)) = (r2, c)" "c2 = c + sg this"
      using l2 by (auto split: prod.splits)
    have "c1 - sg a \<in> {-1, 0, 1}" using s1(3) wf(4) by auto
    from plus_loop_ok [OF _ this p(1)] have q: "length r2 = bt this - m" "digits_in ?B r2" "c \<in> {-1, 0, 1}"
      "val ?B r2 + c * ?B ^ (bt this - m) = (c1 - sg a) + val ?B (drop m (digs this))"
      using wf(1) by (simp_all del: insert_iff)
    have "drop m (digs a) = []" "bt a - m = 0" "max (bt this) (bt a) = bt this"
      using True by (simp_all add: m_def)
    moreover have "c + sg this \<in> {-2, -1, 0, 1}" using q(3) wf(3) by auto
    ultimately show ?thesis using q(1,2,4) unfolding p(2)
      by (simp add: distrib_right del: insert_iff)
  next
    case False
    then obtain c where p: "minus_loop e (c1 + sg this) (drop m (digs a)) = (r2, c)" "c2 = c - sg a"
      using l2 by (auto split: prod.splits)
    have "c1 + sg this \<in> {-2, -1, 0}" using s1(3) wf(3) by auto
    from minus_loop_ok [OF _ this p(1)] have q: "length r2 = bt a - m" "digits_in ?B r2" "c \<in> {-2, -1, 0}"
      "val ?B r2 + c * ?B ^ (bt a - m) = (c1 + sg this) - val ?B (drop m (digs a))"
      using wf(2) by (simp_all del: insert_iff)
    have "drop m (digs this) = []" "bt this - m = 0" "max (bt this) (bt a) = bt a"
      using False by (simp_all add: m_def)
    moreover have "c - sg a \<in> {-2, -1, 0, 1}" using q(3) wf(4) by auto
    ultimately show ?thesis using q(1,2,4) unfolding p(2)
      by (simp add: left_diff_distrib del: insert_iff)
  qed
  define r3 where "r3 = (if c2 < -1 then [?B + c2] else if c2 > 0 then [c2] else [])"
  define b where "b = \<lparr>digs = (r1 @ r2) @ r3, sg = (if c2 < 0 then -1 else 0)\<rparr>"
  have eq: "subTo e this a = clamp e b"
    unfolding subTo_def Let_def m_def [symmetric] l1 prod.case l2 b_def r3_def
    by (simp only: l2 [unfolded Let_def] prod.case append_assoc)
  have b: "wf_big e b" "bval e b = val ?B (r1 @ r2) + c2 * ?B ^ length (r1 @ r2)"
    using finish_carry [OF _ _ r3_def, of "r1 @ r2"] s1 s2 by (auto simp: b_def)
  have split: "val ?B (digs this) = val ?B (take m (digs this)) + ?B ^ m * val ?B (drop m (digs this))"
    "val ?B (digs a) = val ?B (take m (digs a)) + ?B ^ m * val ?B (drop m (digs a))"
    using val_take_drop [of ?B "digs this" m] val_take_drop [of ?B "digs a" m]
    by (auto simp: m_def min_absorb1 min_def)
  have pw: "?B ^ bt this = ?B ^ m * ?B ^ (bt this - m)" "?B ^ bt a = ?B ^ m * ?B ^ (bt a - m)"
    by (simp_all add: m_def flip: power_add)
  have "bval e b = val ?B r1 + ?B ^ m * (val ?B r2 + c2 * ?B ^ length r2)"
    using b(2) s1(1) by (simp add: val_simps power_add algebra_simps)
  also have "\<dots> = (val ?B r1 + c1 * ?B ^ m) + ?B ^ m * (val ?B (drop m (digs this)) -
      val ?B (drop m (digs a)) + sg this * ?B ^ (bt this - m) - sg a * ?B ^ (bt a - m))"
    unfolding s2 [THEN conjunct2, THEN conjunct2, THEN conjunct2]
    by (simp add: algebra_simps)
  also have "\<dots> = bval e this - bval e a"
    unfolding s1(4) bval_def split pw by (simp add: algebra_simps)
  finally show "bval e (subTo e this a) = bval e this - bval e a"
    using clamp_ok [OF b(1)] eq by simp
  show "ok_big e (subTo e this a)" using clamp_ok [OF b(1)] eq by simp
qed

lemma addTo_ok:
  assumes "wf_big e this" "wf_big e a"
  shows "ok_big e (addTo e this a)" "bval e (addTo e this a) = bval e this + bval e a"
proof -
  define m where "m = min (bt a) (bt this)"
  let ?B = "DV e"
  obtain r1 c1 where l1: "add_loop e 0 (take m (digs this)) (take m (digs a)) = (r1, c1)"
    by (cases "add_loop e 0 (take m (digs this)) (take m (digs a))")
  obtain r2 c2 where l2: "(if bt a < bt this
       then let (r, c) = plus_loop e (c1 + sg a) (drop m (digs this)) in (r, c + sg this)
       else let (r, c) = plus_loop e (c1 + sg this) (drop m (digs a)) in (r, c + sg a)) = (r2, c2)"
    by fastforce
  have len: "length (take m (digs this)) = length (take m (digs a))" by (simp add: m_def)
  have wf: "digits_in ?B (digs this)" "digits_in ?B (digs a)" "sg this \<in> {0, -1}" "sg a \<in> {0, -1}"
    using assms by (auto simp: wf_big_def)
  have s1: "length r1 = m" "digits_in ?B r1" "c1 \<in> {0, 1}"
    "val ?B r1 + c1 * ?B ^ m = val ?B (take m (digs this)) + val ?B (take m (digs a))"
    using add_carry_ok [OF len _ _ _ l1] wf(1,2) by (auto simp: m_def)
  have s2: "length r2 = max (bt this) (bt a) - m \<and> digits_in ?B r2 \<and> c2 \<in> {-2, -1, 0, 1} \<and>
    val ?B r2 + c2 * ?B ^ length r2 = c1 + val ?B (drop m (digs this)) + val ?B (drop m (digs a))
      + sg this * ?B ^ (bt this - m) + sg a * ?B ^ (bt a - m)"
  proof (cases "bt a < bt this")
    case True
    then obtain c where p: "plus_loop e (c1 + sg a) (drop m (digs this)) = (r2, c)" "c2 = c + sg this"
      using l2 by (auto split: prod.splits)
    have "c1 + sg a \<in> {-1, 0, 1}" using s1(3) wf(4) by auto
    from plus_loop_ok [OF _ this p(1)] have q: "length r2 = bt this - m" "digits_in ?B r2" "c \<in> {-1, 0, 1}"
      "val ?B r2 + c * ?B ^ (bt this - m) = (c1 + sg a) + val ?B (drop m (digs this))"
      using wf(1) by (simp_all del: insert_iff)
    have "drop m (digs a) = []" "bt a - m = 0" "max (bt this) (bt a) = bt this"
      using True by (simp_all add: m_def)
    moreover have "c + sg this \<in> {-2, -1, 0, 1}" using q(3) wf(3) by auto
    ultimately show ?thesis using q(1,2,4) unfolding p(2)
      by (simp add: distrib_right del: insert_iff)
  next
    case False
    then obtain c where p: "plus_loop e (c1 + sg this) (drop m (digs a)) = (r2, c)" "c2 = c + sg a"
      using l2 by (auto split: prod.splits)
    have "c1 + sg this \<in> {-1, 0, 1}" using s1(3) wf(3) by auto
    from plus_loop_ok [OF _ this p(1)] have q: "length r2 = bt a - m" "digits_in ?B r2" "c \<in> {-1, 0, 1}"
      "val ?B r2 + c * ?B ^ (bt a - m) = (c1 + sg this) + val ?B (drop m (digs a))"
      using wf(2) by (simp_all del: insert_iff)
    have "drop m (digs this) = []" "bt this - m = 0" "max (bt this) (bt a) = bt a"
      using False by (simp_all add: m_def)
    moreover have "c + sg a \<in> {-2, -1, 0, 1}" using q(3) wf(4) by auto
    ultimately show ?thesis using q(1,2,4) unfolding p(2)
      by (simp add: distrib_right del: insert_iff)
  qed
  define r3 where "r3 = (if c2 < -1 then [?B + c2] else if c2 > 0 then [c2] else [])"
  define b where "b = \<lparr>digs = (r1 @ r2) @ r3, sg = (if c2 < 0 then -1 else 0)\<rparr>"
  have eq: "addTo e this a = clamp e b"
    unfolding addTo_def Let_def m_def [symmetric] l1 prod.case b_def r3_def finish_carry'
    by (simp only: l2 [unfolded Let_def] prod.case append_assoc)
  have b: "wf_big e b" "bval e b = val ?B (r1 @ r2) + c2 * ?B ^ length (r1 @ r2)"
    using finish_carry [OF _ _ r3_def, of "r1 @ r2"] s1 s2 by (auto simp: b_def)
  have split: "val ?B (digs this) = val ?B (take m (digs this)) + ?B ^ m * val ?B (drop m (digs this))"
    "val ?B (digs a) = val ?B (take m (digs a)) + ?B ^ m * val ?B (drop m (digs a))"
    using val_take_drop [of ?B "digs this" m] val_take_drop [of ?B "digs a" m]
    by (auto simp: m_def min_absorb1 min_def)
  have pw: "?B ^ bt this = ?B ^ m * ?B ^ (bt this - m)" "?B ^ bt a = ?B ^ m * ?B ^ (bt a - m)"
    by (simp_all add: m_def flip: power_add)
  have "bval e b = val ?B r1 + ?B ^ m * (val ?B r2 + c2 * ?B ^ length r2)"
    using b(2) s1(1) by (simp add: val_simps power_add algebra_simps)
  also have "\<dots> = (val ?B r1 + c1 * ?B ^ m) + ?B ^ m * (val ?B (drop m (digs this)) +
      val ?B (drop m (digs a)) + sg this * ?B ^ (bt this - m) + sg a * ?B ^ (bt a - m))"
    unfolding s2 [THEN conjunct2, THEN conjunct2, THEN conjunct2]
    by (simp add: algebra_simps)
  also have "\<dots> = bval e this + bval e a"
    unfolding s1(4) bval_def split pw by (simp add: algebra_simps)
  finally show "bval e (addTo e this a) = bval e this + bval e a"
    using clamp_ok [OF b(1)] eq by simp
  show "ok_big e (addTo e this a)" using clamp_ok [OF b(1)] eq by simp
qed

section \<open>Sign, parity and comparison\<close>

lemma bval_range:
  assumes "wf_big e b"
  shows "sg b = 0 \<Longrightarrow> 0 \<le> bval e b" "sg b = 0 \<Longrightarrow> bval e b < DV e ^ bt b"
    "sg b = -1 \<Longrightarrow> - (DV e ^ bt b) \<le> bval e b" "sg b = -1 \<Longrightarrow> bval e b < 0"
  using assms radixDV.val_nonneg [of e "digs b"] radixDV.val_less [of e "digs b"]
  by (auto simp: wf_big_def bval_def)

lemma bval_lead:
  assumes "ok_big e b" "digs b \<noteq> []"
  shows "sg b = 0 \<Longrightarrow> DV e ^ (bt b - 1) \<le> bval e b" "sg b = -1 \<Longrightarrow> bval e b < - (DV e ^ (bt b - 1))"
proof -
  let ?B = "DV e"
  obtain xs d where ds: "digs b = xs @ [d]" using assms(2) by (cases "digs b" rule: rev_cases) auto
  have wf: "digits_in ?B xs" "0 \<le> d" "d < ?B" using assms ds by (auto simp: ok_big_def wf_big_def)
  show "?B ^ (bt b - 1) \<le> bval e b" if "sg b = 0"
    using that assms ds radixDV.val_ge_lead [of e "digs b"]
    by (auto simp: bval_def ok_big_def wf_big_def clamped_def no_lead0_def)
  show "bval e b < - (?B ^ (bt b - 1))" if s: "sg b = -1"
  proof -
    have "d \<noteq> ?B - 1" using assms s ds by (auto simp: ok_big_def clamped_def minus1_mod_DV)
    then have "d \<le> ?B - 2" using wf by simp
    then have "?B ^ length xs * d \<le> ?B ^ length xs * (?B - 2)"
      using DV_bounds(1) [of e] by (intro mult_left_mono) auto
    moreover have "val ?B xs < ?B ^ length xs" using wf by (intro radixDV.val_less)
    ultimately show ?thesis using s by (simp add: bval_def ds val_simps algebra_simps)
  qed
qed

lemma sg_iff: "wf_big e b \<Longrightarrow> sg b < 0 \<longleftrightarrow> bval e b < 0"
  using bval_range [of e b] by (auto simp: wf_big_def)

lemma sg_cases: "wf_big e b \<Longrightarrow> sg b = (if bval e b < 0 then -1 else 0)"
  using sg_iff [of e b] by (auto simp: wf_big_def)

lemma compare_loop_sgn:
  assumes "length xs = length ys" "digits_in (DV e) xs" "digits_in (DV e) ys"
  shows "sgn (compare_loop xs ys) = sgn (val (DV e) (rev xs) - val (DV e) (rev ys))"
  using assms
proof (induction xs ys rule: list_induct2)
  case Nil
  then show ?case by simp
next
  case (Cons x xs y ys)
  let ?B = "DV e"
  have "val ?B (rev xs) < ?B ^ length xs" "val ?B (rev ys) < ?B ^ length xs"
    using Cons radixDV.val_less [of e "rev xs"] radixDV.val_less [of e "rev ys"] by auto
  moreover have "0 \<le> val ?B (rev xs)" "0 \<le> val ?B (rev ys)"
    using Cons by (auto intro: radixDV.val_nonneg)
  ultimately have d: "\<bar>val ?B (rev xs) - val ?B (rev ys)\<bar> < ?B ^ length xs" by linarith
  have eq: "val ?B (rev (x # xs)) - val ?B (rev (y # ys)) =
      (val ?B (rev xs) - val ?B (rev ys)) + ?B ^ length xs * (x - y)"
    using Cons.hyps by (simp add: val_simps algebra_simps)
  show ?case
  proof (cases "x - y" "0 :: int" rule: linorder_cases)
    case equal
    then show ?thesis using Cons eq by simp
  next
    case greater
    then have "?B ^ length xs * 1 \<le> ?B ^ length xs * (x - y)"
      using DV_bounds(1) [of e] by (intro mult_left_mono) auto
    then have "0 < val ?B (rev (x # xs)) - val ?B (rev (y # ys))"
      unfolding eq using d by linarith
    then show ?thesis using greater by (simp add: sgn_if del: rev.simps)
  next
    case less
    then have "?B ^ length xs * (x - y) \<le> ?B ^ length xs * (-1)"
      using DV_bounds(1) [of e] by (intro mult_left_mono) auto
    then have "val ?B (rev (x # xs)) - val ?B (rev (y # ys)) < 0"
      unfolding eq using d by linarith
    then show ?thesis using less by (simp add: sgn_if del: rev.simps)
  qed
qed

lemma bval_longer:
  assumes "ok_big e x" "ok_big e y" "sg x = sg y" "bt x < bt y"
  shows "sg x = 0 \<Longrightarrow> bval e x < bval e y" "sg x = -1 \<Longrightarrow> bval e y < bval e x"
proof -
  have ne: "digs y \<noteq> []" using assms(4) by auto
  have p: "DV e ^ bt x \<le> DV e ^ (bt y - 1)"
    using assms(4) DV_bounds(2) [of e] by (intro power_increasing) auto
  show "bval e x < bval e y" if "sg x = 0"
    using that assms bval_range(2) [of e x] bval_lead(1) [OF assms(2) ne] p
    by (auto simp: ok_big_def)
  show "bval e y < bval e x" if "sg x = -1"
    using that assms bval_range(3) [of e x] bval_lead(2) [OF assms(2) ne] p
    by (auto simp: ok_big_def)
qed

lemma compareTo_ok:
  assumes "ok_big e x" "ok_big e y"
  shows "sgn (compareTo x y) = sgn (bval e x - bval e y)"
proof -
  have wf: "wf_big e x" "wf_big e y" using assms by (simp_all add: ok_big_def)
  show ?thesis
  proof (cases "sg x = sg y")
    case False
    then show ?thesis
      using wf bval_range [OF wf(1)] bval_range [OF wf(2)]
      by (auto simp: compareTo_def wf_big_def sgn_if Let_def)
  next
    case s: True
    have sx: "sg x = 0 \<or> sg x = -1" using wf by (auto simp: wf_big_def)
    show ?thesis
    proof (cases "bt x" "bt y" rule: linorder_cases)
      case less
      then show ?thesis using s sx bval_longer [OF assms s less]
        by (auto simp: compareTo_def sgn_if)
    next
      case greater
      then show ?thesis using s sx bval_longer [OF assms(2,1) s [symmetric] greater]
        by (auto simp: compareTo_def sgn_if)
    next
      case equal
      then have "sgn (compareTo x y) = sgn (compare_loop (rev (digs x)) (rev (digs y)))"
        using s by (simp add: compareTo_def)
      also have "\<dots> = sgn (val (DV e) (digs x) - val (DV e) (digs y))"
        using compare_loop_sgn [of "rev (digs x)" "rev (digs y)" e] equal wf
        by (simp add: wf_big_def)
      finally show ?thesis using s equal by (simp add: bval_def)
    qed
  qed
qed

lemma compareTo_less: "ok_big e x \<Longrightarrow> ok_big e y \<Longrightarrow> compareTo x y < 0 \<longleftrightarrow> bval e x < bval e y"
  and compareTo_greater: "ok_big e x \<Longrightarrow> ok_big e y \<Longrightarrow> 0 < compareTo x y \<longleftrightarrow> bval e y < bval e x"
  and compareTo_eq: "ok_big e x \<Longrightarrow> ok_big e y \<Longrightarrow> compareTo x y = 0 \<longleftrightarrow> bval e x = bval e y"
  using compareTo_ok [of e x y] by (auto simp: sgn_if split: if_splits)

lemma compareTo_ge: "ok_big e x \<Longrightarrow> ok_big e y \<Longrightarrow> 0 \<le> compareTo x y \<longleftrightarrow> bval e y \<le> bval e x"
  using compareTo_less [of e x y] by auto

text \<open>A canonical object is determined by the number it denotes.\<close>

lemma ok_big_unique:
  assumes "ok_big e x" "ok_big e y" "bval e x = bval e y"
  shows "x = y"
proof -
  have wf: "wf_big e x" "wf_big e y" using assms by (simp_all add: ok_big_def)
  have s: "sg x = sg y" using sg_cases [OF wf(1)] sg_cases [OF wf(2)] assms(3) by simp
  have sx: "sg x = 0 \<or> sg x = -1" using wf by (auto simp: wf_big_def)
  have t: "bt x = bt y"
    using bval_longer [OF assms(1,2) s] bval_longer [OF assms(2,1) s [symmetric]] sx s assms(3)
    by (cases "bt x" "bt y" rule: linorder_cases) auto
  then have "val (DV e) (digs x) = val (DV e) (digs y)" using assms(3) s by (simp add: bval_def)
  then have "digs x = digs y" using t wf radixDV.val_eq_iff [of "digs x" "digs y" e]
    by (simp add: wf_big_def)
  with s show ?thesis by simp
qed

lemma signum_ok: "ok_big e b \<Longrightarrow> signum b = sgn (bval e b)"
proof -
  assume ok: "ok_big e b"
  then have wf: "wf_big e b" by (simp add: ok_big_def)
  show ?thesis
  proof (cases "sg b < 0")
    case True
    then show ?thesis using sg_iff [OF wf] by (simp add: signum_def)
  next
    case False
    then have s: "sg b = 0" using wf by (auto simp: wf_big_def)
    show ?thesis
    proof (cases "digs b")
      case Nil
      then show ?thesis using s by (simp add: signum_def bval_def)
    next
      case (Cons d ds)
      then have "0 < bval e b" using bval_lead(1) [OF ok] s DV_bounds(1) [of e]
        by (smt (verit) list.discI zero_less_power)
      moreover have "\<not> (bt b = 1 \<and> hd (digs b) \<le> 0)"
        using calculation Cons s by (auto simp: bval_def)
      ultimately show ?thesis using Cons s by (simp add: signum_def)
    qed
  qed
qed

lemma DV_even: "even (DV e)"
  using DB_bounds(1) [of e] by (simp add: DV_eq)

lemma isEven_ok: "wf_big e b \<Longrightarrow> isEven b \<longleftrightarrow> even (bval e b)"
  using DV_even [of e]
  by (cases "digs b") (auto simp: isEven_def bval_def js_arith wf_big_def even_iff_mod_2_eq_zero [symmetric])

lemma negate_ok:
  assumes "wf_big e b"
  shows "ok_big e (negate e b)" "bval e (negate e b) = - bval e b"
proof -
  have "wf_big e (ZERO e)" "bval e (ZERO e) = 0"
    by (simp_all add: wf_big_def bval_def ZERO_def fromInt_def)
  then show "ok_big e (negate e b)" "bval e (negate e b) = - bval e b"
    using subTo_ok [of e "ZERO e" b] assms by (simp_all add: negate_def)
qed

lemma abs_big_ok:
  assumes "ok_big e b"
  shows "ok_big e (abs_big e b)" "bval e (abs_big e b) = \<bar>bval e b\<bar>" "sg (abs_big e b) = 0"
proof -
  have wf: "wf_big e b" using assms by (simp add: ok_big_def)
  show ok: "ok_big e (abs_big e b)" using assms negate_ok [OF wf] by (simp add: abs_big_def)
  show v: "bval e (abs_big e b) = \<bar>bval e b\<bar>"
    using sg_iff [OF wf] negate_ok [OF wf] by (simp add: abs_big_def)
  show "sg (abs_big e b) = 0"
    using sg_cases [of e "abs_big e b"] ok v by (simp add: ok_big_def)
qed

lemma fromInt_ok:
  assumes "- DV e \<le> x" "x < DV e"
  shows "ok_big e (fromInt e x)" "bval e (fromInt e x) = x"
  using assms DV_bounds(4) [of e]
  by (auto simp: ok_big_def wf_big_def clamped_def bval_def fromInt_def minus1_mod_DV)

lemma ZERO_ok: "ok_big e (ZERO e)" "bval e (ZERO e) = 0"
  using fromInt_ok [of e 0] DV_bounds(1) [of e] by (simp_all add: ZERO_def)

lemma ONE_ok: "ok_big e (ONE e)" "bval e (ONE e) = 1"
  using fromInt_ok [of e 1] DV_bounds(2) [of e] by (simp_all add: ONE_def)

section \<open>Shifts\<close>

lemma js_bm: "0 \<le> k \<Longrightarrow> k \<le> 30 \<Longrightarrow> js_shl 1 k - 1 = 2 ^ nat k - 1"
proof -
  assume k: "0 \<le> k" "k \<le> 30"
  then have "(2::int) ^ nat k \<le> 2 ^ 30" by (intro power_increasing) auto
  then show ?thesis using k by (subst js_shl_mult_pos) auto
qed

lemma js_and_bm: "0 \<le> k \<Longrightarrow> k \<le> 30 \<Longrightarrow> js_and x (js_shl 1 k - 1) = x mod 2 ^ nat k"
  by (simp add: js_bm js_and_mask)

text \<open>A digit splits at the shift distance.\<close>

lemma DV_lt31: "DV e < 2 ^ 31"
  by (cases e) (simp_all add: DV_eq)

lemma DV_split: "0 \<le> k \<Longrightarrow> k \<le> int (DB e) \<Longrightarrow> DV e = 2 ^ nat k * 2 ^ nat (int (DB e) - k)"
  by (simp add: DV_eq nat_diff_distrib flip: power_add)

lemma shift_digit:
  assumes "0 \<le> d" "d < DV e" "0 \<le> k" "k \<le> int (DB e)"
  shows "js_shr d k = d div 2 ^ nat k" "0 \<le> d div 2 ^ nat k" "d div 2 ^ nat k < 2 ^ nat (int (DB e) - k)"
    "js_shl (js_and d (js_shl 1 k - 1)) (int (DB e) - k) = (d mod 2 ^ nat k) * 2 ^ nat (int (DB e) - k)"
    "0 \<le> (d mod 2 ^ nat k) * 2 ^ nat (int (DB e) - k)"
    "(d mod 2 ^ nat k) * 2 ^ nat (int (DB e) - k) \<le> DV e - 2 ^ nat (int (DB e) - k)"
proof -
  have k: "k \<le> 30" using assms(4) DB_bounds(2) [of e] by simp
  have b: "DV e \<le> 2 ^ 30" by (rule DV_bounds)
  show "js_shr d k = d div 2 ^ nat k" using assms k b by (intro js_shr_div) auto
  show "0 \<le> d div 2 ^ nat k" using assms by (simp add: pos_imp_zdiv_nonneg_iff)
  have "d < 2 ^ nat (int (DB e) - k) * 2 ^ nat k"
    using assms DV_split [OF assms(3,4)] by (simp add: mult.commute)
  then show "d div 2 ^ nat k < 2 ^ nat (int (DB e) - k)"
    by (intro div_less_of_less_mult) auto
  show nn: "0 \<le> (d mod 2 ^ nat k) * 2 ^ nat (int (DB e) - k)" by simp
  have "(d mod 2 ^ nat k) * 2 ^ nat (int (DB e) - k) \<le> (2 ^ nat k - 1) * 2 ^ nat (int (DB e) - k)"
    by (intro mult_right_mono) (simp_all add: zle_diff1_eq)
  then show le: "(d mod 2 ^ nat k) * 2 ^ nat (int (DB e) - k) \<le> DV e - 2 ^ nat (int (DB e) - k)"
    using DV_split [OF assms(3,4)] by (simp add: left_diff_distrib)
  have "(d mod 2 ^ nat k) * 2 ^ nat (int (DB e) - k) < 2 ^ 31"
    using le DV_lt31 [of e] zero_less_power [of "2 :: int" "nat (int (DB e) - k)"] by linarith
  then show "js_shl (js_and d (js_shl 1 k - 1)) (int (DB e) - k) = (d mod 2 ^ nat k) * 2 ^ nat (int (DB e) - k)"
    using assms k DB_bounds(2) [of e] by (simp add: js_and_bm js_shl_mult_pos)
qed

lemma lshift_loop_ok:
  assumes "0 \<le> bs" "bs < int (DB e)" "cbs = int (DB e) - bs" "bm = js_shl 1 cbs - 1"
    "digits_in (DV e) (rev xs)" "0 \<le> c" "c * 2 ^ nat bs < DV e"
  shows "\<exists>low. lshift_loop bs cbs bm xs (c * 2 ^ nat bs) r = low @ r \<and> length low = Suc (length xs) \<and>
    digits_in (DV e) low \<and>
    val (DV e) low = val (DV e) (rev xs) * 2 ^ nat bs + c * 2 ^ nat bs * DV e ^ length xs"
  using assms(5-7)
proof (induction xs arbitrary: c r)
  case Nil
  then show ?case by (intro exI [of _ "[c * 2 ^ nat bs]"]) simp
next
  case (Cons d ds)
  let ?B = "DV e" and ?p = "2 ^ nat bs" and ?q = "2 ^ nat cbs"
  have d: "0 \<le> d" "d < ?B" using Cons.prems by auto
  have k: "0 \<le> cbs" "cbs \<le> int (DB e)" "int (DB e) - cbs = bs" using assms(1-3) by auto
  note sd = shift_digit [OF d k(1,2), unfolded k(3), folded assms(4)]
  have B: "?B = ?q * ?p" using DV_split [OF k(1,2)] k(3) by simp
  have p: "(0::int) < ?p" by simp
  have cq: "c < ?q" using Cons.prems(3) B p by simp
  then have "c * ?p \<le> (?q - 1) * ?p" by (intro mult_right_mono) auto
  then have cp: "c * ?p \<le> ?B - ?p" by (simp add: B left_diff_distrib)
  have top: "c * ?p + d div ?q < ?B" using cp sd(3) by linarith
  have or: "js_or (js_shr d cbs) (c * ?p) = c * ?p + d div ?q"
    using js_or_add [of c "d div ?q" "nat bs"] Cons.prems(2) sd(1-3) top DV_lt31 [of e]
    by (simp add: js_or_comm)
  have "(d mod ?q) * ?p < ?B" using sd(6) p by linarith
  then obtain low where low: "lshift_loop bs cbs bm ds ((d mod ?q) * ?p) ((c * ?p + d div ?q) # r)
      = low @ (c * ?p + d div ?q) # r" "length low = Suc (length ds)" "digits_in ?B low"
    "val ?B low = val ?B (rev ds) * ?p + (d mod ?q) * ?p * ?B ^ length ds"
    using Cons.IH [of "d mod ?q"] Cons.prems(1) by auto
  have dd: "(d mod ?q) * ?p + ?B * (d div ?q) = ?p * d"
  proof -
    have "(d mod ?q) * ?p + ?B * (d div ?q) = ?p * (d mod ?q + ?q * (d div ?q))"
      unfolding B by (simp only: distrib_left mult.commute mult.left_commute)
    then show ?thesis by simp
  qed
  have "val ?B (low @ [c * ?p + d div ?q])
      = val ?B (rev ds) * ?p + ((d mod ?q) * ?p + ?B * (d div ?q)) * ?B ^ length ds
        + c * ?p * ?B ^ length (d # ds)"
    by (simp add: val_simps low(2,4) algebra_simps)
  also have "\<dots> = val ?B (rev (d # ds)) * ?p + c * ?p * ?B ^ length (d # ds)"
    unfolding dd by (simp add: val_simps algebra_simps)
  finally have v: "val ?B (low @ [c * ?p + d div ?q])
      = val ?B (rev (d # ds)) * ?p + c * ?p * ?B ^ length (d # ds)" .
  have "0 \<le> c * ?p + d div ?q" using Cons.prems(2) sd(2) by simp
  then show ?case
    using low(1,2,3) top v by (intro exI [of _ "low @ [c * ?p + d div ?q]"]) (simp add: or sd(4))
qed

lemma lShiftTo_ok:
  assumes "wf_big e b"
  shows "ok_big e (lShiftTo e n b)" "bval e (lShiftTo e n b) = bval e b * 2 ^ n"
proof -
  let ?B = "DV e"
  define bs where "bs = int (n mod DB e)"
  define ds where "ds = n div DB e"
  define cbs where "cbs = int (DB e) - bs"
  have bs: "0 \<le> bs" "bs < int (DB e)" using DB_bounds(1) [of e] by (simp_all add: bs_def)
  have p: "(0::int) < 2 ^ nat bs" "(2::int) ^ nat bs * 2 ^ nat cbs = ?B"
    using DV_split [OF bs(1) less_imp_le [OF bs(2)]] by (simp_all add: cbs_def)
  define c where "c = (if sg b = 0 then 0 else 2 ^ nat cbs - 1 :: int)"
  have c: "0 \<le> c" "c * 2 ^ nat bs < ?B" using p DV_bounds(1) [of e] by (auto simp: c_def left_diff_distrib mult.commute [of "2 ^ nat cbs"])
  have "js_shl (sg b) bs = sg b * 2 ^ nat bs"
  proof -
    define P where "P = (2::int) ^ nat bs"
    have "P \<le> 2 ^ 30" unfolding P_def using bs DB_bounds(2) [of e] by (intro power_increasing) auto
    moreover have "0 < P" by (simp add: P_def)
    ultimately show ?thesis using assms bs DB_bounds(2) [of e]
      by (intro js_shl_mult, unfold P_def [symmetric]) (auto simp: wf_big_def)
  qed
  moreover have "(sg b * 2 ^ nat bs) mod ?B = c * 2 ^ nat bs"
  proof (cases "sg b = 0")
    case False
    then have s: "sg b = -1" using assms by (auto simp: wf_big_def)
    have "(sg b * 2 ^ nat bs) mod ?B = (?B - 2 ^ nat bs) mod ?B" by (simp add: s)
    also have "\<dots> = ?B - 2 ^ nat bs"
    proof (rule mod_pos_pos_trivial)
      have "2 ^ nat bs * (1::int) \<le> 2 ^ nat bs * 2 ^ nat cbs" by (intro mult_left_mono) auto
      then show "0 \<le> ?B - 2 ^ nat bs" using p(2) by simp
    qed (use p in simp)
    finally show ?thesis using s p by (simp add: c_def algebra_simps)
  qed (simp add: c_def)
  ultimately have c0: "js_and (js_shl (sg b) bs) (DM e) = c * 2 ^ nat bs" by (simp add: js_arith)
  obtain low where low: "lshift_loop bs cbs (js_shl 1 cbs - 1) (rev (digs b)) (c * 2 ^ nat bs) [] = low"
    "length low = Suc (bt b)" "digits_in ?B low"
    "val ?B low = val ?B (digs b) * 2 ^ nat bs + c * 2 ^ nat bs * ?B ^ bt b"
    using lshift_loop_ok [OF bs cbs_def refl _ c, of "rev (digs b)" "[]"] assms
    by (auto simp: wf_big_def)
  define r where "r = \<lparr>digs = replicate ds 0 @ low, sg = sg b\<rparr>"
  have eq: "lShiftTo e n b = clamp e r"
    unfolding lShiftTo_def Let_def bs_def [symmetric] cbs_def [symmetric] ds_def [symmetric] c0 low(1) r_def ..
  have wf: "wf_big e r"
    using assms low(3) DV_bounds(1) [of e] by (auto simp: r_def wf_big_def digits_in_replicate0)
  have "c * 2 ^ nat bs + sg b * ?B = sg b * 2 ^ nat bs"
    using assms p(2) by (auto simp: c_def wf_big_def left_diff_distrib mult.commute [of "2 ^ nat cbs"])
  then have top: "c * 2 ^ nat bs + sg b * ?B = sg b * 2 ^ nat bs" .
  have "bval e r = ?B ^ ds * (val ?B (digs b) * 2 ^ nat bs + (c * 2 ^ nat bs + sg b * ?B) * ?B ^ bt b)"
    by (simp add: bval_def r_def val_simps low(2,4) power_add algebra_simps)
  also have "\<dots> = ?B ^ ds * (bval e b * 2 ^ nat bs)"
    unfolding top by (simp add: bval_def algebra_simps)
  also have "\<dots> = bval e b * (2 ^ (DB e * ds) * 2 ^ nat bs)" by (simp add: DV_eq power_mult)
  also have "\<dots> = bval e b * 2 ^ n" by (simp add: bs_def ds_def flip: power_add)
  finally show "bval e (lShiftTo e n b) = bval e b * 2 ^ n" using clamp_ok [OF wf] eq by simp
  show "ok_big e (lShiftTo e n b)" using clamp_ok [OF wf] eq by simp
qed

lemma rshift_step:
  assumes "0 \<le> bs" "bs < int (DB e)" "cbs = int (DB e) - bs" "bm = js_shl 1 bs - 1"
    "0 \<le> cur" "cur < 2 ^ nat cbs"
  shows "js_or cur (js_shl (js_and x bm) cbs) = cur + (x mod 2 ^ nat bs) * 2 ^ nat cbs"
    "0 \<le> cur + (x mod 2 ^ nat bs) * 2 ^ nat cbs" "cur + (x mod 2 ^ nat bs) * 2 ^ nat cbs < DV e"
proof -
  let ?p = "2 ^ nat bs :: int" and ?q = "2 ^ nat cbs :: int"
  have B: "DV e = ?p * ?q" using DV_split [OF assms(1) less_imp_le [OF assms(2)]] assms(3) by simp
  have "x mod ?p \<le> ?p - 1" by (simp add: zle_diff1_eq)
  then have "(x mod ?p) * ?q \<le> (?p - 1) * ?q" by (intro mult_right_mono) auto
  then have le: "(x mod ?p) * ?q \<le> DV e - ?q" by (simp add: B left_diff_distrib)
  have nn: "0 \<le> (x mod ?p) * ?q" by simp
  show "0 \<le> cur + (x mod ?p) * ?q" using nn assms(5) by simp
  show lt: "cur + (x mod ?p) * ?q < DV e" using le assms(6) by simp
  have "js_and x bm = x mod ?p" using assms(1,2,4) DB_bounds(2) [of e] by (simp add: js_and_bm)
  moreover have "js_shl (x mod ?p) cbs = (x mod ?p) * ?q"
    using assms(1-3,5) lt DB_bounds(2) [of e] DV_lt31 [of e] by (intro js_shl_mult_pos) auto
  ultimately show "js_or cur (js_shl (js_and x bm) cbs) = cur + (x mod ?p) * ?q"
    using js_or_add [of "x mod ?p" cur "nat cbs"] assms(5,6) lt DV_lt31 [of e]
    by (simp add: js_or_comm add.commute)
qed

lemma rshift_loop_ok:
  assumes "0 \<le> bs" "bs < int (DB e)" "cbs = int (DB e) - bs" "bm = js_shl 1 bs - 1"
    "digits_in (DV e) ds" "s \<in> {0, -1}" "0 \<le> cur" "cur < 2 ^ nat cbs"
  shows "length (rshift_loop bs cbs bm s cur ds) = Suc (length ds) \<and>
    digits_in (DV e) (rshift_loop bs cbs bm s cur ds) \<and>
    val (DV e) (rshift_loop bs cbs bm s cur ds) + s * DV e ^ Suc (length ds) =
      cur + 2 ^ nat cbs * (val (DV e) ds + s * DV e ^ length ds)"
  using assms(5,7,8)
proof (induction ds arbitrary: cur)
  case Nil
  let ?p = "2 ^ nat bs :: int" and ?q = "2 ^ nat cbs :: int"
  have B: "DV e = ?p * ?q" using DV_split [OF assms(1) less_imp_le [OF assms(2)]] assms(3) by simp
  note st = rshift_step [OF assms(1-4) Nil(2,3), of s]
  have "rshift_loop bs cbs bm s cur [] = [cur + (s mod ?p) * ?q]"
    using st(1) assms(1) by (cases "bs = 0") auto
  moreover have "(s mod ?p) * ?q + s * DV e = ?q * s"
    using assms(6) by (auto simp: B zmod_minus1 left_diff_distrib)
  ultimately show ?case using st(2,3) by simp
next
  case (Cons d ds)
  let ?p = "2 ^ nat bs :: int" and ?q = "2 ^ nat cbs :: int"
  have B: "DV e = ?p * ?q" using DV_split [OF assms(1) less_imp_le [OF assms(2)]] assms(3) by simp
  note st = rshift_step [OF assms(1-4) Cons.prems(2,3), of d]
  have d: "0 \<le> d" "d < DV e" using Cons.prems by auto
  note sd = shift_digit [OF d assms(1) less_imp_le [OF assms(2)], folded assms(3)]
  have IH: "length (rshift_loop bs cbs bm s (d div ?p) ds) = Suc (length ds)"
    "digits_in (DV e) (rshift_loop bs cbs bm s (d div ?p) ds)"
    "val (DV e) (rshift_loop bs cbs bm s (d div ?p) ds) + s * DV e ^ Suc (length ds) =
      d div ?p + ?q * (val (DV e) ds + s * DV e ^ length ds)"
    using Cons.IH [OF _ sd(2,3)] Cons.prems by auto
  have eq: "rshift_loop bs cbs bm s cur (d # ds)
      = (cur + (d mod ?p) * ?q) # rshift_loop bs cbs bm s (d div ?p) ds"
    by (simp add: st(1) sd(1))
  have dd: "(d mod ?p) * ?q + DV e * (d div ?p) = ?q * d"
  proof -
    have "(d mod ?p) * ?q + DV e * (d div ?p) = ?q * (d mod ?p + ?p * (d div ?p))"
      unfolding B by (simp only: distrib_left mult.commute mult.left_commute)
    then show ?thesis by simp
  qed
  have "val (DV e) (rshift_loop bs cbs bm s cur (d # ds)) + s * DV e ^ Suc (length (d # ds))
      = cur + (d mod ?p) * ?q + DV e * (val (DV e) (rshift_loop bs cbs bm s (d div ?p) ds)
          + s * DV e ^ Suc (length ds))"
    unfolding eq by (simp add: algebra_simps)
  also have "\<dots> = cur + ((d mod ?p) * ?q + DV e * (d div ?p))
      + DV e * (?q * (val (DV e) ds + s * DV e ^ length ds))"
    unfolding IH(3) by (simp add: algebra_simps)
  also have "\<dots> = cur + ?q * (val (DV e) (d # ds) + s * DV e ^ length (d # ds))"
    unfolding dd by (simp add: algebra_simps)
  finally show ?case using IH(1,2) st(2,3) unfolding eq by simp
qed

lemma bval_drop:
  assumes "wf_big e b" "ds \<le> bt b"
  shows "bval e b div DV e ^ ds = val (DV e) (drop ds (digs b)) + sg b * DV e ^ (bt b - ds)"
proof -
  let ?B = "DV e"
  have "bval e b = val ?B (take ds (digs b)) +
      (val ?B (drop ds (digs b)) + sg b * ?B ^ (bt b - ds)) * ?B ^ ds"
    using assms(2) val_take_drop [of ?B "digs b" ds]
    by (simp add: bval_def min_absorb1 distrib_right mult.assoc flip: power_add)
  moreover have "0 \<le> val ?B (take ds (digs b))" "val ?B (take ds (digs b)) < ?B ^ ds"
    using assms radixDV.val_nonneg [of e "take ds (digs b)"] radixDV.val_less [of e "take ds (digs b)"]
    by (auto simp: wf_big_def min_absorb1)
  moreover have "?B ^ ds \<noteq> 0" using DV_bounds(1) [of e] by simp
  ultimately show ?thesis by simp
qed

lemma rShiftTo_ok:
  assumes "wf_big e b"
  shows "ok_big e (rShiftTo e n b)" "bval e (rShiftTo e n b) = bval e b div 2 ^ n"
proof -
  let ?B = "DV e"
  define ds where "ds = n div DB e"
  define bs where "bs = int (n mod DB e)"
  define cbs where "cbs = int (DB e) - bs"
  have pow: "(2::int) ^ n = ?B ^ ds * 2 ^ nat bs"
    by (simp add: DV_eq ds_def bs_def flip: power_mult power_add)
  show "ok_big e (rShiftTo e n b)" "bval e (rShiftTo e n b) = bval e b div 2 ^ n"
  proof (atomize (full), cases "ds \<ge> bt b")
    case True
    have "?B ^ bt b * 1 \<le> ?B ^ ds * 2 ^ nat bs"
      using True DV_bounds(2) [of e] by (intro mult_mono power_increasing) auto
    then have le: "?B ^ bt b \<le> 2 ^ n" by (simp add: pow)
    have "bval e b div 2 ^ n = sg b"
    proof (cases "sg b = 0")
      case True
      then show ?thesis using bval_range(1,2) [OF assms] le by simp
    next
      case False
      then have s: "sg b = -1" using assms by (auto simp: wf_big_def)
      have "bval e b div 2 ^ n = -1"
        using bval_range(3,4) [OF assms s] le by (intro div_minus1_range) auto
      then show ?thesis using s by simp
    qed
    then show "ok_big e (rShiftTo e n b) \<and> bval e (rShiftTo e n b) = bval e b div 2 ^ n"
      using True assms by (simp add: rShiftTo_def ds_def ok_big_def wf_big_def clamped_def bval_def Let_def)
  next
    case False
    then have lt: "ds < bt b" by simp
    define d where "d = digs b ! ds"
    define rest where "rest = drop (Suc ds) (digs b)"
    define r where "r = rshift_loop bs cbs (js_shl 1 bs - 1) (sg b) (js_shr d bs) rest"
    have bs: "0 \<le> bs" "bs < int (DB e)" using DB_bounds(1) [of e] by (simp_all add: bs_def)
    have wf: "digits_in ?B (digs b)" "sg b \<in> {0, -1}" using assms by (auto simp: wf_big_def)
    have d: "0 \<le> d" "d < ?B" using digits_in_nth [OF wf(1) lt] by (auto simp: d_def)
    note sd = shift_digit [OF d bs(1) less_imp_le [OF bs(2)], folded cbs_def]
    have eq: "rShiftTo e n b = clamp e \<lparr>digs = r, sg = sg b\<rparr>"
      using False by (simp add: rShiftTo_def r_def d_def rest_def Let_def bs_def cbs_def ds_def)
    have len: "length rest = bt b - Suc ds" by (simp add: rest_def)
    have r: "length r = Suc (length rest)" "digits_in ?B r"
      "val ?B r + sg b * ?B ^ Suc (length rest) = d div 2 ^ nat bs + 2 ^ nat cbs * (val ?B rest + sg b * ?B ^ length rest)"
      using rshift_loop_ok [OF bs cbs_def refl _ wf(2) sd(2,3), of rest] wf(1)
      by (auto simp: r_def rest_def sd(1))
    have wfr: "wf_big e \<lparr>digs = r, sg = sg b\<rparr>" using r(2) wf(2) by (simp add: wf_big_def)
    have "bval e b div ?B ^ ds = val ?B (drop ds (digs b)) + sg b * ?B ^ (bt b - ds)"
      using lt by (intro bval_drop [OF assms]) simp
    also have "drop ds (digs b) = d # rest" using lt by (simp add: d_def rest_def Cons_nth_drop_Suc)
    also have "bt b - ds = Suc (length rest)" using lt len by simp
    finally have "bval e b div ?B ^ ds = d + (2 ^ nat cbs * (val ?B rest + sg b * ?B ^ length rest)) * 2 ^ nat bs"
      using DV_split [OF bs(1) less_imp_le [OF bs(2)]] by (simp add: cbs_def algebra_simps)
    then have "bval e b div ?B ^ ds div 2 ^ nat bs = d div 2 ^ nat bs + 2 ^ nat cbs * (val ?B rest + sg b * ?B ^ length rest)"
      by simp
    then have "bval e b div 2 ^ n = bval e \<lparr>digs = r, sg = sg b\<rparr>"
      unfolding pow using r(1,3) DV_bounds(1) [of e] by (simp add: zdiv_zmult2_eq bval_def)
    then show "ok_big e (rShiftTo e n b) \<and> bval e (rShiftTo e n b) = bval e b div 2 ^ n"
      using clamp_ok [OF wfr] by (simp add: eq)
  qed
qed

section \<open>Bit length\<close>

definition nbits_inv :: "int \<Rightarrow> nat \<Rightarrow> int \<times> int \<Rightarrow> bool" where
  "nbits_inv x0 m p \<longleftrightarrow> 1 \<le> fst p \<and> fst p < 2 ^ m \<and> 1 \<le> snd p \<and> fst p = x0 div 2 ^ nat (snd p - 1)"

lemma nbits_step_inv:
  assumes "nbits_inv x0 (2 * m) p"
  shows "nbits_inv x0 m (nbits_step (fst p div 2 ^ m) (int m) p)"
proof -
  obtain x r where p: "p = (x, r)" by (cases p)
  have x: "1 \<le> x" "x < 2 ^ m * 2 ^ m" "1 \<le> r" "x = x0 div 2 ^ nat (r - 1)"
    using assms by (simp_all add: nbits_inv_def p mult_2 power_add)
  show ?thesis
  proof (cases "x div 2 ^ m = 0")
    case True
    then have "x < 2 ^ m" using x(1) by (auto simp: zdiv_eq_0_iff)
    then show ?thesis using True x by (simp add: nbits_inv_def p nbits_step_def)
  next
    case False
    have "0 \<le> x div 2 ^ m" using x(1) by (intro div_nonneg) auto
    then have "1 \<le> x div 2 ^ m" using False by simp
    moreover have "x div 2 ^ m < 2 ^ m" using x(2) by (intro div_less_of_less_mult) auto
    moreover have "x div 2 ^ m = x0 div 2 ^ nat (r + int m - 1)"
    proof -
      have "nat (r + int m - 1) = nat (r - 1) + m" using x(3) by simp
      then show ?thesis by (simp add: power_add zdiv_zmult2_eq x(4))
    qed
    ultimately show ?thesis using False x(3) by (simp add: nbits_inv_def p nbits_step_def)
  qed
qed

lemma nbits_ok:
  assumes "0 < x" "x < 2 ^ 32"
  shows "1 \<le> nbits x" "2 ^ nat (nbits x - 1) \<le> x" "x < 2 ^ nat (nbits x)"
proof -
  define p0 where "p0 = (x, 1 :: int)"
  define p1 where "p1 = nbits_step (js_ushr (fst p0) 16) 16 p0"
  define p2 where "p2 = nbits_step (js_shr (fst p1) 8) 8 p1"
  define p3 where "p3 = nbits_step (js_shr (fst p2) 4) 4 p2"
  define p4 where "p4 = nbits_step (js_shr (fst p3) 2) 2 p3"
  define p5 where "p5 = nbits_step (js_shr (fst p4) 1) 1 p4"
  have n: "nbits x = snd p5"
    by (simp add: nbits_def Let_def p5_def p4_def p3_def p2_def p1_def p0_def)
  have i0: "nbits_inv x (2 * 16) p0" using assms by (simp add: nbits_inv_def p0_def)
  then have i1: "nbits_inv x (2 * 8) p1"
    using nbits_step_inv [OF i0] by (simp add: p1_def js_ushr_div nbits_inv_def)
  then have i2: "nbits_inv x (2 * 4) p2"
    using nbits_step_inv [OF i1] by (simp add: p2_def js_shr_div nbits_inv_def)
  then have i3: "nbits_inv x (2 * 2) p3"
    using nbits_step_inv [OF i2] by (simp add: p3_def js_shr_div nbits_inv_def)
  then have i4: "nbits_inv x (2 * 1) p4"
    using nbits_step_inv [OF i3] by (simp add: p4_def js_shr_div nbits_inv_def)
  then have "nbits_inv x 1 p5"
    using nbits_step_inv [OF i4] by (simp add: p5_def js_shr_div nbits_inv_def)
  then have one: "x div 2 ^ nat (nbits x - 1) = 1" and r: "1 \<le> nbits x"
    by (auto simp: nbits_inv_def n)
  show "1 \<le> nbits x" by (rule r)
  let ?k = "nat (nbits x - 1)"
  have "x = x div 2 ^ ?k * 2 ^ ?k + x mod 2 ^ ?k" by (rule div_mult_mod_eq [symmetric])
  then have eq: "x = 2 ^ ?k + x mod 2 ^ ?k" using one by simp
  have m: "0 \<le> x mod 2 ^ ?k" "x mod 2 ^ ?k < 2 ^ ?k" by simp_all
  show "2 ^ ?k \<le> x" using eq m by linarith
  have "nat (nbits x) = Suc ?k" using r by simp
  then show "x < 2 ^ nat (nbits x)" using eq m by (simp only: power_Suc mult_2)
qed

lemma nbits_unique:
  assumes "0 < x" "x < 2 ^ 32" "2 ^ k \<le> x" "x < 2 ^ Suc k"
  shows "nbits x = int k + 1"
proof -
  note n = nbits_ok [OF assms(1,2)]
  have "(2::int) ^ k < 2 ^ nat (nbits x)" using assms(3) n(3) by linarith
  then have "k < nat (nbits x)" by (rule power_less_imp_less_exp [rotated]) simp
  moreover have "(2::int) ^ nat (nbits x - 1) < 2 ^ Suc k" using assms(4) n(2) by linarith
  then have "nat (nbits x - 1) < Suc k" by (rule power_less_imp_less_exp [rotated]) simp
  ultimately show ?thesis using n(1) by linarith
qed

text \<open>\<open>bitLength\<close> of a nonnegative number is the number of its binary digits.\<close>

lemma bitLength_ok:
  assumes "ok_big e b" "0 < bval e b"
  shows "1 \<le> bitLength e b" "2 ^ nat (bitLength e b - 1) \<le> bval e b" "bval e b < 2 ^ nat (bitLength e b)"
proof -
  have wf: "wf_big e b" using assms(1) by (simp add: ok_big_def)
  have s: "sg b = 0" using sg_cases [OF wf] assms(2) by simp
  have ne: "digs b \<noteq> []" using assms(2) s by (auto simp: bval_def)
  obtain xs d where ds: "digs b = xs @ [d]" using ne by (cases "digs b" rule: rev_cases) auto
  have d: "0 < d" "d < DV e" using assms(1) wf s ds by (auto simp: ok_big_def wf_big_def clamped_def)
  then have d32: "d < 2 ^ 32" using DV_lt31 [of e] by simp
  have "js_xor d (js_and 0 (DM e)) = d"
    using d DV_lt31 [of e] by (simp add: js_arith js_xor_def toInt32_id)
  then have "bitLength e b = int (DB e * length xs) + nbits d" using ne s by (simp add: bitLength_def ds)
  define A where "A = DB e * length xs"
  have bl: "bitLength e b = int A + nbits d"
    using \<open>bitLength e b = int (DB e * length xs) + nbits d\<close> by (simp add: A_def)
  note n = nbits_ok [OF d(1) d32]
  have xs: "0 \<le> val (DV e) xs" "val (DV e) xs < DV e ^ length xs"
    using wf ds radixDV.val_nonneg [of e xs] radixDV.val_less [of e xs] by (simp_all add: wf_big_def)
  have v: "bval e b = val (DV e) xs + DV e ^ length xs * d" using s by (simp add: bval_def ds val_snoc)
  have P: "DV e ^ length xs = 2 ^ A" by (simp add: DV_eq power_mult A_def)
  show "1 \<le> bitLength e b" using n(1) unfolding bl by linarith
  have "nat (bitLength e b - 1) = A + nat (nbits d - 1)" using n(1) unfolding bl by linarith
  then have "2 ^ nat (bitLength e b - 1) = DV e ^ length xs * 2 ^ nat (nbits d - 1)"
    by (simp add: P power_add)
  also have "\<dots> \<le> DV e ^ length xs * d" using n(2) DV_bounds(1) [of e] by (intro mult_left_mono) auto
  finally show "2 ^ nat (bitLength e b - 1) \<le> bval e b" using xs v by simp
  have "nat (bitLength e b) = A + nat (nbits d)" using n(1) unfolding bl by linarith
  then have p: "2 ^ nat (bitLength e b) = DV e ^ length xs * 2 ^ nat (nbits d)" by (simp add: P power_add)
  have "DV e ^ length xs * (d + 1) \<le> DV e ^ length xs * 2 ^ nat (nbits d)"
    using n(3) DV_bounds(1) [of e] by (intro mult_left_mono) auto
  then show "bval e b < 2 ^ nat (bitLength e b)" using xs v p by (simp add: distrib_left)
qed

section \<open>What the component promises\<close>

text \<open>
  C4: addition, subtraction, negation and absolute value of two's complement digit arrays compute those
  of the integers they denote and return a clamped, well-formed number, for every engine's digit size.
\<close>

theorem add_subtract_refine:
  assumes "ok_big e x" "ok_big e y"
  shows "ok_big e (add e x y) \<and> bval e (add e x y) = bval e x + bval e y \<and>
    ok_big e (subtract e x y) \<and> bval e (subtract e x y) = bval e x - bval e y \<and>
    ok_big e (negate e x) \<and> bval e (negate e x) = - bval e x \<and>
    ok_big e (abs_big e x) \<and> bval e (abs_big e x) = \<bar>bval e x\<bar>"
  using assms addTo_ok [of e x y] subTo_ok [of e x y] negate_ok [of e x] abs_big_ok [of e x]
  by (simp_all add: add_def subtract_def ok_big_def)

theorem add_subtract_refine_witness:
  "bval OtherBrowser (add OtherBrowser \<lparr>digs = [0x3ffffff], sg = 0\<rparr> \<lparr>digs = [5, 7], sg = -1\<rparr>)
    = 0x3ffffff + (5 + 7 * 2 ^ 26 - 2 ^ 52)"
proof -
  have "ok_big OtherBrowser \<lparr>digs = [0x3ffffff], sg = 0\<rparr>" "ok_big OtherBrowser \<lparr>digs = [5, 7], sg = -1\<rparr>"
    by (simp_all add: ok_big_def wf_big_def clamped_def DV_eq)
  from add_subtract_refine [OF this] show ?thesis by (simp add: bval_def DV_eq)
qed

text \<open>
  C5: the comparison orders numbers as the integers they denote, and equality of digit arrays, of
  \<open>compareTo\<close> with 0 and of the integers are the same: the clamped representation is canonical.
\<close>

theorem compareTo_refine:
  assumes "ok_big e x" "ok_big e y"
  shows "sgn (compareTo x y) = sgn (bval e x - bval e y) \<and>
    (equals x y \<longleftrightarrow> bval e x = bval e y) \<and> (bval e x = bval e y \<longleftrightarrow> x = y) \<and>
    bval e (min_big x y) = min (bval e x) (bval e y) \<and> bval e (max_big x y) = max (bval e x) (bval e y)"
proof -
  note c = compareTo_ok [OF assms]
  have u: "bval e x = bval e y \<longleftrightarrow> x = y" using ok_big_unique [OF assms] by blast
  moreover have "equals x y \<longleftrightarrow> bval e x = bval e y" using c by (auto simp: equals_def sgn_if split: if_splits)
  ultimately show ?thesis using c
    by (auto simp: min_big_def max_big_def min_def max_def sgn_if split: if_splits)
qed

theorem compareTo_refine_witness:
  "sgn (compareTo \<lparr>digs = [3], sg = -1\<rparr> \<lparr>digs = [9, 1], sg = 0\<rparr>) = (-1::int)"
proof -
  have "ok_big MSIE \<lparr>digs = [3], sg = -1\<rparr>" "ok_big MSIE \<lparr>digs = [9, 1], sg = 0\<rparr>"
    by (simp_all add: ok_big_def wf_big_def clamped_def DV_eq)
  from conjunct1 [OF compareTo_refine [OF this]] show ?thesis by (simp add: bval_def DV_eq sgn_if)
qed

text \<open>
  C6: the shifts multiply by a power of two and divide by it rounding down, negative numbers and negative
  counts included.
\<close>

theorem shift_refine:
  assumes "ok_big e x" "0 \<le> n"
  shows "ok_big e (shiftLeft e n x) \<and> bval e (shiftLeft e n x) = bval e x * 2 ^ nat n \<and>
    ok_big e (shiftRight e n x) \<and> bval e (shiftRight e n x) = bval e x div 2 ^ nat n \<and>
    shiftLeft e (- n) x = shiftRight e n x"
proof -
  have wf: "wf_big e x" using assms(1) by (simp add: ok_big_def)
  note l = lShiftTo_ok [OF wf] and r = rShiftTo_ok [OF wf]
  have "ok_big e (shiftLeft e n x) \<and> bval e (shiftLeft e n x) = bval e x * 2 ^ nat n"
    "ok_big e (shiftRight e n x) \<and> bval e (shiftRight e n x) = bval e x div 2 ^ nat n"
    using assms(2) l r by (simp_all add: shiftLeft_def shiftRight_def)
  moreover have "lShiftTo e 0 x = rShiftTo e 0 x" by (intro ok_big_unique [of e] l r) (simp add: l r)
  then have "shiftLeft e (- n) x = shiftRight e n x"
    using assms(2) by (cases "n = 0") (simp_all add: shiftLeft_def shiftRight_def)
  ultimately show ?thesis by blast
qed

theorem shift_refine_witness:
  "bval Netscape (shiftRight Netscape 30 \<lparr>digs = [5, 7], sg = -1\<rparr>) = (5 + 7 * 2 ^ 28 - 2 ^ 56) div 2 ^ 30"
proof -
  have "ok_big Netscape \<lparr>digs = [5, 7], sg = -1\<rparr>"
    by (simp add: ok_big_def wf_big_def clamped_def DV_eq)
  from shift_refine [OF this, of 30] show ?thesis by (simp add: bval_def DV_eq)
qed

text \<open>
  \<open>bitLength\<close> of a positive number is the position of its highest set bit plus one.
\<close>

theorem bitLength_refine:
  assumes "ok_big e x" "0 < bval e x"
  shows "\<exists>n. bitLength e x = int (Suc n) \<and> 2 ^ n \<le> bval e x \<and> bval e x < 2 ^ Suc n"
proof (intro exI conjI)
  note b = bitLength_ok [OF assms]
  show l: "bitLength e x = int (Suc (nat (bitLength e x - 1)))" using b(1) by simp
  have s: "Suc (nat (bitLength e x - 1)) = nat (bitLength e x)" using b(1) by simp
  show "2 ^ nat (bitLength e x - 1) \<le> bval e x" "bval e x < 2 ^ Suc (nat (bitLength e x - 1))"
    using b(2,3) unfolding s by simp_all
qed

theorem bitLength_refine_witness:
  "\<exists>n. bitLength OtherBrowser \<lparr>digs = [0, 9], sg = 0\<rparr> = int (Suc n) \<and> (2::int) ^ n \<le> 9 * 2 ^ 26"
proof -
  have "ok_big OtherBrowser \<lparr>digs = [0, 9], sg = 0\<rparr>" "0 < bval OtherBrowser \<lparr>digs = [0, 9], sg = 0\<rparr>"
    by (simp_all add: ok_big_def wf_big_def clamped_def DV_eq bval_def)
  from bitLength_refine [OF this] show ?thesis by (auto simp: bval_def DV_eq)
qed

end
