(* ===== verification/BigMul.thy ===== *)
theory BigMul
  imports BigCore
begin

text \<open>
  \<open>src/biginteger.js\<close>: the three multiplication kernels \<open>am1\<close>, \<open>am2\<close>, \<open>am3\<close>, and multiplication, squaring
  and the small in-place operations built on them. A kernel adds \<open>x * this[i..i+n-1]\<close> to \<open>w[j..j+n-1]\<close> with
  an initial carry \<open>c\<close> and returns the final carry; the array \<open>w\<close> it updates is returned with it. The
  kernels split digits in halves so that no intermediate value leaves the range of the bit operators;
  the locale \<open>am_kernel\<close> states what they promise, and its interpretations show each kernel to keep the
  promise for the digit size it is selected with.
\<close>

section \<open>The kernels\<close>

fun am1_loop :: "nat \<Rightarrow> nat \<Rightarrow> int \<Rightarrow> int list \<Rightarrow> int list \<Rightarrow> nat \<Rightarrow> int \<Rightarrow> int list \<times> int" where
  "am1_loop 0 i x this w j c = (w, c)"
| "am1_loop (Suc n) i x this w j c =
     (let v = x * this ! i + w ! j + c
      in am1_loop n (Suc i) x this (w[j := js_and v 0x3ffffff]) (Suc j) (v div 0x4000000))"

definition am1 :: "nat \<Rightarrow> int \<Rightarrow> int list \<Rightarrow> int list \<Rightarrow> nat \<Rightarrow> int \<Rightarrow> nat \<Rightarrow> int list \<times> int" where
  "am1 i x this w j c n = am1_loop n i x this w j c"

fun am2_loop :: "nat \<Rightarrow> nat \<Rightarrow> int \<Rightarrow> int \<Rightarrow> int list \<Rightarrow> int list \<Rightarrow> nat \<Rightarrow> int \<Rightarrow> int list \<times> int" where
  "am2_loop 0 i xl xh this w j c = (w, c)"
| "am2_loop (Suc n) i xl xh this w j c =
     (let l = js_and (this ! i) 0x7fff;
          h = js_shr (this ! i) 15;
          m = xh * l + h * xl;
          l' = xl * l + js_shl (js_and m 0x7fff) 15 + w ! j + js_and c 0x3fffffff;
          c' = js_ushr l' 30 + js_ushr m 15 + xh * h + js_ushr c 30
      in am2_loop n (Suc i) xl xh this (w[j := js_and l' 0x3fffffff]) (Suc j) c')"

definition am2 :: "nat \<Rightarrow> int \<Rightarrow> int list \<Rightarrow> int list \<Rightarrow> nat \<Rightarrow> int \<Rightarrow> nat \<Rightarrow> int list \<times> int" where
  "am2 i x this w j c n = am2_loop n i (js_and x 0x7fff) (js_shr x 15) this w j c"

fun am3_loop :: "nat \<Rightarrow> nat \<Rightarrow> int \<Rightarrow> int \<Rightarrow> int list \<Rightarrow> int list \<Rightarrow> nat \<Rightarrow> int \<Rightarrow> int list \<times> int" where
  "am3_loop 0 i xl xh this w j c = (w, c)"
| "am3_loop (Suc n) i xl xh this w j c =
     (let l = js_and (this ! i) 0x3fff;
          h = js_shr (this ! i) 14;
          m = xh * l + h * xl;
          l' = xl * l + js_shl (js_and m 0x3fff) 14 + w ! j + c;
          c' = js_shr l' 28 + js_shr m 14 + xh * h
      in am3_loop n (Suc i) xl xh this (w[j := js_and l' 0xfffffff]) (Suc j) c')"

definition am3 :: "nat \<Rightarrow> int \<Rightarrow> int list \<Rightarrow> int list \<Rightarrow> nat \<Rightarrow> int \<Rightarrow> nat \<Rightarrow> int list \<times> int" where
  "am3 i x this w j c n = am3_loop n i (js_and x 0x3fff) (js_shr x 14) this w j c"

definition am :: "engine \<Rightarrow> nat \<Rightarrow> int \<Rightarrow> int list \<Rightarrow> int list \<Rightarrow> nat \<Rightarrow> int \<Rightarrow> nat \<Rightarrow> int list \<times> int" where
  "am e = (case e of MSIE \<Rightarrow> am2 | OtherBrowser \<Rightarrow> am1 | Netscape \<Rightarrow> am3)"

section \<open>What a kernel promises\<close>

text \<open>The schoolbook row: the full product of two digits, its low digit stored, its high part carried.\<close>

fun am_ref :: "int \<Rightarrow> nat \<Rightarrow> nat \<Rightarrow> int \<Rightarrow> int list \<Rightarrow> int list \<Rightarrow> nat \<Rightarrow> int \<Rightarrow> int list \<times> int" where
  "am_ref B 0 i x this w j c = (w, c)"
| "am_ref B (Suc n) i x this w j c =
     (let v = x * this ! i + w ! j + c
      in am_ref B n (Suc i) x this (w[j := v mod B]) (Suc j) (v div B))"

definition digits_from :: "int \<Rightarrow> int list \<Rightarrow> nat \<Rightarrow> nat \<Rightarrow> bool" where
  "digits_from B w j n \<longleftrightarrow> j + n \<le> length w \<and> (\<forall>k. j \<le> k \<longrightarrow> k < j + n \<longrightarrow> 0 \<le> w ! k \<and> w ! k < B)"

lemma digits_from_Suc:
  assumes "digits_from B w j (Suc n)"
  shows "0 \<le> w ! j" "w ! j < B" "j < length w" "digits_from B (w[j := v]) (Suc j) n"
  using assms by (auto simp: digits_from_def nth_list_update)

lemma digits_in_from: "digits_in B w \<Longrightarrow> j + n \<le> length w \<Longrightarrow> digits_from B w j n"
  by (auto simp: digits_from_def digits_in_nth)

lemma digits_in_iff_from: "digits_in B w \<longleftrightarrow> digits_from B w 0 (length w)"
  by (auto simp: digits_from_def digits_in_nth) (auto simp: digits_in_def in_set_conv_nth)

lemma am_step_bounds:
  fixes B :: int
  assumes "0 \<le> x" "x < 2 * B" "0 \<le> d" "d < B" "0 \<le> w" "w < B" "0 \<le> c" "c < 3 * B"
  shows "0 \<le> x * d + w + c" "(x * d + w + c) div B < 3 * B" "0 \<le> (x * d + w + c) div B"
    "c \<le> x \<Longrightarrow> (x * d + w + c) div B \<le> x"
proof -
  have B: "1 \<le> B" using assms by linarith
  have xd: "x * d \<le> x * (B - 1)" using assms by (intro mult_left_mono) auto
  show nn: "0 \<le> x * d + w + c" using assms by simp
  show "0 \<le> (x * d + w + c) div B" using nn B by (intro div_nonneg) auto
  have "x * (B - 1) \<le> (2 * B) * (B - 1)" using assms B by (intro mult_right_mono) auto
  moreover have "0 \<le> (B - 1) * (B - 1)" using B by simp
  ultimately have "x * d + w + c < 3 * B * B"
    using xd assms(6,8) unfolding right_diff_distrib left_diff_distrib by linarith
  then show "(x * d + w + c) div B < 3 * B" using B by (intro div_less_of_less_mult) auto
  assume "c \<le> x"
  then have "x * d + w + c < (x + 1) * B" using xd assms by (simp add: algebra_simps)
  then have "(x * d + w + c) div B < x + 1" using B by (intro div_less_of_less_mult) auto
  then show "(x * d + w + c) div B \<le> x" by simp
qed

text \<open>The value a row adds, for any digits.\<close>

lemma am_ref_value:
  assumes "j + n \<le> length w" "i + n \<le> length this" "am_ref B n i x this w j c = (w', c')"
  shows "length w' = length w \<and> (\<forall>k. k < j \<or> j + n \<le> k \<longrightarrow> w' ! k = w ! k) \<and>
    val B w' + c' * B ^ (j + n) = val B w + x * val B (take n (drop i this)) * B ^ j + c * B ^ j"
  using assms
proof (induction n arbitrary: i w j c)
  case 0
  then show ?case by simp
next
  case (Suc n)
  define v where "v = x * this ! i + w ! j + c"
  have IH: "length w' = length w" "\<forall>k. k < Suc j \<or> Suc j + n \<le> k \<longrightarrow> w' ! k = w[j := v mod B] ! k"
    "val B w' + c' * B ^ (Suc j + n) = val B (w[j := v mod B])
      + x * val B (take n (drop (Suc i) this)) * B ^ Suc j + v div B * B ^ Suc j"
    using Suc.IH [of "Suc j" "w[j := v mod B]" "Suc i" "v div B"] Suc.prems
    by (auto simp: v_def Let_def)
  have "take (Suc n) (drop i this) = this ! i # take n (drop (Suc i) this)"
    using Suc.prems(2) by (simp flip: Cons_nth_drop_Suc)
  moreover have "val B (w[j := v mod B]) + v div B * B ^ Suc j = val B w + (v - w ! j) * B ^ j"
  proof -
    have u: "val B (w[j := v mod B]) = val B w + (v mod B - w ! j) * B ^ j"
      using Suc.prems(1) by (simp add: val_update)
    have "val B (w[j := v mod B]) + v div B * B ^ Suc j = val B w + ((v div B * B + v mod B) - w ! j) * B ^ j"
      unfolding u power_Suc by algebra
    then show ?thesis by (simp only: div_mult_mod_eq)
  qed
  ultimately have "val B w' + c' * B ^ (j + Suc n)
      = val B w + x * val B (take (Suc n) (drop i this)) * B ^ j + c * B ^ j"
    using IH(3) by (simp add: v_def algebra_simps)
  then show ?case using IH(1,2) by simp
qed

lemma am_ref_bounds:
  assumes "digits_in B this" "digits_from B w j n" "i + n \<le> length this"
    "0 \<le> x" "x < 2 * B" "0 \<le> c" "c < 3 * B" "am_ref B n i x this w j c = (w', c')"
  shows "digits_from B w' j n \<and> 0 \<le> c' \<and> c' < 3 * B \<and> (c \<le> x \<longrightarrow> c' \<le> x)"
  using assms(2,3,6-8)
proof (induction n arbitrary: i w j c)
  case 0
  then show ?case by simp
next
  case (Suc n)
  define v where "v = x * this ! i + w ! j + c"
  have d: "0 \<le> this ! i" "this ! i < B" using digits_in_nth [OF assms(1)] Suc.prems(2) by auto
  note df = digits_from_Suc [OF Suc.prems(1)]
  note b = am_step_bounds [OF assms(4,5) d df(1,2) Suc.prems(3,4), folded v_def]
  have eq: "am_ref B n (Suc i) x this (w[j := v mod B]) (Suc j) (v div B) = (w', c')"
    using Suc.prems(5) by (simp add: v_def Let_def)
  have IH: "digits_from B w' (Suc j) n" "0 \<le> c'" "c' < 3 * B" "v div B \<le> x \<longrightarrow> c' \<le> x"
    using Suc.IH [OF df(4) _ b(3,2) eq] Suc.prems(2) by auto
  have "j < length (w[j := v mod B])" using df(3) by simp
  moreover have "w' ! j = v mod B"
    using am_ref_value [OF _ _ eq] df(3) Suc.prems(1,2) by (auto simp: digits_from_def)
  moreover have "0 < B" using d by linarith
  ultimately have "digits_from B w' j (Suc n)"
    using IH(1) by (auto simp: digits_from_def) (metis le_antisym not_less_eq_eq pos_mod_bound pos_mod_sign)+
  then show ?case using IH b(4) by blast
qed

locale am_kernel =
  fixes kernel :: "nat \<Rightarrow> int \<Rightarrow> int list \<Rightarrow> int list \<Rightarrow> nat \<Rightarrow> int \<Rightarrow> nat \<Rightarrow> int list \<times> int"
    and B :: int
  assumes kernel_eq: "\<lbrakk>digits_in B this; digits_from B w j n; i + n \<le> length this;
      0 \<le> x; x < 2 * B; 0 \<le> c; c < 3 * B\<rbrakk>
    \<Longrightarrow> kernel i x this w j c n = am_ref B n i x this w j c"
begin

lemma kernel_ok:
  assumes "digits_in B this" "digits_from B w j n" "i + n \<le> length this"
    "0 \<le> x" "x < 2 * B" "0 \<le> c" "c < 3 * B" "kernel i x this w j c n = (w', c')"
  shows "length w' = length w" "\<And>k. k < j \<or> j + n \<le> k \<Longrightarrow> w' ! k = w ! k" "digits_from B w' j n"
    "val B w' + c' * B ^ (j + n) = val B w + x * val B (take n (drop i this)) * B ^ j + c * B ^ j"
    "0 \<le> c'" "c' < 3 * B" "c \<le> x \<Longrightarrow> c' \<le> x"
proof -
  have r: "am_ref B n i x this w j c = (w', c')" using kernel_eq [OF assms(1-7)] assms(8) by simp
  have "j + n \<le> length w" using assms(2) by (simp add: digits_from_def)
  note v = am_ref_value [OF this assms(3) r]
  show "length w' = length w" using v by blast
  show "w' ! k = w ! k" if "k < j \<or> j + n \<le> k" for k using v that by blast
  show "val B w' + c' * B ^ (j + n) = val B w + x * val B (take n (drop i this)) * B ^ j + c * B ^ j"
    using v by blast
  note b = am_ref_bounds [OF assms(1-7) r]
  show "digits_from B w' j n" "0 \<le> c'" "c' < 3 * B" "c \<le> x \<Longrightarrow> c' \<le> x" using b by blast+
qed

end

section \<open>The kernels keep the promise\<close>

text \<open>One step of the half-digit product: \<open>S\<close> is half a digit's base.\<close>

lemma half_product:
  fixes x d w c S :: int
  assumes "0 < S" "m = x div S * (d mod S) + d div S * (x mod S)"
    "l' = x mod S * (d mod S) + m mod S * S + w + c"
  shows "(x * d + w + c) div (S * S) = l' div (S * S) + m div S + x div S * (d div S)"
    "(x * d + w + c) mod (S * S) = l' mod (S * S)"
proof -
  have "x * d = (x div S * S + x mod S) * (d div S * S + d mod S)" by simp
  also have "\<dots> = x div S * (d div S) * (S * S) + m * S + x mod S * (d mod S)"
    by (simp only: assms(2) algebra_simps)
  also have "m * S = m div S * (S * S) + m mod S * S"
    by (metis (no_types) distrib_right div_mult_mod_eq mult.assoc)
  finally have "x * d + w + c = l' + (m div S + x div S * (d div S)) * (S * S)"
    by (simp add: assms(3) algebra_simps)
  then show "(x * d + w + c) div (S * S) = l' div (S * S) + m div S + x div S * (d div S)"
    "(x * d + w + c) mod (S * S) = l' mod (S * S)"
    using assms(1) by simp_all
qed

lemma am1_loop_eq: "am1_loop n i x this w j c = am_ref 0x4000000 n i x this w j c"
  by (induction n arbitrary: i w j c) (simp_all add: js_arith)

text \<open>The bounds of one step, over the half digits: \<open>P\<close> bounds those of \<open>x\<close>, \<open>S\<close> those of the array's digit.\<close>

lemma half_bounds:
  fixes xh xl dh dl S :: int
  assumes "0 \<le> xh" "xh < 2 * S" "0 \<le> xl" "xl < S" "0 \<le> dh" "dh < S" "0 \<le> dl" "dl < S"
  shows "0 \<le> xh * dl + dh * xl" "xh * dl + dh * xl \<le> 3 * (S * S)"
    "0 \<le> xl * dl" "xl * dl \<le> S * S - S" "0 \<le> xh * dh"
proof -
  have "xh * dl \<le> (2 * S) * S" "dh * xl \<le> S * S" "xl * dl \<le> S * (S - 1)"
    using assms by (auto intro!: mult_mono)
  moreover have "0 \<le> xh * dl" "0 \<le> dh * xl" using assms by simp_all
  ultimately show "0 \<le> xh * dl + dh * xl" "xh * dl + dh * xl \<le> 3 * (S * S)" "xl * dl \<le> S * S - S"
    by (simp_all add: algebra_simps)
  show "0 \<le> xl * dl" "0 \<le> xh * dh" using assms by simp_all
qed

lemma half_digit:
  fixes x S :: int
  assumes "0 \<le> x" "x < k * (S * S)" "0 < S"
  shows "0 \<le> x div S" "x div S < k * S" "0 \<le> x mod S" "x mod S < S"
  using assms by (auto simp: pos_imp_zdiv_nonneg_iff intro!: div_less_of_less_mult)

lemma am3_step:
  assumes "0 \<le> x" "x < 2 * 0x10000000" "0 \<le> d" "d < 0x10000000" "0 \<le> wj" "wj < 0x10000000"
    "0 \<le> c" "c < 3 * 0x10000000"
    and m: "m = x div 0x4000 * js_and d 0x3fff + js_shr d 14 * (x mod 0x4000)"
    and l: "l = x mod 0x4000 * js_and d 0x3fff + js_shl (js_and m 0x3fff) 14 + wj + c"
  shows "js_and l 0xfffffff = (x * d + wj + c) mod 0x10000000"
    "js_shr l 28 + js_shr m 14 + x div 0x4000 * js_shr d 14 = (x * d + wj + c) div 0x10000000"
proof -
  define xh xl dh dl where g: "xh = x div 0x4000" "xl = x mod 0x4000" "dh = d div 0x4000" "dl = d mod 0x4000"
  have b: "0 \<le> xh" "xh < 2 * 0x4000" "0 \<le> xl" "xl < 0x4000" "0 \<le> dh" "dh < 0x4000" "0 \<le> dl" "dl < 0x4000"
    using half_digit [where x = x and k = 2 and S = "0x4000"] half_digit [where x = d and k = 1 and S = "0x4000"] assms(1-4) unfolding g by simp_all
  have d14: "js_shr d 14 = dh" "js_and d 0x3fff = dl"
    using assms(3,4) unfolding g by (simp_all add: js_shr_div js_and_mask_num)
  have m': "m = xh * dl + dh * xl" unfolding m d14 g(1,2) ..
  note hb = half_bounds [OF b]
  have m3: "0 \<le> m" "m \<le> 3 * (0x4000 * 0x4000)" using hb(1,2) unfolding m' by simp_all
  have mm: "0 \<le> m mod 0x4000" "m mod 0x4000 < 0x4000" by simp_all
  define r where "r = m mod 0x4000"
  have r: "0 \<le> r" "r < 0x4000" using mm unfolding r_def by simp_all
  have sh: "js_shl (js_and m 0x3fff) 14 = r * 0x4000"
    using r unfolding js_and_mask_num r_def [symmetric] by (subst js_shl_mult_pos) auto
  have l': "l = xl * dl + r * 0x4000 + wj + c" unfolding l d14 sh g(2) ..
  have l3: "0 \<le> l" "l < 2 ^ 31" using hb(3,4) r assms(5-8) unfolding l' by simp_all
  have s: "js_shr l 28 = l div 0x10000000" "js_shr m 14 = m div 0x4000"
    using l3 m3 by (simp_all add: js_shr_div)
  have k: "(0x4000::int) * 0x4000 = 0x10000000" by simp
  note hp = half_product [where S = "0x4000" and m = m and x = x and d = d and l' = l and w = wj and c = c, unfolded k, OF _ m' [unfolded g] l' [unfolded g r_def]]
  show "js_and l 0xfffffff = (x * d + wj + c) mod 0x10000000"
    unfolding js_and_mask_num by (rule hp(2) [symmetric]) simp
  show "js_shr l 28 + js_shr m 14 + x div 0x4000 * js_shr d 14 = (x * d + wj + c) div 0x10000000"
    unfolding s d14 g by (rule hp(1) [symmetric]) simp
qed

lemma am3_loop_eq:
  assumes "digits_in 0x10000000 this" "digits_from 0x10000000 w j n" "i + n \<le> length this"
    "0 \<le> x" "x < 2 * 0x10000000" "0 \<le> c" "c < 3 * 0x10000000"
  shows "am3_loop n i (x mod 0x4000) (x div 0x4000) this w j c = am_ref 0x10000000 n i x this w j c"
  using assms(2,3,6,7)
proof (induction n arbitrary: i w j c)
  case 0
  then show ?case by simp
next
  case (Suc n)
  have d: "0 \<le> this ! i" "this ! i < 0x10000000" using digits_in_nth [OF assms(1)] Suc.prems(2) by auto
  note df = digits_from_Suc [OF Suc.prems(1)]
  note st = am3_step [OF assms(4,5) d df(1,2) Suc.prems(3,4) refl refl]
  note b = am_step_bounds [OF assms(4,5) d df(1,2) Suc.prems(3,4)]
  show ?case
    unfolding am3_loop.simps am_ref.simps Let_def st
    using Suc.prems(2) by (intro Suc.IH df(4) b) auto
qed

lemma am2_step:
  assumes "0 \<le> x" "x < 2 * 0x40000000" "0 \<le> d" "d < 0x40000000" "0 \<le> wj" "wj < 0x40000000"
    "0 \<le> c" "c < 3 * 0x40000000"
    and m: "m = x div 0x8000 * js_and d 0x7fff + js_shr d 15 * (x mod 0x8000)"
    and l: "l = x mod 0x8000 * js_and d 0x7fff + js_shl (js_and m 0x7fff) 15 + wj + js_and c 0x3fffffff"
  shows "js_and l 0x3fffffff = (x * d + wj + c) mod 0x40000000"
    "js_ushr l 30 + js_ushr m 15 + x div 0x8000 * js_shr d 15 + js_ushr c 30 = (x * d + wj + c) div 0x40000000"
proof -
  define xh xl dh dl where g: "xh = x div 0x8000" "xl = x mod 0x8000" "dh = d div 0x8000" "dl = d mod 0x8000"
  have b: "0 \<le> xh" "xh < 2 * 0x8000" "0 \<le> xl" "xl < 0x8000" "0 \<le> dh" "dh < 0x8000" "0 \<le> dl" "dl < 0x8000"
    using half_digit [where x = x and k = 2 and S = "0x8000"] half_digit [where x = d and k = 1 and S = "0x8000"]
      assms(1-4) unfolding g by simp_all
  have d15: "js_shr d 15 = dh" "js_and d 0x7fff = dl"
    using assms(3,4) unfolding g by (simp_all add: js_shr_div js_and_mask_num)
  have m': "m = xh * dl + dh * xl" unfolding m d15 g(1,2) ..
  note hb = half_bounds [OF b]
  have m3: "0 \<le> m" "m \<le> 3 * (0x8000 * 0x8000)" using hb(1,2) unfolding m' by simp_all
  have mm: "0 \<le> m mod 0x8000" "m mod 0x8000 < 0x8000" by simp_all
  define r where "r = m mod 0x8000"
  have r: "0 \<le> r" "r < 0x8000" using mm unfolding r_def by simp_all
  have sh: "js_shl (js_and m 0x7fff) 15 = r * 0x8000"
    using r unfolding js_and_mask_num r_def [symmetric] by (subst js_shl_mult_pos) auto
  define c0 c1 where c01: "c0 = c mod 0x40000000" "c1 = c div 0x40000000"
  have c0: "0 \<le> c0" "c0 < 0x40000000" and cc: "c = c0 + 0x40000000 * c1" unfolding c01 by simp_all
  have ca: "js_and c 0x3fffffff = c0" unfolding c01 js_and_mask_num ..
  have l': "l = xl * dl + r * 0x8000 + wj + c0" unfolding l d15 sh ca g(2) ..
  have l3: "0 \<le> l" "l < 2 ^ 32" using hb(3,4) r assms(5,6) c0 unfolding l' by simp_all
  have s: "js_ushr l 30 = l div 0x40000000" "js_ushr m 15 = m div 0x8000" "js_ushr c 30 = c1"
    using l3 m3 assms(7,8) unfolding c01 by (simp_all add: js_ushr_div)
  have k: "(0x8000::int) * 0x8000 = 0x40000000" by simp
  note hp = half_product [where S = "0x8000" and m = m and x = x and d = d and l' = l and w = wj and c = c0,
      unfolded k, OF _ m' [unfolded g] l' [unfolded g r_def]]
  have e: "x * d + wj + c = (x * d + wj + c0) + 0x40000000 * c1" unfolding cc by simp
  have "(x * d + wj + c) mod 0x40000000 = (x * d + wj + c0) mod 0x40000000" unfolding e by simp
  also have "\<dots> = l mod 0x40000000" by (rule hp(2)) simp
  finally show "js_and l 0x3fffffff = (x * d + wj + c) mod 0x40000000" by (simp only: js_and_mask_num)
  have "(x * d + wj + c) div 0x40000000 = (x * d + wj + c0) div 0x40000000 + c1" unfolding e by simp
  also have "(x * d + wj + c0) div 0x40000000
      = l div 0x40000000 + m div 0x8000 + x div 0x8000 * (d div 0x8000)" by (rule hp(1)) simp
  finally show "js_ushr l 30 + js_ushr m 15 + x div 0x8000 * js_shr d 15 + js_ushr c 30
      = (x * d + wj + c) div 0x40000000"
    by (simp only: s d15 g)
qed

lemma am2_loop_eq:
  assumes "digits_in 0x40000000 this" "digits_from 0x40000000 w j n" "i + n \<le> length this"
    "0 \<le> x" "x < 2 * 0x40000000" "0 \<le> c" "c < 3 * 0x40000000"
  shows "am2_loop n i (x mod 0x8000) (x div 0x8000) this w j c = am_ref 0x40000000 n i x this w j c"
  using assms(2,3,6,7)
proof (induction n arbitrary: i w j c)
  case 0
  then show ?case by simp
next
  case (Suc n)
  have d: "0 \<le> this ! i" "this ! i < 0x40000000" using digits_in_nth [OF assms(1)] Suc.prems(2) by auto
  note df = digits_from_Suc [OF Suc.prems(1)]
  note st = am2_step [OF assms(4,5) d df(1,2) Suc.prems(3,4) refl refl]
  note b = am_step_bounds [OF assms(4,5) d df(1,2) Suc.prems(3,4)]
  show ?case
    unfolding am2_loop.simps am_ref.simps Let_def st
    using Suc.prems(2) by (intro Suc.IH df(4) b) auto
qed

interpretation k1: am_kernel am1 "0x4000000"
  by unfold_locales (simp add: am1_def am1_loop_eq)

interpretation k2: am_kernel am2 "0x40000000"
proof unfold_locales
  fix this w :: "int list" and i j n :: nat and x c :: int
  assume a: "digits_in 0x40000000 this" "digits_from 0x40000000 w j n" "i + n \<le> length this"
    "0 \<le> x" "x < 2 * 0x40000000" "0 \<le> c" "c < 3 * 0x40000000"
  then have "js_shr x 15 = x div 0x8000" by (simp add: js_shr_div)
  then show "am2 i x this w j c n = am_ref 0x40000000 n i x this w j c"
    using am2_loop_eq [OF a] by (simp only: am2_def js_and_mask_num)
qed

interpretation k3: am_kernel am3 "0x10000000"
proof unfold_locales
  fix this w :: "int list" and i j n :: nat and x c :: int
  assume a: "digits_in 0x10000000 this" "digits_from 0x10000000 w j n" "i + n \<le> length this"
    "0 \<le> x" "x < 2 * 0x10000000" "0 \<le> c" "c < 3 * 0x10000000"
  then have "js_shr x 14 = x div 0x4000" by (simp add: js_shr_div)
  then show "am3 i x this w j c n = am_ref 0x10000000 n i x this w j c"
    using am3_loop_eq [OF a] by (simp only: am3_def js_and_mask_num)
qed


lemma am_kernel_am: "am_kernel (am e) (DV e)"
  using k1.am_kernel_axioms k2.am_kernel_axioms k3.am_kernel_axioms
  by (cases e) (simp_all add: am_def DV_eq)

interpretation km: am_kernel "am e" "DV e" for e
  by (rule am_kernel_am)

text \<open>
  The kernel of the 26-bit engines computes \<open>v\<close> as one Number and divides it: the comment's bound
  \<open>2 * dvalue^2 - 2 * dvalue < 2^53\<close>, which makes the Number exact.
\<close>

lemma am1_exact:
  fixes x d w c :: int
  assumes "0 \<le> x" "x \<le> 2 * (0x4000000 - 1)" "0 \<le> d" "d < 0x4000000" "0 \<le> w" "w < 0x4000000"
    "0 \<le> c" "c \<le> x"
  shows "0 \<le> x * d + w + c" "x * d + w + c < 2 ^ 53"
proof -
  have "x * d \<le> 2 * (0x4000000 - 1) * (0x4000000 - 1)" using assms by (intro mult_mono) auto
  then show "x * d + w + c < 2 ^ 53" using assms by simp
  show "0 \<le> x * d + w + c" using assms by simp
qed

section \<open>Multiplication and squaring\<close>

fun mul_loop :: "engine \<Rightarrow> int list \<Rightarrow> int list \<Rightarrow> nat \<Rightarrow> int list \<Rightarrow> int list" where
  "mul_loop e xs [] i r = r"
| "mul_loop e xs (y # ys) i r =
     (let (r', c) = am e 0 y xs r i 0 (length xs)
      in mul_loop e xs ys (Suc i) (r'[i + length xs := c]))"

definition multiplyTo :: "engine \<Rightarrow> big \<Rightarrow> big \<Rightarrow> big" where
  "multiplyTo e this a =
     (let x = abs_big e this; y = abs_big e a;
          r = mul_loop e (digs x) (digs y) 0 (replicate (bt x + bt y) 0);
          p = clamp e \<lparr>digs = r, sg = 0\<rparr>
      in if sg this \<noteq> sg a then subTo e (ZERO e) p else p)"

fun sqr_loop :: "engine \<Rightarrow> int list \<Rightarrow> nat \<Rightarrow> nat \<Rightarrow> int list \<Rightarrow> int list" where
  "sqr_loop e x 0 i r = r"
| "sqr_loop e x (Suc n) i r =
     (let (r1, c) = am e i (x ! i) x r (2 * i) 0 1;
          (r2, c2) = am e (i + 1) (2 * x ! i) x r1 (2 * i + 1) c (length x - i - 1);
          s = r1 ! (i + length x) + c2;
          r3 = (if s \<ge> DV e then r2[i + length x := s - DV e, i + length x + 1 := 1]
                else r2[i + length x := s])
      in sqr_loop e x n (Suc i) r3)"

definition squareTo :: "engine \<Rightarrow> big \<Rightarrow> big" where
  "squareTo e this =
     (let x = digs (abs_big e this); t = length x;
          r = sqr_loop e x (t - 1) 0 (replicate (2 * t) 0);
          r' = (if t > 0
                then let (r1, c) = am e (t - 1) (x ! (t - 1)) x r (2 * (t - 1)) 0 1
                     in r1[2 * t - 1 := r ! (2 * t - 1) + c]
                else r)
      in clamp e \<lparr>digs = r', sg = 0\<rparr>)"

definition multiply :: "engine \<Rightarrow> big \<Rightarrow> big \<Rightarrow> big" where
  "multiply e this a = multiplyTo e this a"

definition square :: "engine \<Rightarrow> big \<Rightarrow> big" where
  "square e this = squareTo e this"

lemma digits_from_all:
  assumes "digits_from B w j n"
    "\<And>k. k < length w \<Longrightarrow> k < j \<or> j + n \<le> k \<Longrightarrow> 0 \<le> w ! k \<and> w ! k < B"
  shows "digits_in B w"
  unfolding digits_in_def
proof
  fix d assume "d \<in> set w"
  then obtain k where k: "k < length w" "d = w ! k" by (auto simp: in_set_conv_nth)
  show "0 \<le> d \<and> d < B"
  proof (cases "k < j \<or> j + n \<le> k")
    case True
    then show ?thesis using assms(2) k by blast
  next
    case False
    then show ?thesis using assms(1) k by (simp add: digits_from_def)
  qed
qed

lemma mul_loop_ok:
  assumes "digits_in (DV e) xs" "digits_in (DV e) ys" "digits_in (DV e) r"
    "length r = i + length xs + length ys" "\<And>k. i + length xs \<le> k \<Longrightarrow> k < length r \<Longrightarrow> r ! k = 0"
  shows "digits_in (DV e) (mul_loop e xs ys i r) \<and>
    val (DV e) (mul_loop e xs ys i r) = val (DV e) r + val (DV e) xs * val (DV e) ys * DV e ^ i"
  using assms(2-)
proof (induction ys arbitrary: i r)
  case Nil
  then show ?case by simp
next
  case (Cons y ys)
  define t where "t = length xs"
  obtain r' c where k: "am e 0 y xs r i 0 t = (r', c)" by fastforce
  have y: "0 \<le> y" "y < DV e" using Cons.prems(1) by auto
  have df: "digits_from (DV e) r i t" using Cons.prems(2,3) by (intro digits_in_from) (auto simp: t_def)
  have pre: "0 + t \<le> length xs" "y < 2 * DV e" "0 < 3 * DV e"
    using y DV_bounds(1) [of e] by (auto simp: t_def)
  note ko = km.kernel_ok [OF assms(1) df pre(1) y(1) pre(2) order_refl pre(3) k]
  define r2 where "r2 = r'[i + t := c]"
  have len: "length r2 = Suc i + t + length ys" "i + t < length r'"
    using ko(1) Cons.prems(3) by (auto simp: r2_def t_def)
  have c: "0 \<le> c" "c < DV e" using ko(5,7) y by auto
  have "digits_in (DV e) r'"
    using digits_in_nth [OF Cons.prems(2)] by (intro digits_from_all [OF ko(3)]) (simp add: ko(1,2))
  then have d2: "digits_in (DV e) r2" using c by (auto simp: r2_def)
  have z: "r2 ! k = 0" if "Suc i + t \<le> k" "k < length r2" for k
    using that ko(2) [of k] Cons.prems(4) [of k] by (simp add: r2_def t_def ko(1))
  have "r' ! (i + t) = 0" using ko(2) [of "i + t"] Cons.prems(4) [of "i + t"] Cons.prems(3) by (simp add: t_def)
  then have v2: "val (DV e) r2 = val (DV e) r + y * val (DV e) xs * DV e ^ i"
    using ko(4) len(2) by (simp add: r2_def val_update t_def)
  have "digits_in (DV e) ys" using Cons.prems(1) by simp
  note IH = Cons.IH [OF this d2 len(1) [unfolded t_def] z [unfolded t_def]]
  have s: "mul_loop e xs (y # ys) i r = mul_loop e xs ys (Suc i) r2"
    using k by (simp add: r2_def t_def)
  have "val (DV e) r2 + val (DV e) xs * val (DV e) ys * DV e ^ Suc i
      = val (DV e) r + val (DV e) xs * val (DV e) (y # ys) * DV e ^ i"
    unfolding v2 by (simp add: algebra_simps)
  then show ?case using IH unfolding s by simp
qed

lemma multiplyTo_ok:
  assumes "ok_big e x" "ok_big e y"
  shows "ok_big e (multiplyTo e x y)" "bval e (multiplyTo e x y) = bval e x * bval e y"
proof -
  define X Y where xy: "X = abs_big e x" "Y = abs_big e y"
  note ax = abs_big_ok [OF assms(1)] and ay = abs_big_ok [OF assms(2)]
  have dX: "digits_in (DV e) (digs X)" "digits_in (DV e) (digs Y)"
    using ax(1) ay(1) by (auto simp: xy ok_big_def wf_big_def)
  have vX: "val (DV e) (digs X) = \<bar>bval e x\<bar>" "val (DV e) (digs Y) = \<bar>bval e y\<bar>"
    using ax(2,3) ay(2,3) by (simp_all add: xy bval_def)
  define r where "r = mul_loop e (digs X) (digs Y) 0 (replicate (bt X + bt Y) 0)"
  have r: "digits_in (DV e) r" "val (DV e) r = \<bar>bval e x\<bar> * \<bar>bval e y\<bar>"
    using mul_loop_ok [OF dX, of "replicate (bt X + bt Y) 0" 0] DV_bounds(1) [of e] vX
    by (simp_all add: r_def digits_in_replicate0 val_replicate0)
  define p where "p = clamp e \<lparr>digs = r, sg = 0\<rparr>"
  have "wf_big e \<lparr>digs = r, sg = 0\<rparr>" using r(1) by (simp add: wf_big_def)
  note c = clamp_ok [OF this, folded p_def]
  have p: "ok_big e p" "bval e p = \<bar>bval e x\<bar> * \<bar>bval e y\<bar>" using c(1,2) r(2) by (simp_all add: bval_def)
  have m: "multiplyTo e x y = (if sg x \<noteq> sg y then subTo e (ZERO e) p else p)"
    by (simp add: multiplyTo_def Let_def xy r_def p_def)
  have wf: "wf_big e x" "wf_big e y" "wf_big e p" "wf_big e (ZERO e)"
    using assms p(1) ZERO_ok(1) [of e] by (simp_all add: ok_big_def)
  show "ok_big e (multiplyTo e x y)" using p(1) subTo_ok(1) [OF wf(4,3)] by (simp add: m)
  have "sg x = (if bval e x < 0 then -1 else 0)" "sg y = (if bval e y < 0 then -1 else 0)"
    using wf sg_cases by blast+
  then show "bval e (multiplyTo e x y) = bval e x * bval e y"
    using p(2) subTo_ok(2) [OF wf(4,3)] ZERO_ok(2) [of e] by (auto simp: m abs_if)
qed

text \<open>Squaring: after \<open>i\<close> rounds the lower \<open>i\<close> digits have been multiplied with everything.\<close>

definition sqr_inv :: "engine \<Rightarrow> int list \<Rightarrow> nat \<Rightarrow> int list \<Rightarrow> bool" where
  "sqr_inv e x i r \<longleftrightarrow> length r = 2 * length x \<and> digits_in (DV e) r \<and>
     (\<forall>k. i + length x < k \<longrightarrow> k < length r \<longrightarrow> r ! k = 0) \<and>
     (i < length x \<longrightarrow> r ! (i + length x) = 0 \<or> r ! (i + length x) = 1) \<and>
     val (DV e) r = (val (DV e) (take i x))\<^sup>2
       + 2 * val (DV e) (take i x) * val (DV e) (drop i x) * DV e ^ i"

lemma take_Suc_val:
  "i < length x \<Longrightarrow> val b (take (Suc i) x) = val b (take i x) + x ! i * b ^ i"
  by (simp add: take_Suc_conv_app_nth val_snoc min_absorb2)

lemma drop_Suc_val: "i < length x \<Longrightarrow> val b (drop i x) = x ! i + b * val b (drop (Suc i) x)"
  by (simp flip: Cons_nth_drop_Suc)

lemma sqr_value:
  fixes V d D P b :: int
  shows "V\<^sup>2 + 2 * V * (d + b * D) * P + d * d * P\<^sup>2 + 2 * d * D * (b * P\<^sup>2)
    = (V + d * P)\<^sup>2 + 2 * (V + d * P) * D * (b * P)"
  by (simp add: power2_eq_square algebra_simps)

lemma store_carry:
  assumes "length r = length r2" "Suc p < length r2" "r2 ! p = 0 \<or> r2 ! p = 1" "r2 ! Suc p = 0"
    "0 \<le> c" "c \<le> 2 * (b - 1)" "2 \<le> b" "digits_in b r2" "s = r2 ! p + c"
    "r = (if s \<ge> b then r2[p := s - b, Suc p := 1] else r2[p := s])"
  shows "val b r = val b r2 + c * b ^ p" "digits_in b r"
    "r ! Suc p = 0 \<or> r ! Suc p = 1" "\<And>k. Suc p < k \<Longrightarrow> r ! k = r2 ! k"
proof -
  show "val b r = val b r2 + c * b ^ p"
  proof (cases "s \<ge> b")
    case True
    then have "val b r = val b (r2[p := s - b]) + (1 - r2 ! Suc p) * b ^ Suc p"
      using assms(2,10) by (simp add: val_update)
    also have "\<dots> = val b r2 + (s - b - r2 ! p) * b ^ p + b ^ Suc p"
      using assms(2,4) by (simp add: val_update)
    finally show ?thesis by (simp add: assms(9) algebra_simps)
  next
    case False
    then show ?thesis using assms(2,9,10) by (simp add: val_update)
  qed
  have "0 \<le> s" using assms(3,5,9) by auto
  moreover have "s - b < b" using assms(3,6,9) by auto
  ultimately show "digits_in b r" using assms(7,8) by (auto simp: assms(10) intro!: digits_in_update)
  show "r ! Suc p = 0 \<or> r ! Suc p = 1" using assms(2,4) by (simp add: assms(10))
  show "r ! k = r2 ! k" if "Suc p < k" for k using that by (simp add: assms(10))
qed

lemma sqr_row:
  assumes x: "digits_in (DV e) x" and i: "i < length x" and inv: "sqr_inv e x i r"
    and k: "am e i (x ! i) x r (2 * i) 0 1 = (r1, c)"
  shows "length r1 = length r" "\<And>k. k \<noteq> 2 * i \<Longrightarrow> r1 ! k = r ! k" "digits_in (DV e) r1"
    "val (DV e) r1 + c * DV e ^ (2 * i + 1) = val (DV e) r + x ! i * x ! i * DV e ^ (2 * i)"
    "0 \<le> c" "c \<le> x ! i"
proof -
  have r: "length r = 2 * length x" "digits_in (DV e) r" using inv by (simp_all add: sqr_inv_def)
  have d: "0 \<le> x ! i" "x ! i < DV e" using digits_in_nth [OF x i] by auto
  have df: "digits_from (DV e) r (2 * i) 1" using r i by (intro digits_in_from) auto
  have pre: "i + 1 \<le> length x" "x ! i < 2 * DV e" "0 < 3 * DV e" using i d DV_bounds(1) [of e] by auto
  note ko = km.kernel_ok [OF x df pre(1) d(1) pre(2) order_refl pre(3) k]
  have "take 1 (drop i x) = [x ! i]" using i by (simp add: take_Suc_conv_app_nth)
  then show "val (DV e) r1 + c * DV e ^ (2 * i + 1) = val (DV e) r + x ! i * x ! i * DV e ^ (2 * i)"
    using ko(4) by simp
  show "length r1 = length r" by (rule ko(1))
  show same: "r1 ! k = r ! k" if "k \<noteq> 2 * i" for k using that by (intro ko(2)) auto
  show "digits_in (DV e) r1"
  proof (rule digits_from_all [OF ko(3)])
    fix k assume "k < length r1" "k < 2 * i \<or> 2 * i + 1 \<le> k"
    moreover from this have "r1 ! k = r ! k" by (intro same) auto
    ultimately show "0 \<le> r1 ! k \<and> r1 ! k < DV e" using digits_in_nth [OF r(2), of k] ko(1) by simp
  qed
  show "0 \<le> c" "c \<le> x ! i" using ko(5,7) d by auto
qed

lemma sqr_step:
  assumes x: "digits_in (DV e) x" and i: "Suc i < length x" and inv: "sqr_inv e x i r"
    and k1: "am e i (x ! i) x r (2 * i) 0 1 = (r1, c)"
    and k2: "am e (i + 1) (2 * x ! i) x r1 (2 * i + 1) c (length x - i - 1) = (r2, c2)"
    and s: "s = r1 ! (i + length x) + c2"
    and r3: "r3 = (if s \<ge> DV e then r2[i + length x := s - DV e, Suc (i + length x) := 1]
                   else r2[i + length x := s])"
  shows "sqr_inv e x (Suc i) r3"
proof -
  define t where "t = length x"
  note r1 = sqr_row [OF x _ inv k1]
  have r: "length r = 2 * t" "digits_in (DV e) r" "\<And>k. i + t < k \<Longrightarrow> k < length r \<Longrightarrow> r ! k = 0"
    "r ! (i + t) = 0 \<or> r ! (i + t) = 1"
    using inv i by (simp_all add: sqr_inv_def t_def)
  have it: "i < length x" using i by simp
  have d: "0 \<le> x ! i" "x ! i < DV e" using digits_in_nth [OF x it] by auto
  have df: "digits_from (DV e) r1 (2 * i + 1) (t - i - 1)"
    using r1(1,3) [OF it] r(1) i by (intro digits_in_from) (auto simp: t_def)
  have pre: "i + 1 + (t - i - 1) \<le> length x" "0 \<le> 2 * x ! i" "2 * x ! i < 2 * DV e" "c < 3 * DV e"
    "c \<le> 2 * x ! i"
    using i d r1(5,6) [OF it] by (auto simp: t_def)
  note k2' = km.kernel_ok [OF x df pre(1-3) r1(5) [OF it] pre(4) k2 [folded t_def]]
  have out: "r2 ! k = r ! k" if "i + t \<le> k" for k
    using that i r1(2) [OF it, of k] k2'(2) [of k] by (simp add: t_def)
  have d2: "digits_in (DV e) r2"
    using digits_in_nth [OF r1(3) [OF it]] by (intro digits_from_all [OF k2'(3)]) (simp add: k2'(1,2))
  have len: "length r2 = 2 * t" "length r3 = length r2" "Suc (i + t) < length r2"
    using k2'(1) r1(1) [OF it] r(1) i by (auto simp: r3 t_def)
  have o1: "r2 ! (i + t) = 0 \<or> r2 ! (i + t) = 1" "r2 ! Suc (i + t) = 0" "s = r2 ! (i + t) + c2"
    using out [of "i + t"] out [of "Suc (i + t)"] r(3) [of "Suc (i + t)"] r(1,4) i r1(2) [OF it, of "i + t"] s
    by (simp_all add: t_def)
  have c2: "0 \<le> c2" "c2 \<le> 2 * (DV e - 1)" using k2'(5,7) pre(5) d by auto
  note sc = store_carry [OF len(2,3) o1(1,2) c2 DV_bounds(2) d2 o1(3) r3 [folded t_def]]
  have z: "r3 ! k = 0" if "Suc i + t < k" "k < length r3" for k
    using that sc(4) [of k] out [of k] r(3) [of k] len r(1) by simp
  define P where "P = DV e ^ i"
  have P: "DV e ^ (2 * i) = P\<^sup>2" "DV e ^ (2 * i + 1) = DV e * P\<^sup>2" "DV e ^ Suc i = DV e * P"
    by (simp_all add: P_def power_mult power_mult_distrib mult.commute flip: power_mult)
  have "2 * i + 1 + (t - i - 1) = i + t" "take (t - i - 1) (drop (i + 1) x) = drop (Suc i) x"
    using i by (simp_all add: t_def)
  then have v2: "val (DV e) r2 + c2 * DV e ^ (i + t)
      = val (DV e) r1 + 2 * x ! i * val (DV e) (drop (Suc i) x) * (DV e * P\<^sup>2) + c * (DV e * P\<^sup>2)"
    using k2'(4) unfolding P by simp
  have "val (DV e) r3 = val (DV e) r + x ! i * x ! i * P\<^sup>2
      + 2 * x ! i * val (DV e) (drop (Suc i) x) * (DV e * P\<^sup>2)"
    using sc(1) v2 r1(4) [OF it] unfolding P by simp
  moreover have "val (DV e) r = (val (DV e) (take i x))\<^sup>2
       + 2 * val (DV e) (take i x) * (x ! i + DV e * val (DV e) (drop (Suc i) x)) * P"
    using inv drop_Suc_val [OF it, of "DV e"] by (simp add: sqr_inv_def P_def)
  ultimately have "val (DV e) r3 = (val (DV e) (take (Suc i) x))\<^sup>2
       + 2 * val (DV e) (take (Suc i) x) * val (DV e) (drop (Suc i) x) * DV e ^ Suc i"
    using sqr_value [of "val (DV e) (take i x)" "x ! i" "DV e" "val (DV e) (drop (Suc i) x)" P]
    unfolding P take_Suc_val [OF it] P_def [symmetric] by simp
  then show ?thesis
    using sc(2,3) z len by (simp add: sqr_inv_def t_def)
qed

lemma sqr_loop_inv:
  assumes "digits_in (DV e) x" "sqr_inv e x i r" "i + n < length x"
  shows "sqr_inv e x (i + n) (sqr_loop e x n i r)"
  using assms(2,3)
proof (induction n arbitrary: i r)
  case 0
  then show ?case by simp
next
  case (Suc n)
  obtain r1 c where k1: "am e i (x ! i) x r (2 * i) 0 1 = (r1, c)" by fastforce
  obtain r2 c2 where k2: "am e (i + 1) (2 * x ! i) x r1 (2 * i + 1) c (length x - i - 1) = (r2, c2)"
    by fastforce
  have "Suc i < length x" using Suc.prems(2) by simp
  define s r3 where "s = r1 ! (i + length x) + c2"
    and "r3 = (if s \<ge> DV e then r2[i + length x := s - DV e, Suc (i + length x) := 1] else r2[i + length x := s])"
  note st = sqr_step [OF assms(1) \<open>Suc i < length x\<close> Suc.prems(1) k1 k2 s_def r3_def]
  have "sqr_loop e x (Suc n) i r = sqr_loop e x n (Suc i) r3"
    using k1 k2 by (simp add: Let_def s_def r3_def)
  then show ?case using Suc.IH [OF st] Suc.prems(2) by simp
qed

lemma squareTo_ok:
  assumes "ok_big e b"
  shows "ok_big e (squareTo e b)" "bval e (squareTo e b) = (bval e b)\<^sup>2"
proof -
  define x where "x = digs (abs_big e b)"
  define t where "t = length x"
  define r where "r = sqr_loop e x (t - 1) 0 (replicate (2 * t) 0)"
  obtain r1 c where k: "am e (t - 1) (x ! (t - 1)) x r (2 * (t - 1)) 0 1 = (r1, c)" by fastforce
  define r' where "r' = (if t > 0 then r1[2 * t - 1 := r ! (2 * t - 1) + c] else r)"
  note ab = abs_big_ok [OF assms]
  have x: "digits_in (DV e) x" "val (DV e) x = \<bar>bval e b\<bar>"
    using ab by (simp_all add: x_def ok_big_def wf_big_def bval_def)
  have r': "digits_in (DV e) r' \<and> val (DV e) r' = (val (DV e) x)\<^sup>2"
  proof (cases "t = 0")
    case True
    then show ?thesis by (simp add: r'_def r_def t_def)
  next
    case t0: False
    show ?thesis
    proof
      have "sqr_inv e x 0 (replicate (2 * t) 0)"
        using DV_bounds(1) [of e] by (simp add: sqr_inv_def t_def digits_in_replicate0 val_replicate0)
      then have inv: "sqr_inv e x (t - 1) r"
        using sqr_loop_inv [OF x(1), of 0 _ "t - 1"] t0 by (simp add: r_def t_def)
      have lt: "t - 1 < length x" using t0 by (simp add: t_def)
      note r1 = sqr_row [OF x(1) lt inv k]
      have len: "length r = 2 * t" "2 * t - 1 < length r1" "length r' = 2 * t"
        using inv r1(1) t0 by (simp_all add: sqr_inv_def t_def r'_def)
      have e2: "2 * (t - 1) + 1 = 2 * t - 1" "t - 1 + length x = 2 * t - 1"
        using t0 unfolding t_def by (cases x; simp)+
      have old: "r1 ! (2 * t - 1) = r ! (2 * t - 1)" using t0 by (intro r1(2)) auto
      have top: "0 \<le> r ! (2 * t - 1)" using digits_in_nth [of "DV e" r "2 * t - 1"] inv len t0
        by (simp add: sqr_inv_def)
      define V d P where g: "V = val (DV e) (take (t - 1) x)" "d = x ! (t - 1)" "P = DV e ^ (t - 1)"
      have P: "DV e ^ (2 * (t - 1)) = P\<^sup>2" by (simp add: g mult.commute flip: power_mult)
      have "val (DV e) r' = val (DV e) r1 + c * DV e ^ (2 * (t - 1) + 1)"
        using t0 len(2) old unfolding e2 by (simp add: r'_def val_update)
      also have "\<dots> = val (DV e) r + d * d * P\<^sup>2" using r1(4) unfolding P g by simp
      also have "val (DV e) r = V\<^sup>2 + 2 * V * val (DV e) (drop (t - 1) x) * P"
        using inv unfolding sqr_inv_def g by blast
      also have "drop (t - 1) x = [d]" using lt by (simp add: g t_def flip: Cons_nth_drop_Suc)
      also have "V\<^sup>2 + 2 * V * val (DV e) [d] * P + d * d * P\<^sup>2 = (V + d * P)\<^sup>2"
        by (simp add: power2_eq_square algebra_simps)
      also have "V + d * P = val (DV e) x"
        using take_Suc_val [OF lt, of "DV e"] t0 by (simp add: g t_def)
      finally have v: "val (DV e) r' = (val (DV e) x)\<^sup>2" .
      have low: "digits_in (DV e) (take (2 * t - 1) r')"
        using r1(3) t0 by (simp add: r'_def)
      have split: "r' = take (2 * t - 1) r' @ [r' ! (2 * t - 1)]"
        using len(3) t0 take_Suc_conv_app_nth [of "2 * t - 1" r'] by simp
      have "val (DV e) r' = val (DV e) (take (2 * t - 1) r') + DV e ^ (2 * t - 1) * r' ! (2 * t - 1)"
        using arg_cong [OF split, of "val (DV e)"] len(3) t0 by (simp add: val_snoc)
      moreover have "0 \<le> val (DV e) (take (2 * t - 1) r')" by (rule radixDV.val_nonneg [OF low])
      moreover have "(val (DV e) x)\<^sup>2 < (DV e ^ t)\<^sup>2"
        using radixDV.val_nonneg [OF x(1)] radixDV.val_less [OF x(1)] by (intro power_strict_mono) (auto simp: t_def)
      moreover have "(DV e ^ t)\<^sup>2 = DV e ^ (2 * t - 1) * DV e"
      proof -
        have "t * 2 = Suc (2 * t - 1)" using t0 by simp
        then show ?thesis by (simp only: power_Suc2 flip: power_mult)
      qed
      ultimately have "DV e ^ (2 * t - 1) * r' ! (2 * t - 1) < DV e ^ (2 * t - 1) * DV e" using v by linarith
      then have "r' ! (2 * t - 1) < DV e" using DV_bounds(1) [of e] by simp
      moreover have "0 \<le> r' ! (2 * t - 1)" using top r1(5) t0 len(2) by (simp add: r'_def)
      ultimately show "digits_in (DV e) r'" using low by (subst split) simp
      show "val (DV e) r' = (val (DV e) x)\<^sup>2" by (rule v)
    qed
  qed
  have s: "squareTo e b = clamp e \<lparr>digs = r', sg = 0\<rparr>"
    using k by (simp add: squareTo_def Let_def x_def t_def r'_def r_def)
  have "wf_big e \<lparr>digs = r', sg = 0\<rparr>" using r' by (simp add: wf_big_def)
  note c = clamp_ok [OF this]
  show "ok_big e (squareTo e b)" using c(1) by (simp add: s)
  show "bval e (squareTo e b) = (bval e b)\<^sup>2" using c(2) r' x(2) by (simp add: s bval_def)
qed

text \<open>Squaring is multiplication by itself, digit array by digit array.\<close>

lemma square_multiply: "ok_big e b \<Longrightarrow> square e b = multiply e b b"
  using squareTo_ok [of e b] multiplyTo_ok [of e b b]
  by (intro ok_big_unique [of e]) (simp_all add: square_def multiply_def power2_eq_square)

section \<open>Small in-place operations\<close>

text \<open>
  \<open>dMultiply\<close> runs the kernel with the number itself as the target array: step \<open>i\<close> reads \<open>this[i]\<close> twice
  before it writes it and never again, so the row of the unchanged digits is what is added.
\<close>

definition dMultiply :: "engine \<Rightarrow> int \<Rightarrow> big \<Rightarrow> big" where
  "dMultiply e n this =
     (let (r, c) = am e 0 (n - 1) (digs this) (digs this) 0 0 (bt this)
      in clamp e (this\<lparr>digs := r @ [c]\<rparr>))"

function dadd_carry :: "engine \<Rightarrow> int list \<Rightarrow> nat \<Rightarrow> int list" where
  "dadd_carry e ds w =
     (if w < length ds \<and> ds ! w \<ge> DV e
      then let ds1 = ds[w := ds ! w - DV e];
               ds2 = (if Suc w \<ge> length ds then ds1 @ [0] else ds1)
           in dadd_carry e (ds2[Suc w := ds2 ! Suc w + 1]) (Suc w)
      else ds)"
  by pat_completeness auto

text \<open>
  A carry ripples up while the digit it has reached is full; it leaves each digit it passes below the base,
  so the sum of the digits falls by \<open>DV - 1\<close> with each step.
\<close>

termination
proof (relation "measure (\<lambda>(e, ds, w). nat (\<Sum>d\<leftarrow>drop w ds. max 0 d))", goal_cases)
  case 1
  then show ?case by simp
next
  case (2 e ds w ds1 ds2)
  define d where "d = ds ! w"
  have w: "w < length ds" "d \<ge> DV e" using 2(1) by (simp_all add: d_def)
  have dw: "drop w ds = d # drop (Suc w) ds" using w(1) by (simp add: d_def flip: Cons_nth_drop_Suc)
  define ds3 where "ds3 = ds2[Suc w := ds2 ! Suc w + 1]"
  define S where "S xs = (\<Sum>d\<leftarrow>xs. max 0 d)" for xs :: "int list"
  have Snn: "0 \<le> S xs" for xs unfolding S_def by (intro sum_list_nonneg) auto
  have "S (drop (Suc w) ds3) \<le> S (drop (Suc w) ds) + 1"
  proof (cases "Suc w < length ds")
    case True
    then have "drop (Suc w) ds = ds ! Suc w # drop (Suc (Suc w)) ds" by (simp add: Cons_nth_drop_Suc)
    moreover have "drop (Suc w) ds3 = (ds ! Suc w + 1) # drop (Suc (Suc w)) ds"
      using True unfolding ds3_def 2(2,3) by (simp add: drop_update_swap drop_update_cancel flip: Cons_nth_drop_Suc)
    ultimately show ?thesis by (simp add: S_def)
  next
    case False
    then have "length ds = Suc w" using w(1) by simp
    then have "drop (Suc w) ds3 = [1]" using False unfolding ds3_def 2(2,3)
      by (simp add: nth_append list_update_append)
    then show ?thesis using Snn by (simp add: S_def)
  qed
  moreover have "S (drop w ds) = d + S (drop (Suc w) ds)" using w(2) DV_bounds(1) [of e] by (simp add: S_def dw)
  ultimately have "S (drop (Suc w) ds3) < S (drop w ds)" using w(2) DV_bounds(2) [of e] by linarith
  moreover have "0 < S (drop w ds)" using \<open>S (drop (Suc w) ds3) < S (drop w ds)\<close> Snn [of "drop (Suc w) ds3"] by linarith
  ultimately show ?case by (simp add: S_def ds3_def)
qed

declare dadd_carry.simps [simp del]

definition dAddOffset :: "engine \<Rightarrow> int \<Rightarrow> nat \<Rightarrow> big \<Rightarrow> big" where
  "dAddOffset e n w this =
     (if n = 0 then this
      else let ds = digs this @ replicate (Suc w - bt this) 0
           in this\<lparr>digs := dadd_carry e (ds[w := ds ! w + n]) w\<rparr>)"

lemma dMultiply_ok:
  assumes "ok_big e b" "sg b = 0" "1 \<le> n" "n \<le> DV e"
  shows "ok_big e (dMultiply e n b)" "bval e (dMultiply e n b) = bval e b * n" "sg (dMultiply e n b) = 0"
proof -
  obtain r c where k: "am e 0 (n - 1) (digs b) (digs b) 0 0 (bt b) = (r, c)" by fastforce
  have d: "digits_in (DV e) (digs b)" using assms(1) by (simp add: ok_big_def wf_big_def)
  have df: "digits_from (DV e) (digs b) 0 (bt b)" using d by (simp add: digits_in_iff_from)
  have pre: "0 + bt b \<le> bt b" "0 \<le> n - 1" "n - 1 < 2 * DV e" "0 < 3 * DV e"
    using assms(3,4) DV_bounds(1) [of e] by auto
  note ko = km.kernel_ok [OF d df pre(1-3) order_refl pre(4) k]
  have v: "val (DV e) (r @ [c]) = val (DV e) (digs b) * n"
    using ko(1,4) by (simp add: val_snoc algebra_simps)
  have "c \<le> n - 1" using ko(7) assms(3) by simp
  moreover have "digits_in (DV e) r" using ko(1,3) by (simp add: digits_in_iff_from)
  ultimately have "wf_big e (b\<lparr>digs := r @ [c]\<rparr>)"
    using ko(5) assms(2,4) by (simp add: wf_big_def)
  note cl = clamp_ok [OF this]
  have m: "dMultiply e n b = clamp e (b\<lparr>digs := r @ [c]\<rparr>)" using k by (simp add: dMultiply_def)
  show "ok_big e (dMultiply e n b)" "sg (dMultiply e n b) = 0" using cl(1,3) assms(2) by (simp_all add: m)
  show "bval e (dMultiply e n b) = bval e b * n" using cl(2) v assms(2) by (simp add: m bval_def)
qed

lemma dadd_carry_ok:
  assumes "w < length ds" "0 \<le> ds ! w" "ds ! w < 2 * DV e"
    "\<And>k. k < length ds \<Longrightarrow> k \<noteq> w \<Longrightarrow> 0 \<le> ds ! k \<and> ds ! k < DV e" "no_lead0 ds"
  shows "digits_in (DV e) (dadd_carry e ds w) \<and> val (DV e) (dadd_carry e ds w) = val (DV e) ds
    \<and> no_lead0 (dadd_carry e ds w)"
  using assms
proof (induction e ds w rule: dadd_carry.induct)
  case (1 e ds w)
  show ?case
  proof (cases "ds ! w \<ge> DV e")
    case True
    define ds1 where "ds1 = ds[w := ds ! w - DV e]"
    define ds2 where "ds2 = (if Suc w \<ge> length ds then ds1 @ [0] else ds1)"
    define ds3 where "ds3 = ds2[Suc w := ds2 ! Suc w + 1]"
    have len: "Suc w < length ds2" "length ds \<le> length ds2" using "1.prems"(1) by (auto simp: ds2_def ds1_def)
    have low: "0 \<le> ds2 ! k \<and> ds2 ! k < DV e" if "k < length ds2" for k
      using that "1.prems"(1,2,3) True "1.prems"(4) [of k] DV_bounds(1) [of e]
      by (auto simp: ds2_def ds1_def nth_append nth_list_update split: if_splits)
    have "0 \<le> ds3 ! Suc w" "ds3 ! Suc w < 2 * DV e"
      using len low [of "Suc w"] by (auto simp: ds3_def)
    moreover have "0 \<le> ds3 ! k \<and> ds3 ! k < DV e" if "k < length ds3" "k \<noteq> Suc w" for k
      using that low [of k] by (simp add: ds3_def)
    moreover have "no_lead0 ds3"
    proof (cases "Suc (Suc w) = length ds2")
      case True
      moreover have "ds2 \<noteq> []" using len by auto
      ultimately have "last ds3 = ds2 ! Suc w + 1" by (simp add: ds3_def last_list_update flip: True)
      then show ?thesis using low [of "Suc w"] len(1) by (simp add: no_lead0_def)
    next
      case False
      have lt: "Suc (Suc w) < length ds"
      proof (rule ccontr)
        assume "\<not> Suc (Suc w) < length ds"
        then have "length ds2 = Suc (Suc w)" using "1.prems"(1) by (auto simp: ds2_def ds1_def)
        then show False using False by simp
      qed
      then have "ds2 = ds1" "ds \<noteq> []" "w \<noteq> length ds - 1" "Suc w \<noteq> length ds - 1"
        by (auto simp: ds2_def)
      then have "last ds3 = last ds" by (simp add: ds3_def ds1_def last_list_update)
      then show ?thesis using "1.prems"(1,5) by (auto simp: no_lead0_def)
    qed
    moreover have "val (DV e) ds3 = val (DV e) ds"
    proof -
      have "val (DV e) ds2 = val (DV e) ds1" by (simp add: ds2_def val_simps)
      then have "val (DV e) ds3 = val (DV e) ds1 + DV e ^ Suc w" using len by (simp add: ds3_def val_update)
      also have "val (DV e) ds1 = val (DV e) ds - DV e * DV e ^ w"
        using "1.prems"(1) by (simp add: ds1_def val_update)
      finally show ?thesis by simp
    qed
    moreover have "dadd_carry e ds w = dadd_carry e ds3 (Suc w)"
      using True "1.prems"(1) by (subst dadd_carry.simps) (simp add: Let_def ds1_def ds2_def ds3_def)
    moreover have "Suc w < length ds3" using len by (simp add: ds3_def)
    ultimately show ?thesis
      using "1.IH" [OF _ ds1_def ds2_def, folded ds3_def] True "1.prems"(1) by simp
  next
    case False
    then have "dadd_carry e ds w = ds" by (subst dadd_carry.simps) simp
    moreover have "digits_in (DV e) ds"
      using "1.prems"(2,4) False by (auto simp: digits_in_def in_set_conv_nth) (metis linorder_not_less)+
    ultimately show ?thesis using "1.prems"(5) by simp
  qed
qed

lemma dAddOffset_ok:
  assumes "ok_big e b" "sg b = 0" "0 \<le> n" "n < DV e"
    and pad: "n = 0 \<or> w \<le> bt b"
  shows "ok_big e (dAddOffset e n w b)" "bval e (dAddOffset e n w b) = bval e b + n * DV e ^ w"
    "sg (dAddOffset e n w b) = 0"
proof -
  have d: "digits_in (DV e) (digs b)" "no_lead0 (digs b)"
    using assms(1,2) by (auto simp: ok_big_def wf_big_def clamped_def no_lead0_def)
  define ds where "ds = digs b @ replicate (Suc w - bt b) 0"
  define ds1 where "ds1 = ds[w := ds ! w + n]"
  have goal: "digits_in (DV e) (dadd_carry e ds1 w) \<and> val (DV e) (dadd_carry e ds1 w) = val (DV e) ds1
      \<and> no_lead0 (dadd_carry e ds1 w)" if n: "n \<noteq> 0"
  proof (rule dadd_carry_ok)
    have len: "w < length ds" by (simp add: ds_def)
    have dd: "digits_in (DV e) ds" using d(1) DV_bounds(1) [of e] by (simp add: ds_def digits_in_replicate0)
    show "w < length ds1" using len by (simp add: ds1_def)
    show "0 \<le> ds1 ! w" "ds1 ! w < 2 * DV e"
      using digits_in_nth [OF dd len] assms(3,4) len by (simp_all add: ds1_def)
    show "0 \<le> ds1 ! k \<and> ds1 ! k < DV e" if "k < length ds1" "k \<noteq> w" for k
      using digits_in_nth [OF dd, of k] that by (simp add: ds1_def)
    show "no_lead0 ds1"
    proof (cases "Suc w - bt b = 0")
      case True
      then have "ds = digs b" "digs b \<noteq> []" by (auto simp: ds_def)
      moreover from this have "last ds1 = (if w = length ds - 1 then ds ! w + n else last ds)"
        by (simp add: ds1_def last_list_update)
      moreover have "0 \<le> ds ! w" using digits_in_nth [OF dd len] by simp
      ultimately show ?thesis using d(2) assms(3) n by (simp add: no_lead0_def split: if_splits)
    next
      case False
      then have "bt b = w" using pad n by simp
      then have "last ds1 = n" by (simp add: ds1_def ds_def nth_append last_list_update)
      then show ?thesis using n by (simp add: no_lead0_def)
    qed
  qed
  have v: "val (DV e) ds1 = val (DV e) (digs b) + n * DV e ^ w"
    by (simp add: ds1_def val_update) (simp add: ds_def val_simps)
  have eq: "dAddOffset e n w b = (if n = 0 then b else b\<lparr>digs := dadd_carry e ds1 w\<rparr>)"
    by (simp add: dAddOffset_def Let_def ds_def ds1_def)
  show "sg (dAddOffset e n w b) = 0" using assms(2) by (simp add: eq)
  show "ok_big e (dAddOffset e n w b)"
    using goal assms(1,2) by (auto simp: eq ok_big_def wf_big_def clamped_def no_lead0_def)
  show "bval e (dAddOffset e n w b) = bval e b + n * DV e ^ w"
    using goal v assms(2) by (simp add: eq bval_def)
qed

section \<open>Partial products\<close>

text \<open>
  The lower \<open>n\<close> digits of a product: rows that would leave the first \<open>n\<close> digits are cut there.
\<close>

fun mul_low_loop :: "engine \<Rightarrow> int list \<Rightarrow> int list \<Rightarrow> nat \<Rightarrow> nat \<Rightarrow> int list \<Rightarrow> int list" where
  "mul_low_loop e xs [] n i r = r"
| "mul_low_loop e xs (y # ys) n i r =
     (if i + length xs < length r
      then let (r', c) = am e 0 y xs r i 0 (length xs)
           in mul_low_loop e xs ys n (Suc i) (r'[i + length xs := c])
      else if i < n
      then mul_low_loop e xs ys n (Suc i) (fst (am e 0 y xs r i 0 (n - i)))
      else r)"

definition multiplyLowerTo :: "engine \<Rightarrow> big \<Rightarrow> big \<Rightarrow> nat \<Rightarrow> big" where
  "multiplyLowerTo e this a n =
     clamp e \<lparr>digs = mul_low_loop e (digs this) (digs a) n 0 (replicate (min (bt this + bt a) n) 0), sg = 0\<rparr>"

text \<open>The product without its lower \<open>n\<close> digits; carries out of the digits left away are lost.\<close>

fun mul_up_loop :: "engine \<Rightarrow> int list \<Rightarrow> int list \<Rightarrow> nat \<Rightarrow> nat \<Rightarrow> nat \<Rightarrow> int list \<Rightarrow> int list" where
  "mul_up_loop e xs ys n 0 i r = r"
| "mul_up_loop e xs ys n (Suc k) i r =
     (let (r', c) = am e (n - i) (ys ! i) xs r 0 0 (length xs + i - n)
      in mul_up_loop e xs ys n k (Suc i) (r'[length xs + i - n := c]))"

definition multiplyUpperTo :: "engine \<Rightarrow> big \<Rightarrow> big \<Rightarrow> nat \<Rightarrow> big" where
  "multiplyUpperTo e this a n =
     (let n1 = n - 1; t = bt this; i0 = n1 - t;
          r = mul_up_loop e (digs this) (digs a) n1 (bt a - i0) i0 (replicate (t + bt a - n1) 0)
      in drShiftTo 1 (clamp e \<lparr>digs = r, sg = 0\<rparr>))"

lemma val_take_mod:
  assumes "n \<le> length xs"
  shows "val b xs mod b ^ n = val b (take n xs) mod b ^ n"
  using val_take_drop [of b xs n] assms by (simp add: min_absorb2 min_absorb1)

lemma mul_low_loop_ok:
  assumes "digits_in (DV e) xs" "digits_in (DV e) ys" "digits_in (DV e) r"
    "length r = min (length xs + i + length ys) n" "\<And>k. i + length xs \<le> k \<Longrightarrow> k < length r \<Longrightarrow> r ! k = 0"
  shows "digits_in (DV e) (mul_low_loop e xs ys n i r) \<and> length (mul_low_loop e xs ys n i r) = length r \<and>
    val (DV e) (mul_low_loop e xs ys n i r) mod DV e ^ length r
      = (val (DV e) r + val (DV e) xs * val (DV e) ys * DV e ^ i) mod DV e ^ length r"
  using assms(2-)
proof (induction ys arbitrary: i r)
  case Nil
  then show ?case by simp
next
  case (Cons y ys)
  define t where "t = length xs"
  define m where "m = (if i + t < length r then t else n - i)"
  have y: "0 \<le> y" "y < DV e" and ys: "digits_in (DV e) ys" using Cons.prems(1) by auto
  show ?case
  proof (cases "i + t < length r \<or> i < n")
    case False
    then have "length r \<le> i" using Cons.prems(3) by simp
    then have "DV e ^ length r dvd val (DV e) xs * val (DV e) (y # ys) * DV e ^ i"
      by (intro dvd_mult le_imp_power_dvd)
    then have "(val (DV e) r + val (DV e) xs * val (DV e) (y # ys) * DV e ^ i) mod DV e ^ length r
        = val (DV e) r mod DV e ^ length r"
      by (metis add.right_neutral dvd_eq_mod_eq_0 mod_add_right_eq)
    then show ?thesis using False Cons.prems(2) by (simp add: t_def)
  next
    case True
    obtain r' c where k: "am e 0 y xs r i 0 m = (r', c)" by fastforce
    have im: "i + m \<le> length r" "m \<le> t" using True Cons.prems(3) by (auto simp: m_def t_def)
    have df: "digits_from (DV e) r i m" using Cons.prems(2) im by (intro digits_in_from) auto
    have pre: "0 + m \<le> length xs" "y < 2 * DV e" "0 < 3 * DV e"
      using y DV_bounds(1) [of e] im by (auto simp: t_def)
    note ko = km.kernel_ok [OF assms(1) df pre(1) y(1) pre(2) order_refl pre(3) k]
    define r2 where "r2 = (if i + t < length r then r'[i + t := c] else r')"
    have len: "length r2 = length r" using ko(1) by (simp add: r2_def)
    have c: "0 \<le> c" "c < DV e" using ko(5,7) y by auto
    have "digits_in (DV e) r'"
      using digits_in_nth [OF Cons.prems(2)] by (intro digits_from_all [OF ko(3)]) (simp add: ko(1,2))
    then have d2: "digits_in (DV e) r2" using c by (auto simp: r2_def)
    have z: "r2 ! k = 0" if "Suc i + t \<le> k" "k < length r2" for k
    proof -
      have "r' ! k = r ! k" using that im by (intro ko(2)) auto
      then show ?thesis using that Cons.prems(4) [of k] len by (simp add: r2_def t_def)
    qed
    have v2: "val (DV e) r2 mod DV e ^ length r
        = (val (DV e) r + y * val (DV e) xs * DV e ^ i) mod DV e ^ length r"
    proof (cases "i + t < length r")
      case True
      then have "r' ! (i + t) = 0" using ko(2) [of "i + t"] Cons.prems(4) [of "i + t"] im by (simp add: t_def m_def)
      then show ?thesis using ko(1,4) True by (simp add: r2_def val_update t_def m_def)
    next
      case f: False
      then have lr: "length r = i + m" using True Cons.prems(3) by (simp add: m_def t_def)
      define Z where "Z = DV e ^ (i + m)"
      have "val (DV e) xs = val (DV e) (take m xs) + DV e ^ m * val (DV e) (drop m xs)"
        using val_take_drop [of "DV e" xs m] im by (simp add: t_def min_absorb1)
      then have "val (DV e) r + y * val (DV e) xs * DV e ^ i
          = val (DV e) r + y * val (DV e) (take m xs) * DV e ^ i + Z * (y * val (DV e) (drop m xs))"
        by (simp add: Z_def power_add algebra_simps)
      also have "\<dots> = val (DV e) r' + Z * (c + y * val (DV e) (drop m xs))"
        using ko(4) by (simp add: Z_def algebra_simps)
      finally show ?thesis using f by (simp add: lr Z_def [symmetric] r2_def)
    qed
    have s: "mul_low_loop e xs (y # ys) n i r = mul_low_loop e xs ys n (Suc i) r2"
    proof (cases "i + length xs < length r")
      case lt: True
      then show ?thesis using k by (simp add: r2_def m_def t_def)
    next
      case ge: False
      then show ?thesis using k True by (simp add: r2_def m_def t_def)
    qed
    have l2: "length r2 = min (length xs + Suc i + length ys) n" using Cons.prems(3) by (simp add: len)
    note IH = Cons.IH [OF ys d2 l2 z [unfolded t_def]]
    define M R A B where g: "M = DV e ^ length r" "R = val (DV e) r" "A = val (DV e) xs * val (DV e) ys * DV e ^ Suc i"
      "B = y * val (DV e) xs * DV e ^ i"
    have "(val (DV e) r2 + A) mod M = (val (DV e) r2 mod M + A) mod M" by (simp add: mod_simps)
    also have "\<dots> = (R + B + A) mod M" using v2 by (simp add: g mod_simps)
    also have "R + B + A = val (DV e) r + val (DV e) xs * val (DV e) (y # ys) * DV e ^ i"
      by (simp add: g algebra_simps)
    finally show ?thesis using IH unfolding s len by (simp add: g)
  qed
qed

lemma multiplyLowerTo_ok:
  assumes "ok_big e x" "ok_big e y" "sg x = 0" "sg y = 0"
  shows "ok_big e (multiplyLowerTo e x y n)"
    "bval e (multiplyLowerTo e x y n) = bval e x * bval e y mod DV e ^ n"
proof -
  define l where "l = min (bt x + bt y) n"
  define r where "r = mul_low_loop e (digs x) (digs y) n 0 (replicate l 0)"
  have d: "digits_in (DV e) (digs x)" "digits_in (DV e) (digs y)"
    using assms by (simp_all add: ok_big_def wf_big_def)
  have r: "digits_in (DV e) r" "length r = l"
    "val (DV e) r mod DV e ^ l = val (DV e) (digs x) * val (DV e) (digs y) mod DV e ^ l"
    using mul_low_loop_ok [OF d, of "replicate l 0" 0 n] DV_bounds(1) [of e]
    by (simp_all add: r_def l_def digits_in_replicate0 val_replicate0)
  have nn: "0 \<le> val (DV e) (digs x)" "0 \<le> val (DV e) (digs y)" "0 \<le> val (DV e) r"
    using d r(1) by (simp_all add: radixDV.val_nonneg)
  have "val (DV e) r < DV e ^ l" using radixDV.val_less [OF r(1)] r(2) by simp
  then have v: "val (DV e) r = val (DV e) (digs x) * val (DV e) (digs y) mod DV e ^ l"
    using r(3) nn(3) by simp
  also have "\<dots> = val (DV e) (digs x) * val (DV e) (digs y) mod DV e ^ n"
  proof (cases "bt x + bt y \<le> n")
    case True
    have "val (DV e) (digs x) * val (DV e) (digs y) < DV e ^ bt x * DV e ^ bt y"
      using radixDV.val_less d nn by (intro mult_strict_mono') auto
    also have "\<dots> \<le> DV e ^ n"
      using True DV_bounds(2) [of e] by (simp flip: power_add add: power_increasing)
    finally have "val (DV e) (digs x) * val (DV e) (digs y) < DV e ^ n" .
    moreover have "val (DV e) (digs x) * val (DV e) (digs y) < DV e ^ bt x * DV e ^ bt y"
      using radixDV.val_less d nn by (intro mult_strict_mono') auto
    ultimately show ?thesis using True nn by (simp add: l_def power_add)
  next
    case False
    then show ?thesis by (simp add: l_def)
  qed
  finally have v': "val (DV e) r = val (DV e) (digs x) * val (DV e) (digs y) mod DV e ^ n" .
  have "wf_big e \<lparr>digs = r, sg = 0\<rparr>" using r(1) by (simp add: wf_big_def)
  note c = clamp_ok [OF this]
  have m: "multiplyLowerTo e x y n = clamp e \<lparr>digs = r, sg = 0\<rparr>" by (simp add: multiplyLowerTo_def r_def l_def)
  show "ok_big e (multiplyLowerTo e x y n)" using c(1) by (simp add: m)
  show "bval e (multiplyLowerTo e x y n) = bval e x * bval e y mod DV e ^ n"
    using c(2) v' assms(3,4) by (simp add: m bval_def)
qed

section \<open>What the component promises\<close>



text \<open>
  C2: multiplication and squaring of digit arrays compute the product of the integers, sign included,
  and squaring returns the very array multiplication by itself returns.
\<close>

theorem multiply_refine:
  assumes "ok_big e x" "ok_big e y"
  shows "ok_big e (multiply e x y) \<and> bval e (multiply e x y) = bval e x * bval e y \<and>
    square e x = multiply e x x"
  using multiplyTo_ok [OF assms] square_multiply [OF assms(1)] by (simp_all add: multiply_def)

theorem multiply_refine_witness:
  "bval Netscape (multiply Netscape \<lparr>digs = [0xfffffff, 3], sg = 0\<rparr> \<lparr>digs = [1], sg = -1\<rparr>)
    = (0xfffffff + 3 * 2 ^ 28) * (1 - 2 ^ 28)"
proof -
  have "ok_big Netscape \<lparr>digs = [0xfffffff, 3], sg = 0\<rparr>" "ok_big Netscape \<lparr>digs = [1], sg = -1\<rparr>"
    by (simp_all add: ok_big_def wf_big_def clamped_def DV_eq)
  from multiply_refine [OF this] show ?thesis by (simp add: bval_def DV_eq)
qed

text \<open>
  The operations the radix conversions and the reducers use: multiplication by a small factor,
  addition of a digit at an offset with its carries, and the lower digits of a product.
\<close>

theorem digit_operations_refine:
  assumes "ok_big e x" "ok_big e y" "sg x = 0" "sg y = 0"
  shows "(1 \<le> n \<and> n \<le> DV e \<longrightarrow> bval e (dMultiply e n x) = bval e x * n) \<and>
    (0 \<le> n \<and> n < DV e \<and> w \<le> bt x \<longrightarrow> bval e (dAddOffset e n w x) = bval e x + n * DV e ^ w) \<and>
    bval e (multiplyLowerTo e x y k) = bval e x * bval e y mod DV e ^ k"
  using dMultiply_ok [OF assms(1,3)] dAddOffset_ok [OF assms(1,3)] multiplyLowerTo_ok [OF assms] by auto

theorem digit_operations_refine_witness:
  "bval MSIE (dAddOffset MSIE 0x3fffffff 0 \<lparr>digs = [1, 0x3fffffff], sg = 0\<rparr>) = 2 ^ 60"
proof -
  have "ok_big MSIE \<lparr>digs = [1, 0x3fffffff], sg = 0\<rparr>"
    by (simp add: ok_big_def wf_big_def clamped_def DV_eq)
  from digit_operations_refine [OF this this, where n = "0x3fffffff" and w = 0] show ?thesis
    by (simp add: bval_def DV_eq)
qed

end
