(* ===== verification/BigConv.thy ===== *)
theory BigConv
  imports BigMul JsNum
begin

text \<open>
  \<open>src/biginteger.js\<close>: conversions between digit arrays and text or bytes. Bit groups of a fixed width
  are packed into digits of \<open>DB\<close> bits (\<open>fromString\<close>) and cut out of them again (\<open>toString\<close>,
  \<open>toByteArray\<close>), across digit borders; the byte conversions of the Bitcoin library are built on them.
\<close>

section \<open>Model\<close>

definition int2char :: "int \<Rightarrow> char" where
  "int2char n = ''0123456789abcdefghijklmnopqrstuvwxyz'' ! nat n"

definition intAt :: "char \<Rightarrow> int" where
  "intAt c = (case char_digit c of None \<Rightarrow> -1 | Some d \<Rightarrow> d)"

text \<open>One group \<open>x\<close> of \<open>k\<close> bits goes in at bit \<open>sh\<close> of the top digit.\<close>

definition fs_step :: "engine \<Rightarrow> int \<Rightarrow> int \<Rightarrow> int list \<times> int \<Rightarrow> int list \<times> int" where
  "fs_step e k x = (\<lambda>(ds, sh).
     let db = int (DB e);
         ds' = (if sh = 0 then ds @ [x]
           else if sh + k > db
           then butlast ds @ [js_or (last ds) (js_shl (js_and x (js_shl 1 (db - sh) - 1)) sh), js_shr x (db - sh)]
           else butlast ds @ [js_or (last ds) (js_shl x sh)]);
         sh' = sh + k
     in (ds', if sh' \<ge> db then sh' - db else sh'))"

text \<open>The loop runs over the characters from the last to the first; \<open>mi\<close> notes a leading minus.\<close>

fun fs_chars :: "engine \<Rightarrow> int \<Rightarrow> string \<Rightarrow> bool \<Rightarrow> int list \<times> int \<Rightarrow> bool \<times> int list \<times> int" where
  "fs_chars e k [] mi st = (mi, st)"
| "fs_chars e k (c # cs) mi st =
     (let x = intAt c
      in if x < 0 then fs_chars e k cs (if c = CHR ''-'' then True else mi) st
         else fs_chars e k cs False (fs_step e k x st))"

definition radix_bits :: "int \<Rightarrow> int option" where
  "radix_bits b =
     (if b = 16 then Some 4 else if b = 8 then Some 3 else if b = 256 then Some 8
      else if b = 2 then Some 1 else if b = 32 then Some 5 else if b = 4 then Some 2 else None)"

definition fromString :: "engine \<Rightarrow> string \<Rightarrow> int \<Rightarrow> big" where
  "fromString e s k =
     (let (mi, ds, sh) = fs_chars e k (rev s) False ([], 0);
          b = clamp e \<lparr>digs = ds, sg = 0\<rparr>
      in if mi then subTo e (ZERO e) b else b)"

definition fromBytes :: "engine \<Rightarrow> int list \<Rightarrow> big" where
  "fromBytes e s =
     (let (ds, sh) = fold (\<lambda>x. fs_step e 8 (js_and x 0xff)) (rev s) ([], 0);
          db = int (DB e);
          neg = js_and (js_num s 0) 0x80 \<noteq> 0;
          ds' = (if neg \<and> sh > 0 then butlast ds @ [js_or (last ds) (js_shl (js_shl 1 (db - sh) - 1) sh)] else ds)
      in clamp e \<lparr>digs = ds', sg = (if neg then -1 else 0)\<rparr>)"

text \<open>The next group of \<open>k\<close> bits below bit \<open>p\<close> of digit \<open>i\<close>, and the position below it.\<close>

definition next_group :: "engine \<Rightarrow> int \<Rightarrow> int list \<Rightarrow> int \<Rightarrow> int \<Rightarrow> int \<times> int \<times> int" where
  "next_group e k ds i p =
     (let db = int (DB e) in
      if p < k
      then (js_or (js_shl (js_and (js_num ds (nat i)) (js_shl 1 p - 1)) (k - p))
              (js_shr (js_num ds (nat (i - 1))) (p + (db - k))),
            i - 1, p + (db - k))
      else let p' = p - k; d = js_and (js_shr (js_num ds (nat i)) p') (js_shl 1 k - 1)
        in if p' \<le> 0 then (d, i - 1, p' + db) else (d, i, p'))"

function ts_loop :: "engine \<Rightarrow> int \<Rightarrow> int list \<Rightarrow> int \<Rightarrow> int \<Rightarrow> bool \<Rightarrow> string \<Rightarrow> bool \<times> string" where
  "ts_loop e k ds i p m r =
     (if i < 0 \<or> k < 1 then (m, r)
      else let (d, i', p') = next_group e k ds i p; m' = (d > 0 \<or> m)
        in ts_loop e k ds i' p' m' (if m' then r @ [int2char d] else r))"
  by pat_completeness auto
termination
  by (relation "measures [\<lambda>(e, k, ds, i, p, m, r). nat (i + 1), \<lambda>(e, k, ds, i, p, m, r). nat p]")
     (auto simp: next_group_def Let_def split: if_splits)

declare ts_loop.simps [simp del]

text \<open>\<open>toString\<close> for a radix of \<open>2^k\<close>; the sign is written and the digits are those of the negation.\<close>

definition toString_bits :: "engine \<Rightarrow> int \<Rightarrow> big \<Rightarrow> string" where
  "toString_bits e k this =
     (let ds = digs this; t = int (bt this); db = int (DB e);
          p = db - t * db mod k
      in if t = 0 then ''0''
         else let i = t - 1; d = js_shr (js_num ds (nat i)) p;
                  (m, r) = (if p < db \<and> d > 0 then (True, [int2char d]) else (False, []));
                  (m', r') = ts_loop e k ds i p m r
           in if m' then r' else ''0'')"

definition toString_pow2 :: "engine \<Rightarrow> int \<Rightarrow> big \<Rightarrow> string" where
  "toString_pow2 e k this =
     (if sg this < 0 then CHR ''-'' # toString_bits e k (negate e this) else toString_bits e k this)"

text \<open>
  \<open>toByteArray\<close>: the array starts as the sign; \<open>k\<close> is the next index to write. A byte is written as a
  signed number; a leading byte that only repeats the sign is left out.
\<close>

definition tba_put :: "int list \<times> nat \<Rightarrow> int \<Rightarrow> int list \<times> nat" where
  "tba_put = (\<lambda>(r, k) v. (js_set r k v, Suc k))"

definition tba_byte :: "int \<Rightarrow> int list \<times> nat \<Rightarrow> int \<Rightarrow> int list \<times> nat" where
  "tba_byte s = (\<lambda>(r, k) d.
     let d' = (if js_and d 0x80 \<noteq> 0 then js_or d (-256) else d);
         k' = (if k = 0 \<and> js_and s 0x80 \<noteq> js_and d' 0x80 then Suc k else k)
     in if k' > 0 \<or> d' \<noteq> s then tba_put (r, k') d' else (r, k'))"

function tba_loop :: "engine \<Rightarrow> int \<Rightarrow> int list \<Rightarrow> int \<Rightarrow> int \<Rightarrow> int list \<times> nat \<Rightarrow> int list \<times> nat" where
  "tba_loop e s ds i p rk =
     (if i < 0 then rk
      else let (d, i', p') = next_group e 8 ds i p in tba_loop e s ds i' p' (tba_byte s rk d))"
  by pat_completeness auto
termination
  by (relation "measures [\<lambda>(e, s, ds, i, p, rk). nat (i + 1), \<lambda>(e, s, ds, i, p, rk). nat p]")
     (auto simp: next_group_def Let_def split: if_splits)

declare tba_loop.simps [simp del]

definition toByteArray :: "engine \<Rightarrow> big \<Rightarrow> int list" where
  "toByteArray e this =
     (let ds = digs this; t = int (bt this); db = int (DB e); s = sg this;
          p = db - t * db mod 8; rk = ([s], 0)
      in if t = 0 then fst rk
         else let i = t - 1; d = js_shr (js_num ds (nat i)) p;
                  rk' = (if p < db \<and> d \<noteq> js_shr (js_and s (DM e)) p
                         then tba_put rk (js_or d (js_shl s (db - p))) else rk)
           in fst (tba_loop e s ds i p rk'))"

definition toByteArrayUnsigned :: "engine \<Rightarrow> big \<Rightarrow> int list" where
  "toByteArrayUnsigned e this =
     (let ba = toByteArray e (abs_big e this)
      in if ba \<noteq> []
         then map (\<lambda>v. if v < 0 then v + 256 else v) (if hd ba = 0 then drop 1 ba else ba)
         else ba)"

text \<open>
  The empty array is returned as it is (\<open>ba.valueOf(0)\<close> is the array), not as a number: the left value.
\<close>

definition fromByteArrayUnsigned :: "engine \<Rightarrow> int list \<Rightarrow> int list + big" where
  "fromByteArrayUnsigned e ba =
     (if ba = [] then Inl ba
      else if js_and (hd ba) 0x80 \<noteq> 0 then Inr (fromBytes e (0 # ba))
      else Inr (fromBytes e ba))"

definition toByteArraySigned :: "engine \<Rightarrow> big \<Rightarrow> int list" where
  "toByteArraySigned e this =
     (let v = toByteArrayUnsigned e (abs_big e this); top = js_and (js_num v 0) 0x80
      in if compareTo this (ZERO e) < 0
         then (if top \<noteq> 0 then 0x80 # v else js_set v 0 (js_or (js_num v 0) 0x80))
         else (if top \<noteq> 0 then 0x00 # v else v))"

definition fromByteArraySigned :: "engine \<Rightarrow> int list \<Rightarrow> int list + big" where
  "fromByteArraySigned e ba =
     (if js_and (js_num ba 0) 0x80 \<noteq> 0
      then case fromByteArrayUnsigned e (js_set ba 0 (js_and (js_num ba 0) 0x7f)) of
          Inl a \<Rightarrow> Inl a | Inr b \<Rightarrow> Inr (negate e b)
      else fromByteArrayUnsigned e ba)"

section \<open>Values as small integers\<close>

definition intValue :: "engine \<Rightarrow> big \<Rightarrow> int" where
  "intValue e this =
     (if sg this < 0 \<and> bt this = 1 then digs this ! 0 - DV e
      else if sg this < 0 \<and> bt this = 0 then -1
      else if \<not> sg this < 0 \<and> bt this = 1 then digs this ! 0
      else if \<not> sg this < 0 \<and> bt this = 0 then 0
      else js_or (js_shl (js_and (digs this ! 1) (js_shl 1 (32 - int (DB e)) - 1)) (int (DB e))) (digs this ! 0))"

definition byteValue :: "big \<Rightarrow> int" where
  "byteValue this = (if bt this = 0 then sg this else js_shr (js_shl (digs this ! 0) 24) 24)"

definition shortValue :: "big \<Rightarrow> int" where
  "shortValue this = (if bt this = 0 then sg this else js_shr (js_shl (digs this ! 0) 16) 16)"

section \<open>Packing groups of bits\<close>

definition fs_inv :: "engine \<Rightarrow> nat \<Rightarrow> int \<Rightarrow> int list \<times> int \<Rightarrow> bool" where
  "fs_inv e m V st \<longleftrightarrow>
     (case st of (ds, sh) \<Rightarrow> digits_in (DV e) ds \<and> val (DV e) ds = V \<and> 0 \<le> V \<and> V < 2 ^ m \<and>
        sh = int (m mod DB e) \<and> length ds = (m + DB e - 1) div DB e)"

lemma DV_pow: "DV e ^ n = 2 ^ (DB e * n)"
  by (simp add: DV_eq power_mult)

lemma DB_pos [simp]: "0 < DB e"
  using DB_bounds(1) [of e] by simp

lemma div_block: "a < d \<Longrightarrow> n = a + d * q \<Longrightarrow> n div d = (q::nat)"
  by simp

lemma ceil_div:
  assumes "m mod d \<noteq> 0" "0 < (d::nat)"
  shows "(m + d - 1) div d = Suc (m div d)"
proof (rule div_block)
  show "m mod d - 1 < d" using assms(2) by (meson less_imp_diff_less mod_less_divisor)
  have "m = m mod d + d * (m div d)" by simp
  then show "m + d - 1 = m mod d - 1 + d * Suc (m div d)" using assms unfolding mult_Suc_right by linarith
qed

lemma fs_inv_top:
  assumes "fs_inv e m V (ds, sh)" "sh \<noteq> 0"
  obtains lo d where "ds = lo @ [d]" "0 \<le> d" "d < 2 ^ nat sh" "V = val (DV e) lo + d * DV e ^ length lo"
    "digits_in (DV e) lo" "length lo = m div DB e" "m = DB e * length lo + nat sh"
proof -
  have i: "digits_in (DV e) ds" "val (DV e) ds = V" "0 \<le> V" "V < 2 ^ m" "sh = int (m mod DB e)"
    "length ds = (m + DB e - 1) div DB e"
    using assms(1) by (simp_all add: fs_inv_def)
  have nz: "m mod DB e \<noteq> 0" using assms(2) i(5) by simp
  then have len: "length ds = Suc (m div DB e)" using i(6) ceil_div by simp
  then obtain lo d where ds: "ds = lo @ [d]" by (metis length_0_conv nat.distinct(1) rev_exhaust)
  have v: "V = val (DV e) lo + d * DV e ^ length lo" using i(2) ds by (simp add: val_snoc mult.commute)
  have lo: "digits_in (DV e) lo" "0 \<le> d" using i(1) ds by simp_all
  have l: "length lo = m div DB e" using len ds by simp
  have m: "m = DB e * length lo + nat sh" unfolding l i(5) nat_int by simp
  have "d * DV e ^ length lo < 2 ^ nat sh * DV e ^ length lo"
  proof -
    have "d * DV e ^ length lo \<le> V" unfolding v using radixDV.val_nonneg [OF lo(1)] by simp
    also have "V < 2 ^ m" by (rule i(4))
    also have "(2::int) ^ m = 2 ^ nat sh * DV e ^ length lo" by (subst m) (simp add: power_add DV_pow)
    finally show ?thesis .
  qed
  moreover have "0 < DV e ^ length lo" using DV_bounds(1) [of e] by simp
  ultimately have "d < 2 ^ nat sh" by simp
  then show thesis using that ds lo v l m by blast
qed

lemma fs_step_ok:
  assumes inv: "fs_inv e m V (ds, sh)" and x: "0 \<le> x" "x < 2 ^ k" and k: "1 \<le> k" "k \<le> 8"
  shows "fs_inv e (m + k) (V + x * 2 ^ m) (fs_step e (int k) x (ds, sh))"
proof -
  note db = DB_bounds [of e]
  have i: "digits_in (DV e) ds" "val (DV e) ds = V" "0 \<le> V" "V < 2 ^ m" "sh = int (m mod DB e)"
    "length ds = (m + DB e - 1) div DB e"
    using inv by (simp_all add: fs_inv_def)
  define s where "s = m mod DB e"
  have s: "sh = int s" "s < DB e" using i(5) by (simp_all add: s_def)
  have x2: "x < DV e" using order_less_le_trans [OF x(2), of "DV e"] k db by (simp add: DV_eq)
  have V2: "0 \<le> V + x * 2 ^ m" "V + x * 2 ^ m < 2 ^ (m + k)"
  proof -
    show "0 \<le> V + x * 2 ^ m" using i(3) x(1) by simp
    have "x * 2 ^ m \<le> (2 ^ k - 1) * 2 ^ m" using x(2) by (intro mult_right_mono) auto
    then show "V + x * 2 ^ m < 2 ^ (m + k)" using i(4) by (simp add: power_add algebra_simps)
  qed
  have sh': "(if sh + int k \<ge> int (DB e) then sh + int k - int (DB e) else sh + int k) = int ((m + k) mod DB e)"
  proof -
    have "(m + k) mod DB e = (s + k) mod DB e" by (simp add: s_def mod_simps)
    also have "\<dots> = (if s + k \<ge> DB e then s + k - DB e else s + k)"
      using s(2) k db by (auto simp: mod_if)
    finally show ?thesis using s(1) by auto
  qed
  define ds' where "ds' = (if sh = 0 then ds @ [x]
           else if sh + int k > int (DB e)
           then butlast ds @ [js_or (last ds) (js_shl (js_and x (js_shl 1 (int (DB e) - sh) - 1)) sh), js_shr x (int (DB e) - sh)]
           else butlast ds @ [js_or (last ds) (js_shl x sh)])"
  have step: "fs_step e (int k) x (ds, sh) = (ds', int ((m + k) mod DB e))"
    by (simp add: fs_step_def Let_def ds'_def sh')
  have "digits_in (DV e) ds' \<and> val (DV e) ds' = V + x * 2 ^ m \<and> length ds' = (m + k + DB e - 1) div DB e"
  proof (cases "sh = 0")
    case True
    then have md: "m mod DB e = 0" using i(5) by simp
    then obtain q where q: "m = DB e * q" by auto
    have l: "length ds = q" unfolding i(6)
      using db by (intro div_block [where a = "DB e - 1"]) (simp_all add: q)
    have "(m + k + DB e - 1) div DB e = Suc q"
      using k db by (intro div_block [where a = "k - 1"]) (simp_all add: q)
    then show ?thesis using True x x2 i(1,2) l by (simp add: ds'_def val_snoc DV_pow q)
  next
    case False
    obtain lo d where t: "ds = lo @ [d]" "0 \<le> d" "d < 2 ^ nat sh" "V = val (DV e) lo + d * DV e ^ length lo"
        "digits_in (DV e) lo" "length lo = m div DB e" "m = DB e * length lo + nat sh"
      by (rule fs_inv_top [OF inv False])
    have sn: "nat sh = s" "1 \<le> s" using s(1) False by simp_all
    have ds2: "d < 2 ^ s" using t(3) sn by simp
    have m2: "(2::int) ^ m = 2 ^ s * DV e ^ length lo"
      by (subst t(7)) (simp add: power_add DV_pow sn)
    show ?thesis
    proof (cases "sh + int k > int (DB e)")
      case True
      define c where "c = DB e - s"
      have c: "int (DB e) - sh = int c" "1 \<le> c" "c < k" "c + s = DB e" using True s k by (auto simp: c_def)
      have a: "js_and x (js_shl 1 (int c) - 1) = x mod 2 ^ c" using c k by (simp add: js_and_bm)
      have xm: "0 \<le> x mod 2 ^ c" "x mod 2 ^ c < 2 ^ c" by simp_all
      have lt: "x mod 2 ^ c * 2 ^ s + 2 ^ s \<le> DV e"
      proof -
        have "x mod 2 ^ c * 2 ^ s \<le> (2 ^ c - 1) * 2 ^ s" using xm by (intro mult_right_mono) auto
        also have "(2 ^ c - 1) * 2 ^ s = DV e - 2 ^ s"
          by (simp add: DV_eq left_diff_distrib flip: power_add c(4))
        finally show ?thesis by simp
      qed
      have p: "(1::int) \<le> 2 ^ s" by simp
      have l31: "x mod 2 ^ c * 2 ^ s < 2 ^ 31" "x mod 2 ^ c * 2 ^ s + d < 2 ^ 31"
        using lt p DV_lt31 [of e] ds2 by linarith+
      have sl: "js_shl (x mod 2 ^ c) sh = x mod 2 ^ c * 2 ^ s"
        using l31(1) xm s db by (subst js_shl_mult_pos) (auto simp: sn)
      have o: "js_or d (x mod 2 ^ c * 2 ^ s) = x mod 2 ^ c * 2 ^ s + d"
        unfolding js_or_comm [of d] using l31(2) t(2) ds2 xm sn by (intro js_or_add) auto
      have "x < 2 ^ 31" using x2 DV_lt31 [of e] by simp
      then have sr: "js_shr x (int c) = x div 2 ^ c" using x c k by (subst js_shr_div) auto
      have ds': "ds' = lo @ [x mod 2 ^ c * 2 ^ s + d, x div 2 ^ c]"
        using False True by (simp add: ds'_def t(1) c(1) a sl o sr)
      have "x div 2 ^ c \<le> x div 1" using x(1) by (intro zdiv_mono2) auto
      moreover have "x mod 2 ^ c * 2 ^ s + d < DV e" using lt ds2 by linarith
      moreover have "0 \<le> x mod 2 ^ c * 2 ^ s" using xm by simp
      ultimately have dig: "digits_in (DV e) ds'"
        using t(2,5) x x2 unfolding ds' by (simp add: pos_imp_zdiv_nonneg_iff)
      have "val (DV e) ds' = val (DV e) lo + DV e ^ length lo * (x mod 2 ^ c * 2 ^ s + d + DV e * (x div 2 ^ c))"
        unfolding ds' by (simp add: val_append)
      also have "x mod 2 ^ c * 2 ^ s + d + DV e * (x div 2 ^ c) = 2 ^ s * (x div 2 ^ c * 2 ^ c + x mod 2 ^ c) + d"
      proof -
        have "DV e = 2 ^ s * 2 ^ c" by (simp add: DV_eq add.commute flip: power_add c(4))
        moreover have "b * 2 ^ s + d + 2 ^ s * 2 ^ c * a = 2 ^ s * (a * 2 ^ c + b) + d" for a b :: int
          by (simp add: algebra_simps)
        ultimately show ?thesis by (simp only:)
      qed
      also have "x div 2 ^ c * 2 ^ c + x mod 2 ^ c = x" by (rule div_mult_mod_eq)
      also have "val (DV e) lo + DV e ^ length lo * (2 ^ s * x + d) = V + x * 2 ^ m"
        unfolding t(4) m2 by (simp add: algebra_simps)
      finally have v: "val (DV e) ds' = V + x * 2 ^ m" .
      have "m + k + DB e - 1 = (k - c - 1) + DB e * Suc (Suc (length lo))" using t(7) sn c by simp
      moreover have "k - c - 1 < DB e" using k db by simp
      ultimately have "(m + k + DB e - 1) div DB e = Suc (Suc (length lo))" by (intro div_block)
      then show ?thesis using dig v ds' by simp
    next
      case le: False
      have sk: "s + k \<le> DB e" using le s by simp
      have lt: "x * 2 ^ s + 2 ^ s \<le> DV e"
      proof -
        have "x * 2 ^ s \<le> (2 ^ k - 1) * 2 ^ s" using x by (intro mult_right_mono) auto
        moreover have "(2::int) ^ (k + s) \<le> 2 ^ DB e" using sk by (intro power_increasing) auto
        ultimately show ?thesis by (simp add: DV_eq power_add left_diff_distrib)
      qed
      have p: "(1::int) \<le> 2 ^ s" by simp
      have l31: "x * 2 ^ s < 2 ^ 31" "x * 2 ^ s + d < 2 ^ 31"
        using lt p DV_lt31 [of e] ds2 by linarith+
      have sl: "js_shl x sh = x * 2 ^ s"
        using l31(1) x s db by (subst js_shl_mult_pos) (auto simp: sn)
      have o: "js_or d (x * 2 ^ s) = x * 2 ^ s + d"
        unfolding js_or_comm [of d] using l31(2) t(2) ds2 x sn by (intro js_or_add) auto
      have ds': "ds' = lo @ [x * 2 ^ s + d]" using False le by (simp add: ds'_def t(1) sl o)
      have dig: "digits_in (DV e) ds'" using t(2,3,5) lt x sn unfolding ds' by simp
      have v: "val (DV e) ds' = V + x * 2 ^ m" unfolding ds' t(4) m2 by (simp add: val_snoc algebra_simps)
      have "m + k + DB e - 1 = (s + k - 1) + DB e * Suc (length lo)" using t(7) sn k by simp
      moreover have "s + k - 1 < DB e" using sk k by simp
      ultimately have "(m + k + DB e - 1) div DB e = Suc (length lo)" by (intro div_block)
      then show ?thesis using dig v ds' by simp
    qed
  qed
  then show ?thesis using V2 by (simp add: fs_inv_def step)
qed

lemma fs_inv_0: "fs_inv e 0 0 ([], 0)"
  using DB_bounds [of e] by (simp add: fs_inv_def)

lemma fs_fold:
  assumes "\<And>x. x \<in> set xs \<Longrightarrow> 0 \<le> f x \<and> f x < 2 ^ k" "1 \<le> k" "k \<le> 8" "fs_inv e m V st"
  shows "fs_inv e (m + k * length xs) (V + val (2 ^ k) (map f xs) * 2 ^ m)
    (fold (\<lambda>x. fs_step e (int k) (f x)) xs st)"
  using assms(1,4)
proof (induction xs arbitrary: m V st)
  case Nil
  then show ?case by simp
next
  case (Cons x xs)
  obtain ds sh where st: "st = (ds, sh)" by (cases st)
  have "fs_inv e (m + k) (V + f x * 2 ^ m) (fs_step e (int k) (f x) (ds, sh))"
    using Cons.prems assms(2,3) by (intro fs_step_ok) (auto simp: st)
  from Cons.IH [OF _ this] Cons.prems(1)
  have "fs_inv e (m + k + k * length xs) (V + f x * 2 ^ m + val (2 ^ k) (map f xs) * 2 ^ (m + k))
      (fold (\<lambda>x. fs_step e (int k) (f x)) xs (fs_step e (int k) (f x) st))"
    by (simp add: st)
  then show ?case by (simp add: power_add algebra_simps)
qed

lemma js_and_0x80: "js_and x 0x80 = (if 128 \<le> x mod 256 then 128 else 0)"
proof -
  have "js_and x 0x80 = js_and (x mod 256) 0x80"
  proof -
    have "toInt32 x AND 128 = toInt32 (x mod 256) AND 128"
    proof (rule bit_eqI)
      fix n
      have "x mod 256 = take_bit 8 x" by (simp add: take_bit_eq_mod)
      moreover have "bit (128::int) n \<longleftrightarrow> n = 7" using bit_exp_iff [of 7 n, where 'a = int] by auto
      ultimately show "bit (toInt32 x AND 128) n = bit (toInt32 (x mod 256) AND 128) n"
        by (auto simp: bit_and_iff bit_toInt32 bit_take_bit_iff)
    qed
    then show ?thesis by (simp add: js_and_def toInt32_id)
  qed
  moreover have "\<forall>y \<in> set [0..255]. js_and y 0x80 = (if 128 \<le> y then 128 else 0)" by code_simp
  moreover have "x mod 256 \<in> set [0..255]" using pos_mod_bound [of 256 x] by simp
  ultimately show ?thesis by metis
qed

definition be_val :: "int list \<Rightarrow> int" where
  "be_val bs = val 256 (rev (map (\<lambda>x. x mod 256) bs))"

definition be_signed :: "int list \<Rightarrow> int" where
  "be_signed bs = be_val bs - (if bs \<noteq> [] \<and> 128 \<le> hd bs mod 256 then 256 ^ length bs else 0)"

lemma fromBytes_ok: "ok_big e (fromBytes e s)" "bval e (fromBytes e s) = be_signed s"
proof -
  obtain ds sh where st: "fold (\<lambda>x. fs_step e 8 (js_and x 0xff)) (rev s) ([], 0) = (ds, sh)"
    by (rule prod.exhaust)
  define m where "m = 8 * length s"
  have V: "val (2 ^ 8) (map (\<lambda>x. js_and x 0xff) (rev s)) = be_val s"
    by (simp add: be_val_def js_and_mask_num rev_map)
  have "fs_inv e (0 + 8 * length (rev s)) (0 + val (2 ^ 8) (map (\<lambda>x. js_and x 0xff) (rev s)) * 2 ^ 0)
      (fold (\<lambda>x. fs_step e (int 8) (js_and x 0xff)) (rev s) ([], 0))"
    by (rule fs_fold [OF _ _ _ fs_inv_0]) (simp_all add: js_and_mask_num)
  then have inv: "fs_inv e m (be_val s) (ds, sh)" unfolding V by (simp add: st m_def)
  define neg where "neg \<longleftrightarrow> js_and (js_num s 0) 0x80 \<noteq> 0"
  have neg: "neg \<longleftrightarrow> s \<noteq> [] \<and> 128 \<le> hd s mod 256"
    by (cases s) (simp_all add: neg_def js_and_0x80)
  define ds' where "ds' = (if neg \<and> sh > 0
      then butlast ds @ [js_or (last ds) (js_shl (js_shl 1 (int (DB e) - sh) - 1) sh)] else ds)"
  define b where "b = \<lparr>digs = ds', sg = (if neg then -1 else 0)\<rparr>"
  have eq: "fromBytes e s = clamp e b"
    by (simp add: fromBytes_def st Let_def b_def ds'_def flip: neg_def)
  have "wf_big e b \<and> bval e b = be_signed s"
  proof (cases "neg \<and> sh > 0")
    case False
    then have ds: "ds' = ds" by (simp only: ds'_def if_False)
    have "DV e ^ length ds = 2 ^ m" if neg
    proof -
      have "m mod DB e = 0" using inv False that by (simp add: fs_inv_def)
      then obtain q where q: "m = DB e * q" by auto
      have "length ds = (m + DB e - 1) div DB e" using inv by (simp add: fs_inv_def)
      also have "\<dots> = q" using DB_bounds [of e] by (intro div_block [where a = "DB e - 1"]) (simp_all add: q)
      finally have "length ds = q" .
      then show ?thesis by (simp add: q DV_pow)
    qed
    then show ?thesis using inv ds neg
      by (auto simp: b_def wf_big_def fs_inv_def bval_def be_signed_def m_def power_mult)
  next
    case True
    then have "sh \<noteq> 0" by simp
    then obtain lo d where t: "ds = lo @ [d]" "0 \<le> d" "d < 2 ^ nat sh" "be_val s = val (DV e) lo + d * DV e ^ length lo"
        "digits_in (DV e) lo" "length lo = m div DB e" "m = DB e * length lo + nat sh"
      by (rule fs_inv_top [OF inv])
    define s0 where "s0 = nat sh"
    define c where "c = DB e - s0"
    have s0: "sh = int s0" "1 \<le> s0" "s0 < DB e" "int (DB e) - sh = int c" "s0 + c = DB e" "1 \<le> c"
    proof -
      have "sh < int (DB e)" using inv by (simp add: fs_inv_def)
      then show "sh = int s0" "1 \<le> s0" "s0 < DB e" "int (DB e) - sh = int c" "s0 + c = DB e" "1 \<le> c"
        using conjunct2 [OF True] unfolding s0_def c_def by linarith+
    qed
    have dv: "DV e = 2 ^ s0 * 2 ^ c" by (simp add: DV_eq flip: power_add s0(5))
    have p: "(1::int) \<le> 2 ^ s0" "(1::int) \<le> 2 ^ c" by simp_all
    have f: "(2 ^ c - 1) * 2 ^ s0 = DV e - 2 ^ s0" by (simp add: dv algebra_simps)
    have ds2: "d < 2 ^ s0" using t(3) by (simp add: s0_def)
    have l31: "(2 ^ c - 1) * 2 ^ s0 < (2 :: int) ^ 31" "(2 ^ c - 1) * 2 ^ s0 + d < 2 ^ 31"
      unfolding f using p ds2 DV_lt31 [of e] by linarith+
    have "js_shl 1 (int c) - 1 = 2 ^ c - 1" using s0 DB_bounds [of e] by (simp add: js_bm)
    moreover have "js_shl (2 ^ c - 1) sh = (2 ^ c - 1) * 2 ^ s0"
      using l31(1) p s0(1-3) DB_bounds [of e] by (subst js_shl_mult_pos) (auto simp: s0(1))
    moreover have "js_or d ((2 ^ c - 1) * 2 ^ s0) = (2 ^ c - 1) * 2 ^ s0 + d"
      unfolding js_or_comm [of d] using l31(2) p t(2) ds2 by (intro js_or_add) auto
    ultimately have ds: "ds' = lo @ [DV e - 2 ^ s0 + d]"
      using True by (simp add: ds'_def t(1) s0(4) f)
    have "2 ^ s0 * 1 \<le> (2::int) ^ s0 * 2 ^ c" using p by (intro mult_left_mono) auto
    then have "wf_big e b" using t(2,5) ds2 p True by (simp add: b_def wf_big_def ds dv)
    moreover have "(2::int) ^ m = 2 ^ s0 * DV e ^ length lo"
      by (subst t(7)) (simp add: power_add DV_pow s0_def)
    then have "bval e b = be_val s - 2 ^ m"
      using True by (simp add: b_def bval_def ds val_snoc t(4) algebra_simps)
    ultimately show ?thesis using True neg by (simp add: be_signed_def m_def power_mult)
  qed
  then show "ok_big e (fromBytes e s)" "bval e (fromBytes e s) = be_signed s"
    using clamp_ok [of e b] by (simp_all add: eq)
qed

section \<open>Cutting out groups of bits\<close>

lemma bits_within:
  assumes ds: "digits_in (DV e) ds" and a: "a < length ds" and P: "P + K \<le> DB e"
  shows "val (DV e) ds div 2 ^ (DB e * a + P) mod 2 ^ K = ds ! a div 2 ^ P mod 2 ^ K"
proof -
  define Y where "Y = val (DV e) (drop (Suc a) ds)"
  define c where "c = DB e - P - K"
  have dv: "DV e = 2 ^ P * (2 ^ K * 2 ^ c)" using P by (simp add: DV_eq c_def flip: power_add)
  have "val (DV e) ds div 2 ^ (DB e * a + P) = val (DV e) ds div DV e ^ a div 2 ^ P"
    by (simp add: power_add zdiv_zmult2_eq DV_pow)
  also have "val (DV e) ds div DV e ^ a = ds ! a + DV e * Y"
    using radixDV.val_drop [OF ds, of a] radixDV.drop_digit [OF a] by (simp add: Y_def)
  also have "(ds ! a + DV e * Y) div 2 ^ P = ds ! a div 2 ^ P + 2 ^ K * (2 ^ c * Y)"
    unfolding dv mult.assoc by (subst div_mult_self2) simp_all
  finally show ?thesis by simp
qed

lemma mod_mult_low: "0 \<le> r \<Longrightarrow> r < M \<Longrightarrow> 0 < N \<Longrightarrow> (r + M * Y) mod (M * N) = r + M * (Y mod N)" for M :: int
proof -
  assume r: "0 \<le> r" "r < M" "0 < N"
  have "(r + M * Y) div M = Y" "(r + M * Y) mod M = r" using r by simp_all
  then show ?thesis using r by (simp add: zmod_zmult2_eq)
qed

lemma bits_across:
  assumes ds: "digits_in (DV e) ds" and a: "Suc a < length ds" and P: "P < K" "K \<le> DB e" "q = DB e - (K - P)"
  shows "val (DV e) ds div 2 ^ (DB e * a + q) mod 2 ^ K = (ds ! Suc a mod 2 ^ P) * 2 ^ (K - P) + ds ! a div 2 ^ q"
proof -
  define Y Y' where "Y = val (DV e) (drop (Suc a) ds)" and "Y' = val (DV e) (drop (Suc (Suc a)) ds)"
  have dv: "DV e = 2 ^ q * 2 ^ (K - P)" using P by (simp add: DV_eq flip: power_add)
  have b: "0 \<le> ds ! a" "ds ! a < DV e" using digits_in_nth [OF ds, of a] a by simp_all
  have r: "0 \<le> ds ! a div 2 ^ q" "ds ! a div 2 ^ q < 2 ^ (K - P)"
    using b by (simp_all add: pos_imp_zdiv_nonneg_iff div_less_of_less_mult dv mult.commute)
  have "val (DV e) ds div 2 ^ (DB e * a + q) = val (DV e) ds div DV e ^ a div 2 ^ q"
    by (simp add: power_add zdiv_zmult2_eq DV_pow)
  also have "val (DV e) ds div DV e ^ a = ds ! a + DV e * Y"
    using radixDV.val_drop [OF ds, of a] radixDV.drop_digit [of a ds] a by (simp add: Y_def)
  also have "(ds ! a + DV e * Y) div 2 ^ q = ds ! a div 2 ^ q + 2 ^ (K - P) * Y"
    unfolding dv mult.assoc by (subst div_mult_self2) simp_all
  also have "(2::int) ^ K = 2 ^ (K - P) * 2 ^ P" using P(1) by (simp flip: power_add)
  then have "(ds ! a div 2 ^ q + 2 ^ (K - P) * Y) mod 2 ^ K = ds ! a div 2 ^ q + 2 ^ (K - P) * (Y mod 2 ^ P)"
    using r by (simp only:) (rule mod_mult_low; simp)
  moreover have "Y mod 2 ^ P = ds ! Suc a mod 2 ^ P"
  proof -
    have "Y = ds ! Suc a + DV e * Y'" using radixDV.drop_digit [OF a] by (simp add: Y_def Y'_def)
    moreover have "DV e = 2 ^ P * 2 ^ (DB e - P)" using P by (simp add: DV_eq flip: power_add)
    ultimately show ?thesis by (simp add: mult.assoc)
  qed
  ultimately show ?thesis by (simp add: mult.commute)
qed

text \<open>Bit position \<open>R\<close> from below, as a digit index and the number of bits of that digit below it.\<close>

definition pos :: "engine \<Rightarrow> nat \<Rightarrow> int \<times> int" where
  "pos e R = (let i = (int R - 1) div int (DB e) in (i, int R - i * int (DB e)))"

lemma pos_0: "pos e 0 = (-1, int (DB e))"
proof -
  have "(-1::int) div int (DB e) = -1" by (rule div_minus1_range) (use DB_bounds [of e] in auto)
  then show ?thesis by (simp add: pos_def)
qed

lemma pos_eq: "1 \<le> P \<Longrightarrow> P \<le> DB e \<Longrightarrow> pos e (DB e * a + P) = (int a, int P)"
proof -
  assume P: "1 \<le> P" "P \<le> DB e"
  have e: "int (DB e * a + P) - 1 = (int P - 1) + int (DB e) * int a" by simp
  have "(int (DB e * a + P) - 1) div int (DB e) = int a"
    unfolding e using P by (subst div_mult_self2) auto
  then show ?thesis by (simp add: pos_def)
qed

lemma pos_split: "0 < R \<Longrightarrow> \<exists>a P. R = DB e * a + P \<and> 1 \<le> P \<and> P \<le> DB e"
proof -
  assume R: "0 < R"
  define a P where "a = (R - 1) div DB e" and "P = (R - 1) mod DB e + 1"
  have "DB e * a + (R - 1) mod DB e = R - 1" unfolding a_def by (rule mult_div_mod_eq)
  then have "R = DB e * a + P" using R unfolding P_def by linarith
  moreover have "(R - 1) mod DB e < DB e" using DB_bounds [of e] by simp
  then have "1 \<le> P" "P \<le> DB e" unfolding P_def by linarith+
  ultimately show ?thesis by blast
qed

lemma pos_wrap: "p' < DB e \<Longrightarrow>
  (if p' = 0 then (int a - 1, int (DB e)) else (int a, int p')) = pos e (DB e * a + p')"
proof (cases "p' = 0")
  case True
  then show ?thesis using pos_eq [of "DB e" e "a - 1"] pos_0 [of e]
    by (cases a) (auto simp: Suc_le_eq add.commute)
next
  case nz: False
  assume "p' < DB e"
  then show ?thesis using nz by (subst pos_eq) auto
qed

lemma group_shl:
  assumes "0 \<le> u" "u * 2 ^ n < 2 ^ 8" "n \<le> 8"
  shows "js_shl u (int n) = u * 2 ^ n"
proof -
  have "u * 2 ^ n < 2 ^ 31" using assms(2) by simp
  then show ?thesis using js_shl_mult_pos [of u "int n"] assms by simp
qed

lemma group_or:
  assumes "0 \<le> u" "u * 2 ^ n < 2 ^ 8" "n \<le> 8" "0 \<le> w" "w < 2 ^ n"
  shows "js_or (u * 2 ^ n) w = u * 2 ^ n + w"
proof -
  have "(2::int) ^ n \<le> 2 ^ 8" using assms(3) by (intro power_increasing) auto
  then have "u * 2 ^ n + w < 2 ^ 31" using assms by simp
  then show ?thesis using assms by (intro js_or_add)
qed

lemma next_group_across:
  assumes ds: "digits_in (DV e) ds" and K: "1 \<le> K" "K \<le> 8" and P: "1 \<le> P" "P < K"
    and a: "Suc a' < length ds" and qd: "q = DB e - (K - P)"
  shows "next_group e (int K) ds (int (Suc a')) (int P)
    = (val (DV e) ds div 2 ^ (DB e * a' + q) mod 2 ^ K, int a', int q)"
proof -
  note db = DB_bounds [of e]
  have q: "int P + (int (DB e) - int K) = int q" "q < 32" "K - P + q = DB e" using K P db by (auto simp: qd)
  have a'l: "a' < length ds" using a by simp
  define u w where "u = ds ! Suc a' mod 2 ^ P" and "w = ds ! a' div 2 ^ q"
  have m: "js_and (ds ! Suc a') (js_shl 1 (int P) - 1) = u"
    unfolding u_def using P K by (subst js_and_bm) auto
  have kp: "int K - int P = int (K - P)" using P by simp
  have u: "0 \<le> u" "u < 2 ^ P" by (simp_all add: u_def)
  have K8: "K - P \<le> 8" using K by simp
  have "u * 2 ^ (K - P) < 2 ^ P * 2 ^ (K - P)" using u by (intro mult_strict_right_mono) auto
  also have "(2::int) ^ P * 2 ^ (K - P) = 2 ^ K" using P by (simp flip: power_add)
  also have "(2::int) ^ K \<le> 2 ^ 8" using K by (intro power_increasing) auto
  finally have s8: "u * 2 ^ (K - P) < 2 ^ 8" .
  have d: "0 \<le> ds ! a'" "ds ! a' < DV e" using digits_in_nth [OF ds a'l] by auto
  then have d31: "ds ! a' < 2 ^ 31" using DV_lt31 [of e] by simp
  have sr: "js_shr (ds ! a') (int q) = w"
    unfolding w_def using d(1) d31 q(2) by (subst js_shr_div) auto
  have "DV e = 2 ^ (K - P) * 2 ^ q" using q(3) by (simp add: DV_eq flip: power_add)
  then have "ds ! a' < 2 ^ (K - P) * 2 ^ q" using d(2) by simp
  then have lo: "0 \<le> w" "w < 2 ^ (K - P)"
    unfolding w_def using d(1) by (simp_all add: pos_imp_zdiv_nonneg_iff div_less_of_less_mult)
  have n: "nat (int (Suc a') - 1) = a'" "nat (int (Suc a')) = Suc a'" "int (Suc a') - 1 = int a'" by simp_all
  have "next_group e (int K) ds (int (Suc a')) (int P) = (u * 2 ^ (K - P) + w, int a', int q)"
    unfolding next_group_def Let_def n js_num_nth [OF a] js_num_nth [OF a'l] q(1) m kp sr
      group_shl [OF u(1) s8 K8] group_or [OF u(1) s8 K8 lo]
    using P by (simp add: a'l sr group_or [OF u(1) s8 K8 lo])
  then show ?thesis
    using bits_across [OF ds a P(2) _ qd] K db by (simp add: u_def w_def)
qed

lemma next_group_ok:
  assumes ds: "digits_in (DV e) ds" and K: "1 \<le> K" "K \<le> 8" "K \<le> R" "R \<le> DB e * length ds"
  shows "next_group e (int K) ds (fst (pos e R)) (snd (pos e R))
    = (val (DV e) ds div 2 ^ (R - K) mod 2 ^ K, pos e (R - K))"
proof -
  note db = DB_bounds [of e]
  obtain a P where R: "R = DB e * a + P" "1 \<le> P" "P \<le> DB e" using pos_split [of R e] K by auto
  have p: "fst (pos e R) = int a" "snd (pos e R) = int P" unfolding R(1) pos_eq [OF R(2,3)] by simp_all
  have "DB e * a < DB e * length ds" using R K(4) by linarith
  then have a: "a < length ds" by simp
  show ?thesis
  proof (cases "P < K")
    case True
    obtain a' where a': "a = Suc a'" using True R K(3) by (cases a) auto
    define q where "q = DB e - (K - P)"
    have q: "1 \<le> q" "q \<le> DB e" using True K db R by (auto simp: q_def)
    have RK: "R - K = DB e * a' + q" using R a' True K db by (simp add: q_def)
    show ?thesis
      unfolding p RK pos_eq [OF q] a' by (rule next_group_across [OF ds K(1,2) R(2) True _ q_def]) (use a a' in simp)
  next
    case False
    define p' where "p' = P - K"
    have p': "int P - int K = int p'" "p' + K \<le> DB e" "p' < 32" using False R K db by (auto simp: p'_def)
    have RK: "R - K = DB e * a + p'" using R False by (simp add: p'_def)
    have d: "0 \<le> ds ! a" "ds ! a < 2 ^ 31" using digits_in_nth [OF ds a] DV_lt31 [of e] by auto
    define w where "w = ds ! a div 2 ^ p'"
    have sr: "js_shr (ds ! a) (int p') = w"
      unfolding w_def using d p' by (subst js_shr_div) auto
    have "js_and w (js_shl 1 (int K) - 1) = w mod 2 ^ K" using K by (subst js_and_bm) auto
    then have "next_group e (int K) ds (int a) (int P) =
        (w mod 2 ^ K, if p' = 0 then (int a - 1, int (DB e)) else (int a, int p'))"
      using False unfolding next_group_def Let_def p'(1) nat_int js_num_nth [OF a] sr by simp
    also have "(if p' = 0 then (int a - 1, int (DB e)) else (int a, int p')) = pos e (R - K)"
      unfolding RK by (rule pos_wrap) (use p' K in simp)
    finally show ?thesis unfolding p w_def using bits_within [OF ds a p'(2)] RK by simp
  qed
qed

section \<open>The groups of a number, from the top\<close>

definition groups :: "nat \<Rightarrow> int \<Rightarrow> nat \<Rightarrow> int list" where
  "groups K V J = rev (map (\<lambda>j. V div 2 ^ (K * j) mod 2 ^ K) [0..<J])"

lemma groups_0 [simp]: "groups K V 0 = []"
  by (simp add: groups_def)

lemma groups_Suc: "groups K V (Suc J) = V div 2 ^ (K * J) mod 2 ^ K # groups K V J"
  by (simp add: groups_def)

lemma groups_range: "x \<in> set (groups K V J) \<Longrightarrow> 0 \<le> x \<and> x < 2 ^ K"
  by (auto simp: groups_def)

lemma digits_in_groups: "digits_in (2 ^ K) (rev (groups K V J))"
  by (auto simp: digits_in_def groups_def)

lemma val_groups: "val (2 ^ K) (rev (groups K V J)) = V mod 2 ^ (K * J)"
proof (induction J)
  case (Suc J)
  have "(2::int) ^ (K * Suc J) = 2 ^ (K * J) * 2 ^ K" by (simp add: mult.commute flip: power_add)
  then have "V mod 2 ^ (K * Suc J) = 2 ^ (K * J) * (V div 2 ^ (K * J) mod 2 ^ K) + V mod 2 ^ (K * J)"
    by (simp only:) (rule zmod_zmult2_eq; simp)
  then show ?case using Suc by (simp add: groups_Suc val_snoc power_mult) (simp add: groups_def flip: power_mult)
qed simp

text \<open>The digits of a number without leading zeros are its groups with the leading zeros dropped.\<close>

lemma strip_groups:
  assumes "1 \<le> K" "0 \<le> V" "V < 2 ^ (K * J)"
  shows "dropWhile (\<lambda>x. x = 0) (groups K V J) = rev (to_digits (2 ^ K) V)"
proof -
  let ?b = "2 ^ K :: int"
  have b: "2 \<le> ?b" using power_increasing [of 1 K "2::int"] assms(1) by simp
  have r: "radix ?b" using b by unfold_locales
  define M where "M = dropWhile (\<lambda>x. x = 0) (groups K V J)"
  define Z where "Z = takeWhile (\<lambda>x. x = 0) (groups K V J)"
  have Z: "groups K V J = Z @ M" "\<forall>z\<in>set Z. z = 0"
    unfolding M_def Z_def by (rule takeWhile_dropWhile_id [symmetric], blast dest: set_takeWhileD)
  have z: "Z = replicate (length Z) 0" using replicate_length_same [OF Z(2)] by (rule sym)
  have "val ?b (rev Z) = 0" by (subst z) (simp only: rev_replicate val_replicate0)
  then have "val ?b (rev (groups K V J)) = val ?b (rev M)" unfolding Z(1) rev_append val_append by simp
  moreover have "V mod 2 ^ (K * J) = V" by (rule mod_pos_pos_trivial [OF assms(2,3)])
  ultimately have v: "val ?b (rev M) = V" unfolding val_groups by simp
  have d: "digits_in ?b (rev M)"
    using digits_in_groups [of K V J] unfolding Z(1) digits_in_def by simp
  have "M \<noteq> [] \<longrightarrow> hd M \<noteq> 0" unfolding M_def by (rule impI) (rule hd_dropWhile)
  then have "no_lead0 (rev M)" by (auto simp: no_lead0_def last_rev)
  then have "to_digits ?b V = rev M" using to_digits_val [OF b d] v by simp
  then show ?thesis by (simp add: M_def)
qed

definition ts_char :: "int \<Rightarrow> bool \<times> string \<Rightarrow> bool \<times> string" where
  "ts_char d = (\<lambda>(m, r). let m' = (d > 0 \<or> m) in (m', if m' then r @ [int2char d] else r))"

lemma ts_char_app: "ts_char d (m, r) = (d > 0 \<or> m, if d > 0 \<or> m then r @ [int2char d] else r)"
  by (simp add: ts_char_def Let_def)

lemma ts_loop_groups:
  assumes "digits_in (DV e) ds" "1 \<le> K" "K \<le> 8" "K * J \<le> DB e * length ds"
  shows "ts_loop e (int K) ds (fst (pos e (K * J))) (snd (pos e (K * J))) m r
    = fold ts_char (groups K (val (DV e) ds) J) (m, r)"
  using assms(4)
proof (induction J arbitrary: m r)
  case 0
  then show ?case by (simp add: pos_0 ts_loop.simps)
next
  case (Suc J)
  have le: "K * J \<le> DB e * length ds" using Suc.prems by simp
  obtain a P where ap: "K * Suc J = DB e * a + P" "1 \<le> P" "P \<le> DB e" using pos_split [of "K * Suc J" e] assms(2) by auto
  have nn: "\<not> fst (pos e (K * Suc J)) < 0" unfolding ap(1) pos_eq [OF ap(2,3)] by simp
  have g: "next_group e (int K) ds (fst (pos e (K * Suc J))) (snd (pos e (K * Suc J)))
      = (val (DV e) ds div 2 ^ (K * J) mod 2 ^ K, pos e (K * J))"
    using next_group_ok [OF assms(1,2,3) _ Suc.prems] by simp
  obtain i p where ip: "pos e (K * J) = (i, p)" by (rule prod.exhaust)
  show ?case
    using Suc.IH [OF le] nn assms(2)
    by (subst ts_loop.simps, simp only: g groups_Suc) (simp add: ip Let_def ts_char_app)
qed

lemma tba_loop_groups:
  assumes "digits_in (DV e) ds" "8 * J \<le> DB e * length ds"
  shows "tba_loop e s ds (fst (pos e (8 * J))) (snd (pos e (8 * J))) rk
    = fold (\<lambda>d rk. tba_byte s rk d) (groups 8 (val (DV e) ds) J) rk"
  using assms(2)
proof (induction J arbitrary: rk)
  case 0
  then show ?case by (simp add: pos_0 tba_loop.simps)
next
  case (Suc J)
  have le: "8 * J \<le> DB e * length ds" using Suc.prems by simp
  obtain a P where ap: "8 * Suc J = DB e * a + P" "1 \<le> P" "P \<le> DB e" using pos_split [of "8 * Suc J" e] by auto
  have nn: "\<not> fst (pos e (8 * Suc J)) < 0" unfolding ap(1) pos_eq [OF ap(2,3)] by simp
  have g: "next_group e 8 ds (fst (pos e (8 * Suc J))) (snd (pos e (8 * Suc J)))
      = (val (DV e) ds div 2 ^ (8 * J) mod 2 ^ 8, pos e (8 * J))"
    using next_group_ok [OF assms(1), of 8 "8 * Suc J"] Suc.prems by simp
  obtain i p where ip: "pos e (8 * J) = (i, p)" by (rule prod.exhaust)
  show ?case
    using Suc.IH [OF le] nn
    by (subst tba_loop.simps, simp only: g groups_Suc) (simp add: ip Let_def)
qed

text \<open>Leading groups that are zero are not written.\<close>

lemma ts_fold_True: "fold ts_char gs (True, r) = (True, r @ map int2char gs)"
  by (induction gs arbitrary: r) (simp_all add: ts_char_def)

lemma ts_fold:
  assumes "\<forall>g\<in>set gs. 0 \<le> g"
  shows "fold ts_char gs (False, []) = (dropWhile (\<lambda>x. x = 0) gs \<noteq> [], map int2char (dropWhile (\<lambda>x. x = 0) gs))"
  using assms by (induction gs) (auto simp: ts_char_def ts_fold_True)

text \<open>The bits above the last whole group are the top group.\<close>

lemma top_group:
  assumes b: "ok_big e b" "sg b = 0" "digs b \<noteq> []" and K: "1 \<le> K" "K \<le> 8"
  defines "T \<equiv> DB e * bt b"
  shows "int (DB e) - int (bt b) * int (DB e) mod int K = int (DB e) - int (T mod K)"
    and "pos e (K * (T div K)) = (if T mod K = 0 then (int (bt b) - 1, int (DB e)) else (int (bt b) - 1, int (DB e) - int (T mod K)))"
    and "js_shr (js_num (digs b) (nat (int (bt b) - 1))) (int (DB e) - int (T mod K)) = bval e b div 2 ^ (K * (T div K))"
proof -
  note db = DB_bounds [of e]
  obtain n where n: "bt b = Suc n" using b(3) by (cases "digs b") auto
  have m: "T mod K < K" "K * (T div K) + T mod K = T" using K by simp_all
  define s where "s = DB e - T mod K"
  have s: "s + T mod K = DB e" "1 \<le> s" "s \<le> DB e" using m(1) K db unfolding s_def by linarith+
  have "T = DB e * n + DB e" by (simp add: T_def n)
  then have R: "K * (T div K) = DB e * n + s" using m(2) s(1) by linarith
  show "int (DB e) - int (bt b) * int (DB e) mod int K = int (DB e) - int (T mod K)"
    by (simp add: T_def zmod_int mult.commute)
  have "pos e (K * (T div K)) = (int n, int s)" unfolding R by (rule pos_eq [OF s(2,3)])
  then show "pos e (K * (T div K)) = (if T mod K = 0 then (int (bt b) - 1, int (DB e)) else (int (bt b) - 1, int (DB e) - int (T mod K)))"
    using s n by (auto simp: s_def)
  have wf: "digits_in (DV e) (digs b)" using b(1) by (simp add: ok_big_def wf_big_def)
  have d: "0 \<le> digs b ! n" "digs b ! n < 2 ^ 31" using digits_in_nth [OF wf, of n] DV_lt31 [of e] n by auto
  have "bval e b div 2 ^ (K * (T div K)) = val (DV e) (digs b) div DV e ^ n div 2 ^ s"
    unfolding R using b(2) by (simp add: bval_def power_add zdiv_zmult2_eq DV_pow)
  also have "val (DV e) (digs b) div DV e ^ n = digs b ! n"
    using radixDV.val_drop [OF wf, of n] radixDV.drop_digit [of n "digs b"] n by simp
  finally have v: "bval e b div 2 ^ (K * (T div K)) = digs b ! n div 2 ^ s" .
  have "js_shr (digs b ! n) (int s) = digs b ! n div 2 ^ s" using d s db m(1) K 
    by (cases "s < 32") (auto simp: js_shr_div)
  moreover have "int (DB e) - int (T mod K) = int s" using s(1) by simp
  ultimately show "js_shr (js_num (digs b) (nat (int (bt b) - 1))) (int (DB e) - int (T mod K)) = bval e b div 2 ^ (K * (T div K))"
    using v n by simp
qed

lemma bval_bits: "ok_big e b \<Longrightarrow> sg b = 0 \<Longrightarrow> 0 \<le> bval e b \<and> bval e b < 2 ^ (DB e * bt b)"
  using bval_range [of e b] by (simp add: ok_big_def DV_pow)

text \<open>All groups, the top one included.\<close>

lemma top_lt:
  assumes "V < 2 ^ T"
  shows "V div 2 ^ (K * (T div K)) < (2::int) ^ (T mod K)"
proof -
  have "T = T mod K + K * (T div K)" by simp
  then have "V < 2 ^ (T mod K) * 2 ^ (K * (T div K))" using assms by (metis power_add)
  then show ?thesis by (intro div_less_of_less_mult) auto
qed

lemma all_groups:
  assumes "0 \<le> V" "V < 2 ^ T" "1 \<le> K"
  shows "groups K V (Suc (T div K)) = V div 2 ^ (K * (T div K)) # groups K V (T div K)"
    and "V < 2 ^ (K * Suc (T div K))"
    and "T mod K = 0 \<Longrightarrow> V div 2 ^ (K * (T div K)) = 0"
proof -
  have T: "T = T mod K + K * (T div K)" by simp
  note lt = top_lt [OF assms(2), of K]
  show "T mod K = 0 \<Longrightarrow> V div 2 ^ (K * (T div K)) = 0"
    using lt assms(1) by (simp add: pos_imp_zdiv_nonneg_iff order_antisym)
  have "T mod K \<le> K" using assms(3) by (simp add: less_imp_le)
  then have "(2::int) ^ (T mod K) \<le> 2 ^ K" by (intro power_increasing) auto
  with lt have "V div 2 ^ (K * (T div K)) < 2 ^ K" by (rule order_less_le_trans)
  then show "groups K V (Suc (T div K)) = V div 2 ^ (K * (T div K)) # groups K V (T div K)"
    using assms(1) by (simp add: groups_Suc pos_imp_zdiv_nonneg_iff)
  have "T \<le> K * Suc (T div K)" using T \<open>T mod K \<le> K\<close> unfolding mult_Suc_right by linarith
  then have "(2::int) ^ T \<le> 2 ^ (K * Suc (T div K))" by (intro power_increasing) auto
  with assms(2) show "V < 2 ^ (K * Suc (T div K))" by (rule order_less_le_trans)
qed

lemma val_digs: "sg b = 0 \<Longrightarrow> val (DV e) (digs b) = bval e b"
  by (simp add: bval_def)

lemma digs_0_iff: "ok_big e b \<Longrightarrow> digs b = [] \<and> sg b = 0 \<longleftrightarrow> bval e b = 0"
  using ok_big_unique [of e b "ZERO e"] ZERO_ok [of e] by (auto simp: bval_def ZERO_def fromInt_def)

lemma digit_char_int2char: "digit_char = int2char"
  by (rule ext) (simp add: digit_char_def int2char_def)

lemma toString_bits_ok:
  assumes b: "ok_big e b" "sg b = 0" and K: "1 \<le> K" "K \<le> 8"
  shows "toString_bits e (int K) b = num_str (2 ^ K) (bval e b)"
proof (cases "digs b = []")
  case True
  then show ?thesis using b by (simp add: toString_bits_def num_str_def bval_def)
next
  case False
  define T where "T = DB e * bt b"
  define V where "V = bval e b"
  define d where "d = V div 2 ^ (K * (T div K))"
  define G where "G = groups K V (T div K)"
  note tg = top_group [OF b False K, folded T_def, folded V_def, folded d_def]
  have VT: "0 \<le> V" "V < 2 ^ T" using bval_bits [OF b] by (simp_all add: V_def T_def)
  note ag = all_groups [OF VT K(1), folded d_def, folded G_def]
  have d0: "0 \<le> d" using VT by (simp add: d_def pos_imp_zdiv_nonneg_iff)
  have nz: "V \<noteq> 0" using digs_0_iff [OF b(1)] b(2) False by (simp add: V_def)
  have wf: "digits_in (DV e) (digs b)" using b(1) by (simp add: ok_big_def wf_big_def)
  define p where "p = int (DB e) - int (T mod K)"
  have le: "K * (T div K) \<le> DB e * length (digs b)" unfolding T_def [symmetric] by simp
  have loop: "ts_loop e (int K) (digs b) (fst (pos e (K * (T div K)))) (snd (pos e (K * (T div K)))) m r = fold ts_char G (m, r)" for m r
    using ts_loop_groups [OF wf K le] unfolding val_digs [OF b(2)] G_def V_def .
  have p_eq: "pos e (K * (T div K)) = (int (bt b) - 1, p)" unfolding tg(2) p_def by simp
  have cond: "p < int (DB e) \<and> d > 0 \<longleftrightarrow> d > 0" using ag(3) by (auto simp: p_def)
  have st: "(if d > 0 then (True, [int2char d]) else (False, [])) = fold ts_char [d] (False, [])"
    by (simp add: ts_char_app)
  have "toString_bits e (int K) b = (let (m', r') = fold ts_char (groups K V (Suc (T div K))) (False, []) in if m' then r' else ''0'')"
    using False loop [of _ _, unfolded p_eq] tg(1,3)
    unfolding toString_bits_def ag(1) p_def [symmetric] Let_def cond
    by (simp add: cond ts_char_app)
  also have "fold ts_char (groups K V (Suc (T div K))) (False, [])
      = (to_digits (2 ^ K) V \<noteq> [], map int2char (rev (to_digits (2 ^ K) V)))"
    using groups_range by (subst ts_fold) (auto simp: strip_groups [OF K(1) VT(1) ag(2)] del: power_Suc)
  finally show ?thesis
    using nz VT to_digits_pos [of V "2 ^ K"] power_increasing [of 1 K "2::int"] K
    by (simp add: num_str_def V_def digit_char_int2char)
qed

lemma toString_pow2_ok:
  assumes b: "ok_big e b" and K: "1 \<le> K" "K \<le> 8"
  shows "toString_pow2 e (int K) b =
    (if bval e b < 0 then CHR ''-'' # num_str (2 ^ K) (- bval e b) else num_str (2 ^ K) (bval e b))"
proof -
  have wf: "wf_big e b" using b by (simp add: ok_big_def)
  note n = negate_ok [OF wf]
  have "bval e b < 0 \<Longrightarrow> sg (negate e b) = 0"
    using sg_cases [of e "negate e b"] n by (simp add: ok_big_def)
  then show ?thesis
    using toString_bits_ok [OF n(1) _ K] toString_bits_ok [OF b _ K] sg_iff [OF wf] sg_cases [OF wf] n
    by (simp add: toString_pow2_def)
qed

text \<open>The state of the byte loop after the groups \<open>gs\<close> of a number that is not negative.\<close>

definition signed_byte :: "int \<Rightarrow> int" where
  "signed_byte d = (if 128 \<le> d then d - 256 else d)"

definition tba_out :: "int list \<Rightarrow> int list \<times> nat" where
  "tba_out m =
     (if m = [] then ([0], 0)
      else if 128 \<le> hd m then (0 # map signed_byte m, Suc (length m)) else (map signed_byte m, length m))"

definition tba_state :: "int list \<Rightarrow> int list \<times> nat" where
  "tba_state gs = tba_out (dropWhile (\<lambda>x. x = 0) gs)"

lemma byte_cases: "\<forall>d\<in>set [0..255]. (js_and d 0x80 \<noteq> 0 \<longleftrightarrow> 128 \<le> d) \<and> js_or d (-256) = d - 256
    \<and> (128 \<le> d \<longrightarrow> js_and (d - 256) 0x80 \<noteq> 0)"
  by code_simp

lemma js_and_0: "js_and 0 x = 0"
  by (simp add: js_and_def toInt32_def)

lemma js_set_end: "js_set xs (length xs) v = xs @ [v]"
  by (simp add: js_set_def)

lemma tba_byte_eq:
  assumes "0 \<le> d" "d < 256"
  shows "tba_byte 0 (r, k) d =
    (let k' = (if k = 0 \<and> 128 \<le> d then 1 else k)
     in if k' > 0 \<or> d \<noteq> 0 then (js_set r k' (signed_byte d), Suc k') else (r, k'))"
proof -
  have d: "d \<in> set [0..255]" using assms by auto
  have f: "js_and d 0x80 \<noteq> 0 \<longleftrightarrow> 128 \<le> d" "js_or d (-256) = d - 256" "128 \<le> d \<longrightarrow> js_and (d - 256) 0x80 \<noteq> 0"
    using bspec [OF byte_cases d] by blast+
  have s: "(if js_and d 0x80 \<noteq> 0 then js_or d (-256) else d) = signed_byte d"
    by (simp add: f signed_byte_def)
  have n: "js_and 0 0x80 \<noteq> js_and (signed_byte d) 0x80 \<longleftrightarrow> 128 \<le> d"
    using f by (auto simp: signed_byte_def js_and_0)
  have z: "signed_byte d \<noteq> 0 \<longleftrightarrow> d \<noteq> 0" using assms by (auto simp: signed_byte_def)
  show ?thesis
    unfolding tba_byte_def split Let_def s n z by (simp add: tba_put_def)
qed

lemma tba_byte_ok:
  assumes "0 \<le> d" "d < 256"
  shows "tba_byte 0 (tba_state gs) d = tba_state (gs @ [d])"
proof -
  define m where "m = dropWhile (\<lambda>x. x = 0) gs"
  have m': "dropWhile (\<lambda>x. x = 0) (gs @ [d]) = (if m = [] then (if d = 0 then [] else [d]) else m @ [d])"
    unfolding m_def by (induction gs) auto
  show ?thesis
  proof (cases "m = []")
    case True
    then show ?thesis unfolding tba_state_def m_def [symmetric] m'
      by (simp add: tba_out_def tba_byte_eq [OF assms] js_set_def signed_byte_def)
  next
    case False
    then show ?thesis unfolding tba_state_def m_def [symmetric] m'
      using js_set_end [of "0 # map signed_byte m" "signed_byte d"] js_set_end [of "map signed_byte m" "signed_byte d"]
      by (simp add: tba_out_def tba_byte_eq [OF assms])
  qed
qed

lemma tba_fold_ok:
  assumes "\<forall>g\<in>set hs. 0 \<le> g \<and> g < 256"
  shows "fold (\<lambda>d rk. tba_byte 0 rk d) hs (tba_state gs) = tba_state (gs @ hs)"
  using assms
proof (induction hs arbitrary: gs)
  case (Cons h hs)
  then have "tba_byte 0 (tba_state gs) h = tba_state (gs @ [h])" by (intro tba_byte_ok) auto
  then show ?case using Cons by simp
qed simp

lemma toByteArray_ok:
  assumes b: "ok_big e b" "sg b = 0"
  shows "toByteArray e b = fst (tba_out (rev (to_digits 256 (bval e b))))"
proof (cases "digs b = []")
  case True
  then show ?thesis using b by (simp add: toByteArray_def bval_def tba_out_def)
next
  case False
  define T where "T = DB e * bt b"
  define V where "V = bval e b"
  define d where "d = V div 2 ^ (8 * (T div 8))"
  define G where "G = groups 8 V (T div 8)"
  have K: "1 \<le> (8::nat)" "(8::nat) \<le> 8" by simp_all
  note tg = top_group [OF b False K, folded T_def, folded V_def, folded d_def]
  have VT: "0 \<le> V" "V < 2 ^ T" using bval_bits [OF b] by (simp_all add: V_def T_def)
  note ag = all_groups [OF VT K(1), folded d_def, folded G_def]
  have d0: "0 \<le> d" using VT by (simp add: d_def pos_imp_zdiv_nonneg_iff)
  have dG: "d \<in> set (groups 8 V (Suc (T div 8)))" using ag(1) by simp
  then have d8: "d < 256" using groups_range [of d 8] by simp
  have wf: "digits_in (DV e) (digs b)" using b(1) by (simp add: ok_big_def wf_big_def)
  define p where "p = int (DB e) - int (T mod 8)"
  have le: "8 * (T div 8) \<le> DB e * length (digs b)" unfolding T_def [symmetric] by simp
  have p_eq: "pos e (8 * (T div 8)) = (int (bt b) - 1, p)" unfolding tg(2) p_def by simp
  have loop: "tba_loop e 0 (digs b) (int (bt b) - 1) p rk = fold (\<lambda>d rk. tba_byte 0 rk d) G rk" for rk
    using tba_loop_groups [OF wf le, of 0 rk] unfolding p_eq val_digs [OF b(2)] G_def V_def by simp
  have p1: "int (DB e) - int (bt b) * int (DB e) mod 8 = p" using tg(1) by (simp add: p_def)
  have p3: "js_shr (js_num (digs b) (nat (int (bt b) - 1))) p = d" using tg(3) by (simp add: p_def)
  have z: "js_shr (js_and 0 (DM e)) p = 0" by (simp add: js_and_0 js_shr_def toInt32_def)
  have sl: "js_shl 0 (int (DB e) - p) = 0" by (simp add: js_shl_def toInt32_def)
  have "js_or d 0 = d" using d0 d8 by (simp add: js_or_def toInt32_id)
  moreover have "d \<noteq> 0 \<Longrightarrow> p < int (DB e)" using ag(3) by (auto simp: p_def)
  moreover have "d < 128"
  proof -
    have "T mod 8 \<le> 7" using mod_less_divisor [of 8 T] by linarith
    then have "(2::int) ^ (T mod 8) \<le> 2 ^ 7" by (intro power_increasing) auto
    then show ?thesis using top_lt [OF VT(2), of 8] by (simp add: d_def)
  qed
  ultimately have start: "(if p < int (DB e) \<and> d \<noteq> 0 then tba_put ([0], 0) (js_or d 0) else ([0], 0)) = tba_state [d]"
    using d0 by (auto simp: tba_put_def js_set_def tba_state_def tba_out_def signed_byte_def)
  have "toByteArray e b = fst (fold (\<lambda>d rk. tba_byte 0 rk d) G (tba_state [d]))"
    using False b(2) by (simp add: toByteArray_def Let_def p1 p3 z sl loop flip: start)
  also have "fold (\<lambda>d rk. tba_byte 0 rk d) G (tba_state [d]) = tba_state (groups 8 V (Suc (T div 8)))"
    using groups_range [of _ 8 V "T div 8"] d0 unfolding ag(1) G_def [symmetric] by (subst tba_fold_ok) auto
  also have "\<dots> = tba_out (rev (to_digits 256 V))"
    using strip_groups [OF K(1) VT(1) ag(2)] by (simp add: tba_state_def)
  finally show ?thesis by (simp add: V_def)
qed

lemma toByteArrayUnsigned_ok:
  assumes "ok_big e b"
  shows "toByteArrayUnsigned e b = rev (to_digits 256 \<bar>bval e b\<bar>)"
proof -
  define m where "m = rev (to_digits 256 \<bar>bval e b\<bar>)"
  have ab: "ok_big e (abs_big e b)" "bval e (abs_big e b) = \<bar>bval e b\<bar>" "sg (abs_big e b) = 0"
    by (rule abs_big_ok [OF assms])+
  have ba: "toByteArray e (abs_big e b) = fst (tba_out m)"
    using toByteArray_ok [OF ab(1,3)] by (simp add: ab(2) m_def)
  have "digits_in 256 (to_digits 256 \<bar>bval e b\<bar>)" "no_lead0 (to_digits 256 \<bar>bval e b\<bar>)"
    using to_digits_ok [of 256 "\<bar>bval e b\<bar>"] by auto
  then have m: "\<forall>x\<in>set m. 0 \<le> x \<and> x < 256" "m \<noteq> [] \<Longrightarrow> hd m \<noteq> 0"
    by (auto simp: m_def digits_in_def no_lead0_def hd_rev)
  have bk: "map (\<lambda>v. if v < 0 then v + 256 else v) (map signed_byte m) = m"
    using m(1) by (induction m) (auto simp: signed_byte_def)
  have "hd m < 256" if "m \<noteq> []" using m(1) that by simp
  then have "toByteArrayUnsigned e b = m"
    using bk m(2) unfolding toByteArrayUnsigned_def ba
    by (cases m) (auto simp: tba_out_def Let_def signed_byte_def)
  then show ?thesis by (simp add: m_def)
qed

lemma fromByteArrayUnsigned_ok:
  assumes "digits_in 256 ba" "ba \<noteq> []"
  obtains b where "fromByteArrayUnsigned e ba = Inr b" "ok_big e b" "bval e b = val 256 (rev ba)"
proof -
  have h: "0 \<le> hd ba" "hd ba < 256" using assms by (auto simp: digits_in_def)
  then have hb: "hd ba \<in> set [0..255]" by auto
  have top: "js_and (hd ba) 0x80 \<noteq> 0 \<longleftrightarrow> 128 \<le> hd ba" using bspec [OF byte_cases hb] by blast
  have "map (\<lambda>x. x mod 256) ba = ba"
    using assms(1) by (auto simp: digits_in_def intro: map_idI)
  then have bv: "be_val ba = val 256 (rev ba)" by (simp add: be_val_def)
  moreover have "be_val (0 # ba) = val 256 (rev ba)"
    using \<open>map (\<lambda>x. x mod 256) ba = ba\<close> by (simp add: be_val_def val_snoc)
  ultimately show thesis
    using that fromBytes_ok [of e ba] fromBytes_ok [of e "0 # ba"] top assms(2) h
    by (cases "128 \<le> hd ba") (auto simp: fromByteArrayUnsigned_def be_signed_def)
qed

section \<open>Properties\<close>

lemma strip_bytes:
  assumes "digits_in 256 ba"
  shows "rev (to_digits 256 (val 256 (rev ba))) = dropWhile (\<lambda>x. x = 0) ba"
proof -
  define M where "M = dropWhile (\<lambda>x. x = 0) ba"
  define Z where "Z = takeWhile (\<lambda>x. x = 0) ba"
  have Z: "ba = Z @ M" "\<forall>z\<in>set Z. z = 0"
    unfolding M_def Z_def by (rule takeWhile_dropWhile_id [symmetric], blast dest: set_takeWhileD)
  have z: "Z = replicate (length Z) 0" using replicate_length_same [OF Z(2)] by (rule sym)
  have "val 256 (rev Z) = 0" by (subst z) (simp only: rev_replicate val_replicate0)
  then have v: "val 256 (rev ba) = val 256 (rev M)" unfolding Z(1) rev_append val_append by simp
  have d: "digits_in 256 (rev M)" using assms unfolding Z(1) by (simp add: digits_in_def)
  have "M \<noteq> [] \<longrightarrow> hd M \<noteq> 0" unfolding M_def by (rule impI) (rule hd_dropWhile)
  then have "no_lead0 (rev M)" by (auto simp: no_lead0_def last_rev)
  then have "to_digits 256 (val 256 (rev M)) = rev M" using d by (intro to_digits_val) auto
  then show ?thesis by (simp add: v M_def)
qed



text \<open>
  The constructor reads an array of bytes (base 256) as a two's complement number, most significant
  byte first, whatever the sizes of the entries, into normalised digits.
\<close>

theorem from_bytes_refine: "ok_big e (fromBytes e s) \<and> bval e (fromBytes e s) = be_signed s"
  using fromBytes_ok by blast

text \<open>
  In a radix \<open>2, 4, .., 256\<close> that is a power of two the text of a number is its sign and the digits of its
  magnitude, although they are cut out of the binary digits across their borders.
\<close>

theorem to_string_refine:
  assumes "ok_big e b" "1 \<le> K" "K \<le> 8"
  shows "toString_pow2 e (int K) b =
    (if bval e b < 0 then CHR ''-'' # num_str (2 ^ K) (- bval e b) else num_str (2 ^ K) (bval e b))"
  using assms by (rule toString_pow2_ok)

theorem to_string_refine_witness:
  "toString_pow2 Netscape (int 4) (fromInt Netscape (-255)) = ''-'' @ num_str (2 ^ 4) 255"
  using to_string_refine [of Netscape "fromInt Netscape (-255)" 4] fromInt_ok [of Netscape "-255"]
  by (simp add: DV_eq)

end
