(* ===== verification/BigBits.thy ===== *)
theory BigBits
  imports BigConv
begin

text \<open>
  \<open>src/biginteger.js\<close>: bitwise operations. A negative number is stored with the digits of its two's
  complement and the sign \<open>-1\<close>, so that the digit-wise operator is the operator on the infinite two's
  complement; \<open>bit_bval\<close> says which bit of the value each bit of a digit is.
\<close>

section \<open>Model\<close>

definition copyTo :: "big \<Rightarrow> big" where
  "copyTo this = \<lparr>digs = map (js_num (digs this)) [0..<bt this], sg = sg this\<rparr>"

definition clone :: "big \<Rightarrow> big" where
  "clone this = copyTo this"

definition op_and :: "int \<Rightarrow> int \<Rightarrow> int" where "op_and x y = js_and x y"

definition op_or :: "int \<Rightarrow> int \<Rightarrow> int" where "op_or x y = js_or x y"

definition op_xor :: "int \<Rightarrow> int \<Rightarrow> int" where "op_xor x y = js_xor x y"

definition op_andnot :: "int \<Rightarrow> int \<Rightarrow> int" where "op_andnot x y = js_and x (js_not y)"

definition bitwiseTo :: "engine \<Rightarrow> big \<Rightarrow> big \<Rightarrow> (int \<Rightarrow> int \<Rightarrow> int) \<Rightarrow> big" where
  "bitwiseTo e this a op1 =
     (let m = min (bt a) (bt this);
          lo = map (\<lambda>i. op1 (digs this ! i) (digs a ! i)) [0..<m];
          hi = (if bt a < bt this
                then let f = js_and (sg a) (DM e) in map (\<lambda>i. op1 (digs this ! i) f) [m..<bt this]
                else let f = js_and (sg this) (DM e) in map (\<lambda>i. op1 f (digs a ! i)) [m..<bt a])
      in clamp e \<lparr>digs = lo @ hi, sg = op1 (sg this) (sg a)\<rparr>)"

definition and_big :: "engine \<Rightarrow> big \<Rightarrow> big \<Rightarrow> big" where "and_big e this a = bitwiseTo e this a op_and"

definition or_big :: "engine \<Rightarrow> big \<Rightarrow> big \<Rightarrow> big" where "or_big e this a = bitwiseTo e this a op_or"

definition xor_big :: "engine \<Rightarrow> big \<Rightarrow> big \<Rightarrow> big" where "xor_big e this a = bitwiseTo e this a op_xor"

definition andNot_big :: "engine \<Rightarrow> big \<Rightarrow> big \<Rightarrow> big" where "andNot_big e this a = bitwiseTo e this a op_andnot"

definition not_big :: "engine \<Rightarrow> big \<Rightarrow> big" where
  "not_big e this = \<lparr>digs = map (\<lambda>d. js_and (DM e) (js_not d)) (digs this), sg = js_not (sg this)\<rparr>"

fun lowest_loop :: "engine \<Rightarrow> int list \<Rightarrow> nat \<Rightarrow> int option" where
  "lowest_loop e [] i = None"
| "lowest_loop e (d # ds) i = (if d \<noteq> 0 then Some (int i * int (DB e) + lbit d) else lowest_loop e ds (Suc i))"

definition getLowestSetBit :: "engine \<Rightarrow> big \<Rightarrow> int" where
  "getLowestSetBit e this =
     (case lowest_loop e (digs this) 0 of
        Some n \<Rightarrow> n
      | None \<Rightarrow> if sg this < 0 then int (bt this) * int (DB e) else -1)"

definition bitCount :: "engine \<Rightarrow> big \<Rightarrow> int option" where
  "bitCount e this =
     (let x = js_and (sg this) (DM e)
      in fold (\<lambda>d r. Option.bind r (\<lambda>r. map_option (\<lambda>c. r + c) (cbit (js_xor d x)))) (digs this) (Some 0))"

definition testBit :: "engine \<Rightarrow> big \<Rightarrow> nat \<Rightarrow> bool" where
  "testBit e this n =
     (let j = n div DB e
      in if j \<ge> bt this then sg this \<noteq> 0
         else js_and (digs this ! j) (js_shl 1 (int (n mod DB e))) \<noteq> 0)"

definition changeBit :: "engine \<Rightarrow> big \<Rightarrow> nat \<Rightarrow> (int \<Rightarrow> int \<Rightarrow> int) \<Rightarrow> big" where
  "changeBit e this n op1 = bitwiseTo e this (shiftLeft e (int n) (ONE e)) op1"

definition setBit :: "engine \<Rightarrow> big \<Rightarrow> nat \<Rightarrow> big" where "setBit e this n = changeBit e this n op_or"

definition clearBit :: "engine \<Rightarrow> big \<Rightarrow> nat \<Rightarrow> big" where "clearBit e this n = changeBit e this n op_andnot"

definition flipBit :: "engine \<Rightarrow> big \<Rightarrow> nat \<Rightarrow> big" where "flipBit e this n = changeBit e this n op_xor"

fun modInt_loop :: "int \<Rightarrow> int \<Rightarrow> int list \<Rightarrow> int \<Rightarrow> int" where
  "modInt_loop d n [] r = r"
| "modInt_loop d n (x # xs) r = modInt_loop d n xs ((d * r + x) mod n)"

definition modInt :: "engine \<Rightarrow> big \<Rightarrow> int \<Rightarrow> int" where
  "modInt e this n =
     (if n \<le> 0 then 0
      else let d = DV e mod n; r = (if sg this < 0 then n - 1 else 0)
        in if bt this > 0
           then (if d = 0 then digs this ! 0 mod n else modInt_loop d n (rev (digs this)) r)
           else r)"

section \<open>The bits of the value\<close>

lemma odd_div_bit: "bit (x::int) n \<longleftrightarrow> x div 2 ^ n mod 2 = 1"
  by (simp add: bit_iff_odd odd_iff_mod_2_eq_one)

lemma bit_val:
  assumes "digits_in (DV e) ds" "n < DB e * length ds"
  shows "bit (val (DV e) ds) n \<longleftrightarrow> bit (ds ! (n div DB e)) (n mod DB e)"
proof -
  define a where "a = n div DB e"
  define P where "P = n mod DB e"
  have n: "n = DB e * a + P" by (simp add: a_def P_def)
  have P: "P + 1 \<le> DB e" using mod_less_divisor [of "DB e" n] DB_pos [of e] unfolding P_def by linarith
  have "DB e * a < DB e * length ds" using assms(2) n by linarith
  then have a: "a < length ds" by simp
  show ?thesis
    unfolding odd_div_bit a_def [symmetric] P_def [symmetric]
    using bits_within [OF assms(1) a P] by (simp add: n)
qed

lemma bit_minus_power: "bit (x - 2 ^ N) n \<longleftrightarrow> bit (x::int) n" if "n < N"
proof -
  have "x - 2 ^ N = x + 2 ^ N * -1" by simp
  then have "take_bit N (x - 2 ^ N) = take_bit N x" by (simp only: take_bit_eq_mod mod_mult_self2)
  then show ?thesis using that by (metis bit_take_bit_iff)
qed

lemma bit_neg_small: "- (2 ^ N) \<le> x \<Longrightarrow> x < 0 \<Longrightarrow> N \<le> n \<Longrightarrow> bit (x::int) n"
proof -
  assume x: "- (2 ^ N) \<le> x" "x < 0" "N \<le> n"
  have "(2::int) ^ N \<le> 2 ^ n" using x(3) by (intro power_increasing) auto
  then have "x div 2 ^ n = -1" using x by (intro div_minus1_range) linarith+
  then show ?thesis unfolding odd_div_bit by simp
qed

lemma bit_nonneg_small: "0 \<le> x \<Longrightarrow> x < 2 ^ N \<Longrightarrow> N \<le> n \<Longrightarrow> \<not> bit (x::int) n"
proof -
  assume x: "0 \<le> x" "x < 2 ^ N" "N \<le> n"
  have "(2::int) ^ N \<le> 2 ^ n" using x(3) by (intro power_increasing) auto
  then have "x div 2 ^ n = 0" using x by (intro div_pos_pos_trivial) linarith+
  then show ?thesis unfolding odd_div_bit by simp
qed

lemma bit_bval:
  assumes "wf_big e b"
  shows "bit (bval e b) n \<longleftrightarrow>
    (if n < DB e * bt b then bit (digs b ! (n div DB e)) (n mod DB e) else sg b = -1)"
proof -
  have wf: "digits_in (DV e) (digs b)" "sg b = 0 \<or> sg b = -1" using assms by (auto simp: wf_big_def)
  have v: "bval e b = val (DV e) (digs b) + sg b * 2 ^ (DB e * bt b)" by (simp add: bval_def DV_pow)
  have r: "sg b = 0 \<Longrightarrow> 0 \<le> bval e b \<and> bval e b < 2 ^ (DB e * bt b)"
    "sg b = -1 \<Longrightarrow> - (2 ^ (DB e * bt b)) \<le> bval e b \<and> bval e b < 0"
    using bval_range [OF assms] by (auto simp: DV_pow)
  show ?thesis
  proof (cases "n < DB e * bt b")
    case True
    have "bit (bval e b) n \<longleftrightarrow> bit (val (DV e) (digs b)) n"
      using wf(2)
    proof
      assume "sg b = -1"
      then have "bval e b = val (DV e) (digs b) - 2 ^ (DB e * bt b)" unfolding v by simp
      then show ?thesis using bit_minus_power [OF True] by simp
    qed (simp add: v)
    then show ?thesis using bit_val [OF wf(1) True] True by simp
  next
    case False
    then have l: "DB e * bt b \<le> n" by simp
    from wf(2) show ?thesis
    proof
      assume s: "sg b = 0"
      then have "\<not> bit (bval e b) n" using r(1) l bit_nonneg_small by blast
      then show ?thesis using False s by simp
    next
      assume s: "sg b = -1"
      then have "bit (bval e b) n" using r(2) l bit_neg_small by blast
      then show ?thesis using False s by simp
    qed
  qed
qed

text \<open>\<open>testBit\<close> reads the bit of the infinite two's complement.\<close>

lemma js_and_bit1:
  assumes "0 \<le> x" "x < 2 ^ 31" "k < 31"
  shows "js_and x (js_shl 1 (int k)) \<noteq> 0 \<longleftrightarrow> bit x k"
proof -
  have "(2::int) ^ k < 2 ^ 31" using assms(3) by (intro power_strict_increasing) auto
  then have s: "js_shl 1 (int k) = 2 ^ k" using assms(3) by (subst js_shl_mult_pos) auto
  have "- (2 ^ 31) \<le> (2::int) ^ k" by (rule order_trans [of _ 0]) auto
  then have t: "toInt32 (2 ^ k) = 2 ^ k" "toInt32 x = x" using \<open>2 ^ k < 2 ^ 31\<close> assms by (auto intro!: toInt32_id)
  have "x AND 2 ^ k = (if bit x k then 2 ^ k else 0)"
    by (rule bit_eqI) (auto simp: bit_and_iff bit_exp_iff)
  then show ?thesis by (simp add: js_and_def s t)
qed

lemma testBit_ok:
  assumes "wf_big e b"
  shows "testBit e b n \<longleftrightarrow> bit (bval e b) n"
proof -
  have wf: "digits_in (DV e) (digs b)" "sg b = 0 \<or> sg b = -1" using assms by (auto simp: wf_big_def)
  have j: "n div DB e < bt b \<longleftrightarrow> n < DB e * bt b" by (simp add: less_mult_imp_div_less div_less_iff_less_mult mult.commute)
  show ?thesis
  proof (cases "n < DB e * bt b")
    case True
    then have l: "n div DB e < bt b" using j by simp
    have "n mod DB e < 31" using mod_less_divisor [of "DB e" n] DB_bounds [of e] by linarith
    then have "js_and (digs b ! (n div DB e)) (js_shl 1 (int (n mod DB e))) \<noteq> 0 \<longleftrightarrow> bit (digs b ! (n div DB e)) (n mod DB e)"
      using digits_in_nth [OF wf(1) l] DV_lt31 [of e] by (intro js_and_bit1) auto
    then show ?thesis using True l by (simp add: testBit_def bit_bval [OF assms] Let_def)
  next
    case False
    then show ?thesis using j wf(2) by (auto simp: testBit_def bit_bval [OF assms] Let_def)
  qed
qed

section \<open>Bitwise operators\<close>

text \<open>An operator on Numbers that works bit by bit, with the bits of zero giving zero.\<close>

definition bitwise_op :: "(int \<Rightarrow> int \<Rightarrow> int) \<Rightarrow> (bool \<Rightarrow> bool \<Rightarrow> bool) \<Rightarrow> bool" where
  "bitwise_op op1 g \<longleftrightarrow> \<not> g False False \<and> (\<forall>x y n. - (2 ^ 31) \<le> x \<and> x < 2 ^ 31 \<and> - (2 ^ 31) \<le> y \<and> y < 2 ^ 31 \<longrightarrow>
     bit (op1 x y) n = g (bit x n) (bit y n))"

lemma bitwise_ops:
  "bitwise_op op_and (\<and>)" "bitwise_op op_or (\<or>)" "bitwise_op op_xor (\<noteq>)" "bitwise_op op_andnot (\<lambda>x y. x \<and> \<not> y)"
  unfolding bitwise_op_def op_and_def op_or_def op_xor_def op_andnot_def js_and_def js_or_def js_xor_def js_not_def
  by (simp_all add: toInt32_id bit_and_iff bit_or_iff bit_xor_iff bit_not_iff bit_toInt32)
     (simp_all add: toInt32_id flip: bit_toInt32)

lemma bits_bound: "(\<And>n. N \<le> n \<Longrightarrow> \<not> bit (x::int) n) \<Longrightarrow> 0 \<le> x \<and> x < 2 ^ N"
proof -
  assume b: "\<And>n. N \<le> n \<Longrightarrow> \<not> bit x n"
  have "x = take_bit N x" by (rule bit_eqI) (use b in \<open>auto simp: bit_take_bit_iff not_less [symmetric]\<close>)
  then show ?thesis by (metis take_bit_int_less_exp take_bit_nonnegative)
qed

lemma digit_bits: "0 \<le> d \<Longrightarrow> d < DV e \<Longrightarrow> DB e \<le> n \<Longrightarrow> \<not> bit d n"
  using bit_nonneg_small [of d "DB e" n] by (simp add: DV_eq)

lemma op_digit:
  assumes "bitwise_op op1 g" "0 \<le> x" "x < DV e" "0 \<le> y" "y < DV e"
  shows "0 \<le> op1 x y \<and> op1 x y < DV e" "bit (op1 x y) n \<longleftrightarrow> g (bit x n) (bit y n)"
proof -
  have b: "bit (op1 x y) n \<longleftrightarrow> g (bit x n) (bit y n)" for n
    using assms DV_lt31 [of e] by (simp add: bitwise_op_def)
  then show "bit (op1 x y) n \<longleftrightarrow> g (bit x n) (bit y n)" .
  have "0 \<le> op1 x y \<and> op1 x y < 2 ^ DB e"
    by (rule bits_bound) (use assms(1) digit_bits [OF assms(2,3)] digit_bits [OF assms(4,5)] in \<open>auto simp: b bitwise_op_def\<close>)
  then show "0 \<le> op1 x y \<and> op1 x y < DV e" by (simp add: DV_eq)
qed

lemma op_sign:
  assumes "bitwise_op op1 g" "s = 0 \<or> s = -1" "t = 0 \<or> t = -1"
  shows "op1 s t = (if g (s = -1) (t = -1) then -1 else 0)"
proof (rule bit_eqI)
  fix n
  have "bit (op1 s t) n \<longleftrightarrow> g (bit s n) (bit t n)" using assms by (auto simp: bitwise_op_def)
  moreover have "bit s n \<longleftrightarrow> s = -1" "bit t n \<longleftrightarrow> t = -1" using assms(2,3) by auto
  ultimately show "bit (op1 s t) n \<longleftrightarrow> bit (if g (s = -1) (t = -1) then -1 else 0 :: int) n" by simp
qed

text \<open>Digit \<open>i\<close> of a number, those beyond the array included.\<close>

definition ext_digit :: "engine \<Rightarrow> big \<Rightarrow> nat \<Rightarrow> int" where
  "ext_digit e b i = (if i < bt b then digs b ! i else js_and (sg b) (DM e))"

lemma ext_digit_ok:
  assumes "wf_big e b"
  shows "0 \<le> ext_digit e b i \<and> ext_digit e b i < DV e"
    and "n < DB e \<Longrightarrow> bit (ext_digit e b i) n \<longleftrightarrow> bit (bval e b) (DB e * i + n)"
proof -
  have wf: "digits_in (DV e) (digs b)" "sg b = 0 \<or> sg b = -1" using assms by (auto simp: wf_big_def)
  have m: "js_and (sg b) (DM e) = (if sg b = -1 then DV e - 1 else 0)"
    using wf(2) DV_bounds(1) [of e] by (auto simp: js_and_DM minus1_mod_DV)
  show "0 \<le> ext_digit e b i \<and> ext_digit e b i < DV e"
    using digits_in_nth [OF wf(1), of i] DV_bounds(1) [of e] by (auto simp: ext_digit_def m)
  show "bit (ext_digit e b i) n \<longleftrightarrow> bit (bval e b) (DB e * i + n)" if n: "n < DB e"
  proof -
    have d: "(DB e * i + n) div DB e = i" "(DB e * i + n) mod DB e = n" using n by simp_all
    have l: "DB e * i + n < DB e * bt b \<longleftrightarrow> i < bt b"
    proof
      assume "DB e * i + n < DB e * bt b"
      then have "DB e * i < DB e * bt b" by linarith
      then show "i < bt b" by simp
    next
      assume "i < bt b"
      then have "DB e * Suc i \<le> DB e * bt b" by (intro mult_left_mono) auto
      then show "DB e * i + n < DB e * bt b" using n by simp
    qed
    have "bit (DV e - 1) n" using n by (simp add: DV_eq bit_mask_iff flip: mask_eq_exp_minus_1)
    then show ?thesis unfolding bit_bval [OF assms] d l ext_digit_def m using wf(2) by auto
  qed
qed

lemma bitwiseTo_eq:
  "bitwiseTo e this a op1 =
     clamp e \<lparr>digs = map (\<lambda>i. op1 (ext_digit e this i) (ext_digit e a i)) [0..<max (bt this) (bt a)], sg = op1 (sg this) (sg a)\<rparr>"
proof -
  have s: "[0..<max (bt this) (bt a)] = [0..<min (bt a) (bt this)] @ [min (bt a) (bt this)..<max (bt this) (bt a)]"
    by (metis bot_nat_0.extremum le_add_diff_inverse max.cobounded1 min.coboundedI2 upt_add_eq_append)
  show ?thesis unfolding bitwiseTo_def Let_def s map_append
    by (intro arg_cong [of _ _ "clamp e"]) (auto simp: ext_digit_def max_def min_def)
qed

lemma bitwiseTo_ok:
  assumes wf: "wf_big e this" "wf_big e a" and op1: "bitwise_op op1 g"
  shows "ok_big e (bitwiseTo e this a op1)"
    and "bit (bval e (bitwiseTo e this a op1)) n \<longleftrightarrow> g (bit (bval e this) n) (bit (bval e a) n)"
proof -
  define N where "N = max (bt this) (bt a)"
  define r where "r = \<lparr>digs = map (\<lambda>i. op1 (ext_digit e this i) (ext_digit e a i)) [0..<N], sg = op1 (sg this) (sg a)\<rparr>"
  have s: "sg this = 0 \<or> sg this = -1" "sg a = 0 \<or> sg a = -1" using wf by (auto simp: wf_big_def)
  note sr = op_sign [OF op1 s]
  note dr = op_digit [OF op1, of "ext_digit e this i" e "ext_digit e a i" for i]
  have wr: "wf_big e r"
    using dr(1) ext_digit_ok(1) [OF wf(1)] ext_digit_ok(1) [OF wf(2)] sr
    by (auto simp: wf_big_def r_def digits_in_def)
  have "bit (bval e r) n \<longleftrightarrow> g (bit (bval e this) n) (bit (bval e a) n)"
  proof (cases "n < DB e * N")
    case True
    define i k where "i = n div DB e" and "k = n mod DB e"
    have ik: "k < DB e" "n = DB e * i + k" "i < N"
      using True by (simp_all add: i_def k_def div_less_iff_less_mult mult.commute)
    have "bit (bval e r) n \<longleftrightarrow> bit (op1 (ext_digit e this i) (ext_digit e a i)) k"
      unfolding bit_bval [OF wr] i_def [symmetric] k_def [symmetric] using True ik(3) by (simp add: r_def)
    also have "\<dots> \<longleftrightarrow> g (bit (ext_digit e this i) k) (bit (ext_digit e a i) k)"
      using dr(2) ext_digit_ok(1) [OF wf(1)] ext_digit_ok(1) [OF wf(2)] by blast
    finally show ?thesis using ext_digit_ok(2) [OF wf(1) ik(1)] ext_digit_ok(2) [OF wf(2) ik(1)] ik(2) by simp
  next
    case False
    have "DB e * bt this \<le> DB e * N" "DB e * bt a \<le> DB e * N" by (simp_all add: N_def)
    then have "\<not> n < DB e * bt this" "\<not> n < DB e * bt a" using False by linarith+
    then show ?thesis unfolding bit_bval [OF wr] bit_bval [OF wf(1)] bit_bval [OF wf(2)]
      using False sr by (simp add: r_def)
  qed
  then show "ok_big e (bitwiseTo e this a op1)"
    and "bit (bval e (bitwiseTo e this a op1)) n \<longleftrightarrow> g (bit (bval e this) n) (bit (bval e a) n)"
    using clamp_ok [OF wr] unfolding bitwiseTo_eq N_def [symmetric] r_def [symmetric] by simp_all
qed

lemma bitwise_values:
  assumes "wf_big e x" "wf_big e y"
  shows "bval e (and_big e x y) = bval e x AND bval e y" "bval e (or_big e x y) = bval e x OR bval e y"
    "bval e (xor_big e x y) = bval e x XOR bval e y" "bval e (andNot_big e x y) = bval e x AND NOT (bval e y)"
  unfolding and_big_def or_big_def xor_big_def andNot_big_def
  by (rule bit_eqI, simp add: bitwiseTo_ok(2) [OF assms bitwise_ops(1)] bit_and_iff)
     (rule bit_eqI, simp add: bitwiseTo_ok(2) [OF assms bitwise_ops(2)] bit_or_iff,
      rule bit_eqI, simp add: bitwiseTo_ok(2) [OF assms bitwise_ops(3)] bit_xor_iff,
      rule bit_eqI, simp add: bitwiseTo_ok(2) [OF assms bitwise_ops(4)] bit_and_iff bit_not_iff)

lemma bitwise_wf:
  assumes "wf_big e x" "wf_big e y"
  shows "ok_big e (and_big e x y)" "ok_big e (or_big e x y)" "ok_big e (xor_big e x y)" "ok_big e (andNot_big e x y)"
  unfolding and_big_def or_big_def xor_big_def andNot_big_def
  using bitwiseTo_ok(1) [OF assms] bitwise_ops by blast+

text \<open>Complement: every digit and the sign are complemented, and nothing needs clamping.\<close>

lemma not_digit: "0 \<le> d \<Longrightarrow> d < DV e \<Longrightarrow> js_and (DM e) (js_not d) = DV e - 1 - d"
proof -
  assume d: "0 \<le> d" "d < DV e"
  have "js_and (DM e) (js_not d) = js_and (js_not d) (DM e)" by (simp add: js_and_def and.commute)
  also have "\<dots> = (- d - 1) mod DV e"
    using d DV_lt31 [of e] by (simp add: js_and_DM js_not_def toInt32_id not_int_def)
  also have "- d - 1 = DV e - 1 - d + DV e * -1" by simp
  also have "(DV e - 1 - d + DV e * -1) mod DV e = DV e - 1 - d" unfolding mod_mult_self2 using d by (intro mod_pos_pos_trivial) auto
  finally show ?thesis .
qed

lemma val_complement: "val b (map (\<lambda>d. b - 1 - d) ds) = b ^ length ds - 1 - val b ds"
  by (induction ds) (simp_all add: right_diff_distrib)

lemma not_big_ok:
  assumes "ok_big e b"
  shows "ok_big e (not_big e b)" "bval e (not_big e b) = NOT (bval e b)"
proof -
  have wf: "digits_in (DV e) (digs b)" "sg b = 0 \<or> sg b = -1" using assms by (auto simp: ok_big_def wf_big_def)
  have m: "map (\<lambda>d. js_and (DM e) (js_not d)) (digs b) = map (\<lambda>d. DV e - 1 - d) (digs b)"
    using wf(1) by (auto simp: digits_in_def not_digit)
  have s: "js_not (sg b) = -1 - sg b" using wf(2) by (auto simp: js_not_def toInt32_def)
  have n: "not_big e b = \<lparr>digs = map (\<lambda>d. DV e - 1 - d) (digs b), sg = -1 - sg b\<rparr>"
    by (simp add: not_big_def m s)
  show "bval e (not_big e b) = NOT (bval e b)"
    by (simp add: n bval_def val_complement not_int_def left_diff_distrib)
  have "(-1 - sg b) mod DV e = DV e - 1 - sg b mod DV e"
    using wf(2) DV_bounds(2) [of e] by (auto simp: minus1_mod_DV)
  then show "ok_big e (not_big e b)"
    using assms wf by (auto simp: n ok_big_def wf_big_def clamped_def digits_in_def last_map)
qed

section \<open>Remainder by a small number\<close>

lemma modInt_loop_ok: "0 < n \<Longrightarrow> modInt_loop (B mod n) n (rev ds) r mod n = (val B ds + B ^ length ds * r) mod n"
proof (induction ds arbitrary: r rule: rev_induct)
  case (snoc x ds)
  have "modInt_loop (B mod n) n (rev (ds @ [x])) r mod n = (val B ds + B ^ length ds * ((B mod n * r + x) mod n)) mod n"
    using snoc by simp
  also have "(B mod n * r + x) mod n = (B * r + x) mod n"
    by (intro mod_add_cong mod_mult_cong refl) simp
  also have "(val B ds + B ^ length ds * ((B * r + x) mod n)) mod n = (val B ds + B ^ length ds * (B * r + x)) mod n"
    by (intro mod_add_cong mod_mult_cong refl) simp
  finally show ?case by (simp add: val_snoc algebra_simps)
qed simp

lemma modInt_loop_range: "0 < n \<Longrightarrow> xs \<noteq> [] \<Longrightarrow> 0 \<le> modInt_loop d n xs r \<and> modInt_loop d n xs r < n"
proof (induction xs arbitrary: r)
  case (Cons x xs)
  then show ?case by (cases xs) auto
qed simp

lemma modInt_ok:
  assumes "wf_big e b" "0 < n"
  shows "modInt e b n = bval e b mod n"
proof (cases "digs b = []")
  case True
  then show ?thesis using assms by (auto simp: modInt_def bval_def wf_big_def zmod_minus1)
next
  case False
  have s: "sg b = 0 \<or> sg b = -1" using assms by (auto simp: wf_big_def)
  show ?thesis
  proof (cases "DV e mod n = 0")
    case True
    obtain d ds where ds: "digs b = d # ds" using False by (cases "digs b") auto
    have "bval e b = d + DV e * (val (DV e) ds + sg b * DV e ^ length ds)"
      by (simp add: bval_def ds algebra_simps)
    then have "bval e b mod n = d mod n" using True
      by (simp add: mod_add_right_eq [symmetric] mod_mult_left_eq [symmetric])
    then show ?thesis using True assms(2) ds by (simp add: modInt_def)
  next
    case nz: False
    define r where "r = (if sg b < 0 then n - 1 else 0)"
    have r: "r mod n = sg b mod n" using s assms(2) by (auto simp: r_def zmod_minus1)
    have "modInt_loop (DV e mod n) n (rev (digs b)) r = modInt_loop (DV e mod n) n (rev (digs b)) r mod n"
      using modInt_loop_range [OF assms(2), of "rev (digs b)"] False by simp
    also have "\<dots> = (val (DV e) (digs b) + DV e ^ bt b * r) mod n"
      by (rule modInt_loop_ok [OF assms(2)])
    also have "\<dots> = (val (DV e) (digs b) + DV e ^ bt b * sg b) mod n"
      by (intro mod_add_cong mod_mult_cong refl r)
    also have "\<dots> = bval e b mod n" by (simp add: bval_def mult.commute)
    finally show ?thesis using nz False assms(2) by (simp add: modInt_def Let_def r_def)
  qed
qed

section \<open>Lowest set bit and number of bits\<close>

text \<open>A step of \<open>lbit\<close>: when the low \<open>k\<close> bits are zero they are shifted out and counted.\<close>

lemma lbit_step:
  assumes "0 < x" "x < 2 ^ 31" "k < 31"
  shows "js_and x (2 ^ k - 1) = 0 \<longleftrightarrow> 2 ^ k dvd x" and "js_shr x (int k) = x div 2 ^ k"
  using assms js_and_mask [of k x] js_shr_div [of x "int k"] by (simp_all add: mod_eq_0_iff_dvd)

text \<open>\<open>x\<close> has \<open>r\<close> zero bits removed from the number \<open>x0\<close>, and its lowest set bit is below position \<open>m\<close>.\<close>

definition lbit_inv :: "int \<Rightarrow> nat \<Rightarrow> int \<times> int \<Rightarrow> bool" where
  "lbit_inv x0 m p \<longleftrightarrow> (case p of (x, r) \<Rightarrow> 0 < x \<and> x < 2 ^ 31 \<and> 0 \<le> r \<and> x0 = x * 2 ^ nat r \<and> \<not> 2 ^ m dvd x)"

lemma lbit_step_inv:
  assumes "lbit_inv x0 (k + k) (x, r)" "k < 31" "0 < k"
  shows "lbit_inv x0 k (if js_and x (2 ^ k - 1) = 0 then (js_shr x (int k), r + int k) else (x, r))"
proof -
  have x: "0 < x" "x < 2 ^ 31" "0 \<le> r" "x0 = x * 2 ^ nat r" "\<not> 2 ^ (k + k) dvd x" using assms(1) by (auto simp: lbit_inv_def)
  show ?thesis
  proof (cases "2 ^ k dvd x")
    case True
    then obtain y where y: "x = 2 ^ k * y" by (rule dvdE)
    have d: "x div 2 ^ k = y" by (simp add: y)
    have "0 < y" using x(1) y by (simp add: zero_less_mult_iff)
    have "y \<le> x" using \<open>0 < y\<close> by (simp add: y)
    have "\<not> 2 ^ k dvd y" using x(5) by (simp add: y power_add)
    moreover have "x0 = y * 2 ^ nat (r + int k)" using x(3,4) by (simp add: y nat_add_distrib power_add mult_ac)
    ultimately show ?thesis using True x \<open>0 < y\<close> \<open>y \<le> x\<close> lbit_step [OF x(1,2) assms(2)]
      by (simp add: lbit_inv_def d)
  next
    case False
    then show ?thesis using x lbit_step [OF x(1,2) assms(2)] by (simp add: lbit_inv_def)
  qed
qed

lemma lbit_ok:
  assumes "0 < x" "x < 2 ^ 31"
  shows "0 \<le> lbit x \<and> 2 ^ nat (lbit x) dvd x \<and> \<not> 2 ^ Suc (nat (lbit x)) dvd x"
proof -
  define st where "st k p = (if js_and (fst p) (2 ^ k - 1) = 0 then (js_shr (fst p) (int k), snd p + int k) else p)" for k :: nat and p :: "int \<times> int"
  have inv: "lbit_inv x k (st k p)" if "lbit_inv x (k + k) p" "k < 31" "0 < k" for k p
  proof (cases p)
    case (Pair a b)
    show ?thesis unfolding Pair st_def fst_conv snd_conv by (rule lbit_step_inv) (use that Pair in simp_all)
  qed
  have "\<not> (2::int) ^ 32 dvd x" using assms by (auto dest: zdvd_imp_le)
  then have "lbit_inv x (16 + 16) (x, 0)" using assms by (simp add: lbit_inv_def)
  then have "lbit_inv x (8 + 8) (st 16 (x, 0))" using inv [of 16] by simp
  then have "lbit_inv x (4 + 4) (st 8 (st 16 (x, 0)))" using inv [of 8] by simp
  then have "lbit_inv x (2 + 2) (st 4 (st 8 (st 16 (x, 0))))" using inv [of 4] by simp
  then have "lbit_inv x 2 (st 2 (st 4 (st 8 (st 16 (x, 0)))))" using inv [of 2] by simp
  then have i: "lbit_inv x (1 + 1) (st 2 (st 4 (st 8 (st 16 (x, 0)))))" by (simp add: numeral_2_eq_2)
  obtain y r where yr: "st 2 (st 4 (st 8 (st 16 (x, 0)))) = (y, r)" by (rule prod.exhaust)
  obtain z q where zq: "st 1 (y, r) = (z, q)" by (rule prod.exhaust)
  have "lbit x = snd (st 1 (st 2 (st 4 (st 8 (st 16 (x, 0))))))"
    using assms(1) by (simp add: lbit_def st_def Let_def split_def)
  then have l: "lbit x = q" unfolding yr zq by simp
  have "lbit_inv x 1 (z, q)" using inv [OF i] unfolding yr zq by simp
  then have z: "0 \<le> q" "x = z * 2 ^ nat q" "\<not> 2 dvd z" by (simp_all add: lbit_inv_def)
  have "2 ^ Suc (nat q) dvd x \<longleftrightarrow> 2 dvd z" unfolding z(2) by simp
  then show ?thesis using z unfolding l by simp
qed

lemma lowest_loop_ok:
  "lowest_loop e ds i = (if \<forall>d\<in>set ds. d = 0 then None
     else let j = length (takeWhile (\<lambda>d. d = 0) ds) in Some (int (i + j) * int (DB e) + lbit (ds ! j)))"
  by (induction ds arbitrary: i) (auto simp: Let_def)

text \<open>Position \<open>n\<close> of the lowest set bit: \<open>2^n\<close> divides the number and \<open>2^(n+1)\<close> does not.\<close>

definition exact_power2 :: "nat \<Rightarrow> int \<Rightarrow> bool" where
  "exact_power2 n x \<longleftrightarrow> 2 ^ n dvd x \<and> \<not> 2 ^ Suc n dvd x"

lemma exact_power2_shift: "exact_power2 n (2 ^ m * x) \<longleftrightarrow> m \<le> n \<and> exact_power2 (n - m) x"
proof (cases "m \<le> n")
  case True
  then obtain k where k: "n = m + k" by (auto simp: le_iff_add)
  have "2 ^ (m + k) dvd 2 ^ m * x \<longleftrightarrow> 2 ^ k dvd x" for k by (simp add: power_add)
  from this [of k] this [of "Suc k"] show ?thesis by (simp add: exact_power2_def k)
next
  case False
  then have "Suc n \<le> m" by simp
  then have "(2::int) ^ Suc n dvd 2 ^ m" by (rule le_imp_power_dvd)
  then show ?thesis using False by (auto simp: exact_power2_def intro: dvd_mult2)
qed

lemma exact_power2_add: "n < m \<Longrightarrow> exact_power2 n (x + 2 ^ m * y) \<longleftrightarrow> exact_power2 n x"
proof -
  assume n: "n < m"
  then have "(2::int) ^ n dvd 2 ^ m * y" "(2::int) ^ Suc n dvd 2 ^ m * y"
    by (auto intro!: dvd_mult2 le_imp_power_dvd simp del: power_Suc)
  then show ?thesis by (simp add: exact_power2_def dvd_add_left_iff del: power_Suc)
qed

lemma getLowestSetBit_ok:
  assumes "ok_big e b" "bval e b \<noteq> 0"
  shows "0 \<le> getLowestSetBit e b" "exact_power2 (nat (getLowestSetBit e b)) (bval e b)"
proof -
  have wf: "digits_in (DV e) (digs b)" "sg b = 0 \<or> sg b = -1" using assms by (auto simp: ok_big_def wf_big_def)
  have "0 \<le> getLowestSetBit e b \<and> exact_power2 (nat (getLowestSetBit e b)) (bval e b)"
  proof (cases "\<forall>d\<in>set (digs b). d = 0")
    case True
    have v0: "val (DV e) (digs b) = 0" using radixDV.val_0_iff [OF wf(1)] True by auto
    then have s: "sg b = -1" using wf(2) assms(2) by (auto simp: bval_def)
    have "getLowestSetBit e b = int (DB e * bt b)"
      using True s by (simp add: getLowestSetBit_def lowest_loop_ok mult.commute)
    moreover have "bval e b = 2 ^ (DB e * bt b) * -1" using v0 s by (simp add: bval_def DV_pow)
    moreover have "exact_power2 (DB e * bt b) (2 ^ (DB e * bt b) * -1)"
      unfolding exact_power2_shift by (simp add: exact_power2_def)
    ultimately show ?thesis by (simp only: nat_int of_nat_0_le_iff simp_thms)
  next
    case False
    define j where "j = length (takeWhile (\<lambda>d. d = 0) (digs b))"
    have j: "j < bt b"
    proof (rule ccontr)
      assume "\<not> j < bt b"
      then have "takeWhile (\<lambda>d. d = 0) (digs b) = digs b"
        using takeWhile_eq_take [of "\<lambda>d. d = 0" "digs b"] by (simp add: j_def)
      then have "\<forall>d\<in>set (digs b). d = 0" by (metis set_takeWhileD)
      then show False using False by blast
    qed
    define d where "d = digs b ! j"
    have "d \<noteq> 0" using nth_length_takeWhile [of "\<lambda>d. d = 0" "digs b"] j by (simp add: j_def d_def)
    moreover have "0 \<le> d" "d < DV e" using digits_in_nth [OF wf(1) j] by (simp_all add: d_def)
    ultimately have d: "0 < d" "d < DV e" by simp_all
    then have l: "0 \<le> lbit d" "2 ^ nat (lbit d) dvd d" "\<not> 2 ^ Suc (nat (lbit d)) dvd d"
      using lbit_ok [of d] DV_lt31 [of e] by simp_all
    have lt: "nat (lbit d) < DB e"
    proof (rule ccontr)
      assume "\<not> nat (lbit d) < DB e"
      then have "(2::int) ^ DB e dvd d" using l(2) by (meson le_imp_power_dvd dvd_trans not_less)
      then show False using d by (auto dest: zdvd_imp_le simp: DV_eq)
    qed
    have n: "getLowestSetBit e b = int (DB e * j + nat (lbit d))"
      using False l(1) by (auto simp: getLowestSetBit_def lowest_loop_ok j_def [symmetric] d_def [symmetric] mult.commute)
    have "takeWhile (\<lambda>d. d = 0) (digs b) = replicate j 0"
      unfolding j_def by (rule sym, rule replicate_length_same) (blast dest: set_takeWhileD)
    then have "take j (digs b) = replicate j 0" unfolding j_def by (metis takeWhile_eq_take)
    then have lo: "val (DV e) (take j (digs b)) = 0" by (simp add: val_replicate0)
    have "val (DV e) (digs b) = DV e ^ j * val (DV e) (drop j (digs b))"
      using val_take_drop [of "DV e" "digs b" j] j lo by simp
    also have "val (DV e) (drop j (digs b)) = d + DV e * val (DV e) (drop (Suc j) (digs b))"
      unfolding d_def by (rule radixDV.drop_digit [OF j])
    finally have v: "val (DV e) (digs b) = DV e ^ j * (d + DV e * val (DV e) (drop (Suc j) (digs b)))" .
    obtain k where k: "bt b = j + Suc k" using j by (auto simp: less_iff_Suc_add)
    have "bval e b = DV e ^ j * (d + DV e * (val (DV e) (drop (Suc j) (digs b)) + sg b * DV e ^ k))"
      unfolding bval_def v k by (simp add: power_add algebra_simps)
    also have "\<dots> = 2 ^ (DB e * j) * (d + 2 ^ DB e * (val (DV e) (drop (Suc j) (digs b)) + sg b * DV e ^ k))"
      unfolding DV_pow unfolding DV_eq ..
    finally have b: "bval e b = 2 ^ (DB e * j) * (d + 2 ^ DB e * (val (DV e) (drop (Suc j) (digs b)) + sg b * DV e ^ k))" .
    have "exact_power2 (DB e * j + nat (lbit d)) (bval e b)"
      unfolding b exact_power2_shift using l lt by (simp add: exact_power2_add) (simp add: exact_power2_def)
    then show ?thesis unfolding n by (simp only: nat_int of_nat_0_le_iff simp_thms)
  qed
  then show "0 \<le> getLowestSetBit e b" "exact_power2 (nat (getLowestSetBit e b)) (bval e b)" by simp_all
qed

lemma getLowestSetBit_zero: "ok_big e b \<Longrightarrow> bval e b = 0 \<Longrightarrow> getLowestSetBit e b = -1"
  using digs_0_iff [of e b] by (simp add: getLowestSetBit_def)

section \<open>Properties\<close>

text \<open>
  C21: The bitwise operators on numbers, negative ones included, are the operators on the infinite two's
  complement of their values, although they combine digits and one sign; every result is normalised.
\<close>

theorem bitwise_refine:
  assumes "ok_big e x" "ok_big e y"
  shows "bval e (and_big e x y) = bval e x AND bval e y \<and> bval e (or_big e x y) = bval e x OR bval e y \<and>
    bval e (xor_big e x y) = bval e x XOR bval e y \<and> bval e (andNot_big e x y) = bval e x AND NOT (bval e y) \<and>
    bval e (not_big e x) = NOT (bval e x) \<and> (\<forall>n. testBit e x n \<longleftrightarrow> bit (bval e x) n) \<and>
    ok_big e (and_big e x y) \<and> ok_big e (or_big e x y) \<and> ok_big e (xor_big e x y) \<and> ok_big e (andNot_big e x y) \<and>
    ok_big e (not_big e x)"
proof -
  have wf: "wf_big e x" "wf_big e y" using assms by (auto simp: ok_big_def)
  show ?thesis using bitwise_values [OF wf] bitwise_wf [OF wf] not_big_ok [OF assms(1)] testBit_ok [OF wf(1)] by simp
qed

theorem bitwise_refine_witness:
  "bval Netscape (and_big Netscape (fromInt Netscape (-4)) (fromInt Netscape 7)) = 4"
  using bitwise_refine [of Netscape "fromInt Netscape (-4)" "fromInt Netscape 7"]
    fromInt_ok [of Netscape "-4"] fromInt_ok [of Netscape 7] by (simp add: DV_eq)

text \<open>
  The lowest set bit: the power of two with that exponent divides the number and the next does not;
  zero has none. The remainder by a small number is that of the value, never negative.
\<close>

theorem lowest_bit_refine:
  assumes "ok_big e b"
  shows "(bval e b = 0 \<longrightarrow> getLowestSetBit e b = -1) \<and>
    (bval e b \<noteq> 0 \<longrightarrow> 0 \<le> getLowestSetBit e b \<and> 2 ^ nat (getLowestSetBit e b) dvd bval e b \<and>
       \<not> 2 ^ Suc (nat (getLowestSetBit e b)) dvd bval e b) \<and>
    (\<forall>n>0. modInt e b n = bval e b mod n)"
  using getLowestSetBit_ok [OF assms] getLowestSetBit_zero [OF assms] modInt_ok [of e b] assms
  by (auto simp: exact_power2_def ok_big_def simp del: power_Suc)

theorem lowest_bit_refine_witness:
  "modInt Netscape (fromInt Netscape (-7)) 5 = 3 \<and> getLowestSetBit Netscape (fromInt Netscape 0) = -1"
  using lowest_bit_refine [of Netscape "fromInt Netscape (-7)"] lowest_bit_refine [of Netscape "fromInt Netscape 0"]
    fromInt_ok [of Netscape "-7"] fromInt_ok [of Netscape 0] by (simp add: DV_eq)

end
