(* ===== verification/BigDiv.thy ===== *)
theory BigDiv
  imports BigBits "HOL-Library.Log_Nat"
begin

text \<open>
  \<open>src/biginteger.js\<close>: \<open>divRemTo\<close> and the operations on it. A quotient digit is estimated in floating
  point from the two leading digits, tried out with the multiplication kernel on the negated divisor, and
  corrected. Numbers that are not integers occur only here: \<open>rnd\<close> is the rounding of IEEE 754 to 53 bits
  (to nearest, ties to even) on rationals, for the magnitudes of this routine.
\<close>

section \<open>Rounding\<close>

definition pow2 :: "int \<Rightarrow> rat" where
  "pow2 k = (if 0 \<le> k then 2 ^ nat k else 1 / 2 ^ nat (- k))"

definition half_even :: "rat \<Rightarrow> int" where
  "half_even x =
     (let f = \<lfloor>x\<rfloor>; d = x - of_int f
      in if d < 1/2 then f else if d > 1/2 then f + 1 else if even f then f else f + 1)"

text \<open>The exponent of the leading bit.\<close>

definition binade :: "rat \<Rightarrow> int" where
  "binade x =
     (let (p, q) = quotient_of x; k = bitlen p - bitlen q
      in if pow2 k \<le> x then k else k - 1)"

definition rnd :: "rat \<Rightarrow> rat" where
  "rnd x = (if x \<le> 0 then x else let u = pow2 (binade x - 52) in of_int (half_even (x / u)) * u)"

section \<open>The working array\<close>

text \<open>
  The array of the remainder keeps the entries above its length \<open>t\<close>: the quotient digits are written
  there and read again, whatever \<open>clamp\<close> makes of \<open>t\<close>.
\<close>

record work =
  arr :: "int list"
  top :: nat
  wsg :: int

definition view :: "work \<Rightarrow> big" where
  "view w = \<lparr>digs = map (js_num (arr w)) [0..<top w], sg = wsg w\<rparr>"

definition of_big :: "big \<Rightarrow> work" where
  "of_big b = \<lparr>arr = digs b, top = bt b, wsg = sg b\<rparr>"

text \<open>\<open>r.subTo(t, r)\<close>: the digits that \<open>clamp\<close> takes off the length stay in the array.\<close>

definition sub_in_place :: "engine \<Rightarrow> work \<Rightarrow> big \<Rightarrow> work" where
  "sub_in_place e r t =
     (let b = subTo e (view r) t; n = max (max (top r) (bt t)) (bt b)
      in \<lparr>arr = digs b @ replicate (n - bt b) (js_and (sg b) (DM e)) @ drop n (arr r), top = bt b, wsg = sg b\<rparr>)"

section \<open>Division\<close>

partial_function (option) fix_loop :: "engine \<Rightarrow> big \<Rightarrow> nat \<Rightarrow> int \<Rightarrow> work \<Rightarrow> work option" where
  "fix_loop e t i qd r =
     (let qd' = qd - 1
      in if js_num (arr r) i < qd' then fix_loop e t i qd' (sub_in_place e r t) else Some r)"

declare fix_loop.simps [code]

definition quot_digit :: "engine \<Rightarrow> rat \<Rightarrow> rat \<Rightarrow> int \<Rightarrow> int \<Rightarrow> int \<Rightarrow> int" where
  "quot_digit e d1 d2 y0 ri ri1 =
     (if ri = y0 then DM e
      else \<lfloor>rnd (rnd (of_int ri * d1) + rnd (rnd (of_int (ri1 + js_shl 1 (int (F2 e)))) * d2))\<rfloor>)"

text \<open>One round: \<open>y\<close> is the negated divisor, \<open>ys\<close> its length, and \<open>i = j + ys\<close>.\<close>

definition div_step :: "engine \<Rightarrow> rat \<Rightarrow> rat \<Rightarrow> int \<Rightarrow> int list \<Rightarrow> nat \<Rightarrow> work \<Rightarrow> work option" where
  "div_step e d1 d2 y0 y j r =
     (let ys = length y; i = j + ys;
          qd = quot_digit e d1 d2 y0 (js_num (arr r) i) (if i = 0 then 0 else js_num (arr r) (i - 1));
          ri = js_num (arr r) i;
          (a, c) = am e 0 qd y (arr r) j 0 ys;
          r1 = r\<lparr>arr := js_set a i (ri + c)\<rparr>
      in if ri + c < qd
         then let t = dlShiftTo j \<lparr>digs = y, sg = 0\<rparr> in fix_loop e t i qd (sub_in_place e r1 t)
         else Some r1)"

fun div_loop :: "engine \<Rightarrow> rat \<Rightarrow> rat \<Rightarrow> int \<Rightarrow> int list \<Rightarrow> nat \<Rightarrow> work \<Rightarrow> work option" where
  "div_loop e d1 d2 y0 y 0 r = Some r"
| "div_loop e d1 d2 y0 y (Suc j) r =
     Option.bind (div_step e d1 d2 y0 y j r) (\<lambda>r'. div_loop e d1 d2 y0 y j r')"

text \<open>What a call leaves in \<open>q\<close> and \<open>r\<close>: nothing (\<open>Unset\<close>), or a quotient and a remainder.\<close>

datatype div_out = Unset | QR big big

definition divRemTo :: "engine \<Rightarrow> big \<Rightarrow> big \<Rightarrow> div_out option" where
  "divRemTo e this m =
     (let pm = abs_big e m; pt = abs_big e this
      in if bt pm = 0 then Some Unset
         else if bt pt < bt pm then Some (QR (fromInt e 0) (copyTo this))
         else
           let nsh = int (DB e) - nbits (last (digs pm));
               (y, r) = (if nsh > 0 then (lShiftTo e (nat nsh) pm, lShiftTo e (nat nsh) pt) else (copyTo pm, copyTo pt));
               ys = bt y; y0 = js_num (digs y) (ys - 1)
           in if y0 = 0 then Some Unset
              else
                let yt = y0 * js_shl 1 (int (F1 e)) + (if ys > 1 then js_shr (js_num (digs y) (ys - 2)) (int (F2 e)) else 0);
                    d1 = rnd (of_int (FV e) / of_int yt);
                    d2 = rnd (of_int (js_shl 1 (int (F1 e))) / of_int yt);
                    j = bt r - ys;
                    t = dlShiftTo j y;
                    w = of_big r;
                    w1 = (if compareTo r t \<ge> 0
                          then sub_in_place e \<lparr>arr = js_set (arr w) (top w) 1, top = Suc (top w), wsg = wsg w\<rparr> t
                          else w);
                    y' = subTo e (dlShiftTo ys (ONE e)) y;
                    yd = digs y' @ replicate (ys - bt y') 0
                in map_option (\<lambda>w2.
                     let q = drShiftTo ys (view w2);
                         q' = (if sg this \<noteq> sg m then subTo e (ZERO e) q else q);
                         rr = clamp e (view (w2\<lparr>top := ys\<rparr>));
                         rr' = (if nsh > 0 then rShiftTo e (nat nsh) rr else rr);
                         rr'' = (if sg this < 0 then subTo e (ZERO e) rr' else rr')
                     in QR q' rr'')
                   (div_loop e d1 d2 y0 yd j w1))"

text \<open>A result that is not set is the fresh number \<open>nbi()\<close>, which has no length: \<open>None\<close>.\<close>

definition divide :: "engine \<Rightarrow> big \<Rightarrow> big \<Rightarrow> big option" where
  "divide e this a = (case divRemTo e this a of Some (QR q r) \<Rightarrow> Some q | _ \<Rightarrow> None)"

definition remainder :: "engine \<Rightarrow> big \<Rightarrow> big \<Rightarrow> big option" where
  "remainder e this a = (case divRemTo e this a of Some (QR q r) \<Rightarrow> Some r | _ \<Rightarrow> None)"

definition divideAndRemainder :: "engine \<Rightarrow> big \<Rightarrow> big \<Rightarrow> (big \<times> big) option" where
  "divideAndRemainder e this a = (case divRemTo e this a of Some (QR q r) \<Rightarrow> Some (q, r) | _ \<Rightarrow> None)"

definition mod_big :: "engine \<Rightarrow> big \<Rightarrow> big \<Rightarrow> big option" where
  "mod_big e this a =
     (case divRemTo e (abs_big e this) a of
        Some (QR q r) \<Rightarrow> Some (if sg this < 0 \<and> compareTo r (ZERO e) > 0 then subTo e a r else r)
      | _ \<Rightarrow> None)"

end
