(* ===== verification/Base58.thy ===== *)
theory Base58
  imports BigConv CryptoUtil
begin

text \<open>
  \<open>src/bitcoinjs-lib.base58.js\<close>. From here on a \<open>BigInteger\<close> is its value, an \<open>int\<close>: the theories
  \<open>BigCore\<close> to \<open>BigMod\<close> prove that the digit arrays compute on values. \<open>bytes_of\<close> and \<open>of_bytes\<close> are
  \<open>toByteArrayUnsigned\<close> and \<open>fromByteArrayUnsigned\<close> on values.
\<close>

section \<open>Bytes of a number\<close>

definition bytes_of :: "int \<Rightarrow> int list" where
  "bytes_of v = rev (to_digits 256 \<bar>v\<bar>)"

definition of_bytes :: "int list \<Rightarrow> int list + int" where
  "of_bytes ba = (if ba = [] then Inl ba else Inr (be_val ba))"

lemma bytes_of_refine: "ok_big e b \<Longrightarrow> toByteArrayUnsigned e b = bytes_of (bval e b)"
  by (simp add: bytes_of_def toByteArrayUnsigned_ok)

lemma be_val_bytes: "is_bytes ba \<Longrightarrow> be_val ba = val 256 (rev ba)"
  by (simp add: be_val_def is_bytes_def digits_in_def map_idI)

lemma be_val_nonneg: "0 \<le> be_val ba"
  unfolding be_val_def by (rule radix256.val_nonneg) (simp add: digits_in_def)

lemma of_bytes_refine:
  "is_bytes ba \<Longrightarrow> ba \<noteq> [] \<Longrightarrow> \<exists>b. fromByteArrayUnsigned e ba = Inr b \<and> ok_big e b \<and> of_bytes ba = Inr (bval e b)"
  using fromByteArrayUnsigned_ok [of ba e] be_val_bytes [of ba] by (force simp: of_bytes_def is_bytes_def)

lemma bytes_of_0 [simp]: "bytes_of 0 = []"
  by (simp add: bytes_of_def)

lemma bytes_of_be_val: "is_bytes ba \<Longrightarrow> bytes_of (be_val ba) = dropWhile (\<lambda>x. x = 0) ba"
  using strip_bytes [of ba] be_val_nonneg [of ba] by (simp add: bytes_of_def be_val_bytes is_bytes_def)

lemma bytes_of_ok:
  assumes "0 \<le> v"
  shows "is_bytes (bytes_of v)" "be_val (bytes_of v) = v" "bytes_of v \<noteq> [] \<longrightarrow> hd (bytes_of v) \<noteq> 0"
proof -
  have d: "val 256 (to_digits 256 v) = v" "digits_in 256 (to_digits 256 v)" "no_lead0 (to_digits 256 v)"
    using to_digits_ok [of 256 v] assms by auto
  show b: "is_bytes (bytes_of v)" using d assms by (simp add: bytes_of_def is_bytes_def digits_in_def)
  show "be_val (bytes_of v) = v" using d assms by (simp add: be_val_bytes [OF b]) (simp add: bytes_of_def)
  show "bytes_of v \<noteq> [] \<longrightarrow> hd (bytes_of v) \<noteq> 0" using d assms by (auto simp: bytes_of_def no_lead0_def hd_rev)
qed

section \<open>Model\<close>

definition alphabet :: string where
  "alphabet = ''123456789ABCDEFGHJKLMNPQRSTUVWXYZabcdefghijkmnopqrstuvwxyz''"

definition validRegex :: "string \<Rightarrow> bool" where
  "validRegex s \<longleftrightarrow> s \<noteq> [] \<and> list_all (\<lambda>c. c \<in> set alphabet) s"

definition base :: int where "base = 58"

function enc_loop :: "int \<Rightarrow> string \<Rightarrow> int \<times> string" where
  "enc_loop bi chars =
     (if bi \<ge> base
      then let m = bi mod base in enc_loop ((bi - m) div base) (alphabet ! nat m # chars)
      else (bi, chars))"
  by pat_completeness auto
termination
proof (relation "measure (\<lambda>(bi, chars). nat bi)")
  fix bi m :: int and chars :: string
  assume a: "base \<le> bi" "m = bi mod base"
  have "(bi - m) div base = bi div base" by (simp add: a(2) base_def minus_mod_eq_mult_div)
  moreover have "bi div base < bi" using a(1) by (intro div_less_of_less_mult) (auto simp: base_def)
  ultimately show "(((bi - m) div base, alphabet ! nat m # chars), bi, chars) \<in> measure (\<lambda>(bi, chars). nat bi)"
    using a(1) by (simp add: base_def)
qed simp

declare enc_loop.simps [simp del]

text \<open>Each leading zero byte gives the first character of the alphabet.\<close>

fun lead_loop :: "int list \<Rightarrow> string \<Rightarrow> string" where
  "lead_loop [] chars = chars"
| "lead_loop (x # xs) chars = (if x = 0 then lead_loop xs (alphabet ! 0 # chars) else chars)"

text \<open>The empty array is not converted to a number and has no \<open>compareTo\<close>: a \<open>TypeError\<close>.\<close>

definition encode :: "int list \<Rightarrow> string result" where
  "encode input =
     (case of_bytes input of
        Inl _ \<Rightarrow> Inl ''TypeError''
      | Inr bi \<Rightarrow> let (bi', chars) = enc_loop bi [] in Inr (lead_loop input (alphabet ! nat bi' # chars)))"

text \<open>The loop of \<open>decode\<close> from the last character; \<open>j\<close> is \<open>input.length - 1 - i\<close>.\<close>

fun dec_loop :: "string \<Rightarrow> nat \<Rightarrow> int \<Rightarrow> nat \<Rightarrow> (int \<times> nat) result" where
  "dec_loop [] j bi zeros = Inr (bi, zeros)"
| "dec_loop (c # cs) j bi zeros =
     (let alphaIndex = index_of c alphabet
      in if alphaIndex < 0 then Inl ''Invalid character''
         else dec_loop cs (Suc j) (bi + alphaIndex * base ^ j) (if c = CHR ''1'' then Suc zeros else 0))"

definition decode :: "string \<Rightarrow> int list result" where
  "decode input =
     (case dec_loop (rev input) 0 0 0 of
        Inl e \<Rightarrow> Inl e
      | Inr (bi, zeros) \<Rightarrow> Inr (replicate zeros 0 @ bytes_of bi))"

section \<open>The alphabet\<close>

lemma alphabet_props: "length alphabet = 58" "distinct alphabet" "alphabet ! 0 = CHR ''1''"
  by (simp_all add: alphabet_def)

lemma index_of_nth: "distinct s \<Longrightarrow> i < length s \<Longrightarrow> index_of (s ! i) s = int i"
proof -
  assume s: "distinct s" "i < length s"
  have "takeWhile (\<lambda>d. d \<noteq> s ! i) s = take i s"
    using s by (intro takeWhile_eq_take_P_nth) (auto simp: nth_eq_iff_index_eq)
  then show ?thesis using s by (simp add: index_of_def)
qed

lemma index_of_bound: "index_of c s < int (length s)" "-1 \<le> index_of c s"
  by (auto simp: index_of_def Let_def)

lemma index_of_neg: "index_of c s < 0 \<longleftrightarrow> c \<notin> set s"
proof
  assume n: "index_of c s < 0"
  show "c \<notin> set s"
  proof
    assume "c \<in> set s"
    then obtain ys zs where s: "s = ys @ c # zs" "c \<notin> set ys" by (meson split_list_first)
    then have "takeWhile (\<lambda>d. d \<noteq> c) ys = ys" by (auto simp: takeWhile_eq_all_conv)
    then show False using n s by (simp add: index_of_def takeWhile_append)
  qed
next
  assume "c \<notin> set s"
  then have t: "takeWhile (\<lambda>d. d \<noteq> c) s = s" by (auto simp: takeWhile_eq_all_conv)
  show "index_of c s < 0" unfolding index_of_def t by simp
qed

lemma nth_index_of: "0 \<le> index_of c s \<Longrightarrow> s ! nat (index_of c s) = c"
  by (auto simp: index_of_def Let_def split: if_splits dest: nth_length_takeWhile)

interpretation radix58: radix "58 :: int" by unfold_locales simp

section \<open>What the loops compute\<close>

definition b58 :: "int \<Rightarrow> char" where
  "b58 d = alphabet ! nat d"

lemma enc_loop_ok:
  assumes "0 \<le> bi"
  shows "case enc_loop bi chars of (r, cs) \<Rightarrow>
    b58 r # cs = (if bi = 0 then [b58 0] else map b58 (rev (to_digits 58 bi))) @ chars \<and> 0 \<le> r \<and> r < 58 \<and> (0 < bi \<longrightarrow> 0 < r)"
  using assms
proof (induction bi chars rule: enc_loop.induct)
  case (1 bi chars)
  have e: "(bi - bi mod base) div base = bi div 58" by (simp add: base_def minus_mod_eq_mult_div)
  show ?case
  proof (cases "base \<le> bi")
    case True
    have p: "0 < bi div 58" using True by (simp add: base_def pos_imp_zdiv_pos_iff)
    have IH: "case enc_loop (bi div 58) (b58 (bi mod base) # chars) of (r, cs) \<Rightarrow>
        b58 r # cs = map b58 (rev (to_digits 58 (bi div 58))) @ b58 (bi mod base) # chars \<and> 0 \<le> r \<and> r < 58 \<and> 0 < r"
      using "1.IH" [OF True refl] p unfolding e by (simp add: b58_def split: prod.splits)
    have d: "to_digits 58 bi = bi mod base # to_digits 58 (bi div 58)"
      using True by (simp add: to_digits_pos base_def)
    show ?thesis using IH True
      by (subst enc_loop.simps) (auto simp: Let_def e d b58_def split: prod.splits)
  next
    case False
    then show ?thesis using "1.prems"
      by (subst enc_loop.simps) (auto simp: base_def to_digits_pos b58_def)
  qed
qed

lemma lead_loop_ok: "lead_loop input chars = replicate (length (takeWhile (\<lambda>x. x = 0) input)) CHR ''1'' @ chars"
  by (induction input arbitrary: chars) (auto simp: alphabet_props replicate_append_same [symmetric])

definition b58_text :: "int \<Rightarrow> string" where
  "b58_text v = (if v = 0 then ''1'' else map b58 (rev (to_digits 58 v)))"

lemma encode_eq:
  assumes "input \<noteq> []"
  shows "encode input = Inr (replicate (length (takeWhile (\<lambda>x. x = 0) input)) CHR ''1'' @ b58_text (be_val input))"
  using assms enc_loop_ok [OF be_val_nonneg [of input], of "[]"]
  by (auto simp: encode_def of_bytes_def lead_loop_ok b58_text_def b58_def alphabet_props split: prod.splits)

text \<open>Number and leading ones of a text.\<close>

definition b58_val :: "string \<Rightarrow> int" where
  "b58_val s = val 58 (map (\<lambda>c. index_of c alphabet) (rev s))"

lemma dec_loop_ok:
  assumes "set cs \<subseteq> set alphabet"
  shows "dec_loop cs j bi zeros = Inr (bi + 58 ^ j * val 58 (map (\<lambda>c. index_of c alphabet) cs),
    (if set cs \<subseteq> {CHR ''1''} then zeros else 0) + length (takeWhile (\<lambda>c. c = CHR ''1'') (rev cs)))"
  using assms
proof (induction cs arbitrary: j bi zeros)
  case (Cons c cs)
  have nn: "\<not> index_of c alphabet < 0" using Cons.prems index_of_neg by auto
  have t: "takeWhile (\<lambda>c. c = CHR ''1'') (rev cs @ [c]) =
      (if set cs \<subseteq> {CHR ''1''} then rev cs @ (if c = CHR ''1'' then [c] else []) else takeWhile (\<lambda>c. c = CHR ''1'') (rev cs))"
    by (auto simp: takeWhile_append)
  have l: "set cs \<subseteq> {CHR ''1''} \<Longrightarrow> takeWhile (\<lambda>c. c = CHR ''1'') (rev cs) = rev cs"
    by (auto simp: takeWhile_eq_all_conv)
  show ?case using Cons nn by (auto simp: Let_def t l base_def algebra_simps)
qed simp

lemma dec_loop_error:
  assumes "\<not> set cs \<subseteq> set alphabet"
  shows "dec_loop cs j bi zeros = Inl ''Invalid character''"
  using assms by (induction cs arbitrary: j bi zeros) (auto simp: Let_def index_of_neg)

lemma decode_eq:
  "decode s = (if set s \<subseteq> set alphabet
     then Inr (replicate (length (takeWhile (\<lambda>c. c = CHR ''1'') s)) 0 @ bytes_of (b58_val s))
     else Inl ''Invalid character'')"
  using dec_loop_ok [of "rev s" 0 0 0] dec_loop_error [of "rev s" 0 0 0]
  by (simp add: decode_def b58_val_def)

lemma b58_ok: "0 \<le> d \<Longrightarrow> d < 58 \<Longrightarrow> index_of (b58 d) alphabet = d \<and> b58 d \<in> set alphabet \<and> (b58 d = CHR ''1'' \<longleftrightarrow> d = 0)"
proof -
  assume d: "0 \<le> d" "d < 58"
  then have n: "nat d < length alphabet" by (simp add: alphabet_props)
  have "alphabet ! nat d = alphabet ! 0 \<longleftrightarrow> nat d = 0"
    using n alphabet_props(1,2) by (intro nth_eq_iff_index_eq) auto
  then show ?thesis using d n index_of_nth [OF alphabet_props(2) n] by (simp add: b58_def alphabet_props)
qed

lemma b58_text_ok:
  assumes "0 < v"
  shows "set (b58_text v) \<subseteq> set alphabet" "b58_val (b58_text v) = v"
    "takeWhile (\<lambda>c. c = CHR ''1'') (b58_text v) = []"
proof -
  have d: "val 58 (to_digits 58 v) = v" "digits_in 58 (to_digits 58 v)" "no_lead0 (to_digits 58 v)"
    using to_digits_ok [of 58 v] assms by auto
  have ne: "to_digits 58 v \<noteq> []" using assms by (simp add: to_digits_pos)
  have r: "\<And>x. x \<in> set (to_digits 58 v) \<Longrightarrow> 0 \<le> x \<and> x < 58" using d by (simp add: digits_in_def)
  show "set (b58_text v) \<subseteq> set alphabet" using assms r b58_ok by (auto simp: b58_text_def)
  have "map (\<lambda>c. index_of c alphabet) (map b58 (to_digits 58 v)) = to_digits 58 v"
    using r b58_ok by (auto intro!: map_idI simp: map_idI)
  then show "b58_val (b58_text v) = v" using assms d by (simp add: b58_val_def b58_text_def rev_map)
  have "hd (rev (to_digits 58 v)) \<noteq> 0" "hd (rev (to_digits 58 v)) \<in> set (to_digits 58 v)"
    using d ne by (auto simp: no_lead0_def hd_rev)
  then have "hd (map b58 (rev (to_digits 58 v))) \<noteq> CHR ''1''" using b58_ok r ne by (simp add: hd_map)
  then show "takeWhile (\<lambda>c. c = CHR ''1'') (b58_text v) = []"
    using assms ne by (cases "map b58 (rev (to_digits 58 v))") (auto simp: b58_text_def)
qed

section \<open>Round trips\<close>

definition encodable :: "int list \<Rightarrow> bool" where
  "encodable bs \<longleftrightarrow> is_bytes bs \<and> (\<exists>x\<in>set bs. x \<noteq> 0)"

definition encode_text :: "int list \<Rightarrow> string" where
  "encode_text bs = (case encode bs of Inl _ \<Rightarrow> [] | Inr s \<Rightarrow> s)"

definition decode_opt :: "string \<Rightarrow> int list option" where
  "decode_opt s = (case decode s of Inl _ \<Rightarrow> None | Inr bs \<Rightarrow> Some bs)"

lemma be_val_0_iff: "is_bytes bs \<Longrightarrow> be_val bs = 0 \<longleftrightarrow> set bs \<subseteq> {0}"
  using radix256.val_0_iff [of "rev bs"] by (simp add: be_val_bytes is_bytes_def digits_in_def)

lemma takeWhile_ones: "takeWhile (\<lambda>c. c = x) (replicate n x @ s) = replicate n x @ takeWhile (\<lambda>c. c = x) s"
  by (induction n) auto

lemma zeros_then_rest: "replicate (length (takeWhile (\<lambda>x. x = 0) bs)) 0 @ dropWhile (\<lambda>x. x = (0::int)) bs = bs"
proof -
  have "takeWhile (\<lambda>x. x = 0) bs = replicate (length (takeWhile (\<lambda>x. x = 0) bs)) 0"
    by (rule sym, rule replicate_length_same) (blast dest: set_takeWhileD)
  then show ?thesis by (metis takeWhile_dropWhile_id)
qed

lemma b58_val_ones: "b58_val (replicate n CHR ''1'' @ s) = b58_val s"
proof -
  have "index_of CHR ''1'' alphabet = 0" by (simp add: index_of_def alphabet_def)
  then show ?thesis by (simp add: b58_val_def val_simps)
qed

lemma decode_encode:
  assumes "encodable bs"
  shows "\<exists>s. encode bs = Inr s \<and> decode s = Inr bs"
proof -
  have b: "is_bytes bs" "bs \<noteq> []" using assms by (auto simp: encodable_def)
  have "be_val bs \<noteq> 0" using assms be_val_0_iff [OF b(1)] by (auto simp: encodable_def)
  then have p: "0 < be_val bs" using be_val_nonneg [of bs] by simp
  define n where "n = length (takeWhile (\<lambda>x. x = 0) bs)"
  have "decode (replicate n CHR ''1'' @ b58_text (be_val bs)) = Inr (replicate n 0 @ bytes_of (be_val bs))"
    using b58_text_ok [OF p] by (auto simp: decode_eq takeWhile_ones b58_val_ones alphabet_def)
  also have "replicate n 0 @ bytes_of (be_val bs) = bs"
    unfolding bytes_of_be_val [OF b(1)] n_def by (rule zeros_then_rest)
  finally show ?thesis using encode_eq [OF b(2)] by (simp add: n_def)
qed

interpretation b58: codec encode_text decode_opt encodable
proof
  fix bs assume "encodable bs"
  then show "decode_opt (encode_text bs) = Some bs"
    using decode_encode [of bs] by (auto simp: encode_text_def decode_opt_def)
qed

text \<open>
  C15: Base58 text of bytes that are not all zero decodes to the same bytes, leading zero bytes included;
  encoding accepts every such array.
\<close>

theorem base58_roundtrip:
  assumes "is_bytes bs" "\<exists>x\<in>set bs. x \<noteq> 0"
  shows "\<exists>s. encode bs = Inr s \<and> decode s = Inr bs"
  using assms by (intro decode_encode) (simp add: encodable_def)

theorem base58_roundtrip_witness:
  "\<exists>s. encode [0, 0, 7, 255] = Inr s \<and> decode s = Inr [0, 0, 7, 255]"
  using base58_roundtrip [of "[0, 0, 7, 255]"] by (simp add: is_bytes_def)

text \<open>
  The boundary of that: an array of \<open>n > 0\<close> zero bytes is written as \<open>n + 1\<close> ones, because the loop
  leaves the digit of zero as well, and comes back with one byte more.
\<close>

theorem base58_zeros:
  assumes "0 < n"
  shows "encode (replicate n 0) = Inr (replicate (Suc n) CHR ''1'') \<and>
    decode (replicate (Suc n) CHR ''1'') = Inr (replicate (Suc n) 0)"
proof -
  have v: "be_val (replicate n 0) = 0" by (simp add: be_val_def val_simps)
  have "b58_val (replicate (Suc n) CHR ''1'') = 0"
    using b58_val_ones [of "Suc n" "[]"] by (simp add: b58_val_def)
  moreover have "takeWhile (\<lambda>c. c = CHR ''1'') (replicate (Suc n) CHR ''1'') = replicate (Suc n) CHR ''1''"
    by (simp add: takeWhile_eq_all_conv)
  moreover have "set (replicate (Suc n) CHR ''1'') \<subseteq> set alphabet" by (auto simp: alphabet_def)
  moreover have "takeWhile (\<lambda>x. x = (0::int)) (replicate n 0) = replicate n 0"
    by (simp add: takeWhile_eq_all_conv)
  ultimately show ?thesis
    using encode_eq [of "replicate n 0"] assms v
    by (simp add: decode_eq b58_text_def replicate_append_same del: replicate_Suc) simp
qed

theorem base58_zeros_witness:
  "encode [0] = Inr ''11'' \<and> decode ''11'' = Inr [0, 0]"
  using base58_zeros [of 1] by (simp add: numeral_eq_Suc)

text \<open>
  Decoding throws exactly on a text with a character outside the alphabet, the message is always the
  same, and every other text gives as many zero bytes as it has leading ones, then the bytes of its value.
\<close>

theorem base58_decode_total:
  "decode s = (if list_all (\<lambda>c. c \<in> set alphabet) s
     then Inr (replicate (length (takeWhile (\<lambda>c. c = CHR ''1'') s)) 0 @ bytes_of (b58_val s))
     else Inl ''Invalid character'')"
  unfolding decode_eq by (auto simp: list_all_iff)

end
