(* ===== verification/BtcUtil.thy ===== *)
theory BtcUtil
  imports Base58 Sha256 Ripemd160
begin

text \<open>
  \<open>src/bitcoinjs-lib.util.js\<close> and \<open>src/bitcoinjs-lib.address.js\<close>: hashes of hashes, variable length
  integers, amounts as text, and Bitcoin addresses with their checksum.
\<close>

section \<open>Utilities\<close>

function mfa_loop :: "int \<Rightarrow> int \<Rightarrow> 'a \<Rightarrow> 'a list \<Rightarrow> 'a list" where
  "mfa_loop i len v array = (if i < len then mfa_loop (i + 1) len v (array @ [v]) else array)"
  by pat_completeness auto
termination
  by (relation "measure (\<lambda>(i, len, v, a). nat (len - i))") auto

declare mfa_loop.simps [simp del]

definition makeFilledArray :: "int \<Rightarrow> 'a \<Rightarrow> 'a list" where
  "makeFilledArray len v = mfa_loop 0 len v []"

definition numToVarInt :: "int \<Rightarrow> int list" where
  "numToVarInt i =
     (if i < 0xfd then [i]
      else if i \<le> js_shl 1 16 then [0xfd, js_ushr i 8, js_and i 255]
      else if i \<le> js_shl 1 32 then [0xfe] @ wordsToBytes [i]
      else [0xff] @ wordsToBytes [js_ushr i 32, i])"

text \<open>A value is a number already (\<open>Inr\<close>) or an array of bytes (\<open>Inl\<close>).\<close>

definition valueToBigInt :: "int list + int \<Rightarrow> int list + int" where
  "valueToBigInt valueBuffer = (case valueBuffer of Inr v \<Rightarrow> Inr v | Inl ba \<Rightarrow> of_bytes ba)"

text \<open>\<open>BigInteger.toString()\<close> in radix 10; an array left as it is prints as the empty string when it is empty.\<close>

definition dec_text :: "int \<Rightarrow> string" where
  "dec_text v = (if v < 0 then CHR ''-'' # num_str 10 (- v) else num_str 10 v)"

definition value_text :: "int list + int \<Rightarrow> string" where
  "value_text v = (case v of Inl _ \<Rightarrow> [] | Inr n \<Rightarrow> dec_text n)"

definition formatValue :: "int list + int \<Rightarrow> string" where
  "formatValue valueBuffer =
     (let v = value_text (valueToBigInt valueBuffer); n = length v;
          integerPart = (if n > 8 then take (n - 8) v else ''0'');
          decimalPart = (if n > 8 then drop (n - 8) v else v);
          decimalPart = replicate (8 - length decimalPart) CHR ''0'' @ decimalPart;
          decimalPart = rev (dropWhile (\<lambda>c. c = CHR ''0'') (rev decimalPart));
          decimalPart = decimalPart @ replicate (2 - length decimalPart) CHR ''0''
      in integerPart @ ''.'' @ decimalPart)"

text \<open>\<open>valueString.split('.')\<close>: the text before the first point and, if there is one, up to the next.\<close>

definition split_point :: "string \<Rightarrow> string \<times> string option" where
  "split_point s =
     (let a = takeWhile (\<lambda>c. c \<noteq> CHR ''.'') s; r = dropWhile (\<lambda>c. c \<noteq> CHR ''.'') s
      in (a, if r = [] then None else Some (takeWhile (\<lambda>c. c \<noteq> CHR ''.'') (tl r))))"

text \<open>\<open>parseInt(s)\<close> without a radix: sixteen after a prefix \<open>0x\<close>, else ten.\<close>

definition parseInt0 :: "string \<Rightarrow> int option" where
  "parseInt0 s =
     (let u = snd (split_sign (dropWhile js_space s))
      in js_parseInt s (if take 2 u = ''0x'' \<or> take 2 u = ''0X'' then 16 else 10))"

text \<open>\<open>BigInteger.valueOf(NaN)\<close> is zero: none of the comparisons of \<open>fromInt\<close> holds.\<close>

definition valueOf_num :: "int option \<Rightarrow> int" where
  "valueOf_num n = (case n of None \<Rightarrow> 0 | Some x \<Rightarrow> x)"

definition parseValue :: "string \<Rightarrow> int" where
  "parseValue valueString =
     (let (integralPart, frac) = split_point valueString;
          fractionalPart = (case frac of None \<Rightarrow> ''0'' | Some f \<Rightarrow> if f = [] then ''0'' else f);
          fractionalPart = fractionalPart @ replicate (8 - length fractionalPart) CHR ''0'';
          fractionalPart = dropWhile (\<lambda>c. c = CHR ''0'') fractionalPart;
          v = valueOf_num (parseInt0 integralPart);
          v = v * 100000000
      in v + valueOf_num (parseInt0 fractionalPart))"

definition sha256ripe160 :: "int list \<Rightarrow> int list" where
  "sha256ripe160 bs = RIPEMD160_asBytes (SHA256_asBytes bs)"

definition dsha256 :: "int list \<Rightarrow> int list" where
  "dsha256 bs = SHA256_asBytes (SHA256_asBytes bs)"

text \<open>An object is asked for the names of its methods; the list of names ends at an empty one.\<close>

fun hasMethods :: "(string \<Rightarrow> bool) \<Rightarrow> string list \<Rightarrow> bool" where
  "hasMethods obj [] = True"
| "hasMethods obj (n # ns) = (if n = [] then True else if \<not> obj n then False else hasMethods obj ns)"

section \<open>Addresses\<close>

record address =
  hash :: "int list"
  version :: int

definition networkVersion :: int where "networkVersion = 0x00"

definition nth_opt :: "'a list \<Rightarrow> nat \<Rightarrow> 'a option" where
  "nth_opt xs i = (if i < length xs then Some (xs ! i) else None)"

definition checksum :: "int list \<Rightarrow> int list" where
  "checksum h = SHA256_asBytes (SHA256_asBytes h)"

text \<open>The version is a byte; an array without bytes fails the checksum before its version is read.\<close>

definition decodeString :: "string \<Rightarrow> int list result" where
  "decodeString s =
     bind_result (decode s) (\<lambda>bytes.
       let h = take 21 bytes; c = checksum h
       in if nth_opt c 0 \<noteq> nth_opt bytes 21 \<or> nth_opt c 1 \<noteq> nth_opt bytes 22 \<or>
             nth_opt c 2 \<noteq> nth_opt bytes 23 \<or> nth_opt c 3 \<noteq> nth_opt bytes 24
          then Inl ''Checksum validation failed!''
          else let version = hd h; h' = tl h
            in if version \<noteq> 0 then Inl (''Version '' @ dec_text version @ '' not supported!'') else Inr h')"

text \<open>The constructor takes bytes (\<open>Inl\<close>) or the text of an address (\<open>Inr\<close>).\<close>

definition Address :: "int list + string \<Rightarrow> address result" where
  "Address x =
     bind_result (case x of Inl bytes \<Rightarrow> Inr bytes | Inr s \<Rightarrow> decodeString s)
       (\<lambda>bytes. Inr \<lparr>hash = bytes, version = networkVersion\<rparr>)"

definition address_toString :: "address \<Rightarrow> string result" where
  "address_toString this =
     (let h = version this # hash this; c = checksum h; bytes = h @ take 4 c in encode bytes)"

definition getHashBase64 :: "address \<Rightarrow> string" where
  "getHashBase64 this = bytesToBase64 (hash this)"

section \<open>Properties\<close>

lemma mfa_loop_ok: "mfa_loop i len v a = a @ replicate (nat (len - i)) v"
proof (induction i len v a rule: mfa_loop.induct)
  case (1 i len v a)
  show ?case
  proof (cases "i < len")
    case True
    then have "nat (len - i) = Suc (nat (len - (i + 1)))" by simp
    then show ?thesis using 1 True by (simp add: mfa_loop.simps [of i])
  qed (simp add: mfa_loop.simps)
qed

lemma makeFilledArray_ok: "makeFilledArray len v = replicate (nat len) v"
  by (simp add: makeFilledArray_def mfa_loop_ok)

lemma checksum_ok [simp]: "length (checksum h) = 32" "is_bytes (checksum h)"
  by (simp_all add: checksum_def)

lemma is_bytes_append [simp]: "is_bytes (xs @ ys) \<longleftrightarrow> is_bytes xs \<and> is_bytes ys"
  by (auto simp: is_bytes_def digits_in_def)

lemma is_bytes_take [intro]: "is_bytes xs \<Longrightarrow> is_bytes (take n xs)"
  by (auto simp: is_bytes_def)

lemma four_bytes:
  assumes "length c = 32"
  shows "(nth_opt c 0 \<noteq> nth_opt bs 21 \<or> nth_opt c 1 \<noteq> nth_opt bs 22 \<or> nth_opt c 2 \<noteq> nth_opt bs 23 \<or> nth_opt c 3 \<noteq> nth_opt bs 24)
    \<longleftrightarrow> take 4 (drop 21 bs) \<noteq> take 4 c"
proof -
  have "take 4 (drop 21 bs) = take 4 c \<longleftrightarrow>
      25 \<le> length bs \<and> (\<forall>i<4. bs ! (21 + i) = c ! i)"
    using assms by (auto simp: list_eq_iff_nth_eq)
  moreover have "(\<forall>i<4. bs ! (21 + i) = c ! i) \<longleftrightarrow> bs ! 21 = c ! 0 \<and> bs ! 22 = c ! 1 \<and> bs ! 23 = c ! 2 \<and> bs ! 24 = c ! 3"
    by (auto simp: All_less_Suc numeral_eq_Suc)
  ultimately show ?thesis using assms by (auto simp: nth_opt_def)
qed

lemma decodeString_iff:
  "decodeString s = Inr h \<longleftrightarrow>
    length h = 20 \<and> (\<exists>rest. decode s = Inr (0 # h @ take 4 (checksum (0 # h)) @ rest))"
proof
  assume d: "decodeString s = Inr h"
  then obtain bs where bs: "decode s = Inr bs" by (cases "decode s") (auto simp: decodeString_def)
  have c: "take 4 (drop 21 bs) = take 4 (checksum (take 21 bs))"
    and v: "hd (take 21 bs) = 0" "tl (take 21 bs) = h"
    using d unfolding decodeString_def bs bind_result_simps Let_def four_bytes [OF checksum_ok(1)]
    by (auto split: if_splits)
  have "length (take 4 (drop 21 bs)) = 4" unfolding c by simp
  then have l: "25 \<le> length bs" by simp
  then have t: "take 21 bs = 0 # h" using v by (cases "take 21 bs") auto
  define rest where "rest = drop 4 (drop 21 bs)"
  have "take 4 (drop 21 bs) @ rest = drop 21 bs" unfolding rest_def by (rule append_take_drop_id)
  moreover have "take 21 bs @ drop 21 bs = bs" by (rule append_take_drop_id)
  ultimately have "(0 # h) @ take 4 (checksum (0 # h)) @ rest = bs" unfolding c t by simp
  then have "bs = 0 # h @ take 4 (checksum (0 # h)) @ rest" by simp
  moreover have "length h = 20" using arg_cong [OF t, of length] l by simp
  ultimately show "length h = 20 \<and> (\<exists>rest. decode s = Inr (0 # h @ take 4 (checksum (0 # h)) @ rest))"
    using bs by blast
next
  assume a: "length h = 20 \<and> (\<exists>rest. decode s = Inr (0 # h @ take 4 (checksum (0 # h)) @ rest))"
  then obtain rest where bs: "decode s = Inr (0 # h @ take 4 (checksum (0 # h)) @ rest)" by blast
  show "decodeString s = Inr h"
    using a unfolding decodeString_def bs bind_result_simps Let_def four_bytes [OF checksum_ok(1)] by simp
qed

text \<open>
  C13: The bytes of an address come back from its text: version, hash and checksum are written in Base58 and
  the reader verifies the checksum.
\<close>

theorem address_roundtrip:
  assumes "is_bytes h" "length h = 20" "\<exists>x\<in>set h. x \<noteq> 0"
  shows "\<exists>s. address_toString \<lparr>hash = h, version = networkVersion\<rparr> = Inr s \<and>
    Address (Inr s) = Inr \<lparr>hash = h, version = networkVersion\<rparr>"
proof -
  define bytes where "bytes = 0 # h @ take 4 (checksum (0 # h))"
  have "is_bytes bytes" using assms(1) by (auto simp: bytes_def is_bytes_def digits_in_def dest: in_set_takeD)
       (use checksum_ok(2) [of "0 # h"] in \<open>auto simp: is_bytes_def digits_in_def dest!: in_set_takeD\<close>)
  then obtain s where s: "encode bytes = Inr s" "decode s = Inr bytes"
    using decode_encode [of bytes] assms(3) by (auto simp: encodable_def bytes_def)
  have "decodeString s = Inr h"
    unfolding decodeString_iff using assms(2) s(2) by (auto simp: bytes_def)
  then show ?thesis using s(1)
    by (auto simp: address_toString_def Address_def networkVersion_def bytes_def)
qed

theorem address_roundtrip_witness:
  "\<exists>s. address_toString \<lparr>hash = replicate 20 7, version = networkVersion\<rparr> = Inr s \<and>
    Address (Inr s) = Inr \<lparr>hash = replicate 20 7, version = networkVersion\<rparr>"
  using address_roundtrip [of "replicate 20 7"] by (simp add: is_bytes_def digits_in_def)

text \<open>
  C14: What the reader of addresses accepts: exactly the texts whose bytes start with version 0, a hash of
  twenty bytes and its checksum. Bytes after the checksum are not looked at, so an address with more
  bytes is accepted too.
\<close>

theorem decodeString_accepts:
  "(\<exists>h. decodeString s = Inr h) \<longleftrightarrow>
    (\<exists>h rest. length h = 20 \<and> decode s = Inr (0 # h @ take 4 (checksum (0 # h)) @ rest))"
  unfolding decodeString_iff by blast

lemma parse_dec:
  assumes "list_all dec_char s" "s \<noteq> []"
  shows "parseInt0 s = Some (str_int 10 s)"
proof -
  obtain c cs where s: "s = c # cs" using assms(2) by (cases s) auto
  have c: "dec_char c" "\<forall>x\<in>set s. dec_char x" using assms by (auto simp: s list_all_iff)
  have sp: "dropWhile js_space s = s" using dec_char_not_space [OF c(1)] by (simp add: s)
  have sg: "split_sign s = (False, s)" using dec_char_not_special [OF c(1)] by (simp add: s split_sign_def)
  have x: "CHR ''x'' \<notin> set s" "CHR ''X'' \<notin> set s" using c(2) dec_char_not_special by force+
  have "CHR ''x'' \<in> set s" if "take 2 s = ''0x''" by (rule in_set_takeD [of _ 2]) (simp add: that)
  moreover have "CHR ''X'' \<in> set s" if "take 2 s = ''0X''" by (rule in_set_takeD [of _ 2]) (simp add: that)
  ultimately have p: "take 2 s \<noteq> ''0x''" "take 2 s \<noteq> ''0X''" using x by blast+
  have "digit_in_base 10 x" if "dec_char x" for x using that by (auto simp: digit_in_base_def parseInt1_def dec_char_def split: option.splits)
  then have t: "takeWhile (digit_in_base 10) s = s" using c(2) by (auto simp: takeWhile_eq_all_conv)
  show ?thesis using assms(2) p
    by (simp add: parseInt0_def js_parseInt_def sp sg str_int_def t)
qed

lemma str_int_append: "str_int 10 (a @ b) = str_int 10 a * 10 ^ length b + str_int 10 b"
  unfolding str_int_def foldl_horner by (simp add: val_append)

lemma str_int_zeros: "str_int 10 (replicate n CHR ''0'') = 0"
  unfolding str_int_def foldl_horner by (simp add: char_digit_def val_replicate0)

lemma str_int_strip0: "str_int 10 (dropWhile (\<lambda>c. c = CHR ''0'') s) = str_int 10 s"
proof -
  define Z where "Z = takeWhile (\<lambda>c. c = CHR ''0'') s"
  have "Z = replicate (length Z) CHR ''0''"
    by (rule sym, rule replicate_length_same) (auto simp: Z_def dest: set_takeWhileD)
  then have "str_int 10 Z = 0" by (metis str_int_zeros)
  then show ?thesis using str_int_append [of Z "dropWhile (\<lambda>c. c = CHR ''0'') s"] by (simp add: Z_def)
qed

lemma num_str_dec:
  assumes "0 \<le> v"
  shows "list_all dec_char (num_str 10 v)" "str_int 10 (num_str 10 v) = v" "num_str 10 v \<noteq> []"
proof -
  have d: "val 10 (to_digits 10 v) = v" "digits_in 10 (to_digits 10 v)" using to_digits_ok [of 10 v] assms by auto
  have z: "str_digits 10 ''0''" "str_int 10 ''0'' = 0"
    by (simp_all add: str_digits_def str_int_def parseInt1_def char_digit_def)
  show "list_all dec_char (num_str 10 v)" "str_int 10 (num_str 10 v) = v" "num_str 10 v \<noteq> []"
    using str_int_digit_chars [OF d(2)] d(1) z assms to_digits_pos [of v 10]
    by (auto simp: num_str_def simp flip: str_digits_dec)
qed

lemma parse_stripped:
  assumes "list_all dec_char s"
  shows "valueOf_num (parseInt0 (dropWhile (\<lambda>c. c = CHR ''0'') s)) = str_int 10 s"
proof (cases "dropWhile (\<lambda>c. c = CHR ''0'') s = []")
  case True
  have e: "valueOf_num (parseInt0 []) = 0"
    by (simp add: valueOf_num_def parseInt0_def js_parseInt_def split_sign_def)
  have "str_int 10 s = 0" using str_int_strip0 [of s] unfolding True by (simp add: str_int_def)
  then show ?thesis unfolding True e by simp
next
  case False
  have "list_all dec_char (dropWhile (\<lambda>c. c = CHR ''0'') s)"
    using assms by (auto simp: list_all_iff dest: set_dropWhileD)
  then show ?thesis using parse_dec [OF _ False] by (simp add: valueOf_num_def str_int_strip0)
qed

text \<open>The decimals of an amount: eight digits, then without the zeros at the end, but at least two.\<close>

lemma decimals_back:
  assumes "length d = 8"
  defines "t \<equiv> rev (dropWhile (\<lambda>c. c = CHR ''0'') (rev d))"
  defines "u \<equiv> t @ replicate (2 - length t) CHR ''0''"
  shows "u @ replicate (8 - length u) CHR ''0'' = d" "u \<noteq> []" "set u \<subseteq> set d \<union> {CHR ''0''}"
proof -
  define Z where "Z = takeWhile (\<lambda>c. c = CHR ''0'') (rev d)"
  have Z: "Z = replicate (length Z) CHR ''0''"
    by (rule sym, rule replicate_length_same) (auto simp: Z_def dest: set_takeWhileD)
  have "d = rev (Z @ dropWhile (\<lambda>c. c = CHR ''0'') (rev d))" by (simp add: Z_def)
  then have dt: "d = t @ replicate (length Z) CHR ''0''" using Z by (simp add: t_def) (metis rev_replicate)
  then have l: "length t + length Z = 8" using assms(1) by (metis length_append length_replicate)
  show "u @ replicate (8 - length u) CHR ''0'' = d"
    unfolding u_def using l by (subst dt) (simp add: replicate_add [symmetric])
  show "u \<noteq> []" by (cases t) (auto simp: u_def)
  show "set u \<subseteq> set d \<union> {CHR ''0''}" unfolding u_def by (subst dt) auto
qed

lemma split_point_ok:
  assumes "list_all dec_char a" "list_all dec_char b"
  shows "split_point (a @ ''.'' @ b) = (a, Some b)"
proof -
  have n: "\<not> dec_char CHR ''.''" using dec_char_not_special by force
  have "takeWhile (\<lambda>c. c \<noteq> CHR ''.'') a = a" "takeWhile (\<lambda>c. c \<noteq> CHR ''.'') b = b"
    "dropWhile (\<lambda>c. c \<noteq> CHR ''.'') a = []"
    using assms n by (auto simp: takeWhile_eq_all_conv dropWhile_eq_Nil_conv list_all_iff)
  then show ?thesis by (simp add: split_point_def takeWhile_append dropWhile_append Let_def takeWhile_tail)
qed

lemma parse_format:
  assumes "0 \<le> v"
  shows "parseValue (formatValue (Inr v)) = v"
proof -
  define t where "t = num_str 10 v"
  have t: "list_all dec_char t" "str_int 10 t = v" "t \<noteq> []" using num_str_dec [OF assms] by (simp_all add: t_def)
  define ip where "ip = (if length t > 8 then take (length t - 8) t else ''0'')"
  define dp where "dp = (if length t > 8 then drop (length t - 8) t else t)"
  define d where "d = replicate (8 - length dp) CHR ''0'' @ dp"
  define r where "r = rev (dropWhile (\<lambda>c. c = CHR ''0'') (rev d))"
  define u where "u = r @ replicate (2 - length r) CHR ''0''"
  have z: "dec_char CHR ''0''" by (simp add: dec_char_def char_digit_def)
  have dl: "length d = 8" by (simp add: d_def dp_def)
  have ip: "list_all dec_char ip" "ip \<noteq> []" using t(1) z by (auto simp: ip_def list_all_iff dest: in_set_takeD)
  have dd: "list_all dec_char d" using t(1) z by (auto simp: d_def dp_def list_all_iff dest: in_set_dropD)
  note back1 = decimals_back [OF dl, folded r_def, folded u_def]
  have u: "list_all dec_char u" using back1(3) dd z by (auto simp: list_all_iff)
  have sum: "str_int 10 ip * 100000000 + str_int 10 d = v"
  proof (cases "length t > 8")
    case True
    then have "str_int 10 (ip @ d) = v" using t(2) by (simp add: ip_def d_def dp_def)
    then show ?thesis using dl by (simp add: str_int_append)
  next
    case False
    moreover have "str_int 10 ''0'' = 0" by (simp add: str_int_def char_digit_def)
    ultimately show ?thesis using t(2) by (simp add: ip_def d_def dp_def str_int_append str_int_zeros)
  qed
  have "dec_text v = t" using assms by (simp add: dec_text_def t_def)
  then have "formatValue (Inr v) = ip @ ''.'' @ u"
    unfolding formatValue_def Let_def valueToBigInt_def value_text_def u_def r_def d_def dp_def ip_def by simp
  then have "parseValue (formatValue (Inr v))
      = valueOf_num (parseInt0 ip) * 100000000 + valueOf_num (parseInt0 (dropWhile (\<lambda>c. c = CHR ''0'') d))"
    unfolding parseValue_def using split_point_ok [OF ip(1) u] back1(1,2) by simp
  then show ?thesis using sum parse_dec [OF ip] parse_stripped [OF dd] by (simp add: valueOf_num_def)
qed

text \<open>
  C18: An amount that is written as text, with its trailing zeros cut off and at least two decimals, reads
  back as the same amount, for every amount that is not negative. The bound keeps the parsed parts
  inside what \<open>BigInteger.valueOf\<close> takes as one digit.
\<close>

theorem amount_roundtrip:
  assumes "0 \<le> v" "v < 2 ^ 26 * 10 ^ 8"
  shows "parseValue (formatValue (Inr v)) = v"
  using assms(1) by (rule parse_format)

theorem amount_roundtrip_witness: "parseValue (formatValue (Inr 1235550000)) = 1235550000"
  using amount_roundtrip [of 1235550000] by simp

text \<open>
  Variable length integers. A value below 253 is one byte; the others get a marker and big-endian bytes,
  but at \<open>2^16\<close> the second entry is not a byte, and above it the marker of a 64-bit number is followed
  by the 32-bit value twice, because both \<open>1 << 32\<close> is 1 and \<open>i >>> 32\<close> is \<open>i\<close>.
\<close>

theorem varint_layout:
  assumes "0 \<le> i" "i < 2 ^ 32"
  shows "numToVarInt i =
    (if i < 253 then [i]
     else if i < 65536 then [253, i div 256, i mod 256]
     else if i = 65536 then [253, 256, 0]
     else 255 # wordsToBytes [i, i])"
proof -
  have c: "js_shl 1 16 = 65536" "js_shl 1 32 = 1" by code_simp+
  have a: "js_ushr i 8 = i div 256" using assms by (simp add: js_ushr_div)
  have b: "js_and i 255 = i mod 256" using js_and_mask [of 8 i] by simp
  have d: "js_ushr i 32 = i" using assms by (simp add: js_ushr_def toUint32_id)
  have p: "(65536::int) div 256 = 256" "(65536::int) mod 256 = 0" by simp_all
  show ?thesis unfolding numToVarInt_def c a b d using p by auto
qed

theorem varint_layout_witness: "numToVarInt 65536 = [253, 256, 0] \<and> numToVarInt 1000 = [253, 3, 232]"
  using varint_layout [of 65536] varint_layout [of 1000] by simp

end
