(* ===== verification/SecureRandom.thy ===== *)
theory SecureRandom
  imports BtcUtil "HOL-Library.Multiset"
begin

text \<open>
  \<open>src/securerandom.js\<close>: the entropy pool, its seeding, and the generator ArcFour that the first request
  for a byte makes from the pool. What the browser gives (the clock, \<open>Math.random\<close>, \<open>getRandomValues\<close>, the
  facts that go into the entropy string) is a parameter. The locale \<open>byte_source\<close> says what a generator of
  bytes promises; both ArcFour and the pool with its generator are interpretations of it.
\<close>

section \<open>ArcFour\<close>

record arcfour =
  ai :: int
  aj :: int
  aS :: "int list"

definition Arcfour :: arcfour where
  "Arcfour = \<lparr>ai = 0, aj = 0, aS = []\<rparr>"

fun fill_S :: "nat \<Rightarrow> int list \<Rightarrow> int list" where
  "fill_S 0 S = S"
| "fill_S (Suc n) S = fill_S n (js_set S (255 - n) (int (255 - n)))"

definition swap :: "int list \<Rightarrow> nat \<Rightarrow> nat \<Rightarrow> int list" where
  "swap S i j = (let t = js_num S i; S' = js_set S i (js_num S j) in js_set S' j t)"

definition key_step :: "int list \<Rightarrow> nat \<Rightarrow> int list \<times> int \<Rightarrow> int list \<times> int" where
  "key_step key i = (\<lambda>(S, j).
     let j' = js_and (j + js_num S i + js_num key (i mod length key)) 255
     in (swap S i (nat j'), j'))"

definition ARC4init :: "int list \<Rightarrow> arcfour \<Rightarrow> arcfour" where
  "ARC4init key this =
     (let S0 = fill_S 256 (aS this); (S, j) = fold (key_step key) [0..<256] (S0, 0)
      in \<lparr>ai = 0, aj = 0, aS = S\<rparr>)"

definition ARC4next :: "arcfour \<Rightarrow> int \<times> arcfour" where
  "ARC4next this =
     (let i = js_and (ai this + 1) 255;
          j = js_and (aj this + js_num (aS this) (nat i)) 255;
          t = js_num (aS this) (nat i);
          S = swap (aS this) (nat i) (nat j)
      in (js_num S (nat (js_and (t + js_num S (nat i)) 255)), \<lparr>ai = i, aj = j, aS = S\<rparr>))"

section \<open>The pool\<close>

record sr =
  state :: "arcfour option"
  pool :: "int list"
  pptr :: int
  poolCopyOnInit :: "int list"

definition poolSize :: int where "poolSize = 256"

definition seedInt8 :: "int \<Rightarrow> sr \<Rightarrow> sr" where
  "seedInt8 x s =
     (let p = nat (pptr s);
          s1 = s\<lparr>pool := js_set (pool s) p (js_xor (js_num (pool s) p) (js_and x 255)), pptr := pptr s + 1\<rparr>
      in if pptr s1 \<ge> poolSize then s1\<lparr>pptr := pptr s1 - poolSize\<rparr> else s1)"

definition seedInt16 :: "int \<Rightarrow> sr \<Rightarrow> sr" where
  "seedInt16 x s = seedInt8 (js_shr x 8) (seedInt8 x s)"

definition seedInt :: "int \<Rightarrow> sr \<Rightarrow> sr" where
  "seedInt x s = seedInt8 (js_shr x 24) (seedInt8 (js_shr x 16) (seedInt8 (js_shr x 8) (seedInt8 x s)))"

text \<open>\<open>time\<close> is what \<open>new Date().getTime()\<close> returns at the call.\<close>

definition seedTime :: "int \<Rightarrow> sr \<Rightarrow> sr" where
  "seedTime time s = seedInt time s"

definition getByte :: "int \<Rightarrow> sr \<Rightarrow> int \<times> sr" where
  "getByte time s =
     (let s1 = (case state s of
          Some _ \<Rightarrow> s
        | None \<Rightarrow> let s' = seedTime time s
            in s'\<lparr>state := Some (ARC4init (pool s') Arcfour), poolCopyOnInit := pool s', pptr := 0\<rparr>);
          (b, g) = ARC4next (the (state s1))
      in (b, s1\<lparr>state := Some g\<rparr>))"

text \<open>
  \<open>rv\<close>: what \<open>getRandomValues\<close> fills in, \<open>None\<close> when the browser lacks it or it throws. \<open>n\<close> is the length of
  the array to fill; the result is its new contents.
\<close>

fun take_bytes :: "int \<Rightarrow> nat \<Rightarrow> (nat \<Rightarrow> int) option \<Rightarrow> nat \<Rightarrow> sr \<Rightarrow> int list \<times> sr" where
  "take_bytes time 0 rv i s = ([], s)"
| "take_bytes time (Suc n) rv i s =
     (let (b, s1) = getByte time s;
          x = (case rv of None \<Rightarrow> b | Some r \<Rightarrow> js_xor b (r i));
          (xs, s2) = take_bytes time n rv (Suc i) s1
      in (x # xs, s2))"

definition nextBytes :: "int \<Rightarrow> (nat \<Rightarrow> int) option \<Rightarrow> nat \<Rightarrow> sr \<Rightarrow> int list \<times> sr" where
  "nextBytes time rv n s = take_bytes time n rv 0 s"

section \<open>The first filling of the pool\<close>

text \<open>\<open>UTF-8\<close> of a text whose code units are below 256, as \<open>Crypto.SHA256\<close> reads a string.\<close>

definition utf8_bytes :: "string \<Rightarrow> int list" where
  "utf8_bytes s = concat (map (\<lambda>c. let n = (of_char c :: int)
     in if n < 128 then [n] else [192 + n div 64, 128 + n mod 64]) s)"

record browser =
  screen_size :: "int \<times> int \<times> int"
  avail_size :: "int \<times> int \<times> int"
  timezoneOffset :: int
  userAgent :: string
  plugins :: "(string \<times> string \<times> string \<times> string) list"
  mimeTypes :: "(string \<times> string \<times> string) list"
  cookieEnabled :: bool
  storageTypes :: "string \<times> string"
  language :: string
  historyLength :: int
  location :: string

definition entropyStr :: "browser \<Rightarrow> string" where
  "entropyStr b =
     (let (height, width, colorDepth) = screen_size b; (availHeight, availWidth, pixelDepth) = avail_size b;
          (sessionStorage, localStorage) = storageTypes b
      in dec_text (height * width * colorDepth) @ dec_text (availHeight * availWidth * pixelDepth)
         @ dec_text (timezoneOffset b) @ userAgent b
         @ concat (map (\<lambda>(n, f, d, v). n @ '' '' @ f @ '' '' @ d @ '' '' @ v @ '', '') (plugins b))
         @ concat (map (\<lambda>(d, t, s). d @ '' '' @ t @ '' '' @ s @ '', '') (mimeTypes b))
         @ (if cookieEnabled b then ''true'' else ''false'') @ sessionStorage @ localStorage
         @ language b @ dec_text (historyLength b) @ location b)"

text \<open>\<open>random\<close> gives the successive draws of \<open>Math.random()\<close>; the result counts the draws.\<close>

function junk_loop :: "(nat \<Rightarrow> rat) \<Rightarrow> nat \<Rightarrow> int list \<Rightarrow> int list \<times> nat" where
  "junk_loop random k p =
     (if int (length p) < poolSize
      then let t = \<lfloor>65536 * random k\<rfloor> in junk_loop random (Suc k) (p @ [js_ushr t 8, js_and t 255])
      else (p, k))"
  by pat_completeness auto
termination
  by (relation "measure (\<lambda>(r, k, p). 256 - length p)") (auto simp: poolSize_def)

declare junk_loop.simps [simp del]

definition sr_load :: "int \<Rightarrow> (nat \<Rightarrow> int) option \<Rightarrow> (nat \<Rightarrow> rat) \<Rightarrow> browser \<Rightarrow> sr" where
  "sr_load time rv random b =
     (let p0 = (case rv of None \<Rightarrow> [] | Some ua \<Rightarrow> map ua [0..<256]);
          (p, k) = junk_loop random 0 p0;
          s0 = \<lparr>state = None, pool = p, pptr = \<lfloor>of_int poolSize * random k\<rfloor>, poolCopyOnInit = []\<rparr>;
          s1 = seedTime time s0;
          entropyBytes = SHA256_asBytes (utf8_bytes (entropyStr b))
      in fold seedInt8 entropyBytes s1)"

section \<open>Sources of bytes\<close>

fun draw :: "('s \<Rightarrow> int \<times> 's) \<Rightarrow> nat \<Rightarrow> 's \<Rightarrow> int list \<times> 's" where
  "draw next 0 s = ([], s)"
| "draw next (Suc n) s = (let (b, s1) = next s; (bs, s2) = draw next n s1 in (b # bs, s2))"

locale byte_source =
  fixes "next" :: "'s \<Rightarrow> int \<times> 's" and inv :: "'s \<Rightarrow> bool"
  assumes next_inv: "inv s \<Longrightarrow> inv (snd (next s))"
    and next_byte: "inv s \<Longrightarrow> 0 \<le> fst (next s) \<and> fst (next s) < 256"
begin

lemma draw_ok: "inv s \<Longrightarrow> inv (snd (draw next n s)) \<and> is_bytes (fst (draw next n s)) \<and> length (fst (draw next n s)) = n"
proof (induction n arbitrary: s)
  case 0
  then show ?case by (simp add: is_bytes_def)
next
  case (Suc n)
  obtain b s1 where b: "next s = (b, s1)" by (rule prod.exhaust)
  have "inv s1" "0 \<le> b" "b < 256" using next_inv [OF Suc.prems] next_byte [OF Suc.prems] by (simp_all add: b)
  then show ?case using Suc.IH [of s1] by (simp add: b split_def Let_def)
qed

lemma draw_add: "draw next (m + n) s = (let (xs, s1) = draw next m s; (ys, s2) = draw next n s1 in (xs @ ys, s2))"
  by (induction m arbitrary: s) (auto simp: Let_def split_def)

end

section \<open>ArcFour keeps a permutation of the bytes\<close>

definition perm256 :: "int list \<Rightarrow> bool" where
  "perm256 S \<longleftrightarrow> mset S = mset [0..255]"

definition arc_ok :: "arcfour \<Rightarrow> bool" where
  "arc_ok g \<longleftrightarrow> perm256 (aS g) \<and> 0 \<le> ai g \<and> ai g < 256 \<and> 0 \<le> aj g \<and> aj g < 256"

lemma perm256_length: "perm256 S \<Longrightarrow> length S = 256"
  using mset_eq_length [of S "[0..255]"] by (simp add: perm256_def)

lemma perm256_byte: "perm256 S \<Longrightarrow> i < 256 \<Longrightarrow> 0 \<le> js_num S i \<and> js_num S i < 256"
proof -
  assume S: "perm256 S" "i < 256"
  have "set S = {0..255}" using mset_eq_setD [of S "[0..255]"] S by (simp add: perm256_def)
  then have "S ! i \<in> {0..255}" using nth_mem [of i S] perm256_length [OF S(1)] S(2) by auto
  then show ?thesis using perm256_length [OF S(1)] S(2) by simp
qed

lemma swap_ok:
  assumes "perm256 S" "i < 256" "j < 256"
  shows "swap S i j = S[i := S ! j, j := S ! i]" "perm256 (swap S i j)"
proof -
  have l: "length S = 256" by (rule perm256_length [OF assms(1)])
  show s: "swap S i j = S[i := S ! j, j := S ! i]"
    using assms(2,3) l by (simp add: swap_def js_set_def Let_def)
  show "perm256 (swap S i j)"
    unfolding s perm256_def using assms l by (subst mset_swap) (auto simp: perm256_def)
qed

lemma byte_mask: "0 \<le> js_and x 255 \<and> js_and x 255 < 256"
  using js_and_mask [of 8 x] by simp

lemma fill_S_ok: "n \<le> 256 \<Longrightarrow> length S = 256 - n \<Longrightarrow> fill_S n S = S @ map int [256 - n..<256]"
proof (induction n arbitrary: S)
  case (Suc n)
  have l: "length S = 255 - n" "n \<le> 255" using Suc.prems by auto
  have "js_set S (255 - n) (int (255 - n)) = S @ [int (255 - n)]" using l by (simp add: js_set_def)
  moreover have "[255 - n..<256] = (255 - n) # [256 - n..<256]"
    using l(2) upt_conv_Cons [of "255 - n" 256] by (simp add: Suc_diff_le [symmetric] del: upt_Suc)
  ultimately show ?case using Suc.IH [of "S @ [int (255 - n)]"] l by (simp add: Suc_diff_le)
qed simp

lemma perm256_init: "perm256 (map int [0..<256])"
proof -
  have "map int [0..<256] = [0..255]" by code_simp
  then show ?thesis by (simp add: perm256_def)
qed

lemma key_steps_ok:
  assumes "perm256 S" "set is \<subseteq> {0..<256}"
  shows "perm256 (fst (fold (key_step key) is (S, j)))"
  using assms
proof (induction "is" arbitrary: S j)
  case (Cons i "is")
  let ?j = "js_and (j + js_num S i + js_num key (i mod length key)) 255"
  have "perm256 (swap S i (nat ?j))"
    using Cons.prems byte_mask [of "j + js_num S i + js_num key (i mod length key)"] by (intro swap_ok(2)) auto
  then show ?case using Cons by (simp add: key_step_def Let_def)
qed simp

lemma ARC4init_ok:
  assumes "aS g = []"
  shows "arc_ok (ARC4init key g)"
proof -
  have "fill_S 256 (aS g) = map int [0..<256]" using fill_S_ok [of 256 "[]"] assms by simp
  moreover have "perm256 (fst (fold (key_step key) [0..<256] (map int [0..<256], 0)))"
    by (rule key_steps_ok [OF perm256_init]) auto
  ultimately show ?thesis by (simp add: ARC4init_def arc_ok_def split_def Let_def)
qed

lemma ARC4next_ok:
  assumes "arc_ok g"
  shows "arc_ok (snd (ARC4next g))" "0 \<le> fst (ARC4next g) \<and> fst (ARC4next g) < 256"
proof -
  define i j where "i = js_and (ai g + 1) 255" and "j = js_and (aj g + js_num (aS g) (nat i)) 255"
  have b: "0 \<le> i" "i < 256" "0 \<le> j" "j < 256" unfolding i_def j_def using byte_mask by blast+
  have p: "perm256 (swap (aS g) (nat i) (nat j))"
    using assms b by (intro swap_ok(2)) (auto simp: arc_ok_def)
  show "arc_ok (snd (ARC4next g))" using p b by (simp add: ARC4next_def arc_ok_def Let_def i_def j_def)
  have k: "nat (js_and x 255) < 256" for x using byte_mask [of x] by linarith
  show "0 \<le> fst (ARC4next g) \<and> fst (ARC4next g) < 256"
    using perm256_byte [OF p k] by (simp add: ARC4next_def Let_def i_def j_def)
qed

interpretation arc: byte_source ARC4next arc_ok
  by unfold_locales (auto dest: ARC4next_ok)

section \<open>The pool\<close>

definition sr_ok :: "sr \<Rightarrow> bool" where
  "sr_ok s \<longleftrightarrow> length (pool s) = 256 \<and> is_bytes (pool s) \<and> 0 \<le> pptr s \<and> pptr s < 256 \<and>
     (case state s of None \<Rightarrow> True | Some g \<Rightarrow> arc_ok g)"

lemma js_xor_byte: "0 \<le> a \<Longrightarrow> a < 256 \<Longrightarrow> 0 \<le> b \<Longrightarrow> b < 256 \<Longrightarrow> 0 \<le> js_xor a b \<and> js_xor a b < 256"
proof -
  assume a: "0 \<le> a" "a < 256" "0 \<le> b" "b < 256"
  have "js_xor a b = take_bit 8 a XOR take_bit 8 b"
    using a by (simp add: js_xor_def toInt32_id take_bit_int_eq_self)
  also have "\<dots> = take_bit 8 (a XOR b)" by simp
  finally show ?thesis using take_bit_int_less_exp [of 8 "a XOR b"] by simp
qed

lemma is_bytes_update: "is_bytes xs \<Longrightarrow> 0 \<le> x \<Longrightarrow> x < 256 \<Longrightarrow> is_bytes (xs[i := x])"
  unfolding is_bytes_def by (rule digits_in_update)

lemma seedInt8_ok:
  assumes "sr_ok s"
  shows "sr_ok (seedInt8 x s)" "state (seedInt8 x s) = state s"
proof -
  define p where "p = nat (pptr s)"
  have p: "p < length (pool s)" "0 \<le> pptr s" "pptr s < 256" using assms by (auto simp: sr_ok_def p_def)
  have "0 \<le> js_xor (js_num (pool s) p) (js_and x 255) \<and> js_xor (js_num (pool s) p) (js_and x 255) < 256"
    using is_bytes_nth [of "pool s" p] assms byte_mask [of x] by (intro js_xor_byte) (auto simp: sr_ok_def)
  then show "sr_ok (seedInt8 x s)" "state (seedInt8 x s) = state s"
    using assms p by (auto simp: sr_ok_def seedInt8_def Let_def js_set_def poolSize_def p_def [symmetric] is_bytes_update)
qed

lemma seedTime_ok: "sr_ok s \<Longrightarrow> sr_ok (seedTime time s)" "sr_ok s \<Longrightarrow> state (seedTime time s) = state s"
  by (simp_all add: seedTime_def seedInt_def seedInt8_ok)

lemma seedInt16_ok: "sr_ok s \<Longrightarrow> sr_ok (seedInt16 x s)"
  by (simp add: seedInt16_def seedInt8_ok)

lemma getByte_ok:
  assumes "sr_ok s"
  shows "sr_ok (snd (getByte time s))" "0 \<le> fst (getByte time s) \<and> fst (getByte time s) < 256"
    "state (snd (getByte time s)) \<noteq> None"
proof -
  define s1 where "s1 = (case state s of Some _ \<Rightarrow> s
    | None \<Rightarrow> (seedTime time s)\<lparr>state := Some (ARC4init (pool (seedTime time s)) Arcfour),
        poolCopyOnInit := pool (seedTime time s), pptr := 0\<rparr>)"
  have ok: "sr_ok s1" "state s1 \<noteq> None"
    using assms seedTime_ok(1) [OF assms, of time] ARC4init_ok [of Arcfour]
    by (auto simp: s1_def sr_ok_def Arcfour_def split: option.splits)
  then obtain g where g: "state s1 = Some g" "arc_ok g" by (auto simp: sr_ok_def)
  obtain b g' where n: "ARC4next g = (b, g')" by (rule prod.exhaust)
  have e: "getByte time s = (b, s1\<lparr>state := Some g'\<rparr>)"
    unfolding getByte_def Let_def s1_def [symmetric] by (simp add: g n)
  show "sr_ok (snd (getByte time s))" "0 \<le> fst (getByte time s) \<and> fst (getByte time s) < 256"
    "state (snd (getByte time s)) \<noteq> None"
    using ok ARC4next_ok [OF g(2)] by (simp_all add: e n sr_ok_def g(1))
qed

interpretation rng: byte_source "getByte time" sr_ok for time
  by unfold_locales (auto dest: getByte_ok)

lemma take_bytes_draw: "take_bytes time n None i s = draw (getByte time) n s"
  by (induction n arbitrary: i s) (simp_all add: Let_def split_def)

lemma take_bytes_state: "snd (take_bytes time n rv i s) = snd (draw (getByte time) n s)"
  by (induction n arbitrary: i s) (simp_all add: Let_def split_def)

lemma take_bytes_ok:
  assumes "sr_ok s" "\<forall>r. rv = Some r \<longrightarrow> (\<forall>i. 0 \<le> r i \<and> r i < 256)"
  shows "is_bytes (fst (take_bytes time n rv i s)) \<and> length (fst (take_bytes time n rv i s)) = n"
  using assms(1)
proof (induction n arbitrary: i s)
  case 0
  then show ?case by (simp add: is_bytes_def)
next
  case (Suc n)
  obtain b s1 where b: "getByte time s = (b, s1)" by (rule prod.exhaust)
  have s1: "sr_ok s1" "0 \<le> b" "b < 256" using getByte_ok [OF Suc.prems, of time] by (simp_all add: b)
  have x: "0 \<le> (case rv of None \<Rightarrow> b | Some r \<Rightarrow> js_xor b (r i)) \<and> (case rv of None \<Rightarrow> b | Some r \<Rightarrow> js_xor b (r i)) < 256"
    using s1 assms(2) by (auto split: option.splits intro!: js_xor_byte [THEN conjunct1] js_xor_byte [THEN conjunct2])
  show ?case using Suc.IH [OF s1(1), of "Suc i"] x
    by (cases "take_bytes time n rv (Suc i) s1") (simp add: b Let_def)
qed

lemma junk_loop_ok:
  assumes "\<forall>k. 0 \<le> random k \<and> random k < 1" "is_bytes p" "length p \<le> 256" "even (length p)"
  shows "is_bytes (fst (junk_loop random k p)) \<and> length (fst (junk_loop random k p)) = 256"
  using assms
proof (induction random k p rule: junk_loop.induct)
  case (1 random k p)
  show ?case
  proof (cases "int (length p) < poolSize")
    case True
    define t where "t = \<lfloor>65536 * random k\<rfloor>"
    have r: "0 \<le> random k" "random k < 1" using "1.prems"(1) by auto
    have t: "0 \<le> t" "t < 65536" unfolding t_def using r by (auto simp: floor_less_iff)
    have "js_ushr t 8 = t div 256" using t by (simp add: js_ushr_div)
    moreover have "t div 256 < 256" using t by (intro div_less_of_less_mult) auto
    ultimately have b: "is_bytes (p @ [js_ushr t 8, js_and t 255])"
      using "1.prems"(2) t byte_mask [of t] by (simp add: is_bytes_def digits_in_def)
    have "length p \<noteq> 255" using "1.prems"(4) by auto
    then have l: "length (p @ [js_ushr t 8, js_and t 255]) \<le> 256" "even (length (p @ [js_ushr t 8, js_and t 255]))"
      using True "1.prems"(3,4) by (auto simp: poolSize_def)
    show ?thesis using "1.IH" [OF True t_def "1.prems"(1) b l] True
      by (subst (1 2) junk_loop.simps) (simp add: Let_def t_def)
  next
    case False
    then show ?thesis using "1.prems" by (simp add: junk_loop.simps poolSize_def)
  qed
qed

lemma fold_seedInt8_ok: "sr_ok s \<Longrightarrow> sr_ok (fold seedInt8 xs s) \<and> state (fold seedInt8 xs s) = state s"
  by (induction xs arbitrary: s) (simp_all add: seedInt8_ok)

lemma sr_load_ok:
  assumes "\<forall>k. 0 \<le> random k \<and> random k < 1" "\<forall>r. rv = Some r \<longrightarrow> (\<forall>i. 0 \<le> r i \<and> r i < 256)"
  shows "sr_ok (sr_load time rv random b) \<and> state (sr_load time rv random b) = None"
proof -
  define p0 where "p0 = (case rv of None \<Rightarrow> [] | Some ua \<Rightarrow> map ua [0..<256])"
  obtain p k where pk: "junk_loop random 0 p0 = (p, k)" by (rule prod.exhaust)
  have "is_bytes p0" "length p0 \<le> 256" "even (length p0)"
    using assms(2) by (auto simp: p0_def is_bytes_def digits_in_def split: option.splits)
  then have p: "is_bytes p" "length p = 256" using junk_loop_ok [OF assms(1), of p0 0] pk by auto
  have r: "0 \<le> random k" "random k < 1" using assms(1) by auto
  have f: "0 \<le> \<lfloor>256 * random k\<rfloor>" "\<lfloor>256 * random k\<rfloor> < 256" using r by (auto simp: floor_less_iff)
  define s0 where "s0 = \<lparr>state = None, pool = p, pptr = \<lfloor>of_int poolSize * random k\<rfloor>, poolCopyOnInit = []\<rparr>"
  have s0: "sr_ok s0" "state s0 = None" using p f by (simp_all add: sr_ok_def s0_def poolSize_def)
  have "sr_load time rv random b = fold seedInt8 (SHA256_asBytes (utf8_bytes (entropyStr b))) (seedTime time s0)"
    unfolding sr_load_def Let_def p0_def [symmetric] pk s0_def by simp
  then show ?thesis using fold_seedInt8_ok [OF seedTime_ok(1) [OF s0(1)]] seedTime_ok(2) [OF s0(1)] s0(2) by simp
qed

section \<open>Properties\<close>

text \<open>
  C16: The state of the random generator is well formed when the page has loaded, whatever the browser
  offers, and every operation keeps it so: the pool has 256 bytes and a pointer into it, and ArcFour's
  table is a permutation of the bytes.
\<close>

theorem random_state_invariant:
  assumes "\<forall>k. 0 \<le> random k \<and> random k < 1" "\<forall>r. rv = Some r \<longrightarrow> (\<forall>i. 0 \<le> r i \<and> r i < 256)"
  shows "sr_ok (sr_load time rv random b) \<and>
    (\<forall>s. sr_ok s \<longrightarrow> (\<forall>x. sr_ok (seedInt8 x s) \<and> sr_ok (seedInt16 x s) \<and> sr_ok (seedInt x s) \<and> sr_ok (seedTime x s)
       \<and> sr_ok (snd (getByte x s)) \<and> (\<forall>v n. sr_ok (snd (nextBytes x v n s)))))"
proof (intro conjI allI impI)
  show "sr_ok (sr_load time rv random b)" using sr_load_ok [OF assms] by blast
  fix s x v n assume s: "sr_ok s"
  show "sr_ok (seedInt8 x s)" "sr_ok (seedInt16 x s)" "sr_ok (seedInt x s)" "sr_ok (seedTime x s)"
    using seedInt8_ok(1) [OF s] seedInt16_ok [OF s] seedTime_ok(1) [OF s] by (simp_all add: seedTime_def)
  show "sr_ok (snd (getByte x s))" by (rule getByte_ok(1) [OF s])
  show "sr_ok (snd (nextBytes x v n s))"
    using rng.draw_ok [OF s] by (simp add: nextBytes_def take_bytes_state)
qed

theorem random_state_invariant_witness:
  "\<forall>b. sr_ok (sr_load 5 (Some (\<lambda>i. 7)) (\<lambda>k. 1/2) b)"
  using random_state_invariant [of "\<lambda>k. 1/2" "Some (\<lambda>i. 7)" 5] by simp

text \<open>
  A request fills the whole array with bytes, with the browser's generator or without.
\<close>

theorem nextBytes_bytes:
  assumes "sr_ok s" "\<forall>r. rv = Some r \<longrightarrow> (\<forall>i. 0 \<le> r i \<and> r i < 256)"
  shows "is_bytes (fst (nextBytes time rv n s)) \<and> length (fst (nextBytes time rv n s)) = n"
  unfolding nextBytes_def using assms by (rule take_bytes_ok)

theorem nextBytes_bytes_witness:
  "\<forall>b. is_bytes (fst (nextBytes 9 None 3 (sr_load 5 None (\<lambda>k. 0) b))) \<and>
    length (fst (nextBytes 9 None 3 (sr_load 5 None (\<lambda>k. 0) b))) = 3"
  using nextBytes_bytes [of "sr_load 5 None (\<lambda>k. 0) b" None 9 3 for b] sr_load_ok [of "\<lambda>k. 0" None 5] by simp

lemma draw_fixed:
  "state s = Some g \<Longrightarrow> fst (draw (getByte t) n s) = fst (draw ARC4next n g) \<and>
     state (snd (draw (getByte t) n s)) = Some (snd (draw ARC4next n g))"
proof (induction n arbitrary: s g)
  case (Suc n)
  obtain b g' where n: "ARC4next g = (b, g')" by (rule prod.exhaust)
  have "getByte t s = (b, s\<lparr>state := Some g'\<rparr>)" using Suc.prems n by (simp add: getByte_def Let_def)
  then show ?case using Suc.IH [of "s\<lparr>state := Some g'\<rparr>" g'] n by (simp add: Let_def split_def)
qed simp

text \<open>
  C17: Once the first byte has been taken the stream is fixed: neither the clock nor anything that is mixed
  into the pool later changes the bytes that follow (the code notes it as a thing to do).
\<close>

theorem reseeding_ignored:
  assumes "sr_ok s"
  shows "fst (draw (getByte t1) n (seedInt x (snd (getByte t s)))) = fst (draw (getByte t2) n (snd (getByte t s)))"
proof -
  obtain g where g: "state (snd (getByte t s)) = Some g" using getByte_ok(3) [OF assms] by blast
  have "state (seedInt x (snd (getByte t s))) = Some g"
    using seedTime_ok(2) [OF getByte_ok(1) [OF assms, of t], of x] g by (simp add: seedTime_def)
  then show ?thesis using draw_fixed [OF g, of t2] draw_fixed [of "seedInt x (snd (getByte t s))" g t1] by simp
qed

theorem reseeding_ignored_witness:
  "\<forall>b. fst (draw (getByte 1) 2 (seedInt 77 (snd (getByte 0 (sr_load 5 None (\<lambda>k. 0) b))))) =
   fst (draw (getByte 2) 2 (snd (getByte 0 (sr_load 5 None (\<lambda>k. 0) b))))"
  using reseeding_ignored [of "sr_load 5 None (\<lambda>k. 0) b" for b] sr_load_ok [of "\<lambda>k. 0" None 5] by simp

end
