(* ===== verification/BigNum.thy ===== *)
theory BigNum
  imports BigMod SecureRandom
begin

text \<open>
  \<open>src/biginteger.js\<close>: number theory on values: the binary extended Euclidean algorithm (\<open>modInverse\<close>),
  the binary gcd, the Miller-Rabin test with trial division, and random numbers. The methods called on the
  way (\<open>rShiftTo\<close>, \<open>subTo\<close>, \<open>compareTo\<close>, \<open>getLowestSetBit\<close>) are the operations on values that \<open>BigCore\<close>
  and \<open>BigBits\<close> prove the digit arrays to compute.
\<close>

section \<open>Inverse\<close>

text \<open>
  The two inner loops halve \<open>u\<close> (or \<open>v\<close>) and its coefficients; \<open>a\<close> and \<open>c\<close> are kept only for an even
  modulus (\<open>ac\<close>). A zero would be halved for ever: \<open>None\<close>.
\<close>

partial_function (option) halve_loop :: "bool \<Rightarrow> int \<Rightarrow> int \<Rightarrow> int \<Rightarrow> int \<Rightarrow> int \<Rightarrow> (int \<times> int \<times> int) option" where
  "halve_loop ac x m u a b =
     (if even u
      then let (a1, b1) = (if ac then (if odd a \<or> odd b then (a + x, b - m) else (a, b))
                           else (a, if odd b then b - m else b))
        in halve_loop ac x m (u div 2) (if ac then a1 div 2 else a1) (b1 div 2)
      else Some (u, a, b))"

partial_function (option) inv_loop :: "bool \<Rightarrow> int \<Rightarrow> int \<Rightarrow> int \<Rightarrow> int \<Rightarrow> int \<Rightarrow> int \<Rightarrow> int \<Rightarrow> int \<Rightarrow> (int \<times> int) option" where
  "inv_loop ac x m u v a b c d =
     (if u = 0 then Some (v, d)
      else Option.bind (halve_loop ac x m u a b) (\<lambda>(u, a, b).
           Option.bind (halve_loop ac x m v c d) (\<lambda>(v, c, d).
             if u \<ge> v then inv_loop ac x m (u - v) v (if ac then a - c else a) (b - d) c d
             else inv_loop ac x m u (v - u) a b (if ac then c - a else c) (d - b))))"

function sub_while :: "int \<Rightarrow> int \<Rightarrow> int" where
  "sub_while m d = (if d \<ge> m \<and> 0 < m then sub_while m (d - m) else d)"
  by pat_completeness auto
termination by (relation "measure (\<lambda>(m, d). nat d)") auto

function add_while :: "int \<Rightarrow> int \<Rightarrow> int" where
  "add_while m d = (if d < 0 \<and> 0 < m then add_while m (d + m) else d)"
  by pat_completeness auto
termination by (relation "measure (\<lambda>(m, d). nat (- d))") auto

declare sub_while.simps [simp del] add_while.simps [simp del]

definition modInverse :: "int \<Rightarrow> int \<Rightarrow> int option result" where
  "modInverse this m =
     (let ac = even m
      in if this = 0 then Inl ''division by zero''
         else if (even this \<and> ac) \<or> m = 0 then Inr (Some 0)
         else Inr (map_option
             (\<lambda>(v, d). if v \<noteq> 1 then 0 else add_while m (sub_while m d))
             (inv_loop ac this m m this 1 0 0 1)))"

section \<open>Greatest common divisor\<close>

definition lowest_bit :: "int \<Rightarrow> int" where
  "lowest_bit v = getLowestSetBit Netscape (big_of Netscape v)"

definition strip_zeros :: "int \<Rightarrow> int" where
  "strip_zeros x = (let i = lowest_bit x in if i > 0 then x div 2 ^ nat i else x)"

partial_function (option) gcd_loop :: "int \<Rightarrow> int \<Rightarrow> int option" where
  "gcd_loop x y =
     (if x > 0
      then let x1 = strip_zeros x; y1 = strip_zeros y
        in if x1 \<ge> y1 then gcd_loop ((x1 - y1) div 2) y1
           else gcd_loop x1 ((y1 - x1) div 2)
      else Some y)"

definition gcd_big :: "int \<Rightarrow> int \<Rightarrow> int option" where
  "gcd_big this a =
     (let x0 = \<bar>this\<bar>; y0 = \<bar>a\<bar>;
          (x, y) = (if x0 < y0 then (y0, x0) else (x0, y0));
          i = lowest_bit x; g = lowest_bit y
      in if g < 0 then Some x
         else let g = (if i < g then i else g);
                  (x, y) = (if g > 0 then (x div 2 ^ nat g, y div 2 ^ nat g) else (x, y))
           in map_option (\<lambda>y. if g > 0 then y * 2 ^ nat g else y) (gcd_loop x y))"

section \<open>Primality\<close>

definition lowprimes :: "int list" where
  "lowprimes = [2, 3, 5, 7, 11, 13, 17, 19, 23, 29, 31, 37, 41, 43, 47, 53, 59, 61, 67, 71, 73, 79, 83, 89, 97,
     101, 103, 107, 109, 113, 127, 131, 137, 139, 149, 151, 157, 163, 167, 173, 179, 181, 191, 193, 197, 199,
     211, 223, 227, 229, 233, 239, 241, 251, 257, 263, 269, 271, 277, 281, 283, 293, 307, 311, 313, 317, 331,
     337, 347, 349, 353, 359, 367, 373, 379, 383, 389, 397, 401, 409, 419, 421, 431, 433, 439, 443, 449, 457,
     461, 463, 467, 479, 487, 491, 499, 503, 509, 521, 523, 541, 547, 557, 563, 569, 571, 577, 587, 593, 599,
     601, 607, 613, 617, 619, 631, 641, 643, 647, 653, 659, 661, 673, 677, 683, 691, 701, 709, 719, 727, 733,
     739, 743, 751, 757, 761, 769, 773, 787, 797, 809, 811, 821, 823, 827, 829, 839, 853, 857, 859, 863, 877,
     881, 883, 887, 907, 911, 919, 929, 937, 941, 947, 953, 967, 971, 977, 983, 991, 997]"

text \<open>\<open>lplim\<close> is not an integer; \<open>m < lplim\<close> is asked of integers only.\<close>

definition below_lplim :: "int \<Rightarrow> bool" where
  "below_lplim m \<longleftrightarrow> m * last lowprimes < js_shl 1 26"

text \<open>The squarings of one witness: \<open>Some False\<close> when \<open>1\<close> is met, \<open>Some True\<close> when the loop ends on \<open>n1\<close>.\<close>

fun witness_loop :: "engine \<Rightarrow> int \<Rightarrow> int \<Rightarrow> nat \<Rightarrow> int \<Rightarrow> bool" where
  "witness_loop eng n n1 0 y = (y = n1)"
| "witness_loop eng n n1 (Suc j) y =
     (if y \<noteq> n1
      then let y' = modPowInt eng y 2 n in if y' = 1 then False else witness_loop eng n n1 j y'
      else True)"

fun mr_rounds :: "engine \<Rightarrow> (nat \<Rightarrow> rat) \<Rightarrow> int \<Rightarrow> int \<Rightarrow> int \<Rightarrow> int \<Rightarrow> nat \<Rightarrow> nat \<Rightarrow> bool option" where
  "mr_rounds eng random n n1 k r i 0 = Some True"
| "mr_rounds eng random n n1 k r i (Suc t) =
     (let a = lowprimes ! nat \<lfloor>random i * of_nat (length lowprimes)\<rfloor>
      in Option.bind (modPow eng a r n) (\<lambda>y.
           if y \<noteq> 1 \<and> y \<noteq> n1 \<and> \<not> witness_loop eng n n1 (nat (k - 1)) y then Some False
           else mr_rounds eng random n n1 k r (Suc i) t))"

definition millerRabin :: "engine \<Rightarrow> (nat \<Rightarrow> rat) \<Rightarrow> int \<Rightarrow> int \<Rightarrow> bool option" where
  "millerRabin eng random this t =
     (let n1 = this - 1; k = lowest_bit n1
      in if k \<le> 0 then Some False
         else let r = n1 div 2 ^ nat k; t = js_shr (t + 1) 1;
                  t = (if t > int (length lowprimes) then int (length lowprimes) else t)
           in mr_rounds eng random this n1 k r 0 (nat t))"

text \<open>Trial division: products of small primes are divided out together, starting at the second prime.\<close>

function group_loop :: "int \<Rightarrow> nat \<Rightarrow> int \<times> nat" where
  "group_loop m j = (if j < length lowprimes \<and> below_lplim m then group_loop (m * lowprimes ! j) (Suc j) else (m, j))"
  by pat_completeness auto
termination by (relation "measure (\<lambda>(m, j). length lowprimes - j)") auto

declare group_loop.simps [simp del]

lemma group_loop_ge: "j \<le> snd (group_loop m j)"
  by (induction m j rule: group_loop.induct) (subst group_loop.simps, auto)

function trial_loop :: "int \<Rightarrow> nat \<Rightarrow> bool" where
  "trial_loop x i =
     (if i < length lowprimes
      then let (m0, j) = group_loop (lowprimes ! i) (Suc i); m = x mod m0
        in (\<forall>p\<in>set (take (j - i) (drop i lowprimes)). m mod p \<noteq> 0) \<and> trial_loop x j
      else True)"
  by pat_completeness auto
termination
proof (relation "measure (\<lambda>(x, i). length lowprimes - i)", goal_cases)
  case (2 x i p m0 j m)
  then show ?case using group_loop_ge [of "Suc i" "lowprimes ! i"] by (metis Suc_le_lessD diff_less_mono2 in_measure snd_conv split_conv)
qed simp

declare trial_loop.simps [simp del]

definition isProbablePrime :: "engine \<Rightarrow> (nat \<Rightarrow> rat) \<Rightarrow> int \<Rightarrow> int \<Rightarrow> bool option" where
  "isProbablePrime eng random this t =
     (let x = \<bar>this\<bar>
      in if n_digits eng x = 1 \<and> x \<le> last lowprimes then Some (x \<in> set lowprimes)
         else if even x then Some False
         else if trial_loop x 1 then millerRabin eng random x t else Some False)"

section \<open>Random numbers\<close>

text \<open>\<open>new BigInteger(a, rng)\<close>: \<open>bytes\<close> are those that \<open>nextBytes\<close> fills in.\<close>

definition random_bits :: "int \<Rightarrow> int list \<Rightarrow> int" where
  "random_bits a bytes =
     (let t = js_and a 7;
          x = (if t > 0 then js_set bytes 0 (js_and (js_num bytes 0) (js_shl 1 t - 1)) else js_set bytes 0 0)
      in be_signed x)"

definition random_length :: "int \<Rightarrow> nat" where
  "random_length a = nat (js_shr a 3 + 1)"

definition fromNumber :: "int \<Rightarrow> int \<Rightarrow> (nat \<Rightarrow> int) option \<Rightarrow> sr \<Rightarrow> int \<times> sr" where
  "fromNumber a time rv s =
     (let (bytes, s') = nextBytes time rv (random_length a) s in (random_bits a bytes, s'))"

text \<open>The search for a probable prime of \<open>a\<close> bits, from the random start \<open>x\<close>.\<close>

partial_function (option) prime_search :: "engine \<Rightarrow> (nat \<Rightarrow> rat) \<Rightarrow> int \<Rightarrow> int \<Rightarrow> int \<Rightarrow> int option" where
  "prime_search eng random a certainty x =
     Option.bind (isProbablePrime eng random x certainty) (\<lambda>p.
       if p then Some x
       else let x1 = x + 2; x2 = (if bitLength eng (big_of eng x1) > a then x1 - 2 ^ nat (a - 1) else x1)
         in prime_search eng random a certainty x2)"

definition random_prime :: "engine \<Rightarrow> (nat \<Rightarrow> rat) \<Rightarrow> int \<Rightarrow> int \<Rightarrow> int \<Rightarrow> int option" where
  "random_prime eng random a certainty x0 =
     (if a < 2 then Some 1
      else let x = (if \<not> bit x0 (nat (a - 1)) then x0 OR 2 ^ nat (a - 1) else x0);
               x = (if even x then x + 1 else x)
        in prime_search eng random a certainty x)"

end
