(* ===== verification/BigRadix.thy ===== *)
theory BigRadix
  imports BigBits
begin

text \<open>
  \<open>src/biginteger.js\<close>: text in a radix that is not a power of two, which is read and written in chunks of
  as many digits as fit into one digit of the array, and the dispatch between the two kinds of radix.
\<close>

section \<open>Model\<close>

text \<open>
  \<open>chunkSize(r)\<close> is \<open>floor(ln 2 * DB / ln r)\<close>: the number of digits in radix \<open>r\<close> whose power stays below
  \<open>2^DB\<close>. It is computed here as that number. The logarithms are Numbers, but for the radices that come here
  (no power of two) the quotient is never near an integer, so that the floor is the same.
\<close>

function chunk_loop :: "engine \<Rightarrow> int \<Rightarrow> int \<Rightarrow> nat" where
  "chunk_loop e r p = (if r < 2 \<or> p < 1 \<or> DV e < p * r then 0 else Suc (chunk_loop e r (p * r)))"
  by pat_completeness auto
termination
proof (relation "measure (\<lambda>(e, r, p). nat (DV e + 1 - p))")
  fix e r p assume a: "\<not> (r < 2 \<or> p < 1 \<or> DV e < p * r)"
  then have "p * 2 \<le> p * r" by (intro mult_left_mono) auto
  then have "nat (DV e + 1 - p * r) < nat (DV e + 1 - p)" using a by linarith
  then show "((e, r, p * r), (e, r, p)) \<in> measure (\<lambda>(e, r, p). nat (DV e + 1 - p))" by simp
qed simp

declare chunk_loop.simps [simp del]

definition chunkSize :: "engine \<Rightarrow> int \<Rightarrow> nat" where
  "chunkSize e r = chunk_loop e r 1"

text \<open>One character of \<open>fromRadix\<close>: the state is the number, the sign seen, the count and the chunk.\<close>

definition fr_step :: "engine \<Rightarrow> int \<Rightarrow> nat \<Rightarrow> int \<Rightarrow> char \<Rightarrow> big \<times> bool \<times> nat \<times> int \<Rightarrow> big \<times> bool \<times> nat \<times> int" where
  "fr_step e b cs d c = (\<lambda>(this, mi, j, w).
     let x = intAt c
     in if x < 0 then (this, (if c = CHR ''-'' \<and> signum this = 0 then True else mi), j, w)
        else let w' = b * w + x; j' = Suc j
          in if j' \<ge> cs then (dAddOffset e w' 0 (dMultiply e d this), mi, 0, 0) else (this, mi, j', w'))"

definition fromRadix :: "engine \<Rightarrow> string \<Rightarrow> int option \<Rightarrow> big" where
  "fromRadix e s rx =
     (let b = (case rx of None \<Rightarrow> 10 | Some b \<Rightarrow> b);
          cs = chunkSize e b; d = b ^ cs;
          (this, mi, j, w) = fold (fr_step e b cs d) s (fromInt e 0, False, 0, 0);
          this = (if j > 0 then dAddOffset e w 0 (dMultiply e (b ^ j) this) else this)
      in if mi then subTo e (ZERO e) this else this)"

text \<open>\<open>toRadix\<close> on values; \<open>y\<close> and \<open>z\<close> are the quotient and the remainder by \<open>a\<close>.\<close>

function tr_loop :: "int \<Rightarrow> int \<Rightarrow> int \<Rightarrow> int \<Rightarrow> string \<Rightarrow> int \<times> string" where
  "tr_loop b a y z r =
     (if y > 0 \<and> a \<ge> 2 then tr_loop b a (y div a) (y mod a) (drop 1 (num_str b (a + z)) @ r) else (z, r))"
  by pat_completeness auto
termination
  by (relation "measure (\<lambda>(b, a, y, z, r). nat y)") (auto intro!: div_less_of_less_mult simp: zless_nat_eq_int_zless)

declare tr_loop.simps [simp del]

definition toRadix :: "engine \<Rightarrow> int \<Rightarrow> int option \<Rightarrow> string" where
  "toRadix e v rx =
     (let b = (case rx of None \<Rightarrow> 10 | Some b \<Rightarrow> b)
      in if v = 0 \<or> b < 2 \<or> b > 36 then ''0''
         else let a = b ^ chunkSize e b; (z, r) = tr_loop b a (v div a) (v mod a) []
           in num_str b z @ r)"

text \<open>\<open>toString(b)\<close>: powers of two are cut out of the bits, any other radix goes to \<open>toRadix\<close>.\<close>

definition toString :: "engine \<Rightarrow> big \<Rightarrow> int option \<Rightarrow> string" where
  "toString e this rx =
     (case (case rx of None \<Rightarrow> None | Some b \<Rightarrow> if b = 256 then None else radix_bits b) of
        Some k \<Rightarrow> toString_pow2 e k this
      | None \<Rightarrow> if sg this < 0 then CHR ''-'' # toRadix e (bval e (negate e this)) rx
          else toRadix e (bval e this) rx)"

text \<open>\<open>new BigInteger(s, b)\<close> and \<open>new BigInteger(bytes)\<close>.\<close>

definition of_text :: "engine \<Rightarrow> string \<Rightarrow> int option \<Rightarrow> big" where
  "of_text e s rx =
     (case (case rx of None \<Rightarrow> None | Some b \<Rightarrow> radix_bits b) of
        Some k \<Rightarrow> fromString e s k
      | None \<Rightarrow> fromRadix e s rx)"

definition new_BigInteger :: "engine \<Rightarrow> string + int list \<Rightarrow> int option \<Rightarrow> big" where
  "new_BigInteger e a b = (case a of Inl s \<Rightarrow> of_text e s b | Inr bytes \<Rightarrow> fromBytes e bytes)"

section \<open>Chunks\<close>

lemma chunk_loop_ok: "2 \<le> r \<Longrightarrow> 1 \<le> p \<Longrightarrow> p \<le> DV e \<Longrightarrow> p * r ^ chunk_loop e r p \<le> DV e"
proof (induction e r p rule: chunk_loop.induct)
  case (1 e r p)
  show ?case
  proof (cases "DV e < p * r")
    case True
    then show ?thesis using "1.prems" by (simp add: chunk_loop.simps)
  next
    case False
    have "1 * 1 \<le> p * r" using "1.prems" by (intro mult_mono) auto
    then have "p * r * r ^ chunk_loop e r (p * r) \<le> DV e" using "1.IH" "1.prems" False by auto
    then show ?thesis using "1.prems" False by (subst chunk_loop.simps) (simp add: mult.assoc)
  qed
qed

lemma chunkSize_ok:
  assumes "2 \<le> r" "r \<le> 36"
  shows "1 \<le> chunkSize e r" "r ^ chunkSize e r \<le> DV e"
proof -
  show "r ^ chunkSize e r \<le> DV e"
    using chunk_loop_ok [of r 1 e] assms DV_bounds(1) [of e] by (simp add: chunkSize_def)
  have "\<not> DV e < 1 * r" using assms DV_bounds(4) [of e] by simp
  then show "1 \<le> chunkSize e r" using assms unfolding chunkSize_def by (subst chunk_loop.simps) simp
qed

section \<open>Reading\<close>

lemma intAt_digit: "parseInt1 c b \<noteq> None \<Longrightarrow> intAt c = the (char_digit c) \<and> 0 \<le> intAt c \<and> intAt c < b"
  by (auto simp: parseInt1_def intAt_def split: option.splits if_splits dest: char_digit_nonneg)

definition fr_inv :: "engine \<Rightarrow> int \<Rightarrow> nat \<Rightarrow> int \<Rightarrow> bool \<Rightarrow> big \<times> bool \<times> nat \<times> int \<Rightarrow> bool" where
  "fr_inv e b cs V m st \<longleftrightarrow> (case st of (this, mi, j, w) \<Rightarrow>
     ok_big e this \<and> sg this = 0 \<and> j < cs \<and> 0 \<le> w \<and> w < b ^ j \<and> bval e this * b ^ j + w = V \<and> mi = m)"

lemma fr_step_ok:
  assumes "fr_inv e b cs V m st" "parseInt1 c b \<noteq> None" "2 \<le> b" "b ^ cs \<le> DV e"
  shows "fr_inv e b cs (b * V + intAt c) m (fr_step e b cs (b ^ cs) c st)"
proof -
  obtain this mi j w where st: "st = (this, mi, j, w)" by (metis prod_cases4)
  have i: "ok_big e this" "sg this = 0" "j < cs" "0 \<le> w" "w < b ^ j" "bval e this * b ^ j + w = V" "mi = m"
    using assms(1) by (auto simp: fr_inv_def st)
  have x: "0 \<le> intAt c" "intAt c < b" using intAt_digit [OF assms(2)] by auto
  define w' where "w' = b * w + intAt c"
  have "b * w \<le> b * (b ^ j - 1)" using i(5) assms(3) by (intro mult_left_mono) auto
  then have w: "0 \<le> w'" "w' < b ^ Suc j"
    using x i(4) assms(3) unfolding w'_def by (auto simp: right_diff_distrib)
  have V: "bval e this * b ^ Suc j + w' = b * V + intAt c"
    unfolding w'_def i(6) [symmetric] by (simp add: algebra_simps)
  show ?thesis
  proof (cases "Suc j \<ge> cs")
    case True
    then have j: "Suc j = cs" using i(3) by simp
    have b: "1 \<le> b ^ cs" using assms(3) by simp
    note dm = dMultiply_ok [OF i(1,2) b assms(4)]
    have w2: "w' < DV e" using w(2) assms(4) j by simp
    note da = dAddOffset_ok [OF dm(1,3) w(1) w2, of 0]
    have "0 < cs" using i(3) by simp
    then show ?thesis using da dm(2) V True x i(7) j
      by (simp add: st fr_step_def fr_inv_def w'_def [symmetric] Let_def)
  next
    case False
    then show ?thesis using i w V x by (simp add: st fr_step_def fr_inv_def w'_def [symmetric] Let_def del: power_Suc)
  qed
qed

lemma fr_fold_ok:
  assumes "fr_inv e b cs V m st" "str_digits b s" "2 \<le> b" "b ^ cs \<le> DV e"
  shows "fr_inv e b cs (V * b ^ length s + str_int b s) m (fold (fr_step e b cs (b ^ cs)) s st)"
  using assms(1,2)
proof (induction s arbitrary: V st)
  case (Cons c s)
  have c: "parseInt1 c b \<noteq> None" "str_digits b s" using Cons.prems(2) by (auto simp: str_digits_def)
  have "fr_inv e b cs (b * V + intAt c) m (fr_step e b cs (b ^ cs) c st)"
    by (rule fr_step_ok [OF Cons.prems(1) c(1) assms(3,4)])
  from Cons.IH [OF this c(2)] have "fr_inv e b cs ((b * V + intAt c) * b ^ length s + str_int b s) m
      (fold (fr_step e b cs (b ^ cs)) (c # s) st)" by simp
  moreover have "str_int b (c # s) = intAt c * b ^ length s + str_int b s"
    using intAt_digit [OF c(1)] unfolding str_int_def foldl_horner by (simp add: val_append)
  ultimately show ?case by (simp add: algebra_simps)
qed (simp add: str_int_def)

lemma fromInt0: "ok_big e (fromInt e 0)" "bval e (fromInt e 0) = 0" "sg (fromInt e 0) = 0"
  using ZERO_ok [of e] by (simp_all add: ZERO_def fromInt_def)

lemma fromRadix_ok:
  assumes b: "2 \<le> b" "b \<le> 36" and s: "str_digits b s"
  shows "ok_big e (fromRadix e s (Some b))" "bval e (fromRadix e s (Some b)) = str_int b s"
    "ok_big e (fromRadix e (CHR ''-'' # s) (Some b))" "bval e (fromRadix e (CHR ''-'' # s) (Some b)) = - str_int b s"
proof -
  define cs where "cs = chunkSize e b"
  note cs = chunkSize_ok [OF b, of e, folded cs_def]
  define fin where "fin = (\<lambda>(this, mi, j, w). let this = (if j > 0 then dAddOffset e w 0 (dMultiply e (b ^ j) this) else this)
      in if mi then subTo e (ZERO e) this else this)"
  have fr: "fromRadix e t (Some b) = fin (fold (fr_step e b cs (b ^ cs)) t (fromInt e 0, False, 0, 0))" for t
    unfolding fromRadix_def fin_def cs_def by (simp add: Let_def split_def)
  have fin: "ok_big e (fin st) \<and> bval e (fin st) = (if m then - V else V)" if inv: "fr_inv e b cs V m st" for m V st
  proof -
    obtain this mi j w where st: "st = (this, mi, j, w)" by (metis prod_cases4)
    have i: "ok_big e this" "sg this = 0" "j < cs" "0 \<le> w" "w < b ^ j" "bval e this * b ^ j + w = V" "mi = m"
      using inv by (auto simp: fr_inv_def st)
    have "b ^ j \<le> b ^ cs" using i(3) b by (intro power_increasing) auto
    with cs(2) have "b ^ j \<le> DV e" by (rule order_trans [rotated])
    moreover have "1 \<le> b ^ j" using b by simp
    ultimately have bj: "1 \<le> b ^ j" "b ^ j \<le> DV e" by simp_all
    note dm = dMultiply_ok [OF i(1,2) bj]
    have "w < DV e" using i(5) bj(2) by simp
    note da = dAddOffset_ok [OF dm(1,3) i(4) this, of 0]
    define th where "th = (if j > 0 then dAddOffset e w 0 (dMultiply e (b ^ j) this) else this)"
    have th: "ok_big e th" "bval e th = V" using da dm i by (auto simp: th_def)
    then show ?thesis using negate_ok [of e th] i(7)
      by (simp add: st fin_def Let_def th_def [symmetric] ok_big_def negate_def)
  qed
  have start: "fr_inv e b cs 0 m (fromInt e 0, m, 0, 0)" for m
    using cs(1) fromInt0 [of e] by (simp add: fr_inv_def)
  have "fr_inv e b cs (str_int b s) False (fold (fr_step e b cs (b ^ cs)) s (fromInt e 0, False, 0, 0))"
    using fr_fold_ok [OF start s b(1) cs(2)] by simp
  from fin [OF this] show "ok_big e (fromRadix e s (Some b))" "bval e (fromRadix e s (Some b)) = str_int b s"
    unfolding fr by simp_all
  have "intAt CHR ''-'' = -1" by (simp add: intAt_def char_digit_def)
  then have m: "fr_step e b cs (b ^ cs) CHR ''-'' (fromInt e 0, False, 0, 0) = (fromInt e 0, True, 0, 0)"
    by (simp add: fr_step_def signum_def fromInt_def)
  have "fr_inv e b cs (str_int b s) True (fold (fr_step e b cs (b ^ cs)) s (fromInt e 0, True, 0, 0))"
    using fr_fold_ok [OF start s b(1) cs(2)] by simp
  from fin [OF this] show "ok_big e (fromRadix e (CHR ''-'' # s) (Some b))" "bval e (fromRadix e (CHR ''-'' # s) (Some b)) = - str_int b s"
    unfolding fr by (simp_all add: m)
qed

section \<open>Writing\<close>

lemma map_digit_split:
  assumes b: "2 \<le> b" and z: "0 \<le> z" "z < b ^ cs" and y: "0 < y"
  shows "num_str b (y * b ^ cs + z) = num_str b y @ drop 1 (num_str b (b ^ cs + z))"
proof -
  define zd where "zd = to_digits b z @ replicate (cs - length (to_digits b z)) 0"
  note zo = to_digits_ok [OF b z(1)]
  have l: "length zd = cs" using length_to_digits [OF b z] by (simp add: zd_def)
  have v: "val b zd = z" using zo by (simp add: zd_def val_simps)
  have d: "digits_in b zd" using zo b by (auto simp: zd_def digits_in_def)
  have main: "to_digits b (n * b ^ cs + z) = zd @ to_digits b n" if n: "0 < n" for n
  proof -
    note no = to_digits_ok [OF b, of n]
    have ne: "to_digits b n \<noteq> []" using n b by (simp add: to_digits_pos)
    have "val b (zd @ to_digits b n) = n * b ^ cs + z"
      using no n by (simp add: val_append v l mult.commute)
    moreover have "digits_in b (zd @ to_digits b n)" using d no n by (auto simp: digits_in_def)
    moreover have "no_lead0 (zd @ to_digits b n)" using no n ne by (simp add: no_lead0_def)
    ultimately show ?thesis using to_digits_val [OF b] by metis
  qed
  have "to_digits b 1 = [1]" using b by (simp add: to_digits_pos)
  then have one: "num_str b (b ^ cs + z) = digit_char 1 # map digit_char (rev zd)"
    using main [of 1] b z(1) by (simp add: num_str_def add_nonneg_eq_0_iff)
  have "y * b ^ cs + z \<noteq> 0" using y z b by (simp add: add_nonneg_eq_0_iff)
  then show ?thesis using main [OF y] one y by (simp add: num_str_def)
qed

lemma tr_loop_ok:
  assumes "2 \<le> b" "a = b ^ cs" "2 \<le> a" "0 \<le> y" "0 \<le> z" "z < a"
  shows "case tr_loop b a y z r of (z', r') \<Rightarrow> num_str b z' @ r' = num_str b (y * a + z) @ r"
  using assms
proof (induction b a y z r rule: tr_loop.induct)
  case (1 b a y z r)
  show ?case
  proof (cases "y > 0 \<and> a \<ge> 2")
    case True
    have m: "0 \<le> y div a" "0 \<le> y mod a" "y mod a < a" using "1.prems" by (simp_all add: div_nonneg)
    have "case tr_loop b a (y div a) (y mod a) (drop 1 (num_str b (a + z)) @ r) of
        (z', r') \<Rightarrow> num_str b z' @ r' = num_str b (y div a * a + y mod a) @ drop 1 (num_str b (a + z)) @ r"
      using "1.IH" [OF True "1.prems"(1,2,3) m] .
    also have "y div a * a + y mod a = y" by simp
    finally show ?thesis
      using True "1.prems" map_digit_split [of b z cs y] by (subst tr_loop.simps) simp
  next
    case False
    then have "y = 0" using "1.prems" by simp
    then show ?thesis by (simp add: tr_loop.simps)
  qed
qed

lemma toRadix_ok:
  assumes b: "2 \<le> b" "b \<le> 36" and v: "0 \<le> v"
  shows "toRadix e v (Some b) = num_str b v"
proof (cases "v = 0")
  case True
  then show ?thesis by (simp add: toRadix_def num_str_def)
next
  case False
  define a where "a = b ^ chunkSize e b"
  have "b ^ 1 \<le> a" unfolding a_def using chunkSize_ok(1) [OF b, of e] b by (intro power_increasing) auto
  then have a: "2 \<le> a" using b by simp
  obtain z r where zr: "tr_loop b a (v div a) (v mod a) [] = (z, r)" by (rule prod.exhaust)
  have "num_str b z @ r = num_str b (v div a * a + v mod a)"
    using tr_loop_ok [OF b(1) a_def a, of "v div a" "v mod a" "[]"] zr v a by (simp add: div_nonneg)
  then show ?thesis using False b zr by (simp add: toRadix_def a_def [symmetric])
qed

lemma radix_bits_ok: "radix_bits b = Some k \<Longrightarrow> \<exists>K. k = int K \<and> 1 \<le> K \<and> K \<le> 8 \<and> b = 2 ^ K"
proof -
  assume a: "radix_bits b = Some k"
  then consider "b = 16" "k = 4" | "b = 8" "k = 3" | "b = 256" "k = 8" | "b = 2" "k = 1" | "b = 32" "k = 5" | "b = 4" "k = 2"
    by (auto simp: radix_bits_def split: if_splits)
  then show ?thesis
    by cases (intro exI [of _ 4], simp, intro exI [of _ 3], simp, intro exI [of _ 8], simp,
      intro exI [of _ 1], simp, intro exI [of _ 5], simp, intro exI [of _ 2], simp)
qed

lemma toString_ok:
  assumes x: "ok_big e x" and b: "2 \<le> b" "b \<le> 36"
  shows "toString e x (Some b) =
    (if bval e x < 0 then CHR ''-'' # num_str b (- bval e x) else num_str b (bval e x))"
proof (cases "radix_bits b")
  case None
  have wf: "wf_big e x" using x by (simp add: ok_big_def)
  then show ?thesis using None b sg_iff [OF wf] negate_ok(2) [OF wf]
    by (simp add: toString_def toRadix_ok)
next
  case (Some k)
  then obtain K where K: "k = int K" "1 \<le> K" "K \<le> 8" "b = 2 ^ K" using radix_bits_ok by blast
  show ?thesis using toString_pow2_ok [OF x K(2,3)] Some b K by (simp add: toString_def)
qed

section \<open>Text and back\<close>

lemma fs_chars_digits:
  assumes "\<forall>c\<in>set cs. 0 \<le> intAt c"
  shows "fs_chars e k (cs @ ds) False st = fs_chars e k ds False (fold (\<lambda>c. fs_step e k (intAt c)) cs st)"
  using assms by (induction cs arbitrary: st) (auto simp: Let_def)

lemma fromString_ok:
  assumes K: "1 \<le> K" "K \<le> 5" and s: "str_digits (2 ^ K) s"
  shows "ok_big e (fromString e s (int K))" "bval e (fromString e s (int K)) = str_int (2 ^ K) s"
    "ok_big e (fromString e (CHR ''-'' # s) (int K))" "bval e (fromString e (CHR ''-'' # s) (int K)) = - str_int (2 ^ K) s"
proof -
  have d: "0 \<le> intAt c \<and> intAt c < 2 ^ K \<and> intAt c = the (char_digit c)" if "c \<in> set s" for c
    using s that intAt_digit [of c "2 ^ K"] by (auto simp: str_digits_def list_all_iff)
  obtain ds sh where st: "fold (\<lambda>c. fs_step e (int K) (intAt c)) (rev s) ([], 0) = (ds, sh)" by (rule prod.exhaust)
  have "fs_inv e (0 + K * length (rev s)) (0 + val (2 ^ K) (map intAt (rev s)) * 2 ^ 0)
      (fold (\<lambda>c. fs_step e (int K) (intAt c)) (rev s) ([], 0))"
  proof (rule fs_fold [OF _ K(1) _ fs_inv_0])
    fix c assume "c \<in> set (rev s)"
    then have "c \<in> set s" by simp
    then show "0 \<le> intAt c \<and> intAt c < 2 ^ K" using d by blast
  next
    show "K \<le> 8" using K by simp
  qed
  moreover have "val (2 ^ K) (map intAt (rev s)) = str_int (2 ^ K) s"
  proof -
    have "map intAt (rev s) = rev (map (\<lambda>c. the (char_digit c)) s)" by (simp add: rev_map d)
    then show ?thesis by (simp add: str_int_def foldl_horner)
  qed
  ultimately have v: "digits_in (DV e) ds" "val (DV e) ds = str_int (2 ^ K) s" by (simp_all add: st fs_inv_def)
  define b where "b = clamp e \<lparr>digs = ds, sg = 0\<rparr>"
  have "wf_big e \<lparr>digs = ds, sg = 0\<rparr>" using v(1) by (simp add: wf_big_def)
  then have b: "ok_big e b" "bval e b = str_int (2 ^ K) s"
    using clamp_ok [of e "\<lparr>digs = ds, sg = 0\<rparr>"] v(2) by (simp_all add: b_def bval_def)
  have "\<forall>c\<in>set (rev s). 0 \<le> intAt c" unfolding set_rev using d by blast
  note f = fs_chars_digits [OF this, of e "int K"]
  have p: "fromString e s (int K) = b" using f [of "[]"] by (simp add: fromString_def st b_def)
  have "intAt CHR ''-'' < 0" by (simp add: intAt_def char_digit_def)
  then have m: "fromString e (CHR ''-'' # s) (int K) = subTo e (ZERO e) b"
    using f [of "''-''"] by (simp add: fromString_def st b_def Let_def)
  show "ok_big e (fromString e s (int K))" "bval e (fromString e s (int K)) = str_int (2 ^ K) s"
    using b by (simp_all add: p)
  show "ok_big e (fromString e (CHR ''-'' # s) (int K))" "bval e (fromString e (CHR ''-'' # s) (int K)) = - str_int (2 ^ K) s"
    using negate_ok [of e b] b by (simp_all add: m negate_def ok_big_def)
qed

lemma num_str_ok:
  assumes "2 \<le> b" "b \<le> 36" "0 \<le> v"
  shows "str_digits b (num_str b v)" "str_int b (num_str b v) = v"
proof -
  have d: "val b (to_digits b v) = v" "digits_in b (to_digits b v)" using to_digits_ok [OF assms(1,3)] by auto
  have z: "str_digits b ''0''" "str_int b ''0'' = 0"
    using assms by (simp_all add: str_digits_def str_int_def parseInt1_def char_digit_def)
  show "str_digits b (num_str b v)" "str_int b (num_str b v) = v"
    using str_int_digit_chars [OF d(2) assms(2)] d(1) z by (auto simp: num_str_def)
qed

lemma of_text_ok:
  assumes b: "2 \<le> b" "b \<le> 36" and s: "str_digits b s"
  shows "ok_big e (of_text e s (Some b)) \<and> bval e (of_text e s (Some b)) = str_int b s \<and>
    ok_big e (of_text e (CHR ''-'' # s) (Some b)) \<and> bval e (of_text e (CHR ''-'' # s) (Some b)) = - str_int b s"
proof (cases "radix_bits b")
  case None
  then show ?thesis using fromRadix_ok [OF b s, of e] by (simp add: of_text_def)
next
  case (Some k)
  then obtain K where K: "k = int K" "1 \<le> K" "K \<le> 8" "b = 2 ^ K" using radix_bits_ok by blast
  have "K \<le> 5"
  proof (rule ccontr)
    assume "\<not> K \<le> 5"
    then have "(2::int) ^ 6 \<le> 2 ^ K" by (intro power_increasing) auto
    then show False using b K(4) by simp
  qed
  then show ?thesis using fromString_ok [OF K(2) _ s [unfolded K(4)], of e] Some K by (simp add: of_text_def)
qed

definition text_opt :: "engine \<Rightarrow> int \<Rightarrow> string \<Rightarrow> int option" where
  "text_opt e b s = Some (bval e (of_text e s (Some b)))"

text \<open>
  C20: In every radix from 2 to 36 the text of a number is its sign and the shortest numeral of its
  magnitude, and reading the text in that radix gives the number back, whether the radix is a power
  of two (bits cut out of the digits) or not (chunks of digits).
\<close>

theorem text_roundtrip:
  assumes "ok_big e x" "2 \<le> b" "b \<le> 36"
  shows "toString e x (Some b) = (if bval e x < 0 then CHR ''-'' # num_str b (- bval e x) else num_str b (bval e x)) \<and>
    of_text e (toString e x (Some b)) (Some b) = x"
proof -
  define s where "s = num_str b \<bar>bval e x\<bar>"
  have s: "str_digits b s" "str_int b s = \<bar>bval e x\<bar>" using num_str_ok [OF assms(2,3)] by (simp_all add: s_def)
  have t: "toString e x (Some b) = (if bval e x < 0 then CHR ''-'' # s else s)"
    using toString_ok [OF assms] by (simp add: s_def)
  have "ok_big e (of_text e (toString e x (Some b)) (Some b)) \<and> bval e (of_text e (toString e x (Some b)) (Some b)) = bval e x"
    using of_text_ok [OF assms(2,3) s(1), of e] s(2) by (simp add: t)
  then have "of_text e (toString e x (Some b)) (Some b) = x" using ok_big_unique assms(1) by blast
  then show ?thesis using toString_ok [OF assms] by simp
qed

theorem text_roundtrip_witness:
  "toString OtherBrowser (fromInt OtherBrowser (-1000)) (Some 10) = ''-'' @ num_str 10 1000 \<and>
   of_text OtherBrowser (toString OtherBrowser (fromInt OtherBrowser (-1000)) (Some 10)) (Some 10) = fromInt OtherBrowser (-1000)"
  using text_roundtrip [of OtherBrowser "fromInt OtherBrowser (-1000)" 10] fromInt_ok [of OtherBrowser "-1000"]
  by (simp add: DV_eq) metis

end
