(* ===== verification/EllipticCurve.thy ===== *)
theory EllipticCurve
  imports BigNum BigRadix
begin

text \<open>
  \<open>src/ellipticcurve.js\<close>: field elements, points in projective coordinates, scalar multiplication, point
  encodings and the curve secp256k1. Numbers are values. An exception is the left value of a \<open>result\<close>;
  so is \<open>LOOPS\<close>, for a call of \<open>modInverse\<close> that does not return.
\<close>

section \<open>Numbers\<close>

definition bit_len :: "int \<Rightarrow> int" where
  "bit_len v = bitLength Netscape (big_of Netscape v)"

definition LOOPS :: string where "LOOPS = ''(does not return)''"

definition inverse_mod :: "int \<Rightarrow> int \<Rightarrow> int result" where
  "inverse_mod x m =
     (case modInverse x m of Inl e \<Rightarrow> Inl e | Inr None \<Rightarrow> Inl LOOPS | Inr (Some v) \<Rightarrow> Inr v)"

definition power_mod :: "int \<Rightarrow> int \<Rightarrow> int \<Rightarrow> int result" where
  "power_mod x e m = (case modPow Netscape x e m of None \<Rightarrow> Inl LOOPS | Some v \<Rightarrow> Inr v)"

text \<open>\<open>new BigInteger(s, 16)\<close>\<close>

definition hex_val :: "string \<Rightarrow> int" where
  "hex_val s = bval Netscape (of_text Netscape s (Some 16))"

definition text_of :: "int \<Rightarrow> int \<Rightarrow> string" where
  "text_of v b = toString Netscape (big_of Netscape v) (Some b)"

section \<open>Field elements\<close>

record fe =
  fx :: int
  fq :: int

definition FieldElementFp :: "int \<Rightarrow> int \<Rightarrow> fe" where
  "FieldElementFp q x = \<lparr>fx = x, fq = q\<rparr>"

definition fe_equals :: "fe \<Rightarrow> fe \<Rightarrow> bool" where
  "fe_equals this other \<longleftrightarrow> fq this = fq other \<and> fx this = fx other"

definition toBigInteger :: "fe \<Rightarrow> int" where "toBigInteger this = fx this"

definition fe_negate :: "fe \<Rightarrow> fe" where
  "fe_negate this = FieldElementFp (fq this) ((- fx this) mod fq this)"

definition fe_add :: "fe \<Rightarrow> fe \<Rightarrow> fe" where
  "fe_add this b = FieldElementFp (fq this) ((fx this + toBigInteger b) mod fq this)"

definition fe_subtract :: "fe \<Rightarrow> fe \<Rightarrow> fe" where
  "fe_subtract this b = FieldElementFp (fq this) ((fx this - toBigInteger b) mod fq this)"

definition fe_multiply :: "fe \<Rightarrow> fe \<Rightarrow> fe" where
  "fe_multiply this b = FieldElementFp (fq this) ((fx this * toBigInteger b) mod fq this)"

definition fe_square :: "fe \<Rightarrow> fe" where
  "fe_square this = FieldElementFp (fq this) ((fx this * fx this) mod fq this)"

definition fe_divide :: "fe \<Rightarrow> fe \<Rightarrow> fe result" where
  "fe_divide this b =
     bind_result (inverse_mod (toBigInteger b) (fq this))
       (\<lambda>i. Inr (FieldElementFp (fq this) ((fx this * i) mod fq this)))"

definition getByteLength :: "fe \<Rightarrow> int" where
  "getByteLength this = (bit_len (toBigInteger this) + 7) div 8"

text \<open>
  \<open>fastLucasSequence\<close>: its start uses \<open>BigInteger.TWO\<close>, which no file defines. The parameter \<open>two\<close> is what
  it is; as the code stands it is \<open>undefined\<close> (\<open>None\<close>), and the first product with it is a \<open>TypeError\<close>.
\<close>

definition BigInteger_TWO :: "int option" where "BigInteger_TWO = None"

text \<open>The state is \<open>(Uh, Vl, Vh, Ql, Qh)\<close>.\<close>

type_synonym lucas = "int \<times> int \<times> int \<times> int \<times> int"

definition lucas_bit :: "int \<Rightarrow> int \<Rightarrow> int \<Rightarrow> bool \<Rightarrow> lucas \<Rightarrow> lucas" where
  "lucas_bit p P Q one = (\<lambda>(Uh, Vl, Vh, Ql0, Qh0).
     let Ql = Ql0 * Qh0 mod p
     in if one
        then let Qh = Ql * Q mod p
          in (Uh * Vh mod p, (Vh * Vl - P * Ql) mod p, (Vh * Vh - Qh * 2) mod p, Ql, Qh)
        else ((Uh * Vl - Ql) mod p, (Vl * Vl - Ql * 2) mod p, (Vh * Vl - P * Ql) mod p, Ql, Ql))"

fun lucas_bits :: "int \<Rightarrow> int \<Rightarrow> int \<Rightarrow> int \<Rightarrow> nat \<Rightarrow> nat \<Rightarrow> lucas \<Rightarrow> lucas" where
  "lucas_bits p P Q k s 0 st = st"
| "lucas_bits p P Q k s (Suc n) st = lucas_bits p P Q k s n (lucas_bit p P Q (bit k (s + Suc n)) st)"

definition lucas_double_step :: "int \<Rightarrow> int \<times> int \<times> int \<Rightarrow> int \<times> int \<times> int" where
  "lucas_double_step p = (\<lambda>(Uh, Vl, Ql). (Uh * Vl mod p, (Vl * Vl - Ql * 2) mod p, Ql * Ql mod p))"

fun lucas_double :: "int \<Rightarrow> nat \<Rightarrow> int \<times> int \<times> int \<Rightarrow> int \<times> int \<times> int" where
  "lucas_double p 0 st = st"
| "lucas_double p (Suc n) st = lucas_double p n (lucas_double_step p st)"

text \<open>The step between the two loops.\<close>

definition lucas_middle :: "int \<Rightarrow> int \<Rightarrow> int \<Rightarrow> lucas \<Rightarrow> int \<times> int \<times> int" where
  "lucas_middle p P Q = (\<lambda>(Uh, Vl, Vh, Ql0, Qh0).
     let Ql = Ql0 * Qh0 mod p; Qh = Ql * Q mod p
     in ((Uh * Vl - Ql) mod p, (Vh * Vl - P * Ql) mod p, Ql * Qh mod p))"

definition fastLucasSequence :: "int option \<Rightarrow> int \<Rightarrow> int \<Rightarrow> int \<Rightarrow> int \<Rightarrow> (int \<times> int) result" where
  "fastLucasSequence two p P Q k =
     (case two of
        None \<Rightarrow> Inl ''TypeError''
      | Some Vl0 \<Rightarrow>
          let n = nat (bit_len k); s = nat (lowest_bit k);
              st = lucas_bits p P Q k s (n - 1 - s) (1, Vl0, P, 1, 1);
              (Uh, Vl, Ql) = lucas_double p s (lucas_middle p P Q st)
          in Inr (Uh, Vl))"

text \<open>
  \<open>sqrt\<close>: \<open>rand\<close> gives the successive numbers of \<open>bitLength\<close> bits that are drawn. \<open>None\<close> is \<open>null\<close>.
  The search for \<open>P\<close> and the outer loop may go on for ever.
\<close>

partial_function (option) pick_P :: "(nat \<Rightarrow> int) \<Rightarrow> int \<Rightarrow> int \<Rightarrow> int \<Rightarrow> int \<Rightarrow> nat \<Rightarrow> (int \<times> nat) option" where
  "pick_P rand q fourQ legendreExponent qMinusOne i =
     (if rand i \<ge> q \<or> modPow Netscape (rand i * rand i - fourQ) legendreExponent q \<noteq> Some qMinusOne
      then pick_P rand q fourQ legendreExponent qMinusOne (Suc i)
      else Some (rand i, Suc i))"

partial_function (option) sqrt_loop :: "int option \<Rightarrow> (nat \<Rightarrow> int) \<Rightarrow> int \<Rightarrow> int \<Rightarrow> int \<Rightarrow> int \<Rightarrow> int \<Rightarrow> int \<Rightarrow> nat \<Rightarrow> fe option result option" where
  "sqrt_loop two rand q Q fourQ legendreExponent qMinusOne k i =
     Option.bind (pick_P rand q fourQ legendreExponent qMinusOne i) (\<lambda>(P, i').
       case fastLucasSequence two q P Q k of
         Inl e \<Rightarrow> Some (Inl e)
       | Inr (U, V) \<Rightarrow>
           if V * V mod q = fourQ
           then Some (Inr (Some (FieldElementFp q ((if odd V then V + q else V) div 2))))
           else if U = 1 \<or> U = qMinusOne then sqrt_loop two rand q Q fourQ legendreExponent qMinusOne k i'
           else Some (Inr None))"

definition fe_sqrt :: "(nat \<Rightarrow> int) \<Rightarrow> fe \<Rightarrow> fe option result" where
  "fe_sqrt rand this =
     (let q = fq this; x = fx this
      in if even q then Inl ''even value of q''
         else if bit q 1
         then bind_result (power_mod x (q div 4 + 1) q) (\<lambda>r.
             let z = FieldElementFp q r in Inr (if fe_equals (fe_square z) this then Some z else None))
         else let qMinusOne = q - 1; legendreExponent = qMinusOne div 2
           in bind_result (power_mod x legendreExponent q) (\<lambda>l.
                if l \<noteq> 1 then Inr None
                else let u = qMinusOne div 4; k = u * 2 + 1; Q = x; fourQ = Q * 4 mod q
                  in case sqrt_loop BigInteger_TWO rand q Q fourQ legendreExponent qMinusOne k 0 of
                       None \<Rightarrow> Inl LOOPS
                     | Some r \<Rightarrow> r))"

section \<open>Curves and points\<close>

record curve =
  cq :: int
  ca :: fe
  cb :: fe

definition fromBigInteger :: "curve \<Rightarrow> int \<Rightarrow> fe" where
  "fromBigInteger c x = FieldElementFp (cq c) x"

definition CurveFp :: "int \<Rightarrow> int \<Rightarrow> int \<Rightarrow> curve" where
  "CurveFp q a b = \<lparr>cq = q, ca = FieldElementFp q a, cb = FieldElementFp q b\<rparr>"

definition getQ :: "curve \<Rightarrow> int" where "getQ this = cq this"

definition getA :: "curve \<Rightarrow> fe" where "getA this = ca this"

definition getB :: "curve \<Rightarrow> fe" where "getB this = cb this"

definition curve_equals :: "curve \<Rightarrow> curve \<Rightarrow> bool" where
  "curve_equals this other \<longleftrightarrow> cq this = cq other \<and> fe_equals (ca this) (ca other) \<and> fe_equals (cb this) (cb other)"

text \<open>\<open>curve.reduce\<close>: Barrett reduction of the argument in place; the result is its new value.\<close>

definition curve_reduce :: "curve \<Rightarrow> int \<Rightarrow> int" where
  "curve_reduce this x = barrett_reduce Netscape (cq this) x"

text \<open>The coordinates are \<open>null\<close> (\<open>None\<close>) in the point at infinity.\<close>

record point =
  pcurve :: curve
  px :: "fe option"
  py :: "fe option"
  pz :: int
  zinv :: "int option"
  compressed :: bool

definition PointFp :: "curve \<Rightarrow> fe option \<Rightarrow> fe option \<Rightarrow> int option \<Rightarrow> bool \<Rightarrow> point" where
  "PointFp c x y z cmpr =
     \<lparr>pcurve = c, px = x, py = y, pz = (case z of None \<Rightarrow> 1 | Some z \<Rightarrow> z), zinv = None, compressed = cmpr\<rparr>"

definition getInfinity :: "curve \<Rightarrow> point" where
  "getInfinity this = PointFp this None None None False"

text \<open>\<open>this.x.toBigInteger()\<close>; a coordinate that is \<open>null\<close> is not read where the code works.\<close>

definition xval :: "point \<Rightarrow> int" where
  "xval p = (case px p of None \<Rightarrow> 0 | Some f \<Rightarrow> toBigInteger f)"

definition yval :: "point \<Rightarrow> int" where
  "yval p = (case py p of None \<Rightarrow> 0 | Some f \<Rightarrow> toBigInteger f)"

definition isInfinity :: "point \<Rightarrow> bool" where
  "isInfinity this = (if px this = None \<and> py this = None then True else pz this = 0 \<and> yval this \<noteq> 0)"

text \<open>The inverse of \<open>z\<close> is computed at the first use and kept in the point.\<close>

definition with_zinv :: "point \<Rightarrow> point result" where
  "with_zinv this =
     (case zinv this of
        Some _ \<Rightarrow> Inr this
      | None \<Rightarrow> bind_result (inverse_mod (pz this) (cq (pcurve this))) (\<lambda>i. Inr (this\<lparr>zinv := Some i\<rparr>)))"

definition affine :: "point \<Rightarrow> fe option \<Rightarrow> fe result" where
  "affine this coord =
     bind_result (with_zinv this) (\<lambda>p.
       case coord of
         None \<Rightarrow> Inl ''TypeError''
       | Some f \<Rightarrow> let r = toBigInteger f * the (zinv p) in Inr (fromBigInteger (pcurve p) (curve_reduce (pcurve p) r)))"

definition getX :: "point \<Rightarrow> fe result" where "getX this = affine this (px this)"

definition getY :: "point \<Rightarrow> fe result" where "getY this = affine this (py this)"

definition point_equals :: "point \<Rightarrow> point \<Rightarrow> bool" where
  "point_equals this other =
     (if isInfinity this then isInfinity other
      else if isInfinity other then isInfinity this
      else let q = cq (pcurve this); u = (yval other * pz this - yval this * pz other) mod q
        in if u \<noteq> 0 then False
           else let v = (xval other * pz this - xval this * pz other) mod q in v = 0)"

definition point_negate :: "point \<Rightarrow> point" where
  "point_negate this = PointFp (pcurve this) (px this) (map_option fe_negate (py this)) (Some (pz this)) False"

definition twice :: "point \<Rightarrow> point" where
  "twice this =
     (if isInfinity this then this
      else if yval this = 0 then getInfinity (pcurve this)
      else
        let q = cq (pcurve this); x1 = xval this; y1 = yval this;
            y1z1 = y1 * pz this; y1sqz1 = y1z1 * y1 mod q; a = toBigInteger (ca (pcurve this));
            w = x1 * x1 * 3; w = (if a \<noteq> 0 then w + pz this * pz this * a else w); w = w mod q;
            x3 = (w * w - x1 * 2 ^ 3 * y1sqz1) * 2 * y1z1 mod q;
            y3 = ((w * 3 * x1 - y1sqz1 * 2) * 2 ^ 2 * y1sqz1 - w * w * w) mod q;
            z3 = y1z1 * y1z1 * y1z1 * 2 ^ 3 mod q
        in PointFp (pcurve this) (Some (fromBigInteger (pcurve this) x3)) (Some (fromBigInteger (pcurve this) y3)) (Some z3) False)"

definition point_add :: "point \<Rightarrow> point \<Rightarrow> point" where
  "point_add this b =
     (if isInfinity this then b
      else if isInfinity b then this
      else
        let q = cq (pcurve this); z1 = pz this; z2 = pz b;
            u = (yval b * z1 - yval this * z2) mod q;
            v = (xval b * z1 - xval this * z2) mod q
        in if v = 0 then (if u = 0 then twice this else getInfinity (pcurve this))
           else
             let x1 = xval this; y1 = yval this; v2 = v * v; v3 = v2 * v; x1v2 = x1 * v2; zu2 = u * u * z1;
                 x3 = ((zu2 - x1v2 * 2) * z2 - v3) * v mod q;
                 y3 = ((x1v2 * 3 * u - y1 * v3 - zu2 * u) * z2 + u * v3) mod q;
                 z3 = v3 * z1 * z2 mod q
             in PointFp (pcurve this) (Some (fromBigInteger (pcurve this) x3)) (Some (fromBigInteger (pcurve this) y3)) (Some z3) False)"

text \<open>
  The loop of \<open>multiply\<close> over the bits of \<open>e\<close> and \<open>h = 3e\<close>, for any doubling and addition; \<open>n\<close> is the
  number of the bit to come.
\<close>

fun naf_loop :: "('p \<Rightarrow> 'p) \<Rightarrow> ('p \<Rightarrow> 'p \<Rightarrow> 'p) \<Rightarrow> int \<Rightarrow> int \<Rightarrow> 'p \<Rightarrow> 'p \<Rightarrow> nat \<Rightarrow> 'p \<Rightarrow> 'p" where
  "naf_loop tw ad e h this neg 0 R = R"
| "naf_loop tw ad e h this neg (Suc i) R =
     (let R = tw R; hBit = bit h (Suc i); eBit = bit e (Suc i)
      in naf_loop tw ad e h this neg i (if hBit \<noteq> eBit then ad R (if hBit then this else neg) else R))"

definition point_multiply :: "point \<Rightarrow> int \<Rightarrow> point" where
  "point_multiply this k =
     (if isInfinity this then this
      else if sgn k = 0 then getInfinity (pcurve this)
      else let e = k; h = e * 3; neg = point_negate this
        in naf_loop twice point_add e h this neg (nat (bit_len h - 2)) this)"

fun two_loop :: "('p \<Rightarrow> 'p) \<Rightarrow> ('p \<Rightarrow> 'p \<Rightarrow> 'p) \<Rightarrow> int \<Rightarrow> int \<Rightarrow> 'p \<Rightarrow> 'p \<Rightarrow> 'p \<Rightarrow> nat \<Rightarrow> 'p \<Rightarrow> 'p" where
  "two_loop tw ad j k this x both 0 R = R"
| "two_loop tw ad j k this x both (Suc i) R =
     (let R = tw R
      in two_loop tw ad j k this x both i
          (if bit j i then (if bit k i then ad R both else ad R this)
           else (if bit k i then ad R x else R)))"

definition multiplyTwo :: "point \<Rightarrow> int \<Rightarrow> point \<Rightarrow> int \<Rightarrow> point" where
  "multiplyTwo this j x k =
     (let n = (if bit_len j > bit_len k then bit_len j else bit_len k)
      in two_loop twice point_add j k this x (point_add this x) (nat n) (getInfinity (pcurve this)))"

section \<open>Encodings\<close>

definition integerToBytes :: "int \<Rightarrow> nat \<Rightarrow> int list" where
  "integerToBytes i len =
     (let bytes = bytes_of i
      in if len < length bytes then drop (length bytes - len) bytes
         else replicate (len - length bytes) 0 @ bytes)"

definition getEncoded :: "point \<Rightarrow> bool \<Rightarrow> int list result" where
  "getEncoded this cmpr =
     bind_result (getX this) (\<lambda>fx. bind_result (getY this) (\<lambda>fy.
       let x = toBigInteger fx; y = toBigInteger fy; enc = integerToBytes x 32
       in Inr (if cmpr then (if even y then 0x02 else 0x03) # enc
               else (0x04 # enc) @ integerToBytes y 32)))"

definition decodeFrom :: "curve \<Rightarrow> int list \<Rightarrow> point" where
  "decodeFrom c enc =
     (let dataLen = length enc - 1;
          xBa = js_slice 1 (1 + dataLen div 2) enc; yBa = js_slice (1 + dataLen div 2) (1 + dataLen) enc;
          x = be_signed (0 # xBa); y = be_signed (0 # yBa)
      in PointFp c (Some (fromBigInteger c x)) (Some (fromBigInteger c y)) None False)"

definition decompressPoint :: "(nat \<Rightarrow> int) \<Rightarrow> curve \<Rightarrow> int \<Rightarrow> int \<Rightarrow> point result" where
  "decompressPoint rand this yTilde X1 =
     (let x = fromBigInteger this X1;
          alpha = fe_add (fe_multiply x (fe_add (fe_square x) (getA this))) (getB this)
      in bind_result (fe_sqrt rand alpha) (\<lambda>beta.
           case beta of
             None \<Rightarrow> Inl ''Invalid point compression''
           | Some beta \<Rightarrow>
               let betaValue = toBigInteger beta; bit0 = (if odd betaValue then 1 else 0);
                   beta = (if bit0 \<noteq> yTilde then fromBigInteger this (getQ this - betaValue) else beta)
               in Inr (PointFp this (Some x) (Some beta) None True)))"

text \<open>\<open>None\<close> is \<open>null\<close>: an unsupported first byte.\<close>

definition decodePointHex :: "(nat \<Rightarrow> int) \<Rightarrow> curve \<Rightarrow> string \<Rightarrow> point option result" where
  "decodePointHex rand this s =
     (case js_parseInt (take 2 s) 16 of
        None \<Rightarrow> Inr None
      | Some firstByte \<Rightarrow>
          if firstByte = 0 then Inr (Some (getInfinity this))
          else if firstByte = 2 \<or> firstByte = 3
          then bind_result (decompressPoint rand this (js_and firstByte 1) (hex_val (drop 2 s))) (\<lambda>p. Inr (Some p))
          else if firstByte = 4 \<or> firstByte = 6 \<or> firstByte = 7
          then let len = (length s - 2) div 2; xHex = take len (drop 2 s); yHex = take len (drop (len + 2) s)
            in Inr (Some (PointFp this (Some (fromBigInteger this (hex_val xHex))) (Some (fromBigInteger this (hex_val yHex))) None False))
          else Inr None)"

definition pad_hex :: "nat \<Rightarrow> string \<Rightarrow> string" where
  "pad_hex n s = replicate (n - length s) CHR ''0'' @ s"

definition encodePointHex :: "curve \<Rightarrow> point \<Rightarrow> string result" where
  "encodePointHex this p =
     (if isInfinity p then Inr ''00''
      else bind_result (getX p) (\<lambda>fx. bind_result (getY p) (\<lambda>fy.
        let xHex = text_of (toBigInteger fx) 16; yHex = text_of (toBigInteger fy) 16;
            oLen = length (text_of (getQ this) 16); oLen = (if oLen mod 2 \<noteq> 0 then oLen + 1 else oLen)
        in Inr (''04'' @ pad_hex oLen xHex @ pad_hex oLen yHex))))"

definition point_toString :: "point \<Rightarrow> string result" where
  "point_toString this =
     bind_result (getX this) (\<lambda>fx. bind_result (getY this) (\<lambda>fy.
       Inr (''('' @ text_of (toBigInteger fx) 10 @ '','' @ text_of (toBigInteger fy) 10 @ '')'')))"

section \<open>Affine formulas and validation\<close>

definition twice2D :: "point \<Rightarrow> point result" where
  "twice2D this =
     (if isInfinity this then Inr this
      else if yval this = 0 then Inr (getInfinity (pcurve this))
      else
        let c = pcurve this; x = the (px this); y = the (py this); TWO = fromBigInteger c 2; THREE = fromBigInteger c 3
        in bind_result (fe_divide (fe_add (fe_multiply (fe_square x) THREE) (ca c)) (fe_multiply y TWO)) (\<lambda>gamma.
             let x3 = fe_subtract (fe_square gamma) (fe_multiply x TWO);
                 y3 = fe_subtract (fe_multiply gamma (fe_subtract x x3)) y
             in Inr (PointFp c (Some x3) (Some y3) None False)))"

definition add2D :: "point \<Rightarrow> point \<Rightarrow> point result" where
  "add2D this b =
     (if isInfinity this then Inr b
      else if isInfinity b then Inr this
      else
        let x = the (px this); y = the (py this); bx = the (px b); by' = the (py b)
        in if fe_equals x bx
           then (if fe_equals y by' then Inr (twice this) else Inr (getInfinity (pcurve this)))
           else bind_result (fe_divide (fe_subtract by' y) (fe_subtract bx x)) (\<lambda>gamma.
             let x3 = fe_subtract (fe_subtract (fe_square gamma) x) bx;
                 y3 = fe_subtract (fe_multiply gamma (fe_subtract x x3)) y
             in Inr (PointFp (pcurve this) (Some x3) (Some y3) None False)))"

text \<open>\<open>multiply2D\<close> doubles with \<open>twice\<close> and adds with \<open>add2D\<close>, which may throw.\<close>

definition multiply2D :: "point \<Rightarrow> int \<Rightarrow> point result" where
  "multiply2D this k =
     (if isInfinity this then Inr this
      else if sgn k = 0 then Inr (getInfinity (pcurve this))
      else let e = k; h = e * 3; neg = point_negate this
        in naf_loop (\<lambda>R. bind_result R (\<lambda>R. Inr (twice R)))
             (\<lambda>R p. bind_result R (\<lambda>R. bind_result p (\<lambda>p. add2D R p)))
             e h (Inr this) (Inr neg) (nat (bit_len h - 2)) (Inr this))"

definition isOnCurve :: "point \<Rightarrow> bool result" where
  "isOnCurve this =
     bind_result (getX this) (\<lambda>fx. bind_result (getY this) (\<lambda>fy.
       let x = toBigInteger fx; y = toBigInteger fy; a = toBigInteger (getA (pcurve this));
           b = toBigInteger (getB (pcurve this)); n = getQ (pcurve this);
           lhs = y * y mod n; rhs = (x * x * x + a * x + b) mod n
       in Inr (lhs = rhs)))"

definition validate :: "point \<Rightarrow> bool result" where
  "validate this =
     (let n = getQ (pcurve this)
      in if isInfinity this then Inl ''Point is at infinity.''
         else bind_result (getX this) (\<lambda>fx. bind_result (getY this) (\<lambda>fy.
           let x = toBigInteger fx; y = toBigInteger fy
           in if x < 1 \<or> x > n - 1 then Inl ''x coordinate out of bounds''
              else if y < 1 \<or> y > n - 1 then Inl ''y coordinate out of bounds''
              else bind_result (isOnCurve this) (\<lambda>ok.
                if \<not> ok then Inl ''Point is not on the curve.''
                else if isInfinity (point_multiply this n) then Inl ''Point is not a scalar multiple of G.''
                else Inr True))))"

section \<open>Named curves\<close>

record x9 =
  xcurve :: curve
  xg :: point
  xn :: int
  xh :: int

definition X9Parameters :: "curve \<Rightarrow> point \<Rightarrow> int \<Rightarrow> int \<Rightarrow> x9" where
  "X9Parameters c g n h = \<lparr>xcurve = c, xg = g, xn = n, xh = h\<rparr>"

definition getCurve :: "x9 \<Rightarrow> curve" where "getCurve this = xcurve this"

definition getG :: "x9 \<Rightarrow> point" where "getG this = xg this"

definition getN :: "x9 \<Rightarrow> int" where "getN this = xn this"

definition getH :: "x9 \<Rightarrow> int" where "getH this = xh this"

definition fromHex :: "string \<Rightarrow> int" where "fromHex s = hex_val s"

text \<open>The base point is decoded from its uncompressed form, for which no random number is drawn.\<close>

definition secp256k1 :: x9 where
  "secp256k1 =
     (let p = fromHex ''FFFFFFFFFFFFFFFFFFFFFFFFFFFFFFFFFFFFFFFFFFFFFFFFFFFFFFFEFFFFFC2F'';
          a = 0; b = fromHex ''7'';
          n = fromHex ''FFFFFFFFFFFFFFFFFFFFFFFFFFFFFFFEBAAEDCE6AF48A03BBFD25E8CD0364141'';
          h = 1; c = CurveFp p a b;
          G = decodePointHex (\<lambda>i. 0) c (''04''
            @ ''79BE667EF9DCBBAC55A06295CE870B07029BFCDB2DCE28D959F2815B16F81798''
            @ ''483ADA7726A3C4655DA4FBFC0E1108A8FD17B448A68554199C47D08FFB10D4B8'')
      in X9Parameters c (case G of Inr (Some g) \<Rightarrow> g | _ \<Rightarrow> getInfinity c) n h)"

definition getSECCurveByName :: "string \<Rightarrow> x9 option" where
  "getSECCurveByName name = (if name = ''secp256k1'' then Some secp256k1 else None)"

end
