(* ===== verification/Ecdsa.thy ===== *)
theory Ecdsa
  imports EllipticCurve
begin

text \<open>
  \<open>src/bitcoinjs-lib.ecdsa.js\<close>: signatures on secp256k1, their DER and compact forms, and the recovery of
  public keys. A value that \<open>fromByteArrayUnsigned\<close> may leave as an empty array is a sum
  (\<open>int list + int\<close>); using the array as a number is a \<open>TypeError\<close>. Random numbers come from the state of
  \<open>SecureRandom\<close>, which is passed through. The curve that the functions read from the variable \<open>ecparams\<close> of
  the module is an argument of signing and verification; their callers pass \<open>ecparams\<close>.
\<close>

type_synonym num = "int list + int"

definition as_num :: "num \<Rightarrow> int result" where
  "as_num x = (case x of Inl _ \<Rightarrow> Inl ''TypeError'' | Inr v \<Rightarrow> Inr v)"

definition ecparams :: x9 where "ecparams = secp256k1"

text \<open>The clock and what \<open>getRandomValues\<close> gives at the successive requests.\<close>

record entropy =
  clock :: int
  draws :: "nat \<Rightarrow> (nat \<Rightarrow> int) option"

definition getBigRandom :: "entropy \<Rightarrow> nat \<Rightarrow> int \<Rightarrow> sr \<Rightarrow> int \<times> sr" where
  "getBigRandom en i limit s =
     (let (x, s') = fromNumber (bit_len limit) (clock en) (draws en i) s in (x mod (limit - 1) + 1, s'))"

section \<open>Signing\<close>

text \<open>A nonce and its point, drawn again while the first half of the signature is zero.\<close>

partial_function (option) nonce_loop :: "x9 \<Rightarrow> entropy \<Rightarrow> nat \<Rightarrow> sr \<Rightarrow> (int \<times> int \<times> sr) result option" where
  "nonce_loop ec en i s =
     (let n = getN ec; (k, s') = getBigRandom en i n s; G = getG ec; Q = point_multiply G k
      in case getX Q of
           Inl e \<Rightarrow> Some (Inl e)
         | Inr f \<Rightarrow> let r = toBigInteger f mod n
             in if r \<le> 0 then nonce_loop ec en (Suc i) s' else Some (Inr (k, r, s')))"

definition sign_core :: "x9 \<Rightarrow> entropy \<Rightarrow> num \<Rightarrow> int \<Rightarrow> sr \<Rightarrow> (int \<times> int \<times> sr) result" where
  "sign_core ec en e d s0 =
     (let n = getN ec
      in case nonce_loop ec en 0 s0 of
           None \<Rightarrow> Inl LOOPS
         | Some r \<Rightarrow> bind_result r (\<lambda>(k, r, s').
             bind_result (inverse_mod k n) (\<lambda>ki.
               bind_result (as_num e) (\<lambda>ev. Inr (r, ki * (ev + d * r) mod n, s')))))"

definition signed_bytes :: "int \<Rightarrow> int list" where
  "signed_bytes v = toByteArraySigned Netscape (big_of Netscape v)"

definition serializeSig :: "int \<Rightarrow> int \<Rightarrow> int list" where
  "serializeSig r s =
     (let rBa = signed_bytes r; sBa = signed_bytes s;
          sq = [0x02, int (length rBa)] @ rBa;
          sq = sq @ [0x02, int (length sBa)] @ sBa
      in 0x30 # int (length sq) # sq)"

definition sign :: "x9 \<Rightarrow> entropy \<Rightarrow> int list \<Rightarrow> int \<Rightarrow> sr \<Rightarrow> (int list \<times> sr) result" where
  "sign ec en h priv s0 =
     bind_result (sign_core ec en (of_bytes h) priv s0) (\<lambda>(r, s, s'). Inr (serializeSig r s, s'))"

definition drop_00 :: "string \<Rightarrow> string" where
  "drop_00 s = (if take 2 s = ''00'' then drop 2 s else s)"

text \<open>The hash is an array of bytes (\<open>Inl\<close>) or a text in hexadecimal.\<close>

definition hash_num :: "int list + string \<Rightarrow> num result" where
  "hash_num h =
     (case h of
        Inl bytes \<Rightarrow> Inr (of_bytes bytes)
      | Inr hex \<Rightarrow> Inr (of_bytes (map (\<lambda>x. case x of None \<Rightarrow> 0 | Some b \<Rightarrow> b) (hexToBytes hex))))"

definition rs_hex :: "int \<Rightarrow> int \<Rightarrow> string" where
  "rs_hex r s =
     (let rHex = upper (bytesToHex (signed_bytes r)); sHex = upper (bytesToHex (signed_bytes s))
      in drop_00 rHex @ drop_00 sHex)"

definition mysign :: "x9 \<Rightarrow> entropy \<Rightarrow> int list + string \<Rightarrow> int \<Rightarrow> sr \<Rightarrow> (string \<times> sr) result" where
  "mysign ec en h priv s0 =
     bind_result (hash_num h) (\<lambda>e.
       bind_result (sign_core ec en e priv s0) (\<lambda>(r, s, s'). Inr (rs_hex r s, s')))"

section \<open>Parsing\<close>

definition byte_at :: "int list \<Rightarrow> nat \<Rightarrow> int option" where
  "byte_at xs i = nth_opt xs i"

text \<open>\<open>sig.slice(from, from + len)\<close>; a length that is \<open>undefined\<close> gives the empty array.\<close>

definition slice_len :: "int list \<Rightarrow> nat \<Rightarrow> int option \<Rightarrow> int list" where
  "slice_len xs from len = (case len of None \<Rightarrow> [] | Some l \<Rightarrow> take (nat l) (drop from xs))"

definition parseSig :: "int list \<Rightarrow> (num \<times> num) result" where
  "parseSig sig =
     (if byte_at sig 0 \<noteq> Some 0x30 then Inl ''Signature not a valid DERSequence''
      else let cursor = 2
        in if byte_at sig cursor \<noteq> Some 0x02 then Inl ''First element in signature must be a DERInteger''
           else let l1 = byte_at sig (cursor + 1); rBa = slice_len sig (cursor + 2) l1
             in case l1 of
                  None \<Rightarrow> Inl ''Second element in signature must be a DERInteger''
                | Some l \<Rightarrow>
                    let cursor = cursor + 2 + nat l
                    in if byte_at sig cursor \<noteq> Some 0x02 then Inl ''Second element in signature must be a DERInteger''
                       else let sBa = slice_len sig (cursor + 2) (byte_at sig (cursor + 1))
                         in Inr (of_bytes rBa, of_bytes sBa))"

definition parseSigCompact :: "int list \<Rightarrow> (int \<times> int \<times> int) result" where
  "parseSigCompact sig =
     (if length sig \<noteq> 65 then Inl ''Signature has the wrong length''
      else let i = sig ! 0 - 27
        in if i < 0 \<or> i > 7 then Inl ''Invalid signature type''
           else let n = getN ecparams
             in bind_result (as_num (of_bytes (js_slice 1 33 sig))) (\<lambda>r.
                bind_result (as_num (of_bytes (js_slice 33 65 sig))) (\<lambda>s.
                  Inr (r mod n, s mod n, i))))"

section \<open>Verification\<close>

definition verifyRaw :: "x9 \<Rightarrow> num \<Rightarrow> num \<Rightarrow> num \<Rightarrow> point \<Rightarrow> bool result" where
  "verifyRaw ec e r0 s0 Q =
     (let n = getN ec; G = getG ec
      in bind_result (as_num r0) (\<lambda>r.
           if r < 1 \<or> r \<ge> n then Inr False
           else bind_result (as_num s0) (\<lambda>s.
             if s < 1 \<or> s \<ge> n then Inr False
             else bind_result (inverse_mod s n) (\<lambda>c.
               bind_result (as_num e) (\<lambda>ev.
                 let u1 = ev * c mod n; u2 = r * c mod n;
                     p = point_add (point_multiply G u1) (point_multiply Q u2)
                 in bind_result (getX p) (\<lambda>f. let v = toBigInteger f mod n in Inr (v = r)))))))"

datatype sig_arg = SigBytes "int list" | SigPair num num | SigOther

text \<open>The public key has to be an array of bytes (\<open>Some\<close>).\<close>

definition verify :: "x9 \<Rightarrow> int list \<Rightarrow> sig_arg \<Rightarrow> int list option \<Rightarrow> bool result" where
  "verify ec h sig pubkey =
     bind_result (case sig of
         SigBytes b \<Rightarrow> parseSig b
       | SigPair r s \<Rightarrow> Inr (r, s)
       | SigOther \<Rightarrow> Inl ''Invalid value for signature'')
       (\<lambda>(r, s). case pubkey of
          None \<Rightarrow> Inl ''Invalid format for pubkey value, must be byte array or ec.PointFp''
        | Some pk \<Rightarrow> verifyRaw ec (of_bytes h) r s (decodeFrom (getCurve ec) pk))"

section \<open>Public key recovery\<close>

text \<open>One bit of Shamir's trick; \<open>R.z = 1\<close> is written into the doubled point.\<close>

definition shamir_step :: "point \<Rightarrow> int \<Rightarrow> point \<Rightarrow> int \<Rightarrow> point \<Rightarrow> nat \<Rightarrow> point \<Rightarrow> point result" where
  "shamir_step P k Q l Z i R =
     bind_result (twice2D R) (\<lambda>R.
       let R = R\<lparr>pz := 1\<rparr>
       in if bit k i then (if bit l i then add2D R Z else add2D R P)
          else (if bit l i then add2D R Q else Inr R))"

fun shamir_loop :: "point \<Rightarrow> int \<Rightarrow> point \<Rightarrow> int \<Rightarrow> point \<Rightarrow> nat \<Rightarrow> point \<Rightarrow> point result" where
  "shamir_loop P k Q l Z 0 R = Inr R"
| "shamir_loop P k Q l Z (Suc i) R =
     bind_result (shamir_step P k Q l Z i R) (\<lambda>R. shamir_loop P k Q l Z i R)"

definition implShamirsTrick :: "point \<Rightarrow> int \<Rightarrow> point \<Rightarrow> int \<Rightarrow> point result" where
  "implShamirsTrick P k Q l =
     (let m = (if bit_len k > bit_len l then bit_len k else bit_len l)
      in bind_result (add2D P Q) (\<lambda>Z. shamir_loop P k Q l Z (nat m) (getInfinity (pcurve P))))"

definition P_OVER_FOUR :: int where
  "P_OVER_FOUR = (getQ (getCurve ecparams) + 1) div 4"

text \<open>The point that \<open>recoverPubKey\<close> stores in its result.\<close>

definition recover_point :: "int \<Rightarrow> int \<Rightarrow> int list \<Rightarrow> int \<Rightarrow> point result" where
  "recover_point r s h i0 =
     (let i = js_and i0 3; isYEven = js_and i 1; isSecondKey = js_shr i 1;
          n = getN ecparams; G = getG ecparams; c = getCurve ecparams; p = getQ c;
          a = toBigInteger (getA c); b = toBigInteger (getB c);
          x = (if isSecondKey \<noteq> 0 then r + n else r);
          alpha = (x * x * x + a * x + b) mod p
      in bind_result (power_mod alpha P_OVER_FOUR p) (\<lambda>beta.
           let y = (if (if even beta then isYEven = 0 else isYEven \<noteq> 0) then beta else p - beta);
               R = PointFp c (Some (fromBigInteger c x)) (Some (fromBigInteger c y)) None False
           in bind_result (validate R) (\<lambda>_.
                bind_result (as_num (of_bytes h)) (\<lambda>e.
                  let eNeg = (0 - e) mod n
                  in bind_result (inverse_mod r n) (\<lambda>rInv.
                       bind_result (implShamirsTrick R s G eNeg) (\<lambda>S.
                         let Q = point_multiply S rInv
                         in bind_result (validate Q) (\<lambda>_.
                              bind_result (verifyRaw ecparams (Inr e) (Inr r) (Inr s) Q) (\<lambda>ok.
                                if \<not> ok then Inl ''Pubkey recovery unsuccessful'' else Inr Q))))))))"

end
