(* ===== verification/EcKey.thy ===== *)
theory EcKey
  imports Ecdsa
begin

text \<open>
  \<open>src/bitcoinjs-lib.eckey.js\<close>: private keys, their text formats, the public key with its caches, the
  address, and the pool that collects every key that is made. A key is a record with the fields the
  methods assign; a method that fills a cache returns the key as it leaves it.
\<close>

section \<open>Keys\<close>

record eckey =
  priv :: "num option"
  compr :: bool
  err :: "string option"
  pubPoint :: "point option"
  pubComp :: "int list option"
  pubUncomp :: "int list option"
  hexComp :: "string option"
  hexUncomp :: "string option"
  hashComp :: "int list option"
  hashUncomp :: "int list option"
  pub :: "point option"

definition fresh_key :: "num option \<Rightarrow> bool \<Rightarrow> eckey" where
  "fresh_key p c =
     \<lparr>priv = p, compr = c, err = None, pubPoint = None, pubComp = None, pubUncomp = None, hexComp = None,
      hexUncomp = None, hashComp = None, hashUncomp = None, pub = None\<rparr>"

definition privateKeyPrefix :: int where "privateKeyPrefix = 0x80"

definition compressByDefault :: bool where "compressByDefault = False"

definition setError :: "string \<Rightarrow> eckey \<Rightarrow> eckey" where
  "setError e this = this\<lparr>err := Some e, priv := None\<rparr>"

definition setCompressed :: "bool \<Rightarrow> eckey \<Rightarrow> eckey" where
  "setCompressed v this =
     (let this = this\<lparr>compr := v\<rparr>
      in this\<lparr>pubPoint := map_option (\<lambda>p. p\<lparr>compressed := v\<rparr>) (pubPoint this)\<rparr>)"

text \<open>A private key that is \<open>null\<close> or an array is a \<open>TypeError\<close> in the scalar multiplication.\<close>

definition priv_num :: "eckey \<Rightarrow> int result" where
  "priv_num this = (case priv this of None \<Rightarrow> Inl ''TypeError'' | Some p \<Rightarrow> as_num p)"

definition getPubPoint :: "eckey \<Rightarrow> (point \<times> eckey) result" where
  "getPubPoint this =
     (case pubPoint this of
        Some p \<Rightarrow> Inr (p, this)
      | None \<Rightarrow> bind_result (priv_num this) (\<lambda>d.
          let p = (point_multiply (getG ecparams) d)\<lparr>compressed := compr this\<rparr>
          in Inr (p, this\<lparr>pubPoint := Some p\<rparr>)))"

definition getPub :: "eckey \<Rightarrow> (int list \<times> eckey) result" where
  "getPub this =
     (if compr this
      then case pubComp this of
          Some b \<Rightarrow> Inr (b, this)
        | None \<Rightarrow> bind_result (getPubPoint this) (\<lambda>(p, this).
            bind_result (getEncoded p True) (\<lambda>b. Inr (b, this\<lparr>pubComp := Some b\<rparr>)))
      else case pubUncomp this of
          Some b \<Rightarrow> Inr (b, this)
        | None \<Rightarrow> bind_result (getPubPoint this) (\<lambda>(p, this).
            bind_result (getEncoded p False) (\<lambda>b. Inr (b, this\<lparr>pubUncomp := Some b\<rparr>))))"

text \<open>A cached text counts only when it is not empty.\<close>

definition getPubKeyHex :: "eckey \<Rightarrow> (string \<times> eckey) result" where
  "getPubKeyHex this =
     (case (if compr this then hexComp this else hexUncomp this) of
        Some (c # cs) \<Rightarrow> Inr (c # cs, this)
      | _ \<Rightarrow> bind_result (getPub this) (\<lambda>(b, this).
          let h = upper (bytesToHex b)
          in Inr (h, if compr this then this\<lparr>hexComp := Some h\<rparr> else this\<lparr>hexUncomp := Some h\<rparr>)))"

definition getPubKeyHash :: "eckey \<Rightarrow> (int list \<times> eckey) result" where
  "getPubKeyHash this =
     (case (if compr this then hashComp this else hashUncomp this) of
        Some h \<Rightarrow> Inr (h, this)
      | None \<Rightarrow> bind_result (getPub this) (\<lambda>(b, this).
          let h = sha256ripe160 b
          in Inr (h, if compr this then this\<lparr>hashComp := Some h\<rparr> else this\<lparr>hashUncomp := Some h\<rparr>)))"

definition getBitcoinAddress :: "eckey \<Rightarrow> (string \<times> eckey) result" where
  "getBitcoinAddress this =
     bind_result (getPubKeyHash this) (\<lambda>(h, this).
       bind_result (Address (Inl h)) (\<lambda>addr.
         bind_result (address_toString addr) (\<lambda>t. Inr (t, this))))"

text \<open>The public key is bytes or hexadecimal text; a point that cannot be decoded is \<open>null\<close>.\<close>

definition setPub :: "(nat \<Rightarrow> int) \<Rightarrow> int list + string \<Rightarrow> eckey \<Rightarrow> eckey result" where
  "setPub rand p this =
     (let hex = (case p of Inl bytes \<Rightarrow> upper (bytesToHex bytes) | Inr s \<Rightarrow> s)
      in bind_result (decodePointHex rand (getCurve ecparams) hex) (\<lambda>q.
           case q of
             None \<Rightarrow> Inl ''TypeError''
           | Some ecPoint \<Rightarrow> let this = setCompressed (compressed ecPoint) this in Inr (this\<lparr>pubPoint := Some ecPoint\<rparr>)))"

section \<open>Formats of the private key\<close>

definition getBitcoinPrivateKeyByteArray :: "eckey \<Rightarrow> int list option result" where
  "getBitcoinPrivateKeyByteArray this =
     (case priv this of
        None \<Rightarrow> Inr None
      | Some p \<Rightarrow> bind_result (as_num p) (\<lambda>d.
          let bytes = bytes_of d in Inr (Some (replicate (32 - length bytes) 0 @ bytes))))"

definition getBitcoinWalletImportFormat :: "eckey \<Rightarrow> string result" where
  "getBitcoinWalletImportFormat this =
     bind_result (getBitcoinPrivateKeyByteArray this) (\<lambda>b.
       case b of
         None \<Rightarrow> Inr []
       | Some bytes \<Rightarrow>
           let bytes = privateKeyPrefix # bytes;
               bytes = (if compr this then bytes @ [0x01] else bytes);
               bytes = bytes @ take 4 (checksum bytes)
           in encode bytes)"

definition getBitcoinHexFormat :: "eckey \<Rightarrow> string result" where
  "getBitcoinHexFormat this =
     bind_result (getBitcoinPrivateKeyByteArray this) (\<lambda>b.
       case b of None \<Rightarrow> Inl ''TypeError'' | Some bytes \<Rightarrow> Inr (upper (bytesToHex bytes)))"

definition getBitcoinBase64Format :: "eckey \<Rightarrow> string result" where
  "getBitcoinBase64Format this =
     bind_result (getBitcoinPrivateKeyByteArray this) (\<lambda>b.
       case b of None \<Rightarrow> Inl ''TypeError'' | Some bytes \<Rightarrow> Inr (bytesToBase64 bytes))"

definition key_toString :: "string \<Rightarrow> eckey \<Rightarrow> string result" where
  "key_toString format this =
     (let f = map to_lower_char format
      in if f = ''base64'' \<or> f = ''b64'' then getBitcoinBase64Format this
         else if f = ''wif'' then getBitcoinWalletImportFormat this
         else getBitcoinHexFormat this)"

definition decode_wif :: "nat \<Rightarrow> string \<Rightarrow> int list result" where
  "decode_wif n privStr =
     bind_result (decode privStr) (\<lambda>bytes.
       let h = take n bytes; c = checksum h
       in if nth_opt c 0 \<noteq> nth_opt bytes n \<or> nth_opt c 1 \<noteq> nth_opt bytes (n + 1) \<or>
             nth_opt c 2 \<noteq> nth_opt bytes (n + 2) \<or> nth_opt c 3 \<noteq> nth_opt bytes (n + 3)
          then Inl ''Checksum validation failed!''
          else let version = hd h; h = tl h
            in if version \<noteq> privateKeyPrefix then Inl (''Version '' @ dec_text version @ '' not supported!'')
               else Inr h)"

definition decodeWalletImportFormat :: "string \<Rightarrow> int list result" where
  "decodeWalletImportFormat privStr = decode_wif 33 privStr"

text \<open>The compressed form takes the marker byte off the end.\<close>

definition decodeCompressedWalletImportFormat :: "string \<Rightarrow> int list result" where
  "decodeCompressedWalletImportFormat privStr = bind_result (decode_wif 34 privStr) (\<lambda>h. Inr (butlast h))"

definition hex_chars :: string where "hex_chars = ''ABCDEFabcdef0123456789''"

definition isHexFormat :: "string \<Rightarrow> bool" where
  "isHexFormat key \<longleftrightarrow> length key = 64 \<and> list_all (\<lambda>c. c \<in> set hex_chars) key"

definition base58_tail :: "string \<Rightarrow> nat \<Rightarrow> string \<Rightarrow> bool" where
  "base58_tail starts n key \<longleftrightarrow>
     length key = Suc n \<and> hd key \<in> set starts \<and> list_all (\<lambda>c. c \<in> set alphabet) (tl key)"

definition isWalletImportFormat :: "string \<Rightarrow> bool" where
  "isWalletImportFormat key = base58_tail (if privateKeyPrefix = 0x80 then ''5'' else ''9'') 50 key"

definition isCompressedWalletImportFormat :: "string \<Rightarrow> bool" where
  "isCompressedWalletImportFormat key = base58_tail (if privateKeyPrefix = 0x80 then ''LK'' else ''c'') 51 key"

definition isBase64Format :: "string \<Rightarrow> bool" where
  "isBase64Format key \<longleftrightarrow> length key = 44 \<and> list_all (\<lambda>c. c \<in> set (base64map @ ''='')) key"

definition isBase6Format :: "string \<Rightarrow> bool" where
  "isBase6Format key \<longleftrightarrow> length key = 99 \<and> list_all (\<lambda>c. c \<in> set ''012345'') key"

definition isMiniFormat :: "string \<Rightarrow> bool" where
  "isMiniFormat key \<longleftrightarrow>
     (let testBytes = SHA256_asBytes (utf8_bytes (key @ ''?''))
      in (testBytes ! 0 = 0x00 \<or> testBytes ! 0 = 0x01) \<and>
         (base58_tail ''S'' 21 key \<or> base58_tail ''S'' 25 key \<or> base58_tail ''S'' 29 key))"

section \<open>The pool of keys\<close>

text \<open>
  Two keys are the same when their addresses are equal texts. An exception while an address is computed
  leaves \<open>push\<close>.
\<close>

definition addr_text :: "eckey \<Rightarrow> string result" where
  "addr_text k = bind_result (getBitcoinAddress k) (\<lambda>(t, _). Inr t)"

fun pool_search :: "eckey \<Rightarrow> eckey list \<Rightarrow> bool result" where
  "pool_search item [] = Inr True"
| "pool_search item (k # ks) =
     (if priv k = None then pool_search item ks
      else bind_result (addr_text item) (\<lambda>a. bind_result (addr_text k) (\<lambda>b.
        if a = b then Inr False else pool_search item ks)))"

definition pool_push :: "eckey \<Rightarrow> eckey list \<Rightarrow> eckey list result" where
  "pool_push item keyArray =
     (if priv item = None then Inr keyArray
      else bind_result (pool_search item keyArray) (\<lambda>doAdd.
        Inr (if doAdd then keyArray @ [item] else keyArray)))"

definition pool_reset :: "eckey list \<Rightarrow> eckey list" where "pool_reset keyArray = []"

definition pool_getArray :: "eckey list \<Rightarrow> eckey list" where "pool_getArray keyArray = keyArray"

definition pool_setArray :: "eckey list \<Rightarrow> eckey list \<Rightarrow> eckey list" where "pool_setArray ka keyArray = ka"

definition pool_length :: "eckey list \<Rightarrow> nat" where "pool_length keyArray = length keyArray"

definition dq :: char where "dq = char_of (34 :: nat)"

definition nl :: char where "nl = char_of (10 :: nat)"

fun pool_lines :: "eckey list \<Rightarrow> string result" where
  "pool_lines [] = Inr []"
| "pool_lines (k # ks) =
     bind_result (addr_text k) (\<lambda>a. bind_result (key_toString ''wif'' k) (\<lambda>w.
       bind_result (pool_lines ks) (\<lambda>r. Inr ([dq] @ a @ [dq] @ '', '' @ [dq] @ w @ [dq, nl] @ r))))"

definition pool_toString :: "eckey list \<Rightarrow> string result" where
  "pool_toString keyArray =
     bind_result (pool_lines keyArray) (\<lambda>r. Inr (''# = '' @ dec_text (int (pool_length keyArray)) @ [nl] @ r))"

text \<open>\<open>Bitcoin.Bip38Key\<close>: an encrypted key with its address.\<close>

record bip38 =
  bip_address :: string
  bip_priv :: string

definition Bip38 :: "string \<Rightarrow> string \<Rightarrow> bip38" where
  "Bip38 address encryptedKey = \<lparr>bip_address = address, bip_priv = encryptedKey\<rparr>"

definition bip38_getBitcoinAddress :: "bip38 \<Rightarrow> string" where "bip38_getBitcoinAddress this = bip_address this"

definition bip38_toString :: "bip38 \<Rightarrow> string" where "bip38_toString this = bip_priv this"

section \<open>Making a key\<close>

datatype key_input = NoInput | NumInput int | BytesInput "int list" | TextInput string

text \<open>The bytes a text gives, \<open>Some\<close> with the flag \<open>compressed\<close>; an exception on the way is caught.\<close>

definition text_bytes :: "string \<Rightarrow> (int list option \<times> bool) result" where
  "text_bytes input =
     (if isWalletImportFormat input then bind_result (decodeWalletImportFormat input) (\<lambda>b. Inr (Some b, False))
      else if isCompressedWalletImportFormat input
      then bind_result (decodeCompressedWalletImportFormat input) (\<lambda>b. Inr (Some b, True))
      else if isMiniFormat input then Inr (Some (SHA256_asBytes (utf8_bytes input)), False)
      else if isHexFormat input
      then Inr (Some (map (\<lambda>x. case x of None \<Rightarrow> 0 | Some b \<Rightarrow> b) (hexToBytes input)), False)
      else if isBase64Format input then Inr (Some (base64ToBytes input), False)
      else Inr (None, False))"

definition text_key :: "string \<Rightarrow> eckey" where
  "text_key input =
     (let (bytes, c, e) = (case text_bytes input of Inl exc \<Rightarrow> (None, False, Some exc) | Inr (b, c) \<Rightarrow> (b, c, None));
          p = (if isBase6Format input then Some (Inr (bval Netscape (of_text Netscape input (Some 6))))
               else case bytes of None \<Rightarrow> None | Some b \<Rightarrow> if length b \<noteq> 32 then None else Some (of_bytes b))
      in (fresh_key p (if c then True else compressByDefault))\<lparr>err := e\<rparr>)"

definition limitBigInt :: int where
  "limitBigInt = hex_val ''FFFFFFFFFFFFFFFFFFFFFFFFFFFFFFFEBAAEDCE6AF48A03BBFD25E8CD0364140''"

definition is_num :: "num option \<Rightarrow> (int \<Rightarrow> bool) \<Rightarrow> bool" where
  "is_num p P = (case p of Some (Inr v) \<Rightarrow> P v | _ \<Rightarrow> False)"

text \<open>The range checks, and the push into the pool whose exception is caught.\<close>

definition check_key :: "eckey \<Rightarrow> eckey list \<Rightarrow> eckey \<times> eckey list" where
  "check_key k0 keyPool =
     (let k1 = (if is_num (priv k0) (\<lambda>v. v = 0) then setError ''Error: BigInteger equal to zero.'' k0 else k0);
          k2 = (if is_num (priv k1) (\<lambda>v. limitBigInt < v) then setError ''Error: BigInteger outside of curve range.'' k1 else k1)
      in if priv k2 \<noteq> None
         then (case pool_push k2 keyPool of Inl exc \<Rightarrow> (setError exc k2, keyPool) | Inr kp \<Rightarrow> (k2, kp))
         else (k2, keyPool))"

definition ECKey :: "entropy \<Rightarrow> key_input \<Rightarrow> eckey list \<times> sr \<Rightarrow> eckey \<times> eckey list \<times> sr" where
  "ECKey en input = (\<lambda>(keyPool, s).
     let (k, s') =
           (case input of
              NoInput \<Rightarrow> let (d, s') = getBigRandom en 0 (getN ecparams) s in (fresh_key (Some (Inr d)) compressByDefault, s')
            | NumInput v \<Rightarrow> (fresh_key (Some (Inr v)) compressByDefault, s)
            | BytesInput b \<Rightarrow> (fresh_key (Some (of_bytes b)) compressByDefault, s)
            | TextInput t \<Rightarrow> if t = [] then (let (d, s') = getBigRandom en 0 (getN ecparams) s in (fresh_key (Some (Inr d)) compressByDefault, s'))
                else (text_key t, s));
         (k', keyPool') = check_key k keyPool
     in (k', keyPool', s'))"

section \<open>Signing with a key\<close>

definition key_sign :: "entropy \<Rightarrow> int list \<Rightarrow> eckey \<Rightarrow> sr \<Rightarrow> (int list \<times> sr) result" where
  "key_sign en h this s = bind_result (priv_num this) (\<lambda>d. sign ecparams en h d s)"

definition mysignHex :: "entropy \<Rightarrow> int list + string \<Rightarrow> eckey \<Rightarrow> sr \<Rightarrow> (string \<times> sr) result" where
  "mysignHex en h this s = bind_result (priv_num this) (\<lambda>d. mysign ecparams en h d s)"

definition signHex :: "entropy \<Rightarrow> int list \<Rightarrow> eckey \<Rightarrow> sr \<Rightarrow> (string \<times> sr) result" where
  "signHex en h this s = bind_result (key_sign en h this s) (\<lambda>(b, s'). Inr (upper (bytesToHex b), s'))"

definition key_verify :: "int list \<Rightarrow> sig_arg \<Rightarrow> eckey \<Rightarrow> (bool \<times> eckey) result" where
  "key_verify h sig this =
     bind_result (getPub this) (\<lambda>(pk, this). bind_result (verify ecparams h sig (Some pk)) (\<lambda>ok. Inr (ok, this)))"

definition key_parseSig :: "int list \<Rightarrow> (num \<times> num) result" where
  "key_parseSig sig = parseSig sig"

definition parseSigHex :: "int list \<Rightarrow> (string \<times> string) result" where
  "parseSigHex sig =
     bind_result (parseSig sig) (\<lambda>(r0, s0). bind_result (as_num r0) (\<lambda>r. bind_result (as_num s0) (\<lambda>s.
       Inr (upper (bytesToHex (bytes_of r)), upper (bytesToHex (bytes_of s))))))"

section \<open>Recovering the key of a signature\<close>

text \<open>The recovered point is stored in the property \<open>pub\<close> of a new random key.\<close>

definition recoverPubKey :: "entropy \<Rightarrow> int \<Rightarrow> int \<Rightarrow> int list \<Rightarrow> int \<Rightarrow> eckey list \<times> sr \<Rightarrow> (eckey \<times> eckey list \<times> sr) result" where
  "recoverPubKey en r s h i st =
     bind_result (recover_point r s h i) (\<lambda>Q.
       let (k, st') = ECKey en NoInput st in Inr (k\<lparr>pub := Some Q\<rparr>, st'))"

fun recovery_loop :: "entropy \<Rightarrow> string \<Rightarrow> int \<Rightarrow> int \<Rightarrow> int list \<Rightarrow> int list \<Rightarrow> eckey list \<times> sr \<Rightarrow> int result" where
  "recovery_loop en address r s h [] st = Inl ''Unable to find valid recovery factor''"
| "recovery_loop en address r s h (i # is) st =
     (case recoverPubKey en r s h i st of
        Inl _ \<Rightarrow> recovery_loop en address r s h is st
      | Inr (k, st') \<Rightarrow>
          if addr_text k = Inr address then Inr i else recovery_loop en address r s h is st')"

definition calcPubkeyRecoveryParam :: "entropy \<Rightarrow> string \<Rightarrow> int \<Rightarrow> int \<Rightarrow> int list \<Rightarrow> eckey list \<times> sr \<Rightarrow> int result" where
  "calcPubkeyRecoveryParam en address r s h st = recovery_loop en address r s h [0, 1, 2, 3] st"

end
