(* ===== verification/JsonText.thy ===== *)
theory JsonText
  imports BigDiv BtcUtil
begin

text \<open>
  JavaScript values and their text, and \<open>formatJson\<close> and \<open>stripzero\<close> of \<open>test.js\<close>. Replies of the
  services, the variables of the page and the bodies of its requests are values of \<open>jv\<close>. A Number is an
  integer (what the services send) or \<open>NaN\<close>.
\<close>

section \<open>Values\<close>

datatype jv = Undef | JNull | JNaN | JBool bool | JNum int | JStr string | JArr "jv list" | JObj "(string \<times> jv) list"

definition truthy :: "jv \<Rightarrow> bool" where
  "truthy v = (case v of
     Undef \<Rightarrow> False | JNull \<Rightarrow> False | JNaN \<Rightarrow> False | JBool b \<Rightarrow> b | JNum n \<Rightarrow> n \<noteq> 0 | JStr s \<Rightarrow> s \<noteq> []
   | JArr _ \<Rightarrow> True | JObj _ \<Rightarrow> True)"

text \<open>The property of a value; reading one of \<open>undefined\<close> or \<open>null\<close> is an exception.\<close>

definition field :: "string \<Rightarrow> jv \<Rightarrow> jv result" where
  "field name v = (case v of
     Undef \<Rightarrow> Inl ''TypeError'' | JNull \<Rightarrow> Inl ''TypeError''
   | JObj kvs \<Rightarrow> Inr (case map_of kvs name of None \<Rightarrow> Undef | Some x \<Rightarrow> x)
   | _ \<Rightarrow> Inr Undef)"

fun put :: "string \<Rightarrow> jv \<Rightarrow> (string \<times> jv) list \<Rightarrow> (string \<times> jv) list" where
  "put name x [] = [(name, x)]"
| "put name x ((k, v) # kvs) = (if k = name then (k, x) # kvs else (k, v) # put name x kvs)"

definition set_field :: "string \<Rightarrow> jv \<Rightarrow> jv \<Rightarrow> jv result" where
  "set_field name x v = (case v of
     Undef \<Rightarrow> Inl ''TypeError'' | JNull \<Rightarrow> Inl ''TypeError''
   | JObj kvs \<Rightarrow> Inr (JObj (put name x kvs))
   | v \<Rightarrow> Inr v)"

section \<open>Text of a value\<close>

text \<open>
  \<open>Number::toString\<close> on integers: exact below \<open>2^53\<close>; above, the shortest digits that round to the
  number, filled up with zeros or, from \<open>10^21\<close> on, followed by an exponent.
\<close>

definition sig_digits :: "int \<Rightarrow> nat \<Rightarrow> nat \<Rightarrow> int" where
  "sig_digits n d p = (let u = 10 ^ (d - p) in (2 * n + u) div (2 * u))"

fun shortest :: "nat \<Rightarrow> int \<Rightarrow> nat \<Rightarrow> nat \<Rightarrow> int \<times> nat" where
  "shortest 0 n d p = (n, d)"
| "shortest (Suc f) n d p =
     (let s = sig_digits n d p
      in if rnd (of_int (s * 10 ^ (d - p))) = rnd (of_int n) then (s, p) else shortest f n d (Suc p))"

definition big_text :: "int \<Rightarrow> string" where
  "big_text n =
     (let d = length (num_str 10 n); (s, p) = shortest d n d 1; t = num_str 10 s
      in if n < 10 ^ 21 then t @ replicate (d - p) CHR ''0''
         else t ! 0 # (if length t = 1 then [] else CHR ''.'' # tl t) @ ''e+'' @ num_str 10 (int (length t + (d - p) - 1)))"

definition num_text :: "int \<Rightarrow> string" where
  "num_text n =
     (if \<bar>n\<bar> < 2 ^ 53 then dec_text n else if n < 0 then CHR ''-'' # big_text (- n) else big_text n)"

fun join_with :: "string \<Rightarrow> string list \<Rightarrow> string" where
  "join_with sep [] = []"
| "join_with sep [x] = x"
| "join_with sep (x # y # xs) = x @ sep @ join_with sep (y # xs)"

text \<open>\<open>String(v)\<close>, as the operator \<open>+\<close> on a text and a value makes it.\<close>

fun js_str :: "jv \<Rightarrow> string" where
  "js_str Undef = ''undefined''"
| "js_str JNull = ''null''"
| "js_str JNaN = ''NaN''"
| "js_str (JBool b) = (if b then ''true'' else ''false'')"
| "js_str (JNum n) = num_text n"
| "js_str (JStr s) = s"
| "js_str (JArr vs) = join_with '','' (map (\<lambda>v. if v = Undef \<or> v = JNull then [] else js_str v) vs)"
| "js_str (JObj _) = ''[object Object]''"

definition quote_char :: "char \<Rightarrow> string" where
  "quote_char c =
     (let n = (of_char c :: nat)
      in if n = 34 then [char_of (92 :: nat), c]
         else if n = 92 then [c, c]
         else if n = 8 then [char_of (92 :: nat), CHR ''b'']
         else if n = 9 then [char_of (92 :: nat), CHR ''t'']
         else if n = 10 then [char_of (92 :: nat), CHR ''n'']
         else if n = 12 then [char_of (92 :: nat), CHR ''f'']
         else if n = 13 then [char_of (92 :: nat), CHR ''r'']
         else if n < 32 then char_of (92 :: nat) # ''u00'' @ num_str 16 (int (n div 16)) @ num_str 16 (int (n mod 16))
         else [c])"

definition quote :: "string \<Rightarrow> string" where
  "quote s = char_of (34 :: nat) # concat (map quote_char s) @ [char_of (34 :: nat)]"

text \<open>\<open>JSON.stringify\<close>; \<open>None\<close> is \<open>undefined\<close>, which an object leaves out and an array writes as \<open>null\<close>.\<close>

fun stringify :: "jv \<Rightarrow> string option" where
  "stringify Undef = None"
| "stringify JNull = Some ''null''"
| "stringify JNaN = Some ''null''"
| "stringify (JBool b) = Some (if b then ''true'' else ''false'')"
| "stringify (JNum n) = Some (num_text n)"
| "stringify (JStr s) = Some (quote s)"
| "stringify (JArr vs) =
     Some (''['' @ join_with '','' (map (\<lambda>v. case stringify v of None \<Rightarrow> ''null'' | Some t \<Rightarrow> t) vs) @ '']'')"
| "stringify (JObj kvs) =
     Some (''{'' @ join_with '','' (concat (map (\<lambda>(k, v). case stringify v of None \<Rightarrow> [] | Some t \<Rightarrow> [quote k @ '':'' @ t]) kvs)) @ ''}'')"

definition stringified :: "jv \<Rightarrow> string" where
  "stringified v = (case stringify v of None \<Rightarrow> ''undefined'' | Some t \<Rightarrow> t)"

section \<open>Laying out a transaction\<close>

definition crlf :: string where "crlf = [char_of (13 :: nat), char_of (10 :: nat)]"

text \<open>\<open>replace\<close> with a global regular expression for one character, and for a fixed text that is not empty.\<close>

definition around :: "char set \<Rightarrow> string \<Rightarrow> string \<Rightarrow> string \<Rightarrow> string" where
  "around S pre post s = concat (map (\<lambda>c. if c \<in> S then pre @ [c] @ post else [c]) s)"

fun replace_from :: "string \<Rightarrow> string \<Rightarrow> nat \<Rightarrow> string \<Rightarrow> string" where
  "replace_from p r k [] = []"
| "replace_from p r (Suc k) (c # cs) = replace_from p r k cs"
| "replace_from p r 0 (c # cs) =
     (if take (length p) (c # cs) = p then r @ replace_from p r (length p - 1) cs else c # replace_from p r 0 cs)"

definition replace_all :: "string \<Rightarrow> string \<Rightarrow> string \<Rightarrow> string" where
  "replace_all p r s = replace_from p r 0 s"

text \<open>\<open>split\<close> at the line ends.\<close>

fun split_lines :: "string \<Rightarrow> string \<Rightarrow> string list" where
  "split_lines acc [] = [rev acc]"
| "split_lines acc [c] = [rev (c # acc)]"
| "split_lines acc (c # d # cs) =
     (if [c, d] = crlf then rev acc # split_lines [] cs else split_lines (c # acc) (d # cs))"

definition node_step :: "nat \<times> string \<Rightarrow> string \<Rightarrow> nat \<times> string" where
  "node_step st node =
     (let (pad, formatted) = st;
          opens = node \<noteq> [] \<and> (last node = CHR ''{'' \<or> last node = CHR ''['');
          closes = \<not> opens \<and> (CHR ''}'' \<in> set node \<or> CHR '']'' \<in> set node);
          pad = (if closes \<and> pad \<noteq> 0 then pad - 1 else pad);
          padding = concat (replicate pad ''    '')
      in (if opens then pad + 1 else pad, formatted @ padding @ node @ crlf))"

text \<open>The text with its breaks, from the options after their normalisation.\<close>

definition breaks :: "bool \<Rightarrow> bool \<Rightarrow> string \<Rightarrow> string" where
  "breaks newlineAfterColon spaceAfterColon json =
     (let json = around {CHR ''{'', CHR ''}''} crlf crlf json;
          json = around {CHR ''['', CHR '']''} crlf crlf json;
          json = around {CHR '',''} [] crlf json;
          json = replace_all (crlf @ crlf) crlf json;
          json = replace_all (crlf @ '','') '','' json;
          json = (if newlineAfterColon then json
                  else replace_all ('':'' @ crlf @ ''['') '':['' (replace_all ('':'' @ crlf @ ''{'') '':{'' json))
      in if spaceAfterColon then around {CHR '':''} [] '' '' json else json)"

text \<open>Parsing and printing a text that was printed changes nothing; there is nothing to parse in \<open>undefined\<close>.\<close>

definition formatJson :: "jv \<Rightarrow> bool option \<Rightarrow> bool option \<Rightarrow> string result" where
  "formatJson v newlineOpt spaceOpt =
     (case stringify v of
        None \<Rightarrow> Inl ''SyntaxError''
      | Some json \<Rightarrow>
          let lines = split_lines [] (breaks (newlineOpt = Some True) (spaceOpt \<noteq> Some False) json)
          in Inr (snd (foldl node_step (0, []) lines)))"

section \<open>Leading zeros\<close>

definition stripzero :: "string \<Rightarrow> string" where
  "stripzero s = dropWhile (\<lambda>c. c = CHR ''0'') s"

section \<open>The layout keeps the text\<close>

definition solid :: "string \<Rightarrow> string" where
  "solid s = filter (\<lambda>c. c \<notin> {char_of (13 :: nat), char_of (10 :: nat), CHR '' ''}) s"

lemma solid_append [simp]: "solid (s @ t) = solid s @ solid t"
  by (simp add: solid_def)

lemma solid_Nil [simp]: "solid [] = []"
  by (simp add: solid_def)

lemma solid_Cons: "solid (c # s) = solid [c] @ solid s"
  by (simp add: solid_def)

lemma solid_crlf [simp]: "solid crlf = []"
  by (simp add: solid_def crlf_def)

lemma solid_around: "solid pre = [] \<Longrightarrow> solid post = [] \<Longrightarrow> solid (around S pre post s) = solid s"
proof (induction s)
  case (Cons a s)
  then have "solid (around S pre post (a # s)) = solid [a] @ solid s"
    using solid_Cons [of a post] by (simp add: around_def)
  then show ?case using solid_Cons [of a s] by simp
qed (simp add: around_def)

lemma solid_replace_from:
  assumes "solid p = solid r" "p \<noteq> []"
  shows "solid (replace_from p r k s) = solid (drop k s)"
  using assms
proof (induction p r k s rule: replace_from.induct)
  case (3 p r c cs)
  show ?case
  proof (cases "take (length p) (c # cs) = p")
    case True
    have "c # cs = p @ drop (length p) (c # cs)" using append_take_drop_id [of "length p" "c # cs"] True by simp
    moreover have "drop (length p) (c # cs) = drop (length p - 1) cs" using "3.prems"(2) by (cases p) simp_all
    ultimately have "solid (c # cs) = solid p @ solid (drop (length p - 1) cs)" by (metis solid_append)
    then show ?thesis using 3 True by simp
  next
    case False
    then have "solid (replace_from p r 0 (c # cs)) = solid (c # replace_from p r 0 cs)" by (simp only: replace_from.simps if_False)
    also have "\<dots> = solid [c] @ solid (replace_from p r 0 cs)" by (rule solid_Cons)
    also have "\<dots> = solid [c] @ solid cs" using "3.IH"(2) [OF False "3.prems"] by simp
    also have "\<dots> = solid (c # cs)" by (rule solid_Cons [symmetric])
    finally show ?thesis by simp
  qed
qed simp_all

lemma solid_replace: "solid p = solid r \<Longrightarrow> p \<noteq> [] \<Longrightarrow> solid (replace_all p r s) = solid s"
  by (simp add: replace_all_def solid_replace_from)

lemma solid_breaks: "solid (breaks a b s) = solid s"
proof -
  have "solid '' '' = []" "solid (crlf @ crlf) = solid crlf" "solid (crlf @ '','') = solid '',''"
    "solid ('':'' @ crlf @ ''{'') = solid '':{''" "solid ('':'' @ crlf @ ''['') = solid '':[''" "crlf \<noteq> []"
    by code_simp+
  then show ?thesis
    unfolding breaks_def Let_def by (simp only: solid_around solid_replace solid_crlf solid_Nil append_is_Nil_conv list.distinct simp_thms split: if_split)
qed

lemma solid_split: "solid (concat (split_lines acc s)) = solid (rev acc) @ solid s"
proof (induction acc s rule: split_lines.induct)
  case (3 acc c d cs)
  show ?case
  proof (cases "[c, d] = crlf")
    case True
    then have "solid (c # d # cs) = solid cs" using solid_append [of crlf cs] by (metis append_Cons append_Nil solid_crlf)
    then show ?thesis using 3 True by simp
  next
    case False
    then show ?thesis using 3 solid_append [of "[c]" "d # cs"] by simp
  qed
qed simp_all

lemma solid_pad: "solid (concat (replicate n ''    '')) = []"
  by (induction n) (simp_all add: solid_def)

lemma solid_nodes: "solid (snd (foldl node_step st ns)) = solid (snd st) @ solid (concat ns)"
proof (induction ns arbitrary: st)
  case (Cons n ns)
  have "solid (snd (node_step st n)) = solid (snd st) @ solid n"
    by (cases st) (simp add: node_step_def Let_def solid_pad)
  then show ?case using Cons.IH [of "node_step st n"] by simp
qed simp

text \<open>
  C25: The layout shown before a signature changes nothing but blanks: apart from line ends and spaces the
  text of the transaction is the one \<open>JSON.stringify\<close> gives, whatever the options.
\<close>

theorem formatJson_content:
  "(case formatJson v a b of Inl _ \<Rightarrow> None | Inr t \<Rightarrow> Some (solid t)) = map_option solid (stringify v)"
  by (simp add: formatJson_def Let_def solid_nodes solid_split solid_breaks split: option.split)

text \<open>
  \<open>stripzero\<close> removes leading zeros and nothing else: the rest does not start with a zero, and its
  hexadecimal value is that of the text.
\<close>

theorem stripzero_value:
  "\<exists>n. s = replicate n CHR ''0'' @ stripzero s \<and> take 1 (stripzero s) \<noteq> ''0'' \<and> str_int 16 (stripzero s) = str_int 16 s"
proof -
  define z where "z = takeWhile (\<lambda>c. c = CHR ''0'') s"
  have s: "s = z @ stripzero s" by (simp add: z_def stripzero_def)
  have "\<forall>c\<in>set z. c = CHR ''0''" by (auto simp: z_def dest: set_takeWhileD)
  then have z: "z = replicate (length z) CHR ''0''" by (rule replicate_length_same [symmetric])
  have d: "char_digit CHR ''0'' = Some 0" by code_simp
  have r: "foldl (\<lambda>a c. 16 * a + the (char_digit c)) 0 (replicate n CHR ''0'') = (0::int)" for n
    by (induction n) (simp_all add: d)
  have "str_int 16 (z @ stripzero s) = str_int 16 (stripzero s)"
    using r [of "length z"] z by (simp add: str_int_def)
  then have v: "str_int 16 (stripzero s) = str_int 16 s" using s by simp
  have h: "take 1 (stripzero s) \<noteq> ''0''"
  proof (cases "stripzero s")
    case (Cons c cs)
    then show ?thesis using hd_dropWhile [of "\<lambda>c. c = CHR ''0''" s] by (metis list.inject list.sel(1) list.distinct(1) stripzero_def take_Suc_Cons One_nat_def)
  qed simp
  show ?thesis by (intro exI [of _ "length z"] conjI h v) (use s z in simp)
qed

end
