(* ===== verification/WebDemo.thy ===== *)
theory WebDemo
  imports JsonText EcKey
begin

text \<open>
  The page of the web demo, \<open>app/test.js\<close>: its variables, what it keeps in \<open>localStorage\<close>, the elements of
  \<open>index.html\<close> it reads and writes, and its event handlers. A handler runs to its end on the state; a
  request is put on the list \<open>pending\<close> with the continuation that gets the answer, a timer on \<open>timers\<close>.
  An exception that leaves a handler is logged in \<open>errors\<close> and keeps what was assigned before. The
  services behind the requests, the browser's randomness and \<open>fromWei\<close> of the web3 package are what the
  steps supply.
\<close>

section \<open>State\<close>

text \<open>What a request asked for is done with the answer: one constructor for every callback of \<open>$.ajax\<close>.\<close>

datatype flow = PrepareLockin | Lockin | CancelLockin | CancelLockout | PrepareLockout | Lockout

datatype status_use = Refresh bool | ForLockin jv | ForLockout jv

datatype callback =
    OnAddress | OnTransfer | OnTokens
  | OnSecretLockin jv | OnSecretLockout jv | OnStatus status_use
  | OnTx flow | OnSent flow
  | OnScPrepare | OnScNotary | OnMcPrepare | OnMcNotary

record request =
  verb :: string
  url :: string
  data :: jv
  cont :: callback

datatype answer = Success jv | Failure jv

datatype timer = NotifyLockinTimer | SideLockinTimer | NotifyLockoutTimer | MainLockoutTimer

record page =
  runhost :: string
  nodes_Ip :: "(string \<times> string) list"
  key :: "eckey option"
  myaccount :: jv
  mainChainContract :: jv
  sideChainContract :: jv
  notaryPrivateKeyId :: jv
  currentLockinSecret :: jv
  currentLockinSecretHash :: jv
  currentLockoutSecret :: jv
  currentLockoutSecretHash :: jv
  currentMainChainBlockNumber :: jv
  currentSideChainBlockNuber :: jv
  mainChainBalance :: jv
  sideChainBalance :: jv
  localStorage :: "string \<Rightarrow> string option"
  vals :: "string \<Rightarrow> string"
  html :: "string \<Rightarrow> string"
  off :: "string \<Rightarrow> bool"
  fixed :: "string \<Rightarrow> bool"
  shown :: "string \<Rightarrow> bool"
  focused :: string
  mask :: bool
  intervals :: "(nat \<times> nat) list"
  pagetimer :: "nat option"
  next_id :: nat
  alerts :: "string list"
  tips :: "string list"
  errors :: "string list"
  pool :: "eckey list"
  rng :: sr
  entropy_now :: entropy
  fromWei :: "jv \<Rightarrow> string result"
  mainWeb3 :: "string option"
  sideWeb3 :: "string option"
  pending :: "request list"
  timers :: "timer list"
  sent :: "request list"

definition helpService :: string where "helpService = ''/api''"

definition mainChainEndpoint :: "page \<Rightarrow> string" where
  "mainChainEndpoint w = ''http://'' @ runhost w @ '':19888''"

definition sideChainEndpoint :: "page \<Rightarrow> string" where
  "sideChainEndpoint w = ''http://'' @ runhost w @ '':17888''"

section \<open>Browser\<close>

definition throw_exc :: "string \<Rightarrow> page \<Rightarrow> page" where
  "throw_exc e w = w\<lparr>errors := errors w @ [e]\<rparr>"

text \<open>Reading a property of an answer, then the rest of the handler.\<close>

definition getf :: "string \<Rightarrow> jv \<Rightarrow> (jv \<Rightarrow> page \<Rightarrow> page) \<Rightarrow> page \<Rightarrow> page" where
  "getf name v rest w = (case field name v of Inl e \<Rightarrow> throw_exc e w | Inr x \<Rightarrow> rest x w)"

definition try_then :: "'a result \<Rightarrow> ('a \<Rightarrow> page \<Rightarrow> page) \<Rightarrow> page \<Rightarrow> page" where
  "try_then r rest w = (case r of Inl e \<Rightarrow> throw_exc e w | Inr x \<Rightarrow> rest x w)"

definition storage_get :: "string \<Rightarrow> page \<Rightarrow> jv" where
  "storage_get name w = (case localStorage w name of None \<Rightarrow> Undef | Some s \<Rightarrow> JStr s)"

definition storage_put :: "string \<Rightarrow> jv \<Rightarrow> page \<Rightarrow> page" where
  "storage_put name v w = w\<lparr>localStorage := (localStorage w)(name := Some (js_str v))\<rparr>"

definition removeItem :: "string \<Rightarrow> page \<Rightarrow> page" where
  "removeItem name w = w\<lparr>localStorage := (localStorage w)(name := None)\<rparr>"

definition set_val :: "string \<Rightarrow> string \<Rightarrow> page \<Rightarrow> page" where
  "set_val name v w = w\<lparr>vals := (vals w)(name := v)\<rparr>"

definition set_html :: "string \<Rightarrow> string \<Rightarrow> page \<Rightarrow> page" where
  "set_html name v w = w\<lparr>html := (html w)(name := v)\<rparr>"

definition disable :: "string \<Rightarrow> bool \<Rightarrow> page \<Rightarrow> page" where
  "disable name v w = w\<lparr>off := (off w)(name := v)\<rparr>"

definition set_shown :: "string \<Rightarrow> bool \<Rightarrow> page \<Rightarrow> page" where
  "set_shown name v w = w\<lparr>shown := (shown w)(name := v)\<rparr>"

definition alert :: "string \<Rightarrow> page \<Rightarrow> page" where
  "alert t w = w\<lparr>alerts := alerts w @ [t]\<rparr>"

definition showTip :: "string \<Rightarrow> page \<Rightarrow> page" where
  "showTip t w = w\<lparr>tips := tips w @ [t]\<rparr>"

definition ajax :: "string \<Rightarrow> string \<Rightarrow> jv \<Rightarrow> callback \<Rightarrow> page \<Rightarrow> page" where
  "ajax v u d c w =
     (let r = \<lparr>verb = v, url = u, data = d, cont = c\<rparr>
      in w\<lparr>pending := pending w @ [r], sent := sent w @ [r]\<rparr>)"

definition setTimeout :: "timer \<Rightarrow> page \<Rightarrow> page" where
  "setTimeout t w = w\<lparr>timers := timers w @ [t]\<rparr>"

definition br2 :: string where "br2 = ''<br/><br/>''"

definition retry :: string where "retry = br2 @ ''Please Retry!''"

definition cancel_hint :: string where
  "cancel_hint = br2 @ ''you can cancel Lockin or Lockout after 1000 blocks!''"

section \<open>The mask\<close>

text \<open>The counter of the mask belongs to the interval, not to the page.\<close>

definition showMaskLayer :: "string \<Rightarrow> page \<Rightarrow> page" where
  "showMaskLayer t w =
     (let w = set_html ''masktext'' t w;
          w = w\<lparr>mask := True\<rparr>;
          w = set_html ''pagetimer'' ''0'' w;
          i = next_id w
      in w\<lparr>intervals := (i, 1) # intervals w, next_id := Suc i, pagetimer := Some i\<rparr>)"

definition updateMaskLayer :: "string \<Rightarrow> page \<Rightarrow> page" where
  "updateMaskLayer t w = set_html ''masktext'' t w"

definition hideMaskLayer :: "page \<Rightarrow> page" where
  "hideMaskLayer w = w\<lparr>intervals := filter (\<lambda>(i, _). Some i \<noteq> pagetimer w) (intervals w), mask := False\<rparr>"

text \<open>One tick of an interval.\<close>

definition tick :: "nat \<Rightarrow> page \<Rightarrow> page" where
  "tick i w =
     (case map_of (intervals w) i of
        None \<Rightarrow> w
      | Some n \<Rightarrow> set_html ''pagetimer'' (num_text (int n))
          (w\<lparr>intervals := map (\<lambda>(j, m). if j = i then (j, Suc m) else (j, m)) (intervals w)\<rparr>))"

definition displayAddress :: "page \<Rightarrow> page" where
  "displayAddress w = throw_exc ''ReferenceError'' w"

definition changecoin :: "string \<Rightarrow> page \<Rightarrow> page" where
  "changecoin coin w =
     (if coin = ''BTC''
      then let w = set_shown ''ethpanel'' False w; w = set_shown ''btcpanel'' True w;
               w = set_html ''coinspan'' ''testnet btc'' w in displayAddress w
      else let w = set_shown ''ethpanel'' True w; w = set_shown ''btcpanel'' False w;
               w = set_html ''coinspan'' ''rinkeby ether'' w in displayAddress w)"

section \<open>Secrets in the storage\<close>

definition clearLockinSecret :: "page \<Rightarrow> page" where
  "clearLockinSecret w = removeItem ''currentLockinSecret'' (removeItem ''currentLockinSecretHash'' w)"

definition clearLockoutSecret :: "page \<Rightarrow> page" where
  "clearLockoutSecret w = removeItem ''currentLockoutSecret'' (removeItem ''currentLockoutSecretHash'' w)"

definition clearData :: "page \<Rightarrow> page" where
  "clearData w = clearLockoutSecret (clearLockinSecret (removeItem ''mykey'' (removeItem ''myaccount'' w)))"

section \<open>Values of the page\<close>

text \<open>\<open>v == ''''\<close> and \<open>v == t\<close> for a text that is not a number.\<close>

definition eq_empty :: "jv \<Rightarrow> bool" where
  "eq_empty v = (case v of
     Undef \<Rightarrow> False | JNull \<Rightarrow> False | JNaN \<Rightarrow> False | JBool b \<Rightarrow> \<not> b | JNum n \<Rightarrow> n = 0 | v \<Rightarrow> js_str v = [])"

definition eq_word :: "string \<Rightarrow> jv \<Rightarrow> bool" where
  "eq_word t v = (case v of JStr s \<Rightarrow> s = t | JArr vs \<Rightarrow> js_str (JArr vs) = t | _ \<Rightarrow> False)"

text \<open>A text as a Number: decimals with a sign and a point, the nearest double; anything else is \<open>NaN\<close>.\<close>

definition dbl :: "rat \<Rightarrow> rat" where "dbl x = (if x < 0 then - rnd (- x) else rnd x)"

definition text_number :: "string \<Rightarrow> rat option" where
  "text_number s =
     (let (neg, t) = split_sign (js_trim s);
          i = takeWhile (\<lambda>c. c \<noteq> CHR ''.'') t; f = drop (Suc (length i)) t
      in if js_trim s = [] then Some 0
         else if i @ f = [] \<or> \<not> list_all dec_char (i @ f) then None
         else let x = dbl (of_int (dec_int (i @ f)) / 10 ^ length f) in Some (if neg then - x else x))"

definition to_number :: "jv \<Rightarrow> rat option" where
  "to_number v = (case v of
     Undef \<Rightarrow> None | JNull \<Rightarrow> Some 0 | JNaN \<Rightarrow> None | JBool b \<Rightarrow> Some (if b then 1 else 0) | JNum n \<Rightarrow> Some (of_int n)
   | JStr s \<Rightarrow> text_number s | JArr vs \<Rightarrow> text_number (js_str (JArr vs)) | JObj _ \<Rightarrow> None)"

text \<open>\<open>Math.floor(a * b)\<close>, and the comparison with zero, which \<open>NaN\<close> does not pass.\<close>

definition floor_product :: "string \<Rightarrow> jv \<Rightarrow> jv" where
  "floor_product a b =
     (case (text_number a, to_number b) of (Some x, Some y) \<Rightarrow> JNum \<lfloor>dbl (x * y)\<rfloor> | _ \<Rightarrow> JNaN)"

definition not_positive :: "jv \<Rightarrow> bool" where
  "not_positive v = (case v of JNum n \<Rightarrow> n \<le> 0 | _ \<Rightarrow> False)"

text \<open>\<open>v > 0\<close> on an answer, and \<open>v + n\<close>, which appends to a text.\<close>

definition positive :: "jv \<Rightarrow> bool" where
  "positive v = (case to_number v of None \<Rightarrow> False | Some x \<Rightarrow> 0 < x)"

definition plus_num :: "jv \<Rightarrow> int \<Rightarrow> jv" where
  "plus_num v n = (case v of
     Undef \<Rightarrow> JNaN | JNull \<Rightarrow> JNum n | JNaN \<Rightarrow> JNaN | JBool b \<Rightarrow> JNum ((if b then 1 else 0) + n) | JNum m \<Rightarrow> JNum (m + n)
   | v \<Rightarrow> JStr (js_str v @ num_text n))"

definition put_html :: "string \<Rightarrow> jv \<Rightarrow> page \<Rightarrow> page" where
  "put_html name v w = (case v of Undef \<Rightarrow> w | JNull \<Rightarrow> set_html name [] w | _ \<Rightarrow> set_html name (js_str v) w)"

section \<open>Status\<close>

definition queryStatusHelper :: "status_use \<Rightarrow> page \<Rightarrow> page" where
  "queryStatusHelper use w =
     ajax ''post'' (helpService @ ''/querystatus'')
       (JObj [(''MainChainContract'', mainChainContract w), (''SideChainContract'', sideChainContract w),
              (''Account'', myaccount w), (''LockSecretHash'', currentLockinSecretHash w)]) (OnStatus use) w"

definition queryStatus :: "bool \<Rightarrow> page \<Rightarrow> page" where
  "queryStatus obj w = queryStatusHelper (Refresh obj) w"

definition qt :: "string \<Rightarrow> string" where "qt s = [char_of (34 :: nat)] @ s @ [char_of (34 :: nat)]"

definition link :: "string \<Rightarrow> string \<Rightarrow> string" where
  "link href t = ''<a target='' @ qt ''_blank'' @ '' href='' @ qt href @ ''>'' @ t @ ''</a>''"

definition getMainChainWeb3 :: "page \<Rightarrow> page" where
  "getMainChainWeb3 w = (case mainWeb3 w of Some _ \<Rightarrow> w | None \<Rightarrow> w\<lparr>mainWeb3 := Some (mainChainEndpoint w)\<rparr>)"

definition getMainSideChainWeb3 :: "page \<Rightarrow> page" where
  "getMainSideChainWeb3 w = (case sideWeb3 w of Some _ \<Rightarrow> w | None \<Rightarrow> w\<lparr>sideWeb3 := Some (sideChainEndpoint w)\<rparr>)"

text \<open>One balance on the page: the property of the answer in ether, and the link that shows it.\<close>

definition show_balance :: "string \<Rightarrow> string \<Rightarrow> string \<Rightarrow> string \<Rightarrow> jv \<Rightarrow> (page \<Rightarrow> page) \<Rightarrow> page \<Rightarrow> page" where
  "show_balance elem prop href suffix r rest w =
     getf prop r (\<lambda>v w. let w = getMainChainWeb3 w
       in try_then (fromWei w v) (\<lambda>t w. rest (set_html elem (link href (t @ suffix)) w)) w) w"

text \<open>The buttons follow the account, its balance and the secrets in the storage.\<close>

definition set_buttons :: "jv \<Rightarrow> page \<Rightarrow> page" where
  "set_buttons balance w =
     (let w = disable ''btnTransferEther'' (\<not> truthy (myaccount w)) w;
          w = (if positive balance then disable ''btnTransferEther'' True w else w);
          i = truthy (storage_get ''currentLockinSecret'' w);
          w = disable ''btnMainChainCancelLockin'' (\<not> i) (disable ''btnPrepareLockin'' i w);
          k = truthy (storage_get ''currentLockoutSecret'' w)
      in disable ''btnSideChainCancelLockout'' (\<not> k) (disable ''btnPrepareLockout'' k w))"

definition scan :: string where "scan = ''https://ropsten.etherscan.io/address/''"

definition token :: string where "token = ''https://chain.smartmesh.io/token.html?''"

definition show_status :: "bool \<Rightarrow> jv \<Rightarrow> page \<Rightarrow> page" where
  "show_status obj r =
     getf ''MainChainBlockNumber'' r (\<lambda>mb w. let w = w\<lparr>currentMainChainBlockNumber := mb\<rparr> in
     getf ''SideChainBlockNumber'' r (\<lambda>sb w. let w = w\<lparr>currentSideChainBlockNuber := sb\<rparr> in
     getf ''MainChainBalance'' r (\<lambda>mbal w. let w = w\<lparr>mainChainBalance := mbal\<rparr> in
     getf ''SideChainTokenBalance'' r (\<lambda>tbal w.
       let w = w\<lparr>sideChainBalance := tbal\<rparr>;
           w = put_html ''MainChainBlockNumber'' mb w;
           w = put_html ''SideChainBlockNumber'' sb w;
           mc = js_str (mainChainContract w); sc = js_str (sideChainContract w); acc = js_str (myaccount w);
           finish = (\<lambda>w. let w = set_buttons mbal w in if obj then w\<lparr>focused := ''address''\<rparr> else w)
       in show_balance ''mainChainContractBalance'' ''MainChainContractBalance'' (scan @ mc) '' Ether'' r (\<lambda>w.
          show_balance ''sideChainContractBalance'' ''SideChainContractBalance'' (token @ ''source=commonts&tokenF='' @ sc) '' EtherToken'' r (\<lambda>w.
          if truthy (myaccount w)
          then show_balance ''MainChainBalance'' ''MainChainBalance'' (scan @ acc) '' Ether'' r (\<lambda>w.
               show_balance ''SideChainBalance'' ''SideChainBalance'' (''https://chain.smartmesh.io/address.html?address='' @ acc) '' SMT'' r (\<lambda>w.
               show_balance ''SideChainTokenBalance'' ''SideChainTokenBalance'' (token @ ''tokenF='' @ sc @ ''&tokenT='' @ acc) '' EtherToken'' r finish w) w) w
          else finish w) w) w) w) w) w)"

definition queryStatus_reply :: "bool \<Rightarrow> jv \<Rightarrow> page \<Rightarrow> page" where
  "queryStatus_reply obj r =
     getf ''Error'' r (\<lambda>e w.
       if truthy e then showTip (''[Error] '' @ js_str e @ retry) w
       else getf ''Message'' r (show_status obj) w)"

section \<open>Account\<close>

definition createKey :: "page \<Rightarrow> page" where
  "createKey w =
     (let w = disable ''btnCreateKey'' True w; w = w\<lparr>fixed := (fixed w)(''privateKey'' := True)\<rparr>;
          (k, kp, s) = ECKey (entropy_now w) NoInput (pool w, rng w);
          k = setCompressed False k;
          w = w\<lparr>key := Some k, pool := kp, rng := s\<rparr>
      in try_then (getPubKeyHex k) (\<lambda>(pubkeyHex, k) w. let w = w\<lparr>key := Some k\<rparr> in
         try_then (getBitcoinHexFormat k) (\<lambda>privatekey w.
           let w = set_val ''pubKey'' pubkeyHex (set_val ''privateKey'' privatekey w);
               w = (if privatekey \<noteq> [] then set_shown ''tab_content'' True (set_shown ''priv_warn'' True w) else w)
           in ajax ''get'' (helpService @ ''/pubkey2address/'' @ vals w ''pubKey'') Undef OnAddress w) w) w)"

definition createKey_success :: "jv \<Rightarrow> page \<Rightarrow> page" where
  "createKey_success r =
     getf ''Error'' r (\<lambda>e w.
       if \<not> eq_empty e then showTip (''Error:'' @ stringified r @ retry) w
       else getf ''Message'' r (\<lambda>m w.
         let w = put_html ''address'' m w; w = w\<lparr>myaccount := m\<rparr>; w = storage_put ''myaccount'' m w
         in case key w of
              None \<Rightarrow> throw_exc ''TypeError'' w
            | Some k \<Rightarrow> try_then (getBitcoinWalletImportFormat k) (\<lambda>t w. queryStatus False (storage_put ''mykey'' (JStr t) w)) w) w)"

definition transfer10Ether :: "page \<Rightarrow> page" where
  "transfer10Ether w =
     (if \<not> truthy (myaccount w) then alert ''generate key first'' w
      else let w = showMaskLayer ''transfer test ether and smt to this address,please wait...'' w
        in ajax ''get'' (vals w ''selNode'' @ ''/api/1/debug/transfer-to-account/'' @ js_str (myaccount w)) Undef OnTransfer w)"

definition transfer10Ether_success :: "jv \<Rightarrow> page \<Rightarrow> page" where
  "transfer10Ether_success r =
     getf ''error_msg'' r (\<lambda>e w.
       if \<not> eq_word ''success'' e
       then showTip (''transfer test ether and smt error '' @ retry) (hideMaskLayer w)
       else alert ''your account already have test token.'' (queryStatus False (hideMaskLayer w)))"

section \<open>Sending a transaction\<close>

definition flow_chain :: "flow \<Rightarrow> string" where
  "flow_chain f = (case f of PrepareLockin \<Rightarrow> ''main'' | Lockin \<Rightarrow> ''side'' | CancelLockin \<Rightarrow> ''main''
     | CancelLockout \<Rightarrow> ''side'' | PrepareLockout \<Rightarrow> ''side'' | Lockout \<Rightarrow> ''main'')"

text \<open>The hash of an answer signed with the key of the page, as the two hexadecimal halves.\<close>

definition sign_hash :: "jv \<Rightarrow> (string \<times> string \<Rightarrow> page \<Rightarrow> page) \<Rightarrow> page \<Rightarrow> page" where
  "sign_hash h rest w =
     (case h of
        JStr t \<Rightarrow>
          (case key w of
             None \<Rightarrow> throw_exc ''TypeError'' w
           | Some k \<Rightarrow>
               try_then (key_sign (entropy_now w) (map (\<lambda>x. case x of None \<Rightarrow> 0 | Some b \<Rightarrow> b) (hexToBytes t)) k (rng w))
                 (\<lambda>(sig, s) w. try_then (parseSigHex sig) rest (w\<lparr>rng := s\<rparr>)) w)
      | _ \<Rightarrow> throw_exc ''TypeError'' w)"

definition doSendTx :: "jv \<Rightarrow> flow \<Rightarrow> page \<Rightarrow> page" where
  "doSendTx r f =
     getf ''Tx'' r (\<lambda>tx. getf ''TxHash'' r (\<lambda>h. sign_hash h (\<lambda>(sr, ss).
       try_then (set_field ''r'' (JStr (''0x'' @ stripzero sr)) tx) (\<lambda>tx.
       try_then (set_field ''s'' (JStr (''0x'' @ stripzero ss)) tx) (\<lambda>tx.
       try_then (set_field ''v'' (JStr ''0x0'') tx) (\<lambda>tx w.
         let w = (if flow_chain f = ''main''
                  then updateMaskLayer (''send tx to '' @ js_str (mainChainContract w) @ '' on Ethereum Ropsten...'') w
                  else updateMaskLayer (''send tx to '' @ js_str (sideChainContract w) @ '' on Spectrum Testnet...'') w)
         in ajax ''post'' (helpService @ ''/sendTx'')
              (JObj [(''Chain'', JStr (flow_chain f)), (''Tx'', tx), (''TxHash'', h), (''Signer'', myaccount w)]) (OnSent f) w))))))"

text \<open>What follows a transaction that was sent: the callback of the flow.\<close>

definition after_tx :: "flow \<Rightarrow> page \<Rightarrow> page" where
  "after_tx f w =
     (case f of
        PrepareLockin \<Rightarrow> setTimeout NotifyLockinTimer w
      | Lockin \<Rightarrow> hideMaskLayer (clearLockinSecret (alert ''your eth have been moved to spectrum as EthereumToken'' w))
      | CancelLockin \<Rightarrow> clearLockinSecret w
      | CancelLockout \<Rightarrow> clearLockinSecret (alert ''your EtherumToken have been returned to your account'' w)
      | PrepareLockout \<Rightarrow> setTimeout NotifyLockoutTimer w
      | Lockout \<Rightarrow> alert ''your EthereumToken have been moved to ethereum as eth'' (clearLockoutSecret (hideMaskLayer w)))"

definition doSendTx_success :: "flow \<Rightarrow> jv \<Rightarrow> page \<Rightarrow> page" where
  "doSendTx_success f r =
     getf ''Error'' r (\<lambda>e w.
       if truthy e then showTip (''generateTx Error:'' @ js_str e @ br2 @ '' you can cancel Lockin or Lockout after 1000 blocks!'') (hideMaskLayer w)
       else after_tx f (queryStatus False w))"

text \<open>The answer of \<open>/generateTx\<close>, with the text of an error: the layout is shown, then it is signed and sent.\<close>

definition generated :: "(jv \<Rightarrow> string) \<Rightarrow> flow \<Rightarrow> jv \<Rightarrow> page \<Rightarrow> page" where
  "generated err_text f r =
     getf ''Error'' r (\<lambda>e w.
       if truthy e then showTip (err_text e) (hideMaskLayer w)
       else getf ''Message'' r (\<lambda>m. getf ''TxHash'' m (\<lambda>_. getf ''Tx'' m (\<lambda>tx.
         try_then (formatJson tx (Some True) (Some True)) (\<lambda>t w.
           doSendTx m f (set_html ''signTransaction'' t w))))) w)"

definition generateTx :: "jv \<Rightarrow> string \<Rightarrow> (string \<times> jv) list \<Rightarrow> flow \<Rightarrow> page \<Rightarrow> page" where
  "generateTx contract meth arg f w =
     ajax ''post'' (helpService @ ''/generateTx'')
       (JObj [(''From'', myaccount w), (''ContractAddress'', contract), (''Method'', JStr meth), (''Arg'', JObj arg)]) (OnTx f) w"

definition request_failed :: "string \<Rightarrow> page \<Rightarrow> page" where
  "request_failed t w = showTip t (hideMaskLayer w)"

section \<open>Lock-in\<close>

definition prePareLockin :: "page \<Rightarrow> page" where
  "prePareLockin w =
     (let w = w\<lparr>currentLockinSecret := JStr [], currentLockinSecretHash := JStr []\<rparr>;
          amount = floor_product (vals w ''prepareLockInAmount'') (mainChainBalance w)
      in if not_positive amount then alert ''no enough ether to transfer'' w
         else let w = showMaskLayer (''prepare transfer ether to spectrum, amount='' @ js_str amount) w;
                  w = set_html ''signTransaction'' [] w
           in ajax ''get'' (helpService @ ''/generateSecret'') Undef (OnSecretLockin amount) w)"

definition prePareLockin_success :: "jv \<Rightarrow> jv \<Rightarrow> page \<Rightarrow> page" where
  "prePareLockin_success amount r =
     getf ''Error'' r (\<lambda>e w.
       if truthy e then showTip (''generateSecret Error:'' @ js_str e @ retry) (hideMaskLayer w)
       else getf ''Message'' r (\<lambda>m.
         getf ''Secret'' m (\<lambda>s w. let w = w\<lparr>currentLockinSecret := s\<rparr> in
         getf ''SecretHash'' m (\<lambda>h w.
           let w = w\<lparr>currentLockinSecretHash := h\<rparr>;
               w = storage_put ''currentLockinSecret'' (currentLockinSecret w) w;
               w = storage_put ''currentLockinSecretHash'' (currentLockinSecretHash w) w
           in queryStatusHelper (ForLockin amount) w) w)) w)"

definition doPrePareLockin :: "jv \<Rightarrow> jv \<Rightarrow> jv \<Rightarrow> page \<Rightarrow> page" where
  "doPrePareLockin amount secrethash expiration w =
     generateTx (mainChainContract w) ''mprepareLockin''
       [(''SecretHash'', secrethash), (''Expiration'', expiration), (''Value'', amount)] PrepareLockin w"

definition prePareLockin_status :: "jv \<Rightarrow> jv \<Rightarrow> page \<Rightarrow> page" where
  "prePareLockin_status amount r =
     getf ''Error'' r (\<lambda>e w.
       if truthy e then showTip (''query status  Error:'' @ js_str e @ retry) (hideMaskLayer w)
       else getf ''Message'' r (\<lambda>m. getf ''MainChainBlockNumber'' m (\<lambda>b w.
         doPrePareLockin amount (currentLockinSecretHash w) (plus_num b 1000) w)) w)"

definition doPrePareLockin_success :: "jv \<Rightarrow> page \<Rightarrow> page" where
  "doPrePareLockin_success = generated (\<lambda>e. ''generateTx Error:'' @ js_str e @ cancel_hint) PrepareLockin"

text \<open>The request for the notary is prepared by the help service, signed here and sent to the notary.\<close>

definition notify :: "string \<Rightarrow> string \<Rightarrow> string \<Rightarrow> (page \<Rightarrow> jv) \<Rightarrow> callback \<Rightarrow> page \<Rightarrow> page" where
  "notify none_text path mask_text sh cbk w =
     (case key w of
        None \<Rightarrow> throw_exc ''TypeError'' w
      | Some k \<Rightarrow> try_then (getPub k) (\<lambda>(pk, k) w.
          let w = w\<lparr>key := Some k\<rparr>
          in if \<not> truthy (sh w) then alert none_text w
             else let w = updateMaskLayer (''notify notary '' @ vals w ''selNode'' @ mask_text) w
               in ajax ''post'' (helpService @ path)
                    (JObj [(''SCToken'', sideChainContract w), (''UserAddress'', myaccount w),
                           (''UserPublicKey'', JArr (map JNum pk)), (''SecretHash'', sh w)]) cbk w) w)"

definition notifyNotaryPreareLockin :: "page \<Rightarrow> page" where
  "notifyNotaryPreareLockin w =
     notify ''please prepare lock in first'' ''/scPrepareLockin'' '' assign Ethereum Token for me on Spectrum...''
       currentLockinSecretHash OnScPrepare w"

text \<open>The halves are put one after the other as they are, without padding, and read as bytes again.\<close>

definition send_to_notary :: "string \<Rightarrow> callback \<Rightarrow> jv \<Rightarrow> page \<Rightarrow> page" where
  "send_to_notary path cbk r =
     getf ''TxHash'' r (\<lambda>h. sign_hash h (\<lambda>(sr, ss).
       let rsv = sr @ ss @ ''00'';
           bytes = map (\<lambda>x. case x of None \<Rightarrow> 0 | Some b \<Rightarrow> b) (hexToBytes rsv)
       in getf ''Req'' r (\<lambda>req. try_then (set_field ''signature'' (JStr (bytesToBase64 bytes)) req) (\<lambda>req w.
            ajax ''post'' (vals w ''selNode'' @ path @ js_str (sideChainContract w)) req cbk w))))"

definition doNotifyNotaryPrepareLockin :: "jv \<Rightarrow> page \<Rightarrow> page" where
  "doNotifyNotaryPrepareLockin = send_to_notary ''/api/1/user/scpreparelockin/'' OnScNotary"

definition notifyNotaryPreareLockin_success :: "jv \<Rightarrow> page \<Rightarrow> page" where
  "notifyNotaryPreareLockin_success r =
     getf ''Error'' r (\<lambda>e w.
       if truthy e then showTip (''scPrepareLockin Error:'' @ cancel_hint) (hideMaskLayer w)
       else getf ''Message'' r doNotifyNotaryPrepareLockin w)"

definition doNotifyNotaryPrepareLockin_success :: "jv \<Rightarrow> page \<Rightarrow> page" where
  "doNotifyNotaryPrepareLockin_success r =
     getf ''error_msg'' r (\<lambda>e w.
       if \<not> eq_word ''success'' e then showTip (''scPrepareLockin notary Error:'' @ cancel_hint) (hideMaskLayer w)
       else setTimeout SideLockinTimer (queryStatus False w))"

definition doSideChainLockin :: "page \<Rightarrow> page" where
  "doSideChainLockin w =
     generateTx (sideChainContract w) ''slockin''
       [(''Account'', myaccount w), (''Secret'', currentLockinSecret w)] Lockin w"

definition sideChainLockin :: "page \<Rightarrow> page" where
  "sideChainLockin w =
     (if \<not> truthy (currentLockinSecret w) \<or> \<not> truthy (currentLockinSecretHash w)
      then alert ''must prepare lockin and notify notary first'' w
      else doSideChainLockin (set_html ''signTransaction'' [] (updateMaskLayer ''get Ethereum Token on Spectrum,please wait ...'' w)))"

definition doSideChainLockin_success :: "jv \<Rightarrow> page \<Rightarrow> page" where
  "doSideChainLockin_success = generated (\<lambda>e. ''generateTx Error:'' @ js_str e @ retry) Lockin"

definition doMainChainCancelLockin :: "page \<Rightarrow> page" where
  "doMainChainCancelLockin w = generateTx (mainChainContract w) ''mcancelLockin'' [(''Account'', myaccount w)] CancelLockin w"

definition mainChainCancelLockin :: "page \<Rightarrow> page" where
  "mainChainCancelLockin w =
     (if \<not> truthy (currentLockinSecret w) \<or> \<not> truthy (currentLockinSecretHash w)
      then alert ''must prepare lockin and notify notary first'' w
      else doMainChainCancelLockin (set_html ''signTransaction'' [] (showMaskLayer ''cancel Ethereum lockin,please wait ...'' w)))"

definition doMainChainCancelLockin_success :: "jv \<Rightarrow> page \<Rightarrow> page" where
  "doMainChainCancelLockin_success =
     generated (\<lambda>_. ''You must wait at least 1000 blocks! '' @ br2 @ ''Please Retry Later!'') CancelLockin"

section \<open>Lock-out\<close>

definition prePareLockout :: "page \<Rightarrow> page" where
  "prePareLockout w =
     (let w = w\<lparr>currentLockoutSecret := JStr [], currentLockoutSecretHash := JStr []\<rparr>;
          amount = floor_product (vals w ''prepareLockoutAmount'') (sideChainBalance w)
      in if not_positive amount then alert ''no enough EtherumEther to transfer'' w
         else let w = showMaskLayer (''prepare transfer ether from   spectrum to ether, amount='' @ js_str amount) w;
                  w = set_html ''signTransaction'' [] w
           in ajax ''get'' (helpService @ ''/generateSecret'') Undef (OnSecretLockout amount) w)"

definition prePareLockout_success :: "jv \<Rightarrow> jv \<Rightarrow> page \<Rightarrow> page" where
  "prePareLockout_success amount r =
     getf ''Error'' r (\<lambda>e w.
       if truthy e then showTip (''generateSecret Error:'' @ js_str e @ retry) (hideMaskLayer w)
       else getf ''Message'' r (\<lambda>m.
         getf ''Secret'' m (\<lambda>s w. let w = w\<lparr>currentLockoutSecret := s\<rparr> in
         getf ''SecretHash'' m (\<lambda>h w.
           let w = w\<lparr>currentLockoutSecretHash := h\<rparr>;
               w = storage_put ''currentLockoutSecret'' (currentLockoutSecret w) w;
               w = storage_put ''currentLockoutSecretHash'' (currentLockoutSecretHash w) w
           in queryStatusHelper (ForLockout amount) w) w)) w)"

text \<open>The contract is the one of the main chain, although the method is one of the side chain.\<close>

definition doPrePareLockout :: "jv \<Rightarrow> jv \<Rightarrow> jv \<Rightarrow> page \<Rightarrow> page" where
  "doPrePareLockout amount secrethash expiration w =
     generateTx (mainChainContract w) ''sprepareLockout''
       [(''SecretHash'', secrethash), (''Expiration'', expiration), (''Value'', amount)] PrepareLockout w"

definition prePareLockout_status :: "jv \<Rightarrow> jv \<Rightarrow> page \<Rightarrow> page" where
  "prePareLockout_status amount r =
     getf ''Error'' r (\<lambda>e w.
       if truthy e then showTip (''query status  Error:'' @ js_str e @ retry) (hideMaskLayer w)
       else getf ''Message'' r (\<lambda>m. getf ''SideChainBlockNumber'' m (\<lambda>b w.
         doPrePareLockout amount (currentLockoutSecretHash w) (plus_num b 1000) w)) w)"

definition doPrePareLockout_success :: "jv \<Rightarrow> page \<Rightarrow> page" where
  "doPrePareLockout_success = generated (\<lambda>e. ''generateTx Error:'' @ js_str e @ retry) PrepareLockout"

definition notifyNotaryPreareLockout :: "page \<Rightarrow> page" where
  "notifyNotaryPreareLockout w =
     notify ''please prepare lock out first'' ''/mcPrepareLockout'' '' assign Eth for me on Etherum...''
       currentLockoutSecretHash OnMcPrepare w"

definition doNotifyNotaryPrepareLockout :: "jv \<Rightarrow> page \<Rightarrow> page" where
  "doNotifyNotaryPrepareLockout = send_to_notary ''/api/1/user/mcpreparelockout/'' OnMcNotary"

definition notifyNotaryPreareLockout_success :: "jv \<Rightarrow> page \<Rightarrow> page" where
  "notifyNotaryPreareLockout_success r =
     getf ''Error'' r (\<lambda>e w.
       if truthy e then showTip (''mcPrepareLockout Error:'' @ js_str e @ retry) (hideMaskLayer w)
       else getf ''Message'' r doNotifyNotaryPrepareLockout w)"

definition doNotifyNotaryPrepareLockout_success :: "jv \<Rightarrow> page \<Rightarrow> page" where
  "doNotifyNotaryPrepareLockout_success r =
     getf ''error_msg'' r (\<lambda>e w.
       if \<not> eq_word ''success'' e then showTip (''mcpreparelockout notary Error:'' @ cancel_hint) (hideMaskLayer w)
       else setTimeout MainLockoutTimer (queryStatus False w))"

definition doMainChainLockout :: "page \<Rightarrow> page" where
  "doMainChainLockout w =
     generateTx (sideChainContract w) ''mlockout''
       [(''Account'', myaccount w), (''Secret'', currentLockoutSecret w)] Lockout w"

text \<open>The guard looks at the secret of the lock-in.\<close>

definition mainChainLockout :: "page \<Rightarrow> page" where
  "mainChainLockout w =
     (if \<not> truthy (currentLockinSecret w) \<or> \<not> truthy (currentLockinSecretHash w)
      then alert ''must prepare lockout and notify notary first'' w
      else doMainChainLockout (set_html ''signTransaction'' [] (updateMaskLayer ''get ETH Token on Ethereum,please wait ...'' w)))"

definition doMainChainLockout_success :: "jv \<Rightarrow> page \<Rightarrow> page" where
  "doMainChainLockout_success = generated (\<lambda>e. ''generateTx Error:'' @ js_str e @ cancel_hint) Lockout"

definition doSideChainCancelLockout :: "page \<Rightarrow> page" where
  "doSideChainCancelLockout w = generateTx (sideChainContract w) ''scancelLockOut'' [(''Account'', myaccount w)] CancelLockout w"

definition sideChainCancelLockout :: "page \<Rightarrow> page" where
  "sideChainCancelLockout w =
     (if \<not> truthy (currentLockinSecret w) \<or> \<not> truthy (currentLockinSecretHash w)
      then alert ''must prepare lockout and notify notary first'' w
      else doSideChainCancelLockout (set_html ''signTransaction'' [] (showMaskLayer ''cancel spectrum lockout,please wait ...'' w)))"

definition doSideChainCancelLockout_success :: "jv \<Rightarrow> page \<Rightarrow> page" where
  "doSideChainCancelLockout_success =
     generated (\<lambda>_. ''You must wait at least 1000 blocks , Please Retry Later!'') CancelLockout"

section \<open>Loading the page\<close>

definition notary_list :: "string \<Rightarrow> (string \<times> string) list" where
  "notary_list host = map (\<lambda>i. (''Notary'' @ num_str 10 i, host @ '':803'' @ num_str 10 i)) [0, 1, 2, 3, 4, 5, 6]"

definition options_html :: "(string \<times> string) list \<Rightarrow> string" where
  "options_html ns =
     concat (map (\<lambda>(n, v). ''<option value='' @ qt (''http://'' @ v) @ ''>'' @ n @ ''</option>'') ns)"

text \<open>The variables of the script, from what is left in the storage once it is cleared.\<close>

definition load_variables :: "page \<Rightarrow> page" where
  "load_variables w0 =
     (let w = clearData w0
      in w\<lparr>key := None, nodes_Ip := [], myaccount := storage_get ''myaccount'' w,
            mainChainContract := Undef, sideChainContract := Undef, notaryPrivateKeyId := Undef,
            currentLockinSecretHash := storage_get ''currentLockinSecretHash'' w,
            currentLockinSecret := storage_get ''currentLockinSecret'' w,
            currentLockoutSecret := storage_get ''currentLockoutSecret'' w,
            currentLockoutSecretHash := storage_get ''currentLockoutSecretHash'' w,
            currentMainChainBlockNumber := Undef, currentSideChainBlockNuber := Undef,
            mainChainBalance := Undef, sideChainBalance := Undef,
            mainWeb3 := None, sideWeb3 := None, pagetimer := None\<rparr>)"

definition ready_nodes :: "page \<Rightarrow> page" where
  "ready_nodes w =
     (let w = set_shown ''cointype'' False (set_shown ''tab_content'' False (set_shown ''btcpanel'' False w));
          w = w\<lparr>nodes_Ip := notary_list (runhost w)\<rparr>;
          w = set_html ''selNode'' (options_html (nodes_Ip w)) w;
          w = set_val ''selNode'' (''http://'' @ snd (hd (nodes_Ip w))) w
      in set_val ''selCoin'' ''ETH'' w)"

text \<open>A key that the storage still has is used again.\<close>

definition ready_init :: "page \<Rightarrow> page" where
  "ready_init w =
     (let w = ajax ''get'' (vals w ''selNode'' @ ''/api/1/user/sctokens'') Undef OnTokens w
      in if (case myaccount w of JStr s \<Rightarrow> s \<noteq> [] | _ \<Rightarrow> False)
         then let w = disable ''btnCreateKey'' True w; w = w\<lparr>fixed := (fixed w)(''privateKey'' := True)\<rparr>;
                  (k, kp, s) = ECKey (entropy_now w)
                     (case storage_get ''mykey'' w of JStr t \<Rightarrow> TextInput t | _ \<Rightarrow> NoInput) (pool w, rng w);
                  w = w\<lparr>key := Some k, pool := kp, rng := s\<rparr>
           in try_then (getBitcoinHexFormat k) (\<lambda>t w.
                queryStatus False (set_shown ''tab_content'' True (set_val ''privateKey'' t w))) w
         else queryStatus False w)"

definition first_of :: "jv \<Rightarrow> jv" where
  "first_of d = (case d of
     JArr (x # _) \<Rightarrow> x | JObj kvs \<Rightarrow> (case map_of kvs ''0'' of None \<Rightarrow> Undef | Some x \<Rightarrow> x)
   | JStr (c # _) \<Rightarrow> JStr [c] | _ \<Rightarrow> Undef)"

definition tokens_success :: "jv \<Rightarrow> page \<Rightarrow> page" where
  "tokens_success r =
     getf ''error_msg'' r (\<lambda>e w.
       if \<not> eq_word ''success'' e then showTip (''[Error] '' @ retry) w
       else getf ''data'' r (\<lambda>d w.
         let x = first_of d
         in getf ''mc_locked_contract_address'' x (\<lambda>mc w. let w = w\<lparr>mainChainContract := mc\<rparr> in
           getf ''sc_token'' x (\<lambda>sc w. let w = w\<lparr>sideChainContract := sc\<rparr> in
           getf ''sc_token_owner_key'' x (\<lambda>k w.
             let w = w\<lparr>notaryPrivateKeyId := k\<rparr>;
                 w = put_html ''sideChainContract'' sc (put_html ''mainChainContract'' mc w)
             in queryStatus False w) w) w) w) w)"

definition load_page :: "page \<Rightarrow> page" where
  "load_page w = ready_init (ready_nodes (load_variables w))"

section \<open>Answers\<close>

definition on_tx :: "flow \<Rightarrow> jv \<Rightarrow> page \<Rightarrow> page" where
  "on_tx f = (case f of
     PrepareLockin \<Rightarrow> doPrePareLockin_success | Lockin \<Rightarrow> doSideChainLockin_success
   | CancelLockin \<Rightarrow> doMainChainCancelLockin_success | CancelLockout \<Rightarrow> doSideChainCancelLockout_success
   | PrepareLockout \<Rightarrow> doPrePareLockout_success | Lockout \<Rightarrow> doMainChainLockout_success)"

definition on_success :: "callback \<Rightarrow> jv \<Rightarrow> page \<Rightarrow> page" where
  "on_success c = (case c of
     OnAddress \<Rightarrow> createKey_success | OnTransfer \<Rightarrow> transfer10Ether_success | OnTokens \<Rightarrow> tokens_success
   | OnSecretLockin a \<Rightarrow> prePareLockin_success a | OnSecretLockout a \<Rightarrow> prePareLockout_success a
   | OnStatus s \<Rightarrow> (case s of Refresh b \<Rightarrow> queryStatus_reply b | ForLockin a \<Rightarrow> prePareLockin_status a
       | ForLockout a \<Rightarrow> prePareLockout_status a)
   | OnTx f \<Rightarrow> on_tx f | OnSent f \<Rightarrow> doSendTx_success f
   | OnScPrepare \<Rightarrow> notifyNotaryPreareLockin_success | OnScNotary \<Rightarrow> doNotifyNotaryPrepareLockin_success
   | OnMcPrepare \<Rightarrow> notifyNotaryPreareLockout_success | OnMcNotary \<Rightarrow> doNotifyNotaryPrepareLockout_success)"

text \<open>The error callbacks: they take the mask away and tell the user.\<close>

definition createKey_error :: "jv \<Rightarrow> page \<Rightarrow> page" where
  "createKey_error e = showTip (''Error:'' @ stringified e @ retry)"

definition transfer10Ether_error :: "jv \<Rightarrow> page \<Rightarrow> page" where
  "transfer10Ether_error e = request_failed (''Error:'' @ stringified e @ retry)"

definition prePareLockin_error :: "page \<Rightarrow> page" where
  "prePareLockin_error = request_failed ''generate Secret Error, Please Retry!''"

definition prePareLockout_error :: "page \<Rightarrow> page" where
  "prePareLockout_error = request_failed (''Error:'' @ retry)"

definition doSendTx_error :: "jv \<Rightarrow> page \<Rightarrow> page" where
  "doSendTx_error e = request_failed (''sendTx Error:'' @ stringified e @ cancel_hint)"

definition doPrePareLockin_error :: "page \<Rightarrow> page" where
  "doPrePareLockin_error = request_failed (''mprepareLockin Error:'' @ cancel_hint)"

definition doSideChainLockin_error :: "page \<Rightarrow> page" where
  "doSideChainLockin_error = request_failed (''doSideChainLockin Error:'' @ retry)"

definition doMainChainCancelLockin_error :: "page \<Rightarrow> page" where
  "doMainChainCancelLockin_error = request_failed (''doMainChainCancelLockin Error:'' @ retry)"

definition doSideChainCancelLockout_error :: "page \<Rightarrow> page" where
  "doSideChainCancelLockout_error = request_failed (''doSideChainCancelLockout Error:'' @ retry)"

definition doPrePareLockout_error :: "page \<Rightarrow> page" where
  "doPrePareLockout_error = request_failed (''doPrePareLockout Error:'' @ retry)"

definition doMainChainLockout_error :: "page \<Rightarrow> page" where
  "doMainChainLockout_error = request_failed (''doMainChainLockout Error:'' @ cancel_hint)"

lemmas error_callbacks = createKey_error_def transfer10Ether_error_def prePareLockin_error_def prePareLockout_error_def
  doSendTx_error_def doPrePareLockin_error_def doSideChainLockin_error_def doMainChainCancelLockin_error_def
  doSideChainCancelLockout_error_def doPrePareLockout_error_def doMainChainLockout_error_def

definition on_tx_error :: "flow \<Rightarrow> page \<Rightarrow> page" where
  "on_tx_error f = (case f of
     PrepareLockin \<Rightarrow> doPrePareLockin_error | Lockin \<Rightarrow> doSideChainLockin_error
   | CancelLockin \<Rightarrow> doMainChainCancelLockin_error | CancelLockout \<Rightarrow> doSideChainCancelLockout_error
   | PrepareLockout \<Rightarrow> doPrePareLockout_error | Lockout \<Rightarrow> doMainChainLockout_error)"

text \<open>
  Requests whose options name the callback \<open>err\<close> instead of \<open>error\<close> have no callback for a failure:
  jQuery does not know the option.
\<close>

definition on_failure :: "callback \<Rightarrow> jv \<Rightarrow> page \<Rightarrow> page" where
  "on_failure c e = (case c of
     OnAddress \<Rightarrow> createKey_error e | OnTransfer \<Rightarrow> transfer10Ether_error e
   | OnSecretLockin _ \<Rightarrow> prePareLockin_error | OnSecretLockout _ \<Rightarrow> prePareLockout_error
   | OnTx f \<Rightarrow> on_tx_error f | OnSent _ \<Rightarrow> doSendTx_error e
   | _ \<Rightarrow> id)"

definition on_answer :: "callback \<Rightarrow> answer \<Rightarrow> page \<Rightarrow> page" where
  "on_answer c a = (case a of Success r \<Rightarrow> on_success c r | Failure e \<Rightarrow> on_failure c e)"

definition on_timer :: "timer \<Rightarrow> page \<Rightarrow> page" where
  "on_timer t = (case t of
     NotifyLockinTimer \<Rightarrow> notifyNotaryPreareLockin | SideLockinTimer \<Rightarrow> sideChainLockin
   | NotifyLockoutTimer \<Rightarrow> notifyNotaryPreareLockout | MainLockoutTimer \<Rightarrow> mainChainLockout)"

section \<open>Steps\<close>

text \<open>
  What can happen next: a click on a button that is enabled, a choice in a list, the answer to any of the
  requests that wait, the oldest timer (all have the same delay), a tick of the mask, or the browser having
  other random bits.
\<close>

datatype click = CreateKey | Transfer | RefreshStatus | ClickLockin | ClickCancelLockin | ClickLockout | ClickCancelLockout

datatype event = Click click | Choose string string | ChangeCoin string | Answer nat callback answer | Timer timer | Tick nat | Entropy entropy

definition button :: "click \<Rightarrow> string option" where
  "button c = (case c of
     CreateKey \<Rightarrow> Some ''btnCreateKey'' | Transfer \<Rightarrow> Some ''btnTransferEther'' | RefreshStatus \<Rightarrow> None
   | ClickLockin \<Rightarrow> Some ''btnPrepareLockin'' | ClickCancelLockin \<Rightarrow> Some ''btnMainChainCancelLockin''
   | ClickLockout \<Rightarrow> Some ''btnPrepareLockout'' | ClickCancelLockout \<Rightarrow> Some ''btnSideChainCancelLockout'')"

definition on_click :: "click \<Rightarrow> page \<Rightarrow> page" where
  "on_click c = (case c of
     CreateKey \<Rightarrow> createKey | Transfer \<Rightarrow> transfer10Ether | RefreshStatus \<Rightarrow> queryStatus True
   | ClickLockin \<Rightarrow> prePareLockin | ClickCancelLockin \<Rightarrow> mainChainCancelLockin
   | ClickLockout \<Rightarrow> prePareLockout | ClickCancelLockout \<Rightarrow> sideChainCancelLockout)"

definition remove_nth :: "nat \<Rightarrow> 'a list \<Rightarrow> 'a list" where
  "remove_nth i xs = take i xs @ drop (Suc i) xs"

inductive step :: "page \<Rightarrow> event \<Rightarrow> page \<Rightarrow> bool" where
  click: "(case button c of None \<Rightarrow> True | Some b \<Rightarrow> \<not> off w b) \<Longrightarrow> step w (Click c) (on_click c w)"
| choose: "e \<in> {''selNode'', ''prepareLockInAmount'', ''prepareLockoutAmount''} \<Longrightarrow> step w (Choose e v) (set_val e v w)"
| coin: "step w (ChangeCoin v) (changecoin v (set_val ''selCoin'' v w))"
| answer: "i < length (pending w) \<Longrightarrow> cont (pending w ! i) = c \<Longrightarrow>
    step w (Answer i c a) (on_answer c a (w\<lparr>pending := remove_nth i (pending w)\<rparr>))"
| timer: "timers w = t # ts \<Longrightarrow> step w (Timer t) (on_timer t (w\<lparr>timers := ts\<rparr>))"
| tick: "step w (Tick i) (tick i w)"
| entropy: "step w (Entropy en) (w\<lparr>entropy_now := en\<rparr>)"

inductive_cases step_cases: "step w e w'"

inductive runs :: "page \<Rightarrow> event list \<Rightarrow> page \<Rightarrow> bool" where
  refl: "runs w [] w"
| snoc: "runs w es w' \<Longrightarrow> step w' e w'' \<Longrightarrow> runs w (es @ [e]) w''"

text \<open>The browser before the page is loaded: nothing is waiting.\<close>

definition fresh_browser :: "page \<Rightarrow> bool" where
  "fresh_browser w \<longleftrightarrow> pending w = [] \<and> timers w = [] \<and> sent w = [] \<and> \<not> mask w \<and> intervals w = []"

end
