(* ===== verification/WebRun.thy ===== *)
theory WebRun
  imports WebDemo "HOL-Library.Sublist"
begin

text \<open>
  What the page of the web demo keeps along every run of its steps. The locale \<open>page_law\<close> states when a
  predicate on the page survives the handlers: it looks only at the secrets, the requests and the timers,
  and allows the requests and timers a handler makes. Each invariant is an interpretation.
\<close>

section \<open>Predicates that handlers keep\<close>

definition tracked :: "page \<Rightarrow> _" where
  "tracked w = (localStorage w, currentLockinSecret w, currentLockinSecretHash w, currentLockoutSecret w,
     currentLockoutSecretHash w, pending w, timers w, sent w)"

text \<open>The requests and timers an event may cause, from the answers that are not refused.\<close>

definition no_error :: "jv \<Rightarrow> bool" where
  "no_error r = (case field ''Error'' r of Inl _ \<Rightarrow> False | Inr e \<Rightarrow> \<not> truthy e)"

definition accepted :: "jv \<Rightarrow> bool" where
  "accepted r = (case field ''error_msg'' r of Inl _ \<Rightarrow> False | Inr e \<Rightarrow> eq_word ''success'' e)"

definition leads :: "event \<Rightarrow> callback set" where
  "leads e = (case e of
     Click c \<Rightarrow> (case c of CreateKey \<Rightarrow> {OnAddress} | Transfer \<Rightarrow> {OnTransfer} | RefreshStatus \<Rightarrow> {}
       | ClickLockin \<Rightarrow> range OnSecretLockin | ClickCancelLockin \<Rightarrow> {OnTx CancelLockin}
       | ClickLockout \<Rightarrow> range OnSecretLockout | ClickCancelLockout \<Rightarrow> {OnTx CancelLockout})
   | Answer i c (Success r) \<Rightarrow>
       if no_error r
       then (case c of
         OnSecretLockin a \<Rightarrow> {OnStatus (ForLockin a)} | OnSecretLockout a \<Rightarrow> {OnStatus (ForLockout a)}
       | OnStatus (ForLockin a) \<Rightarrow> {OnTx PrepareLockin} | OnStatus (ForLockout a) \<Rightarrow> {OnTx PrepareLockout}
       | OnTx f \<Rightarrow> {OnSent f} | OnScPrepare \<Rightarrow> {OnScNotary} | OnMcPrepare \<Rightarrow> {OnMcNotary} | _ \<Rightarrow> {})
       else {}
   | Timer t \<Rightarrow> (case t of NotifyLockinTimer \<Rightarrow> {OnScPrepare} | SideLockinTimer \<Rightarrow> {OnTx Lockin}
       | NotifyLockoutTimer \<Rightarrow> {OnMcPrepare} | MainLockoutTimer \<Rightarrow> {OnTx Lockout})
   | _ \<Rightarrow> {})"

definition starts :: "event \<Rightarrow> timer set" where
  "starts e = (case e of
     Answer i c (Success r) \<Rightarrow> (case c of
         OnSent PrepareLockin \<Rightarrow> (if no_error r then {NotifyLockinTimer} else {})
       | OnSent PrepareLockout \<Rightarrow> (if no_error r then {NotifyLockoutTimer} else {})
       | OnScNotary \<Rightarrow> (if accepted r then {SideLockinTimer} else {})
       | OnMcNotary \<Rightarrow> (if accepted r then {MainLockoutTimer} else {})
       | _ \<Rightarrow> {})
   | _ \<Rightarrow> {})"

text \<open>The requests whose handlers look at the secret of the lock-in first.\<close>

definition guarded :: "callback \<Rightarrow> bool" where
  "guarded c \<longleftrightarrow> c \<in> OnTx ` {Lockin, CancelLockin, CancelLockout, Lockout}"

locale page_law =
  fixes P :: "page \<Rightarrow> bool" and allowed :: "callback \<Rightarrow> bool" and timed :: "timer \<Rightarrow> bool"
  assumes quiet: "P w \<Longrightarrow> tracked w' = tracked w \<Longrightarrow> P w'"
    and ajax_law: "P w \<Longrightarrow> allowed c \<Longrightarrow> P (ajax v u d c w)"
    and timeout_law: "P w \<Longrightarrow> timed t \<Longrightarrow> P (setTimeout t w)"
    and clear_lockin_law: "P w \<Longrightarrow> P (clearLockinSecret w)"
    and clear_lockout_law: "P w \<Longrightarrow> P (clearLockoutSecret w)"
    and drop_law: "P w \<Longrightarrow> P (w\<lparr>pending := remove_nth i (pending w)\<rparr>)"
    and timer_law: "P w \<Longrightarrow> timers w = t # ts \<Longrightarrow> P (w\<lparr>timers := ts\<rparr>)"
    and account_law: "P w \<Longrightarrow> n \<in> {''myaccount'', ''mykey''} \<Longrightarrow> P (storage_put n x w)"
    and reset_lockin_law: "P w \<Longrightarrow> P (w\<lparr>currentLockinSecret := JStr [], currentLockinSecretHash := JStr []\<rparr>)"
    and learn_lockin_law: "P w \<Longrightarrow> allowed (OnSecretLockin a) \<Longrightarrow> P (w\<lparr>currentLockinSecret := x\<rparr>)"
    and lockin_hash_law: "P w \<Longrightarrow> P (w\<lparr>currentLockinSecretHash := x\<rparr>)"
    and store_lockin_law: "P w \<Longrightarrow> P (storage_put ''currentLockinSecretHash'' h (storage_put ''currentLockinSecret'' x w))"
    and lockout_law: "P w \<Longrightarrow> P (w\<lparr>currentLockoutSecret := x\<rparr>)" "P w \<Longrightarrow> P (w\<lparr>currentLockoutSecretHash := x\<rparr>)"
    and store_lockout_law: "P w \<Longrightarrow> P (storage_put ''currentLockoutSecretHash'' h (storage_put ''currentLockoutSecret'' x w))"
    and nodes_law: "P w \<Longrightarrow> P (w\<lparr>nodes_Ip := ns\<rparr>)"
    and refresh: "allowed (OnStatus (Refresh b))"
begin

lemma quiet_ops:
  assumes "P w"
  shows "P (throw_exc e w)" "P (set_html n t w)" "P (set_val n t w)" "P (disable n b w)" "P (set_shown n b w)"
    "P (alert t w)" "P (showTip t w)" "P (showMaskLayer t w)" "P (updateMaskLayer t w)" "P (hideMaskLayer w)"
    "P (put_html n x w)" "P (tick i w)" "P (getMainChainWeb3 w)" "P (request_failed t w)" "P (changecoin t w)"
    "P (set_buttons x w)" "P (w\<lparr>key := k\<rparr>)" "P (w\<lparr>rng := s\<rparr>)" "P (w\<lparr>focused := t\<rparr>)" "P (w\<lparr>myaccount := x\<rparr>)"
  by (rule quiet [OF assms];
      simp add: tracked_def throw_exc_def set_html_def set_val_def disable_def set_shown_def alert_def showTip_def
        showMaskLayer_def updateMaskLayer_def hideMaskLayer_def put_html_def tick_def getMainChainWeb3_def
        request_failed_def changecoin_def displayAddress_def set_buttons_def Let_def
        split: jv.split option.split)+

lemma getf_law: "P w \<Longrightarrow> (\<And>x w. P w \<Longrightarrow> P (rest x w)) \<Longrightarrow> P (getf n v rest w)"
  by (simp add: getf_def quiet_ops split: sum.split)

lemma try_law: "P w \<Longrightarrow> (\<And>x w. P w \<Longrightarrow> P (rest x w)) \<Longrightarrow> P (try_then r rest w)"
  by (simp add: try_then_def quiet_ops split: sum.split)

lemma query_law: "P w \<Longrightarrow> P (queryStatus b w)"
  unfolding queryStatus_def queryStatusHelper_def by (rule ajax_law) (simp_all add: refresh)

lemma update_ops:
  assumes "P w"
  shows "P (w\<lparr>currentMainChainBlockNumber := x\<rparr>)" "P (w\<lparr>currentSideChainBlockNuber := x\<rparr>)" "P (w\<lparr>mainChainBalance := x\<rparr>)"
    "P (w\<lparr>sideChainBalance := x\<rparr>)" "P (w\<lparr>mainChainContract := x\<rparr>)" "P (w\<lparr>sideChainContract := x\<rparr>)"
    "P (w\<lparr>notaryPrivateKeyId := x\<rparr>)" "P (w\<lparr>entropy_now := en\<rparr>)" "P (w\<lparr>key := k, pool := kp, rng := s\<rparr>)" "P (w\<lparr>fixed := z\<rparr>)"
  by (rule quiet [OF assms]; simp add: tracked_def)+

lemmas keep = getf_law try_law query_law quiet_ops update_ops

lemma balance_law: "P w \<Longrightarrow> (\<And>w. P w \<Longrightarrow> P (rest w)) \<Longrightarrow> P (show_balance e p h s r rest w)"
  unfolding show_balance_def Let_def by (auto intro!: getf_law try_law quiet_ops)

lemma status_law: "P w \<Longrightarrow> P (show_status b r w)"
  unfolding show_status_def Let_def by (auto intro!: keep balance_law)

lemma queryStatus_reply_law: "P w \<Longrightarrow> P (queryStatus_reply b r w)"
  unfolding queryStatus_reply_def by (auto intro!: keep status_law)

lemma sign_law: "P w \<Longrightarrow> (\<And>x w. P w \<Longrightarrow> P (rest x w)) \<Longrightarrow> P (sign_hash h rest w)"
  unfolding sign_hash_def by (auto intro!: keep split: jv.split option.split)

lemma send_law: "P w \<Longrightarrow> allowed (OnSent f) \<Longrightarrow> P (doSendTx r f w)"
  unfolding doSendTx_def Let_def by (auto intro!: keep sign_law ajax_law)

lemma error_law:
  "P w \<Longrightarrow> (\<And>e w. P w \<Longrightarrow> truthy e \<or> no_error r \<Longrightarrow> P (rest e w)) \<Longrightarrow> P (getf ''Error'' r rest w)"
  by (auto simp: getf_def no_error_def intro: quiet_ops split: sum.split)

lemma accepted_law:
  "P w \<Longrightarrow> (\<And>e w. P w \<Longrightarrow> \<not> eq_word ''success'' e \<or> accepted r \<Longrightarrow> P (rest e w)) \<Longrightarrow> P (getf ''error_msg'' r rest w)"
  by (auto simp: getf_def accepted_def intro: quiet_ops split: sum.split)

lemma generated_law: "P w \<Longrightarrow> (no_error r \<Longrightarrow> allowed (OnSent f)) \<Longrightarrow> P (generated t f r w)"
  unfolding generated_def by (rule error_law) (auto intro!: keep send_law)

lemma generateTx_law: "P w \<Longrightarrow> allowed (OnTx f) \<Longrightarrow> P (generateTx c m a f w)"
  unfolding generateTx_def by (rule ajax_law)

lemma notify_law: "P w \<Longrightarrow> allowed c \<Longrightarrow> P (notify n p m h c w)"
  unfolding notify_def Let_def by (auto intro!: keep ajax_law split: option.split)

lemma notary_law: "P w \<Longrightarrow> allowed c \<Longrightarrow> P (send_to_notary p c r w)"
  unfolding send_to_notary_def Let_def by (auto intro!: keep sign_law ajax_law)

lemma tokens_law: "P w \<Longrightarrow> P (tokens_success r w)"
  unfolding tokens_success_def Let_def by (auto intro!: keep)

lemma transfer_law: "P w \<Longrightarrow> allowed OnTransfer \<Longrightarrow> P (transfer10Ether w)"
  unfolding transfer10Ether_def Let_def by (auto intro!: keep ajax_law)

lemma transfer_success_law: "P w \<Longrightarrow> P (transfer10Ether_success r w)"
  unfolding transfer10Ether_success_def by (auto intro!: keep)

lemma createKey_law: "P w \<Longrightarrow> allowed OnAddress \<Longrightarrow> P (createKey w)"
  unfolding createKey_def Let_def by (auto intro!: keep ajax_law split: prod.split)

lemma failure_law: "P w \<Longrightarrow> P (on_failure c e w)"
  unfolding on_failure_def on_tx_error_def error_callbacks by (auto intro!: keep split: callback.split flow.split)

lemma createKey_success_law: "P w \<Longrightarrow> P (createKey_success r w)"
  unfolding createKey_success_def Let_def by (auto intro!: keep account_law split: option.split)

lemma prepare_lockin_law: "P w \<Longrightarrow> (\<And>a. allowed (OnSecretLockin a)) \<Longrightarrow> P (prePareLockin w)"
  unfolding prePareLockin_def Let_def by (auto intro!: keep ajax_law reset_lockin_law)

lemma prepare_lockout_law: "P w \<Longrightarrow> (\<And>a. allowed (OnSecretLockout a)) \<Longrightarrow> P (prePareLockout w)"
proof -
  assume P: "P w" and a: "\<And>a. allowed (OnSecretLockout a)"
  have "P (w\<lparr>currentLockoutSecret := JStr [], currentLockoutSecretHash := JStr []\<rparr>)"
    using lockout_law(2) [OF lockout_law(1) [OF P, of "JStr []"], of "JStr []"] by simp
  then show ?thesis unfolding prePareLockout_def Let_def by (auto intro!: keep ajax_law a)
qed

lemma guard_laws:
  assumes "P w"
  shows "(truthy (currentLockinSecret w) \<Longrightarrow> allowed (OnTx Lockin)) \<Longrightarrow> P (sideChainLockin w)"
    and "(truthy (currentLockinSecret w) \<Longrightarrow> allowed (OnTx CancelLockin)) \<Longrightarrow> P (mainChainCancelLockin w)"
    and "(truthy (currentLockinSecret w) \<Longrightarrow> allowed (OnTx CancelLockout)) \<Longrightarrow> P (sideChainCancelLockout w)"
    and "(truthy (currentLockinSecret w) \<Longrightarrow> allowed (OnTx Lockout)) \<Longrightarrow> P (mainChainLockout w)"
  using assms unfolding sideChainLockin_def doSideChainLockin_def mainChainCancelLockin_def doMainChainCancelLockin_def sideChainCancelLockout_def
    doSideChainCancelLockout_def mainChainLockout_def doMainChainLockout_def
  by (auto intro!: keep generateTx_law)

lemma secret_lockin_law:
  assumes "P w" "allowed (OnSecretLockin a)" "no_error r \<Longrightarrow> allowed (OnStatus (ForLockin a))"
  shows "P (prePareLockin_success a r w)"
  unfolding prePareLockin_success_def Let_def
  by (rule error_law [OF assms(1)])
    (auto intro!: keep ajax_law lockin_hash_law store_lockin_law learn_lockin_law [OF _ assms(2)] assms(3)
      simp: queryStatusHelper_def)

lemma secret_lockout_law:
  assumes "P w" "no_error r \<Longrightarrow> allowed (OnStatus (ForLockout a))"
  shows "P (prePareLockout_success a r w)"
  unfolding prePareLockout_success_def Let_def
  by (rule error_law [OF assms(1)])
    (auto intro!: keep ajax_law lockout_law store_lockout_law assms(2) simp: queryStatusHelper_def)

lemma status_flow_laws:
  assumes "P w"
  shows "(no_error r \<Longrightarrow> allowed (OnTx PrepareLockin)) \<Longrightarrow> P (prePareLockin_status a r w)"
    and "(no_error r \<Longrightarrow> allowed (OnTx PrepareLockout)) \<Longrightarrow> P (prePareLockout_status a r w)"
  unfolding prePareLockin_status_def prePareLockout_status_def doPrePareLockin_def doPrePareLockout_def
  by (rule error_law [OF assms]; auto intro!: keep generateTx_law)+

lemma notify_flow_laws:
  assumes "P w"
  shows "(no_error r \<Longrightarrow> allowed OnScNotary) \<Longrightarrow> P (notifyNotaryPreareLockin_success r w)"
    and "(no_error r \<Longrightarrow> allowed OnMcNotary) \<Longrightarrow> P (notifyNotaryPreareLockout_success r w)"
    and "(accepted r \<Longrightarrow> timed SideLockinTimer) \<Longrightarrow> P (doNotifyNotaryPrepareLockin_success r w)"
    and "(accepted r \<Longrightarrow> timed MainLockoutTimer) \<Longrightarrow> P (doNotifyNotaryPrepareLockout_success r w)"
  unfolding notifyNotaryPreareLockin_success_def notifyNotaryPreareLockout_success_def
    doNotifyNotaryPrepareLockin_success_def doNotifyNotaryPrepareLockout_success_def
    doNotifyNotaryPrepareLockin_def doNotifyNotaryPrepareLockout_def
  by (rule error_law [OF assms] accepted_law [OF assms]; auto intro!: keep notary_law timeout_law)+

lemma sent_law:
  assumes "P w" "no_error r \<Longrightarrow> f = PrepareLockin \<Longrightarrow> timed NotifyLockinTimer"
    "no_error r \<Longrightarrow> f = PrepareLockout \<Longrightarrow> timed NotifyLockoutTimer"
  shows "P (doSendTx_success f r w)"
  unfolding doSendTx_success_def after_tx_def
  by (rule error_law [OF assms(1)])
    (auto intro!: keep timeout_law clear_lockin_law clear_lockout_law assms(2,3) split: flow.split)

lemmas success_laws = createKey_success_law transfer_success_law tokens_law secret_lockin_law secret_lockout_law
  status_flow_laws notify_flow_laws sent_law generated_law queryStatus_reply_law

lemma answer_law:
  assumes "P w" "\<And>x. x \<in> leads (Answer i c (Success r)) \<Longrightarrow> allowed x" "\<And>t. t \<in> starts (Answer i c (Success r)) \<Longrightarrow> timed t"
    "allowed c"
  shows "P (on_success c r w)"
  using assms
  by (auto simp: on_success_def on_tx_def leads_def starts_def doPrePareLockin_success_def doSideChainLockin_success_def
      doMainChainCancelLockin_success_def doSideChainCancelLockout_success_def doPrePareLockout_success_def
      doMainChainLockout_success_def intro!: success_laws split: callback.split status_use.split flow.split)

lemma click_law:
  assumes "P w" "\<And>x. x \<in> leads (Click c) \<Longrightarrow> (guarded x \<Longrightarrow> truthy (currentLockinSecret w)) \<Longrightarrow> allowed x"
  shows "P (on_click c w)"
proof -
  have "allowed (OnSecretLockin a)" if "c = ClickLockin" for a
    using assms(2) [of "OnSecretLockin a"] that by (auto simp: leads_def guarded_def)
  moreover have "allowed (OnSecretLockout a)" if "c = ClickLockout" for a
    using assms(2) [of "OnSecretLockout a"] that by (auto simp: leads_def guarded_def)
  ultimately show ?thesis using assms
  by (auto simp: on_click_def leads_def guarded_def intro!: createKey_law transfer_law query_law prepare_lockin_law
      prepare_lockout_law guard_laws split: click.split)
qed

lemma on_timer_law:
  assumes "P w" "\<And>x. x \<in> leads (Timer t) \<Longrightarrow> (guarded x \<Longrightarrow> truthy (currentLockinSecret w)) \<Longrightarrow> allowed x"
  shows "P (on_timer t w)"
  using assms
  by (auto simp: on_timer_def leads_def guarded_def notifyNotaryPreareLockin_def notifyNotaryPreareLockout_def
      intro!: notify_law guard_laws split: timer.split)

lemma step_law:
  assumes "step w e w'" "P w" "\<And>q. q \<in> set (pending w) \<Longrightarrow> allowed (cont q)"
    "\<And>x. x \<in> leads e \<Longrightarrow> (guarded x \<Longrightarrow> truthy (currentLockinSecret w)) \<Longrightarrow> allowed x"
    "\<And>t. t \<in> starts e \<Longrightarrow> timed t"
  shows "P w'"
  using assms
proof (cases rule: step.cases)
  case (click c)
  then show ?thesis using assms by (auto intro: click_law)
next
  case (answer i c a)
  have c: "allowed c" using answer assms(3) nth_mem by blast
  show ?thesis
  proof (cases a)
    case (Success r)
    show ?thesis unfolding answer Success on_answer_def answer.case
      using assms(4,5) by (intro answer_law drop_law assms(2) c) (auto simp: answer Success leads_def guarded_def split: callback.splits status_use.splits if_splits)
  next
    case (Failure z)
    show ?thesis unfolding answer Failure on_answer_def answer.case by (intro failure_law drop_law assms(2))
  qed
next
  case (timer t ts)
  then have "P (w\<lparr>timers := ts\<rparr>)" using timer_law assms(2) by blast
  then show ?thesis unfolding timer using assms(4) timer by (intro on_timer_law) (auto simp: timer)
qed (auto intro!: quiet_ops update_ops)

lemma ready_nodes_law: "P w \<Longrightarrow> P (ready_nodes w)"
  unfolding ready_nodes_def Let_def by (intro keep nodes_law)

lemma ready_init_law:
  assumes "P w" "allowed OnTokens"
  shows "P (ready_init w)"
proof -
  define w1 where "w1 = ajax ''get'' (vals w ''selNode'' @ ''/api/1/user/sctokens'') Undef OnTokens w"
  have 1: "P w1" unfolding w1_def by (intro ajax_law assms)
  have if_law: "(b \<Longrightarrow> P x) \<Longrightarrow> (\<not> b \<Longrightarrow> P y) \<Longrightarrow> P (if b then x else y)" for b x y
    by simp
  show ?thesis unfolding ready_init_def Let_def w1_def [symmetric] split_def
  proof (rule if_law, goal_cases)
    case 1
    show ?case
      by (rule try_law, rule quiet [OF \<open>P w1\<close>]) (simp_all add: tracked_def disable_def keep)
  qed (rule query_law [OF 1])
qed

lemma run_law:
  assumes "runs w es w'" "P w"
    "\<And>es w e w'. step w e w' \<Longrightarrow> P w \<Longrightarrow> e \<in> E \<Longrightarrow> P w'" "set es \<subseteq> E"
  shows "P w'"
  using assms(1,2,4)
proof (induction rule: runs.induct)
  case (snoc w es w' e w'')
  then show ?case using assms(3) [of w' e w''] by simp
qed simp

end

section \<open>Requests and timers confined to a set\<close>

text \<open>
  Every request that was sent or waits is in \<open>A\<close>, every timer in \<open>T\<close>; where no lock-in is in \<open>A\<close>, the
  page has no secret for one.
\<close>

definition confined :: "(callback \<Rightarrow> bool) \<Rightarrow> (timer \<Rightarrow> bool) \<Rightarrow> page \<Rightarrow> bool" where
  "confined A T w \<longleftrightarrow> (\<forall>q \<in> set (pending w) \<union> set (sent w). A (cont q)) \<and> (\<forall>t \<in> set (timers w). T t) \<and>
     ((\<forall>a. \<not> A (OnSecretLockin a)) \<longrightarrow> \<not> truthy (currentLockinSecret w))"

lemma confinedD:
  assumes "confined A T w"
  shows "i < length (pending w) \<Longrightarrow> A (cont (pending w ! i))" "q \<in> set (pending w) \<Longrightarrow> A (cont q)"
    "q \<in> set (sent w) \<Longrightarrow> A (cont q)" "timers w = t # ts \<Longrightarrow> T t"
    "(\<And>a. \<not> A (OnSecretLockin a)) \<Longrightarrow> \<not> truthy (currentLockinSecret w)"
  using assms by (auto simp: confined_def)

lemma set_remove_nth: "set (remove_nth i xs) \<subseteq> set xs"
  by (auto simp: remove_nth_def dest: in_set_takeD in_set_dropD)

lemma truthy_empty [simp]: "\<not> truthy (JStr [])" "\<not> truthy Undef"
  by (simp_all add: truthy_def)

lemma confined_page_law: "(\<And>b. A (OnStatus (Refresh b))) \<Longrightarrow> page_law (confined A T) A T"
  by unfold_locales
    (auto simp: confined_def tracked_def ajax_def setTimeout_def Let_def clearLockinSecret_def clearLockoutSecret_def
      removeItem_def storage_put_def dest: subsetD [OF set_remove_nth])

definition paired :: "page \<Rightarrow> bool" where
  "paired w \<longleftrightarrow>
     (localStorage w ''currentLockinSecret'' = None \<longleftrightarrow> localStorage w ''currentLockinSecretHash'' = None) \<and>
     (localStorage w ''currentLockoutSecret'' = None \<longleftrightarrow> localStorage w ''currentLockoutSecretHash'' = None)"

lemma paired_page_law: "page_law paired (\<lambda>_. True) (\<lambda>_. True)"
  by unfold_locales
    (auto simp: paired_def tracked_def ajax_def setTimeout_def Let_def clearLockinSecret_def clearLockoutSecret_def
      removeItem_def storage_put_def)

interpretation paired: page_law paired "\<lambda>_. True" "\<lambda>_. True"
  by (rule paired_page_law)

definition lockin_rank :: "callback \<Rightarrow> nat" where
  "lockin_rank c = (case c of
     OnSecretLockin _ \<Rightarrow> 1 | OnStatus (ForLockin _) \<Rightarrow> 2 | OnTx PrepareLockin \<Rightarrow> 3 | OnSent PrepareLockin \<Rightarrow> 4
   | OnScPrepare \<Rightarrow> 6 | OnScNotary \<Rightarrow> 7 | OnTx Lockin \<Rightarrow> 9 | OnSent Lockin \<Rightarrow> 10 | _ \<Rightarrow> 0)"

definition timer_rank :: "timer \<Rightarrow> nat" where
  "timer_rank t = (case t of NotifyLockinTimer \<Rightarrow> 5 | SideLockinTimer \<Rightarrow> 8 | _ \<Rightarrow> 0)"

definition lockin_stage :: "event \<Rightarrow> nat option" where
  "lockin_stage e = (case e of
     Click ClickLockin \<Rightarrow> Some 0
   | Answer i c (Success r) \<Rightarrow>
       if 0 < lockin_rank c \<and> lockin_rank c < 10 \<and> (if c = OnScNotary then accepted r else no_error r)
       then Some (lockin_rank c) else None
   | Timer t \<Rightarrow> if 0 < timer_rank t then Some (timer_rank t) else None
   | _ \<Rightarrow> None)"

abbreviation below_stage :: "nat \<Rightarrow> page \<Rightarrow> bool" where
  "below_stage n \<equiv> confined (\<lambda>c. lockin_rank c \<le> n) (\<lambda>t. timer_rank t \<le> n)"

interpretation stage: page_law "below_stage n" "\<lambda>c. lockin_rank c \<le> n" "\<lambda>t. timer_rank t \<le> n" for n
  by (rule confined_page_law) (simp add: lockin_rank_def)

definition no_lockout :: "callback \<Rightarrow> bool" where
  "no_lockout c \<longleftrightarrow> (case c of OnSecretLockin _ \<Rightarrow> False | OnTx f \<Rightarrow> f \<in> {PrepareLockin, PrepareLockout} | _ \<Rightarrow> True)"

interpretation locked: page_law "confined no_lockout (\<lambda>_. True)" no_lockout "\<lambda>_. True"
  by (rule confined_page_law) (simp add: no_lockout_def)

section \<open>Invariants of a session\<close>

lemma load_variables_start:
  "paired (load_variables w0)" "fresh_browser w0 \<Longrightarrow> confined A T (load_variables w0)"
  by (simp_all add: load_variables_def Let_def paired_def confined_def fresh_browser_def clearData_def
      clearLockinSecret_def clearLockoutSecret_def removeItem_def storage_get_def)

text \<open>What can follow in a session that began with loading the page.\<close>

definition session :: "page \<Rightarrow> event list \<Rightarrow> page \<Rightarrow> bool" where
  "session w0 es w \<longleftrightarrow> fresh_browser w0 \<and> runs (load_page w0) es w"

lemma session_paired:
  assumes "runs (load_page w0) es w"
  shows "paired w"
  using assms
proof (rule paired.run_law [where E = UNIV])
  show "paired (load_page w0)"
    unfolding load_page_def by (intro paired.ready_init_law paired.ready_nodes_law load_variables_start TrueI)
qed (auto intro: paired.step_law)

lemma stage_of_leads:
  assumes "x \<in> leads e" "n < lockin_rank x"
  shows "\<exists>m. lockin_stage e = Some m \<and> lockin_rank x = Suc m"
  using assms
  by (auto simp: leads_def lockin_rank_def lockin_stage_def timer_rank_def
      split: event.splits click.splits answer.splits callback.splits status_use.splits flow.splits timer.splits if_splits)

lemma stage_of_starts:
  assumes "t \<in> starts e" "n < timer_rank t"
  shows "\<exists>m. lockin_stage e = Some m \<and> timer_rank t = Suc m"
  using assms
  by (auto simp: starts_def lockin_rank_def lockin_stage_def timer_rank_def
      split: event.splits answer.splits callback.splits status_use.splits flow.splits timer.splits if_splits)

lemma stage_keeps:
  assumes "step w e w'" "below_stage n w" "lockin_stage e \<noteq> Some n"
  shows "below_stage n w'"
proof (rule stage.step_law [OF assms(1,2)])
  have low: "m \<le> n" if "lockin_stage e = Some m" for m
    using assms(1,2) that
    by (cases rule: step.cases)
      (auto simp: lockin_stage_def split: click.splits answer.splits if_splits dest: confinedD(1,4))
  show "lockin_rank (cont q) \<le> n" if "q \<in> set (pending w)" for q
    using assms(2) that by (auto simp: confined_def)
  show "lockin_rank x \<le> n" if "x \<in> leads e" for x
    using stage_of_leads [OF that, of n] low assms(3) by fastforce
  show "timer_rank t \<le> n" if "t \<in> starts e" for t
    using stage_of_starts [OF that, of n] low assms(3) by fastforce
qed

text \<open>The event of a stage consumes what the stage before produced.\<close>

lemma stage_needs:
  assumes "step w e w'" "lockin_stage e = Some (Suc n)"
  shows "\<not> below_stage n w"
  using assms
  by (cases rule: step.cases)
    (auto simp: lockin_stage_def split: click.splits answer.splits if_splits dest: confinedD(1,4))

definition stages :: "event list \<Rightarrow> nat list" where
  "stages es = concat (map (\<lambda>e. case lockin_stage e of None \<Rightarrow> [] | Some n \<Rightarrow> [n]) es)"

lemma stages_in_order:
  assumes "runs w es w'" "below_stage 0 w"
  shows "below_stage n w' \<or> subseq [0..<Suc n] (stages es)"
  using assms
proof (induction arbitrary: n rule: runs.induct)
  case (refl w)
  then have "below_stage n w"
    using confinedD(5) [OF refl] by (auto simp: confined_def lockin_rank_def)
  then show ?case by blast
next
  case (snoc w es w' e w'')
  have more: "subseq xs (stages es) \<Longrightarrow> subseq xs (stages (es @ [e]))" for xs
    by (auto simp: stages_def intro: list_emb_append2 list_emb_prefix split: option.split)
  show ?case
  proof (cases "below_stage n w' \<and> lockin_stage e = Some n")
    case False
    then show ?thesis using snoc.IH [OF snoc.prems, of n] stage_keeps [OF snoc.hyps(2), of n] more by blast
  next
    case True
    then have e: "stages (es @ [e]) = stages es @ [n]" by (simp add: stages_def)
    have "subseq [0..<n] (stages es)"
    proof (cases n)
      case (Suc m)
      then have "\<not> below_stage m w'" using stage_needs [OF snoc.hyps(2)] True by simp
      then show ?thesis using snoc.IH [OF snoc.prems, of m] Suc by simp
    qed simp
    then have "subseq ([0..<n] @ [n]) (stages es @ [n])" by (rule list_emb_append_mono) simp
    then show ?thesis using e by simp
  qed
qed

text \<open>A browser that opens the page for the first time, for the concrete sessions below.\<close>

definition blank_page :: page where
  "blank_page =
     \<lparr>runhost = ''localhost'', nodes_Ip = [], key = None, myaccount = Undef, mainChainContract = Undef,
      sideChainContract = Undef, notaryPrivateKeyId = Undef, currentLockinSecret = Undef,
      currentLockinSecretHash = Undef, currentLockoutSecret = Undef, currentLockoutSecretHash = Undef,
      currentMainChainBlockNumber = Undef, currentSideChainBlockNuber = Undef, mainChainBalance = Undef,
      sideChainBalance = Undef, localStorage = (\<lambda>_. None), vals = (\<lambda>_. []), html = (\<lambda>_. []), off = (\<lambda>_. False),
      fixed = (\<lambda>_. False), shown = (\<lambda>_. True), focused = [], mask = False, intervals = [], pagetimer = None,
      next_id = 0, alerts = [], tips = [], errors = [], pool = [],
      rng = \<lparr>state = Some \<lparr>ai = 0, aj = 0, aS = replicate 256 0\<rparr>, pool = [], pptr = 0, poolCopyOnInit = []\<rparr>,
      entropy_now = \<lparr>clock = 0, draws = (\<lambda>_. None)\<rparr>, fromWei = (\<lambda>_. Inr ''1''), mainWeb3 = None,
      sideWeb3 = None, pending = [], timers = [], sent = []\<rparr>"

lemma blank_session: "session blank_page [] (load_page blank_page)"
  by (simp add: session_def fresh_browser_def blank_page_def runs.refl)

lemma start_account: "myaccount (ready_nodes (load_variables w)) = Undef"
  by (simp add: ready_nodes_def load_variables_def Let_def set_val_def set_html_def set_shown_def storage_get_def
      clearData_def clearLockinSecret_def clearLockoutSecret_def removeItem_def)

text \<open>Loading ends with two requests, the list of contracts and the status.\<close>

lemma load_page_eq:
  "load_page w = queryStatus False (ajax ''get'' (vals (ready_nodes (load_variables w)) ''selNode'' @ ''/api/1/user/sctokens'')
     Undef OnTokens (ready_nodes (load_variables w)))"
  unfolding load_page_def ready_init_def by (simp add: start_account ajax_def Let_def)

lemma blank_sent: "sent (load_page blank_page) \<noteq> []"
  by (simp add: load_page_eq queryStatus_def queryStatusHelper_def ajax_def Let_def)

text \<open>
  The secret of a lock-in is given away last. Whenever the page has asked for the transaction
  \<open>slockin\<close>, the only one that carries that secret, the events before it contain, in this order: the click,
  the answers with the secret, the block number, the prepared transaction and its receipt, the first timer,
  the answers of the help service and of the notary, each without an error, and the second timer.
\<close>

theorem lockin_secret_last:
  assumes "session w0 es w" "q \<in> set (sent w)" "cont q = OnTx Lockin"
  shows "subseq [0..<9] (stages es)"
proof -
  have "below_stage 0 (load_page w0)"
    unfolding load_page_def using assms(1)
    by (intro stage.ready_init_law stage.ready_nodes_law load_variables_start) (simp_all add: session_def lockin_rank_def)
  then have "below_stage 8 w \<or> subseq [0..<9] (stages es)"
    using stages_in_order [of "load_page w0" es w 8] assms(1) by (simp add: session_def)
  moreover have "\<not> below_stage 8 w"
    using assms(2,3) by (auto simp: confined_def lockin_rank_def intro!: bexI [of _ q])
  ultimately show ?thesis by simp
qed

text \<open>
  C22: A session without a lock-in never redeems a lock-out: \<open>mainChainLockout\<close> and \<open>sideChainCancelLockout\<close>
  test the secret of the lock-in, so neither the transaction \<open>mlockout\<close> nor \<open>scancelLockOut\<close> is ever asked for.
\<close>

theorem lockout_needs_lockin:
  assumes "session w0 es w" "Click ClickLockin \<notin> set es" "q \<in> set (sent w)"
  shows "cont q \<noteq> OnTx Lockout \<and> cont q \<noteq> OnTx CancelLockout"
proof -
  have "confined no_lockout (\<lambda>_. True) w"
  proof (rule locked.run_law [where E = "- {Click ClickLockin}"])
    show "runs (load_page w0) es w" using assms(1) by (simp add: session_def)
    show "confined no_lockout (\<lambda>_. True) (load_page w0)"
      unfolding load_page_def using assms(1)
      by (intro locked.ready_init_law locked.ready_nodes_law load_variables_start) (simp_all add: session_def no_lockout_def)
    show "confined no_lockout (\<lambda>_. True) w''" if "step w' e w''" "confined no_lockout (\<lambda>_. True) w'" "e \<in> - {Click ClickLockin}" for w' e w''
      using that(1,2)
    proof (rule locked.step_law)
      show p: "no_lockout (cont q)" if "q \<in> set (pending w')" for q using that \<open>confined no_lockout _ w'\<close> by (simp add: confined_def)
      have t: "\<not> truthy (currentLockinSecret w')" using \<open>confined no_lockout _ w'\<close> by (simp add: confined_def no_lockout_def)
      show "no_lockout x" if x: "x \<in> leads e" "guarded x \<Longrightarrow> truthy (currentLockinSecret w')" for x
      proof -
        have "\<not> guarded x" using x(2) t by blast
        moreover have "x \<notin> range OnSecretLockin" using x(1) \<open>e \<in> _\<close>
          by (auto simp: leads_def split: event.splits click.splits answer.splits callback.splits status_use.splits timer.splits if_splits)
        ultimately show ?thesis
          by (auto simp: no_lockout_def guarded_def split: callback.split flow.split) (metis flow.exhaust)
      qed
    qed simp
    show "set es \<subseteq> - {Click ClickLockin}" using assms(2) by blast
  qed
  then have "no_lockout (cont q)" using assms(3) by (rule confinedD(3))
  then show ?thesis by (auto simp: no_lockout_def)
qed

theorem lockout_needs_lockin_witness:
  "cont (hd (sent (load_page blank_page))) \<noteq> OnTx Lockout \<and> cont (hd (sent (load_page blank_page))) \<noteq> OnTx CancelLockout"
  by (rule lockout_needs_lockin [OF blank_session]) (simp_all add: blank_sent)

text \<open>
  C23: In every session the storage has the secret of a lock-in exactly when it has its hash, and the same
  for a lock-out.
\<close>

theorem secrets_paired:
  assumes "session w0 es w"
  shows "paired w"
  using session_paired [of w0 es w] assms unfolding session_def by blast

theorem secrets_paired_witness: "paired (load_page blank_page)"
  by (rule secrets_paired [OF blank_session])


end
