(* ===== verification/GuiDemo.thy ===== *)
theory GuiDemo
  imports CommonJs
begin

text \<open>
  The desktop demo, \<open>static/js/index.js\<close>, and the three helpers it calls: the loader, the modal window and
  the notifier. The state has the identifiers of the elements of the document, what the scripts write into
  them, the notifications on the screen with their timers, and the messages to the Go side that wait for
  their answer. Touching an element that the document does not have is a \<open>TypeError\<close>, logged in \<open>thrown\<close>.
\<close>

section \<open>State\<close>

datatype reply_use = ForConfig | ForExplore

record listing =
  l_path :: string
  l_dirs :: "(string \<times> string) list"
  l_count :: string
  l_size :: string
  l_files :: "string option"

datatype payload = Text string | Listing listing

record message =
  msg_name :: string
  msg_payload :: "payload option"

record notice =
  n_id :: nat
  n_kind :: string
  n_text :: string

record gui =
  ids :: "string set"
  display :: "string \<Rightarrow> string"
  inner :: "string \<Rightarrow> string"
  folders :: "(string \<times> string) list"
  chart :: "string option"
  screen :: "notice list"
  note_timers :: "nat list"
  next_note :: nat
  onclose :: "string option"
  called :: "string list"
  outbox :: "(message \<times> reply_use) list"
  listening :: bool
  thrown :: "string list"

definition fail :: "gui \<Rightarrow> gui" where
  "fail g = g\<lparr>thrown := thrown g @ [''TypeError'']\<rparr>"

text \<open>\<open>document.getElementById\<close>, then the rest of the function.\<close>

definition with_elem :: "string \<Rightarrow> (gui \<Rightarrow> gui) \<Rightarrow> gui \<Rightarrow> gui" where
  "with_elem i rest g = (if i \<in> ids g then rest g else fail g)"

definition set_inner :: "string \<Rightarrow> string \<Rightarrow> (gui \<Rightarrow> gui) \<Rightarrow> gui \<Rightarrow> gui" where
  "set_inner i t rest = with_elem i (\<lambda>g. rest (g\<lparr>inner := (inner g)(i := t)\<rparr>))"

definition set_display :: "string \<Rightarrow> string \<Rightarrow> (gui \<Rightarrow> gui) \<Rightarrow> gui \<Rightarrow> gui" where
  "set_display i t rest = with_elem i (\<lambda>g. rest (g\<lparr>display := (display g)(i := t)\<rparr>))"

section \<open>Loader, modal window, notifier\<close>

definition loader_hide :: "(gui \<Rightarrow> gui) \<Rightarrow> gui \<Rightarrow> gui" where
  "loader_hide = set_display ''astiloader'' ''none''"

definition loader_show :: "(gui \<Rightarrow> gui) \<Rightarrow> gui \<Rightarrow> gui" where
  "loader_show = set_display ''astiloader'' ''block''"

definition loader_init :: "gui \<Rightarrow> gui" where
  "loader_init g = g\<lparr>ids := insert ''astiloader'' (ids g)\<rparr>"

definition modaler_hide :: "gui \<Rightarrow> gui" where
  "modaler_hide = set_display ''astimodaler'' ''none'' id"

definition modaler_show :: "gui \<Rightarrow> gui" where
  "modaler_show = set_display ''astimodaler'' ''block'' id"

definition modaler_close :: "gui \<Rightarrow> gui" where
  "modaler_close g =
     (let g = (case onclose g of None \<Rightarrow> g | Some f \<Rightarrow> g\<lparr>called := called g @ [f]\<rparr>) in modaler_hide g)"

definition modaler_init :: "gui \<Rightarrow> gui" where
  "modaler_init g = g\<lparr>ids := {''astimodaler'', ''astimodaler-content''} \<union> ids g\<rparr>"

definition modaler_setContent :: "string \<Rightarrow> (gui \<Rightarrow> gui) \<Rightarrow> gui \<Rightarrow> gui" where
  "modaler_setContent content = set_inner ''astimodaler-content'' content"

definition notifier_init :: "gui \<Rightarrow> gui" where
  "notifier_init g = g\<lparr>ids := insert ''astinotifier'' (ids g)\<rparr>"

text \<open>A notification is put before the others and gets a timer; the timer clicks its closing cross.\<close>

definition notifier_notify :: "string \<Rightarrow> string \<Rightarrow> gui \<Rightarrow> gui" where
  "notifier_notify kind text =
     with_elem ''astinotifier'' (\<lambda>g.
       let i = next_note g
       in g\<lparr>screen := \<lparr>n_id = i, n_kind = kind, n_text = text\<rparr> # screen g, note_timers := note_timers g @ [i], next_note := Suc i\<rparr>)"

definition notifier_error :: "string \<Rightarrow> gui \<Rightarrow> gui" where "notifier_error = notifier_notify ''error''"
definition notifier_info :: "string \<Rightarrow> gui \<Rightarrow> gui" where "notifier_info = notifier_notify ''info''"
definition notifier_success :: "string \<Rightarrow> gui \<Rightarrow> gui" where "notifier_success = notifier_notify ''success''"
definition notifier_warning :: "string \<Rightarrow> gui \<Rightarrow> gui" where "notifier_warning = notifier_notify ''warning''"

text \<open>The cross removes the notification; clicking it again does nothing.\<close>

definition close_note :: "nat \<Rightarrow> gui \<Rightarrow> gui" where
  "close_note i g = g\<lparr>screen := filter (\<lambda>n. n_id n \<noteq> i) (screen g)\<rparr>"

section \<open>The page\<close>

definition about :: "string \<Rightarrow> gui \<Rightarrow> gui" where
  "about t = modaler_setContent t modaler_show"

definition addFolder :: "string \<Rightarrow> string \<Rightarrow> (gui \<Rightarrow> gui) \<Rightarrow> gui \<Rightarrow> gui" where
  "addFolder name path rest = with_elem ''dirs'' (\<lambda>g. rest (g\<lparr>folders := folders g @ [(name, path)]\<rparr>))"

definition sendMessage :: "string \<Rightarrow> payload option \<Rightarrow> reply_use \<Rightarrow> gui \<Rightarrow> gui" where
  "sendMessage name p use g = g\<lparr>outbox := outbox g @ [(\<lparr>msg_name = name, msg_payload = p\<rparr>, use)]\<rparr>"

definition updateConfig :: "gui \<Rightarrow> gui" where
  "updateConfig = sendMessage ''config'' None ForConfig"

definition payload_text :: "payload option \<Rightarrow> string" where
  "payload_text p = (case p of None \<Rightarrow> ''undefined'' | Some (Text t) \<Rightarrow> t | Some (Listing _) \<Rightarrow> ''[object Object]'')"

definition updateConfig_reply :: "message \<Rightarrow> gui \<Rightarrow> gui" where
  "updateConfig_reply m g =
     (if msg_name m = ''error'' then notifier_error (payload_text (msg_payload m)) g
      else case msg_payload m of
          None \<Rightarrow> g
        | Some p \<Rightarrow> if ''config'' \<in> ids g then g\<lparr>inner := (inner g)(''config'' := payload_text (Some p))\<rparr> else g)"

definition explore :: "string option \<Rightarrow> gui \<Rightarrow> gui" where
  "explore path = loader_show (sendMessage ''explore'' (map_option Text path) ForExplore)"

fun add_folders :: "(string \<times> string) list \<Rightarrow> (gui \<Rightarrow> gui) \<Rightarrow> gui \<Rightarrow> gui" where
  "add_folders [] rest = rest"
| "add_folders ((name, path) # ds) rest = addFolder name path (add_folders ds rest)"

definition show_files :: "string option \<Rightarrow> gui \<Rightarrow> gui" where
  "show_files files =
     (case files of
        Some f \<Rightarrow> set_display ''files_panel'' ''block'' (with_elem ''files'' (\<lambda>g. g\<lparr>chart := Some f\<rparr>))
      | None \<Rightarrow> set_display ''files_panel'' ''none'' id)"

text \<open>The list of folders is emptied before they are added again; a payload without folders has no length.\<close>

definition explore_reply :: "message \<Rightarrow> gui \<Rightarrow> gui" where
  "explore_reply m =
     loader_hide (\<lambda>g.
       if msg_name m = ''error'' then notifier_error (payload_text (msg_payload m)) g
       else case msg_payload m of
           None \<Rightarrow> fail g
         | Some (Text t) \<Rightarrow> set_inner ''path'' ''undefined'' (with_elem ''dirs'' (\<lambda>g. fail (g\<lparr>folders := []\<rparr>))) g
         | Some (Listing l) \<Rightarrow>
             set_inner ''path'' (l_path l) (with_elem ''dirs'' (\<lambda>g.
               add_folders (l_dirs l)
                 (set_inner ''files_count'' (l_count l)
                   (set_inner ''files_size'' (l_size l)
                     (set_inner ''files'' [] (show_files (l_files l))))) (g\<lparr>folders := []\<rparr>))) g)"

definition listen :: "gui \<Rightarrow> gui" where "listen g = g\<lparr>listening := True\<rparr>"

text \<open>A message of the Go side; the answer to \<open>about\<close> is a payload.\<close>

definition on_message :: "message \<Rightarrow> gui \<Rightarrow> gui \<times> payload option" where
  "on_message m g =
     (if msg_name m = ''about'' then (about (payload_text (msg_payload m)) g, Some (Text ''payload''))
      else if msg_name m = ''check.out.menu'' then (notifier_info (payload_text (msg_payload m)) g, None)
      else (g, None))"

definition index_init :: "gui \<Rightarrow> gui" where
  "index_init g = notifier_init (modaler_init (loader_init g))"

definition astilectron_ready :: "gui \<Rightarrow> gui" where
  "astilectron_ready g = updateConfig (listen g)"

section \<open>Steps\<close>

text \<open>The elements of \<open>index.html\<close> the scripts could touch.\<close>

definition html_ids :: "string set" where
  "html_ids = {''dirs'', ''tabs'', ''notary'', ''config'', ''queryall'', ''pli'', ''scpli'', ''li'', ''cpli'', ''plo'', ''mcplo'',
     ''lo'', ''cplo'', ''q'', ''tabs-1'', ''tabs-2'', ''tabs-3''}"

definition gui_start :: gui where
  "gui_start =
     \<lparr>ids = html_ids, display = (\<lambda>_. []), inner = (\<lambda>_. []), folders = [], chart = None, screen = [], note_timers = [],
      next_note = 0, onclose = None, called = [], outbox = [], listening = False, thrown = []\<rparr>"

definition on_reply :: "reply_use \<Rightarrow> message \<Rightarrow> gui \<Rightarrow> gui" where
  "on_reply use = (case use of ForConfig \<Rightarrow> updateConfig_reply | ForExplore \<Rightarrow> explore_reply)"

inductive gui_step :: "gui \<Rightarrow> gui \<Rightarrow> bool" where
  ready: "gui_step g (astilectron_ready g)"
| incoming: "listening g \<Longrightarrow> gui_step g (fst (on_message m g))"
| reply: "outbox g = pre @ (q, use) # post \<Longrightarrow> gui_step g (on_reply use m (g\<lparr>outbox := pre @ post\<rparr>))"
| folder: "(name, path) \<in> set (folders g) \<Longrightarrow> gui_step g (explore (Some path) g)"
| cross: "n \<in> set (screen g) \<Longrightarrow> gui_step g (close_note (n_id n) g)"
| expired: "note_timers g = i # is \<Longrightarrow> gui_step g (close_note i (g\<lparr>note_timers := is\<rparr>))"
| modal_cross: "gui_step g (modaler_close g)"

inductive gui_reachable :: "gui \<Rightarrow> bool" where
  start: "gui_reachable (index_init gui_start)"
| step: "gui_reachable g \<Longrightarrow> gui_step g g' \<Longrightarrow> gui_reachable g'"

text \<open>Every notification on the screen has a timer that will take it away, and no two are the same.\<close>

definition notes_ok :: "gui \<Rightarrow> bool" where
  "notes_ok g \<longleftrightarrow> set (map n_id (screen g)) \<subseteq> set (note_timers g) \<and> distinct (map n_id (screen g)) \<and>
     (\<forall>i \<in> set (note_timers g). i < next_note g) \<and> distinct (note_timers g)"

text \<open>What the scripts never change: the elements, the notifier ready, and no list of folders.\<close>

definition no_folders :: "gui \<Rightarrow> bool" where
  "no_folders g \<longleftrightarrow> ''path'' \<notin> ids g \<and> ''astinotifier'' \<in> ids g \<and> ''astiloader'' \<in> ids g \<and> folders g = [] \<and>
     (\<forall>(q, use) \<in> set (outbox g). use = ForConfig)"

named_theorems gui_defs

lemmas [gui_defs] = with_elem_def set_inner_def set_display_def fail_def sendMessage_def notifier_notify_def
  notifier_error_def notifier_info_def modaler_hide_def modaler_show_def modaler_close_def modaler_setContent_def about_def
  astilectron_ready_def updateConfig_def listen_def on_message_def on_reply_def updateConfig_reply_def close_note_def
  explore_def loader_show_def Let_def

lemma distinct_map_filter: "distinct (map f xs) \<Longrightarrow> distinct (map f (filter P xs))"
  by (induction xs) auto

lemma no_folders_step: "gui_step g g' \<Longrightarrow> no_folders g \<Longrightarrow> no_folders g'"
  by (induction rule: gui_step.induct)
    (auto simp: no_folders_def gui_defs split: option.splits reply_use.splits)

lemma notes_ok_step:
  assumes "gui_step g g'" "no_folders g" "notes_ok g"
  shows "notes_ok g'"
  using assms
  by (induction rule: gui_step.induct)
    (auto simp: no_folders_def notes_ok_def gui_defs distinct_map_filter split: option.splits reply_use.splits)

lemma gui_invariant:
  assumes "gui_reachable g"
  shows "no_folders g \<and> notes_ok g"
  using assms
proof (induction rule: gui_reachable.induct)
  case start
  then show ?case
    by (auto simp: no_folders_def notes_ok_def index_init_def notifier_init_def modaler_init_def loader_init_def
        gui_start_def html_ids_def)
next
  case (step g g')
  then show ?case using no_folders_step notes_ok_step by blast
qed

text \<open>
  C26: Whatever the Go side sends and the user clicks, every notification on the screen is one the pending
  timers will close, each once; no folder is ever listed and the loader is never shown, because nothing but a
  listed folder asks for a listing.
\<close>

theorem gui_notes:
  assumes "gui_reachable g"
  shows "set (map n_id (screen g)) \<subseteq> set (note_timers g) \<and> distinct (map n_id (screen g)) \<and> folders g = []"
  using gui_invariant [OF assms] by (simp add: no_folders_def notes_ok_def)

theorem gui_notes_witness:
  "set (map n_id (screen (index_init gui_start))) \<subseteq> set (note_timers (index_init gui_start)) \<and>
   distinct (map n_id (screen (index_init gui_start))) \<and> folders (index_init gui_start) = []"
  by (rule gui_notes [OF gui_reachable.start])

end
