(* ===== verification/BigInverse.thy ===== *)
theory BigInverse
  imports BigNum
begin

text \<open>
  The two binary Euclidean algorithms of \<open>src/biginteger.js\<close> return, and return the right number:
  \<open>modInverse\<close> the inverse in the range of the modulus, or zero where there is none, and \<open>gcd\<close> the greatest
  common divisor.
\<close>

section \<open>The coefficients of the inverse\<close>

text \<open>
  \<open>b\<close> is the coefficient of \<open>x\<close> for the remainder \<open>u\<close>; for an even modulus \<open>a\<close> is the one of the modulus, for
  an odd one the relation is kept modulo \<open>m\<close>.
\<close>

definition coeff :: "bool \<Rightarrow> int \<Rightarrow> int \<Rightarrow> int \<Rightarrow> int \<Rightarrow> int \<Rightarrow> bool" where
  "coeff ac x m u a b \<longleftrightarrow> (if ac then a * m + b * x = u else m dvd b * x - u)"

definition usable :: "bool \<Rightarrow> int \<Rightarrow> int \<Rightarrow> bool" where
  "usable ac x m \<longleftrightarrow> (if ac then odd x \<and> even m else odd m)"

lemma coeff_half_odd:
  fixes m b x u :: int
  assumes "odd m" "m dvd b * x - u" "even u" "even b"
  shows "m dvd (b div 2) * x - u div 2"
proof -
  have "m dvd 2 * ((b div 2) * x - u div 2)"
    using assms(2-4) by (auto simp: algebra_simps elim!: evenE)
  moreover have "coprime m 2" using assms(1) by simp
  ultimately show ?thesis using coprime_dvd_mult_right_iff by blast
qed

lemma coeff_half_even:
  fixes m a b x u :: int
  assumes "odd x" "even m" "a * m + b * x = u" "even u" "even a" "even b"
  shows "(a div 2) * m + (b div 2) * x = u div 2"
  using assms(3-6) by (auto elim!: evenE simp: algebra_simps)

text \<open>One halving.\<close>

definition half_coeffs :: "bool \<Rightarrow> int \<Rightarrow> int \<Rightarrow> int \<Rightarrow> int \<Rightarrow> int \<times> int" where
  "half_coeffs ac x m a b =
     (let (a1, b1) = (if ac then (if odd a \<or> odd b then (a + x, b - m) else (a, b)) else (a, if odd b then b - m else b))
      in (if ac then a1 div 2 else a1, b1 div 2))"

lemma halve_loop_step:
  "halve_loop ac x m u a b =
     (if even u then case half_coeffs ac x m a b of (a', b') \<Rightarrow> halve_loop ac x m (u div 2) a' b' else Some (u, a, b))"
  by (subst halve_loop.simps) (simp add: half_coeffs_def Let_def split: prod.split)

lemma half_coeffs_ok:
  assumes "usable ac x m" "coeff ac x m u a b" "even u" "half_coeffs ac x m a b = (a', b')"
  shows "coeff ac x m (u div 2) a' b'"
proof (cases ac)
  case True
  then have h: "odd x" "even m" "a * m + b * x = u" using assms(1,2) by (simp_all add: usable_def coeff_def)
  then have b: "even b" using assms(3) by (metis even_add even_mult_iff)
  define a1 b1 where "a1 = (if odd a then a + x else a)" and "b1 = (if odd a then b - m else b)"
  have "a1 * m + b1 * x = u" "even a1" "even b1" using h b by (auto simp: a1_def b1_def algebra_simps)
  then have "(a1 div 2) * m + (b1 div 2) * x = u div 2" using coeff_half_even h assms(3) by blast
  moreover have "a' = a1 div 2" "b' = b1 div 2"
    using assms(4) True b by (auto simp: half_coeffs_def a1_def b1_def Let_def split: if_splits)
  ultimately show ?thesis using True by (simp add: coeff_def)
next
  case False
  then have h: "odd m" "m dvd b * x - u" using assms(1,2) by (simp_all add: usable_def coeff_def)
  define b1 where "b1 = (if odd b then b - m else b)"
  have "m dvd b1 * x - u"
  proof -
    have "(b - m) * x - u = b * x - u - m * x" by (simp add: algebra_simps)
    then have "m dvd (b - m) * x - u" using h(2) by (metis dvd_diff dvd_triv_left)
    then show ?thesis using h(2) by (simp add: b1_def)
  qed
  moreover have "even b1" using h(1) by (simp add: b1_def)
  ultimately have "m dvd (b1 div 2) * x - u div 2" using coeff_half_odd h(1) assms(3) by blast
  moreover have "b' = b1 div 2" using assms(4) False by (auto simp: half_coeffs_def b1_def Let_def split: if_splits)
  ultimately show ?thesis using False by (simp add: coeff_def)
qed

lemma halve_ok:
  assumes "usable ac x m" "coeff ac x m u a b" "0 < u"
  shows "\<exists>n u' a' b'. halve_loop ac x m u a b = Some (u', a', b') \<and> odd u' \<and> 0 < u' \<and> u = 2 ^ n * u' \<and> coeff ac x m u' a' b'"
  using assms(2,3)
proof (induction "nat u" arbitrary: u a b rule: less_induct)
  case less
  show ?case
  proof (cases "even u")
    case True
    obtain a1 b1 where h: "half_coeffs ac x m a b = (a1, b1)" by (rule prod.exhaust)
    have p: "0 < u div 2" "nat (u div 2) < nat u" using True less.prems(2) by auto
    obtain n u' a' b' where r: "halve_loop ac x m (u div 2) a1 b1 = Some (u', a', b')" "odd u'" "0 < u'"
      "u div 2 = 2 ^ n * u'" "coeff ac x m u' a' b'"
      using less.hyps [OF p(2) half_coeffs_ok [OF assms(1) less.prems(1) True h] p(1)] by blast
    have "u = 2 ^ Suc n * u'" using True r(4) by auto
    moreover have "halve_loop ac x m u a b = Some (u', a', b')" using True h r(1) by (subst halve_loop_step) simp
    ultimately show ?thesis using r by blast
  next
    case False
    then have "halve_loop ac x m u a b = Some (u, a, b)" by (subst halve_loop_step) simp
    moreover have "u = 2 ^ 0 * u" by simp
    ultimately show ?thesis using False less.prems by blast
  qed
qed

lemma gcd_power_two:
  fixes u v :: int
  assumes "odd (gcd (2 ^ n * u) v)"
  shows "gcd (2 ^ n * u) v = gcd u v"
proof (cases n)
  case (Suc k)
  then have "odd v" using assms by auto
  then have "coprime (2 ^ n) v" by simp
  then show ?thesis by (simp add: gcd_mult_left_left_cancel coprime_commute)
qed simp

lemma coeff_diff: "coeff ac x m u a b \<Longrightarrow> coeff ac x m v c d \<Longrightarrow> coeff ac x m (u - v) (if ac then a - c else e) (b - d)"
proof -
  assume h: "coeff ac x m u a b" "coeff ac x m v c d"
  have "(b - d) * x - (u - v) = (b * x - u) - (d * x - v)" by (simp add: algebra_simps)
  then have "m dvd b * x - u \<Longrightarrow> m dvd d * x - v \<Longrightarrow> m dvd (b - d) * x - (u - v)" by (metis dvd_diff)
  moreover have "(a - c) * m + (b - d) * x = (a * m + b * x) - (c * m + d * x)" by (simp add: algebra_simps)
  ultimately show ?thesis using h by (cases ac) (simp_all add: coeff_def)
qed

lemma inv_loop_step:
  "inv_loop ac x m u v a b c d =
     (if u = 0 then Some (v, d)
      else Option.bind (halve_loop ac x m u a b) (\<lambda>(u, a, b).
           Option.bind (halve_loop ac x m v c d) (\<lambda>(v, c, d).
             if u \<ge> v then inv_loop ac x m (u - v) v (if ac then a - c else a) (b - d) c d
             else inv_loop ac x m u (v - u) a b (if ac then c - a else c) (d - b))))"
  by (rule inv_loop.simps)

lemma inv_ok:
  assumes "usable ac x m" "coeff ac x m u a b" "coeff ac x m v c d" "0 \<le> u" "0 < v" "odd (gcd u v)"
  shows "\<exists>d'. inv_loop ac x m u v a b c d = Some (gcd u v, d') \<and> m dvd d' * x - gcd u v"
  using assms(2-)
proof (induction "nat (u + v)" arbitrary: u v a b c d rule: less_induct)
  case less
  show ?case
  proof (cases "u = 0")
    case True
    then have "m dvd d * x - v" using less.prems(2) by (cases ac) (auto simp: coeff_def algebra_simps)
    then show ?thesis using True less.prems by (subst inv_loop_step) simp
  next
    case False
    then have "0 < u" using less.prems(3) by simp
    then obtain i u1 a1 b1 where u: "halve_loop ac x m u a b = Some (u1, a1, b1)" "odd u1" "0 < u1" "u = 2 ^ i * u1"
      "coeff ac x m u1 a1 b1" using halve_ok [OF assms(1) less.prems(1)] by blast
    obtain j v1 c1 d1 where v: "halve_loop ac x m v c d = Some (v1, c1, d1)" "odd v1" "0 < v1" "v = 2 ^ j * v1"
      "coeff ac x m v1 c1 d1" using halve_ok [OF assms(1) less.prems(2,4)] by blast
    have g: "gcd u v = gcd u1 v1"
    proof -
      have 1: "gcd u v = gcd u1 v" using gcd_power_two [of i u1 v] less.prems(5) u(4) by simp
      then have "odd (gcd v u1)" using less.prems(5) by (simp add: gcd.commute)
      then have "gcd v u1 = gcd v1 u1" using gcd_power_two [of j v1 u1] v(4) by simp
      then show ?thesis using 1 by (simp add: gcd.commute)
    qed
    have le: "u1 \<le> u" "v1 \<le> v" using u(3,4) v(3,4) by (simp_all add: mult_le_cancel_right1)
    show ?thesis
    proof (cases "u1 \<ge> v1")
      case True
      have gs: "gcd (u1 - v1) v1 = gcd u v" unfolding g by (rule gcd_diff1)
      have "\<exists>d'. inv_loop ac x m (u1 - v1) v1 (if ac then a1 - c1 else a1) (b1 - d1) c1 d1 = Some (gcd (u1 - v1) v1, d') \<and>
          m dvd d' * x - gcd (u1 - v1) v1"
        using coeff_diff [OF u(5) v(5)] True le v(3) u(3) less.prems(5) v(5)
        by (intro less.hyps) (auto simp: gs)
      then show ?thesis using False True u(1) v(1) gs by (subst inv_loop_step) simp
    next
      case lt: False
      have gs: "gcd u1 (v1 - u1) = gcd u v" unfolding g by (metis gcd.commute gcd_diff1)
      have "\<exists>d'. inv_loop ac x m u1 (v1 - u1) a1 b1 (if ac then c1 - a1 else c1) (d1 - b1) = Some (gcd u1 (v1 - u1), d') \<and>
          m dvd d' * x - gcd u1 (v1 - u1)"
        using coeff_diff [OF v(5) u(5)] lt le u(3) less.prems(5) u(5)
        by (intro less.hyps) (auto simp: gs)
      then show ?thesis using False lt u(1) v(1) gs by (subst inv_loop_step) simp
    qed
  qed
qed

section \<open>The result in range\<close>

lemma sub_while_ok: "0 < m \<Longrightarrow> sub_while m d < m \<and> m dvd sub_while m d - d \<and> (0 \<le> d \<longrightarrow> 0 \<le> sub_while m d)"
proof (induction m d rule: sub_while.induct)
  case (1 m d)
  show ?case
  proof (cases "d \<ge> m")
    case True
    then have IH: "sub_while m (d - m) < m \<and> m dvd sub_while m (d - m) - (d - m) \<and> 0 \<le> sub_while m (d - m)"
      using 1 by simp
    have "sub_while m (d - m) - d = sub_while m (d - m) - (d - m) - m" by simp
    then have "m dvd sub_while m (d - m) - d" using IH by (metis dvd_diff dvd_refl)
    then show ?thesis using True 1(2) IH by (subst sub_while.simps, subst (2) sub_while.simps, subst (3) sub_while.simps) simp
  next
    case False
    then show ?thesis by (subst sub_while.simps, subst (2) sub_while.simps, subst (3) sub_while.simps) simp
  qed
qed

lemma add_while_ok: "0 < m \<Longrightarrow> d < m \<Longrightarrow> 0 \<le> add_while m d \<and> add_while m d < m \<and> m dvd add_while m d - d"
proof (induction m d rule: add_while.induct)
  case (1 m d)
  have s: "add_while m d = (if d < 0 then add_while m (d + m) else d)" using 1(2) by (subst add_while.simps) simp
  show ?case
  proof (cases "d < 0")
    case True
    have IH: "0 \<le> add_while m (d + m) \<and> add_while m (d + m) < m \<and> m dvd add_while m (d + m) - (d + m)"
      using 1 True by simp
    have "add_while m (d + m) - d = add_while m (d + m) - (d + m) + m" by simp
    then have "m dvd add_while m (d + m) - d" using IH by (metis dvd_add dvd_refl)
    then show ?thesis using IH True s by simp
  next
    case False
    then show ?thesis using s 1(3) by simp
  qed
qed

lemma norm_mod: "0 < m \<Longrightarrow> add_while m (sub_while m d) = d mod m"
proof -
  assume m: "0 < m"
  let ?s = "sub_while m d" let ?r = "add_while m ?s"
  have s: "?s < m" "m dvd ?s - d" using sub_while_ok [OF m] by simp_all
  have r: "0 \<le> ?r" "?r < m" "m dvd ?r - ?s" using add_while_ok [OF m s(1)] by simp_all
  have "m dvd ?r - d" using dvd_add [OF r(3) s(2)] by simp
  then have "?r mod m = d mod m" by (simp add: mod_eq_dvd_iff)
  then show ?thesis using r by simp
qed

text \<open>The answer for every positive number and positive modulus.\<close>

lemma modInverse_ok:
  assumes "0 < x" "0 < m"
  shows "\<exists>r. modInverse x m = Inr (Some r) \<and> 0 \<le> r \<and> r < m \<and> (if gcd x m = 1 then m dvd r * x - 1 else r = 0)"
proof (cases "even x \<and> even m")
  case True
  then have "gcd x m \<noteq> 1" by (metis gcd_greatest_iff odd_one)
  then show ?thesis using True assms by (simp add: modInverse_def)
next
  case False
  have us: "usable (even m) x m" using False unfolding usable_def by (cases "even m") simp_all
  have "odd (gcd m x)" using False by auto
  moreover have "coeff (even m) x m m 1 0" "coeff (even m) x m x 0 1" by (simp_all add: coeff_def)
  ultimately obtain d where d: "inv_loop (even m) x m m x 1 0 0 1 = Some (gcd m x, d)" "m dvd d * x - gcd m x"
    using inv_ok [OF us, of m 1 0 x 0 1] assms by fastforce
  have eq: "modInverse x m = Inr (Some (if gcd x m \<noteq> 1 then 0 else d mod m))"
    unfolding modInverse_def Let_def using assms False d(1) norm_mod [OF assms(2)] by (auto simp: gcd.commute)
  have "m dvd (d mod m) * x - 1" if "gcd x m = 1"
  proof -
    have "(d mod m) * x mod m = 1 mod m"
      using d(2) that by (simp add: mod_eq_dvd_iff [symmetric] gcd.commute mod_mult_left_eq)
    then show ?thesis by (simp add: mod_eq_dvd_iff)
  qed
  then show ?thesis using eq assms by auto
qed

section \<open>Negative numbers\<close>

lemma halve_loop_sign:
  assumes "halve_loop ac x m u a b = Some r"
  shows "(0 < u \<longrightarrow> 0 < fst r) \<and> (u < 0 \<longrightarrow> fst r < 0)"
proof (rule halve_loop.raw_induct [where ?P = "\<lambda>ac x m u a b r. (0 < u \<longrightarrow> 0 < fst r) \<and> (u < 0 \<longrightarrow> fst r < 0)"
    and ?xa = "(((((ac, x), m), u), a), b)", unfolded prod.case, OF _ assms], goal_cases)
  case (1 rec ac x m u a b r)
  show ?case
  proof (cases "even u")
    case True
    then obtain a' b' where "rec ac x m (u div 2) a' b' = Some r" using 1(2) by (auto simp: Let_def split: prod.splits)
    then have "(0 < u div 2 \<longrightarrow> 0 < fst r) \<and> (u div 2 < 0 \<longrightarrow> fst r < 0)" by (rule 1(1))
    moreover have "0 < u \<Longrightarrow> 0 < u div 2" "u < 0 \<Longrightarrow> u div 2 < 0" using True by (auto elim!: evenE)
    ultimately show ?thesis by blast
  next
    case False
    then show ?thesis using 1(2) by auto
  qed
qed

text \<open>With a negative number the first remainder grows and the second stays negative, so the loop goes on.\<close>

lemma inv_loop_negative:
  assumes "inv_loop ac x m u v a b c d = Some r"
  shows "v < 0 \<longrightarrow> u \<le> 0"
proof (rule inv_loop.raw_induct [where ?P = "\<lambda>ac x m u v a b c d r. v < 0 \<longrightarrow> u \<le> 0"
    and ?xa = "((((((((ac, x), m), u), v), a), b), c), d)", unfolded prod.case, OF _ assms], goal_cases)
  case (1 rec ac x m u v a b c d r)
  show ?case
  proof (rule ccontr)
    assume "\<not> ?case"
    then have u: "0 < u" and v: "v < 0" by auto
    then obtain u1 a1 b1 v1 c1 d1 where
      h: "halve_loop ac x m u a b = Some (u1, a1, b1)" "halve_loop ac x m v c d = Some (v1, c1, d1)"
      "(if u1 \<ge> v1 then rec ac x m (u1 - v1) v1 (if ac then a1 - c1 else a1) (b1 - d1) c1 d1
        else rec ac x m u1 (v1 - u1) a1 b1 (if ac then c1 - a1 else c1) (d1 - b1)) = Some r"
      using 1(2) by (auto simp: bind_eq_Some_conv split: prod.splits)
    have s: "0 < u1" "v1 < 0" using halve_loop_sign [OF h(1)] halve_loop_sign [OF h(2)] u v by simp_all
    then have "rec ac x m (u1 - v1) v1 (if ac then a1 - c1 else a1) (b1 - d1) c1 d1 = Some r" using h(3) by simp
    then have "v1 < 0 \<longrightarrow> u1 - v1 \<le> 0" by (rule 1(1))
    then show False using s by simp
  qed
qed



section \<open>The binary gcd\<close>

lemma lowest_bit_ok:
  assumes "v \<noteq> 0"
  shows "0 \<le> lowest_bit v \<and> (\<exists>w. odd w \<and> v = 2 ^ nat (lowest_bit v) * w)"
proof -
  define n where "n = nat (lowest_bit v)"
  have "exact_power2 n v" and p: "0 \<le> lowest_bit v"
    using getLowestSetBit_ok [of Netscape "big_of Netscape v"] big_of_ok [of Netscape v] assms
    by (simp_all add: lowest_bit_def n_def)
  then obtain w where w: "v = 2 ^ n * w" "\<not> 2 ^ Suc n dvd v" by (auto simp: exact_power2_def elim!: dvdE)
  have "odd w"
  proof
    assume "even w"
    then obtain k where "w = 2 * k" by (rule evenE)
    then have "v = 2 ^ Suc n * k" using w(1) by simp
    then show False using w(2) by (metis dvd_triv_left)
  qed
  then show ?thesis using w(1) p unfolding n_def by blast
qed

lemma lowest_bit_zero: "lowest_bit 0 = -1"
  using getLowestSetBit_zero [of Netscape "big_of Netscape 0"] big_of_ok [of Netscape 0] by (simp add: lowest_bit_def)

lemma strip_zeros_ok:
  assumes "0 < x"
  shows "odd (strip_zeros x) \<and> 0 < strip_zeros x \<and> strip_zeros x \<le> x \<and> (\<exists>n. x = 2 ^ n * strip_zeros x)"
proof -
  define n where "n = nat (lowest_bit x)"
  obtain w where w: "odd w" "x = 2 ^ n * w" using lowest_bit_ok [of x] assms by (auto simp: n_def)
  have "strip_zeros x = x div 2 ^ n" using lowest_bit_ok [of x] assms by (auto simp: strip_zeros_def n_def Let_def)
  then have s: "strip_zeros x = w" using w(2) by simp
  have "0 < w" using assms w(2) by (simp add: zero_less_mult_iff)
  then show ?thesis using w s by (auto simp: mult_le_cancel_right1)
qed

lemma gcd_loop_ok:
  assumes "0 \<le> x" "0 < y" "odd (gcd x y)"
  shows "gcd_loop x y = Some (gcd x y)"
  using assms
proof (induction "nat (x + y)" arbitrary: x y rule: less_induct)
  case less
  show ?case
  proof (cases "x = 0")
    case True
    then show ?thesis using less.prems by (subst gcd_loop.simps) simp
  next
    case False
    define x1 y1 where "x1 = strip_zeros x" and "y1 = strip_zeros y"
    have xp: "0 < x" using False less.prems(1) by simp
    obtain i where x: "odd x1" "0 < x1" "x1 \<le> x" "2 ^ i * x1 = x" using strip_zeros_ok [OF xp] unfolding x1_def by metis
    obtain j where y: "odd y1" "0 < y1" "y1 \<le> y" "2 ^ j * y1 = y" using strip_zeros_ok [OF less.prems(2)] unfolding y1_def by metis
    have g1: "gcd x y = gcd x1 y" using gcd_power_two [of i x1 y] less.prems(3) unfolding x(4) by blast
    then have "odd (gcd y x1)" using less.prems(3) by (simp add: gcd.commute)
    then have "gcd y x1 = gcd y1 x1" using gcd_power_two [of j y1 x1] unfolding y(4) by blast
    then have g: "gcd x y = gcd x1 y1" using g1 by (metis gcd.commute)
    have half: "gcd (d div 2) z = gcd d z" if "even d" "odd z" for d z :: int
      using gcd_power_two [of 1 "d div 2" z] that by simp
    have step: "gcd_loop x y = (if x1 \<ge> y1 then gcd_loop ((x1 - y1) div 2) y1 else gcd_loop x1 ((y1 - x1) div 2))"
      using False less.prems(1) by (subst gcd_loop.simps) (simp add: x1_def y1_def Let_def)
    show ?thesis
    proof (cases "x1 \<ge> y1")
      case True
      have "gcd ((x1 - y1) div 2) y1 = gcd (x1 - y1) y1" using x(1) y(1) by (intro half) simp_all
      then have e: "gcd ((x1 - y1) div 2) y1 = gcd x y" unfolding g by (simp add: gcd_diff1)
      have m: "0 \<le> (x1 - y1) div 2" "nat ((x1 - y1) div 2 + y1) < nat (x + y)" using True x(2,3) y(2,3) by linarith+
      have "gcd_loop ((x1 - y1) div 2) y1 = Some (gcd x y)"
        using less.hyps [OF m(2) m(1) y(2)] less.prems(3) unfolding e by blast
      then show ?thesis using True step by simp
    next
      case lt: False
      have ev: "even (y1 - x1)" using x(1) y(1) by simp
      have "gcd ((y1 - x1) div 2) x1 = gcd (y1 - x1) x1" using ev x(1) by (intro half) simp_all
      then have e: "gcd x1 ((y1 - x1) div 2) = gcd x y" unfolding g by (metis gcd.commute gcd_diff1)
      have "y1 \<noteq> x1 + 1" using x(1) y(1) by auto
      then have p: "0 < (y1 - x1) div 2" using lt by linarith
      have m: "0 \<le> x1" "nat (x1 + (y1 - x1) div 2) < nat (x + y)" using lt x(2,3) y(2,3) by linarith+
      have "gcd_loop x1 ((y1 - x1) div 2) = Some (gcd x y)"
        using less.hyps [OF m(2) m(1) p] less.prems(3) unfolding e by blast
      then show ?thesis using lt step by simp
    qed
  qed
qed

lemma gcd_ordered:
  assumes "0 < y" "y \<le> x" "g = (if lowest_bit x < lowest_bit y then lowest_bit x else lowest_bit y)"
  shows "0 \<le> g \<and> 2 ^ nat g dvd x \<and> 2 ^ nat g dvd y \<and> odd (gcd (x div 2 ^ nat g) (y div 2 ^ nat g))"
proof -
  obtain u v where u: "odd u" "x = 2 ^ nat (lowest_bit x) * u" and v: "odd v" "y = 2 ^ nat (lowest_bit y) * v"
    and p: "0 \<le> lowest_bit x" "0 \<le> lowest_bit y"
    using lowest_bit_ok [of x] lowest_bit_ok [of y] assms(1,2) by auto
  show ?thesis
  proof (cases "lowest_bit x < lowest_bit y")
    case True
    then have g: "g = lowest_bit x" by (simp add: assms(3))
    have "x div 2 ^ nat g = u" unfolding g by (subst u(2)) simp
    moreover have "2 ^ nat g dvd y" unfolding g
      by (subst v(2)) (use True p in \<open>auto intro!: dvd_mult2 le_imp_power_dvd\<close>)
    ultimately show ?thesis using u p g by (metis dvd_triv_left gcd_dvd1 dvd_trans)
  next
    case False
    then have g: "g = lowest_bit y" by (simp add: assms(3))
    have "y div 2 ^ nat g = v" unfolding g by (subst v(2)) simp
    moreover have "2 ^ nat g dvd x" unfolding g
      by (subst u(2)) (use False p in \<open>auto intro!: dvd_mult2 le_imp_power_dvd\<close>)
    ultimately show ?thesis using v p g by (metis dvd_triv_left gcd_dvd2 dvd_trans)
  qed
qed

text \<open>
  C28: \<open>gcd\<close> always returns the greatest common divisor, of numbers of any sign, zero included.
\<close>

theorem gcd_correct: "gcd_big a b = Some (gcd a b)"
proof -
  define x y where "x = max \<bar>a\<bar> \<bar>b\<bar>" and "y = min \<bar>a\<bar> \<bar>b\<bar>"
  have xy: "(if \<bar>a\<bar> < \<bar>b\<bar> then (\<bar>b\<bar>, \<bar>a\<bar>) else (\<bar>a\<bar>, \<bar>b\<bar>)) = (x, y)" by (auto simp: x_def y_def)
  have o: "0 \<le> y" "y \<le> x" by (auto simp: x_def y_def)
  have gxy: "gcd a b = gcd x y" by (auto simp: x_def y_def max_def min_def gcd.commute)
  show ?thesis
  proof (cases "y = 0")
    case True
    then show ?thesis using o gxy by (simp add: gcd_big_def xy lowest_bit_zero)
  next
    case False
    define g where "g = (if lowest_bit x < lowest_bit y then lowest_bit x else lowest_bit y)"
    let ?p = "2 ^ nat g :: int"
    have y: "0 < y" using False o by simp
    have g: "0 \<le> g" "?p dvd x" "?p dvd y" "odd (gcd (x div ?p) (y div ?p))" using gcd_ordered [OF y o(2) g_def] by simp_all
    have "0 < y div ?p" "0 \<le> x div ?p" using g(2,3) y o by (simp_all add: pos_imp_zdiv_pos_iff pos_imp_zdiv_nonneg_iff zdvd_imp_le)
    then have l: "gcd_loop (x div ?p) (y div ?p) = Some (gcd (x div ?p) (y div ?p))" using g(4) by (intro gcd_loop_ok)
    have e: "gcd (x div ?p) (y div ?p) * ?p = gcd x y"
      using gcd_mult_distrib_int [of ?p "x div ?p" "y div ?p"] g(2,3) by (simp add: mult.commute)
    have nn: "\<not> lowest_bit y < 0" using lowest_bit_ok [of y] y by auto
    have "gcd_big a b = map_option (\<lambda>y. if g > 0 then y * ?p else y)
       (if g > 0 then gcd_loop (x div ?p) (y div ?p) else gcd_loop x y)"
      unfolding gcd_big_def xy Let_def prod.case g_def [symmetric] using nn by (cases "g > 0") simp_all
    then show ?thesis using l e g(1) gxy by (cases "g = 0") auto
  qed
qed

end
