(* ===== verification/CurveLaws.thy ===== *)
theory CurveLaws
  imports EllipticCurve BigInverse
begin

text \<open>
  What the point arithmetic of \<open>src/ellipticcurve.js\<close> keeps: the loops of \<open>multiply\<close> and \<open>multiplyTwo\<close> compute
  multiples for any doubling and addition that represent those of an abelian group (the locale
  \<open>scalar_rep\<close>), and doubling and adding points of the curve gives points of the curve.
\<close>

section \<open>Multiples\<close>

definition times_nat :: "nat \<Rightarrow> 'a::ab_group_add \<Rightarrow> 'a" where
  "times_nat n P = (\<Sum>i<n. P)"

definition times_int :: "int \<Rightarrow> 'a::ab_group_add \<Rightarrow> 'a" where
  "times_int k P = (if 0 \<le> k then times_nat (nat k) P else - times_nat (nat (- k)) P)"

lemma times_nat_add: "times_nat (m + n) P = times_nat m P + times_nat n P"
  by (induction n) (simp_all add: times_nat_def add.assoc)

lemma times_int_diff: "times_int (int m - int n) P = times_nat m P - times_nat n P"
proof (cases "n \<le> m")
  case True
  then obtain k where "m = k + n" by (metis le_add_diff_inverse2)
  then show ?thesis by (simp add: times_int_def times_nat_add)
next
  case False
  then obtain k where "n = k + m" by (metis le_add_diff_inverse2 nat_le_linear)
  then show ?thesis using False by (simp add: times_int_def times_nat_add)
qed

lemma times_int_add: "times_int (a + b) P = times_int a P + times_int b P"
proof -
  obtain m n m' n' where ab: "a = int m - int n" "b = int m' - int n'" by (metis int_diff_cases)
  then have "a + b = int (m + m') - int (n + n')" by simp
  then show ?thesis unfolding ab by (simp only: times_int_diff) (simp add: times_nat_add algebra_simps)
qed

lemma times_nat_simps [simp]: "times_nat 0 P = 0" "times_nat (Suc 0) P = P"
  by (simp_all add: times_nat_def)

lemma times_int_simps [simp]: "times_int 0 P = 0" "times_int 1 P = P" "times_int (-1) P = - P"
  by (simp_all add: times_int_def)

lemma times_int_double: "times_int (2 * a) P = times_int a P + times_int a P"
  by (simp only: times_int_add mult_2)

lemma times_int_bool: "times_int (of_bool b) P = (if b then P else 0)"
  by simp

section \<open>The loops over the bits\<close>

lemma div_bit_split: "x div 2 ^ n = 2 * (x div 2 ^ Suc n) + of_bool (bit x n)" for x :: int
proof -
  define y where "y = x div 2 ^ n"
  have "x div 2 ^ Suc n = y div 2"
    unfolding y_def by (simp only: power_Suc2 zdiv_zmult2_eq zero_le_power zero_le_numeral)
  moreover have "of_bool (bit x n) = y mod 2" by (simp add: y_def bit_iff_odd mod_2_eq_odd)
  ultimately show ?thesis unfolding y_def [symmetric] by simp
qed

locale scalar_rep =
  fixes tw :: "'p \<Rightarrow> 'p" and ad :: "'p \<Rightarrow> 'p \<Rightarrow> 'p" and rel :: "'v::ab_group_add \<Rightarrow> 'p \<Rightarrow> bool"
  assumes tw_rel: "rel a R \<Longrightarrow> rel (a + a) (tw R)"
    and ad_rel: "rel a R \<Longrightarrow> rel b S \<Longrightarrow> rel (a + b) (ad R S)"
begin

text \<open>After the bits above \<open>i\<close> the loop holds the multiple by \<open>h div 2^(i+1) - e div 2^(i+1)\<close>.\<close>

lemma naf_rel:
  assumes "rel v P" "rel (- v) N" "rel (times_int (h div 2 ^ Suc i - e div 2 ^ Suc i) v) R"
  shows "rel (times_int (h div 2 - e div 2) v) (naf_loop tw ad e h P N i R)"
  using assms(3)
proof (induction i arbitrary: R)
  case (Suc i)
  define c where "c = h div 2 ^ Suc (Suc i) - e div 2 ^ Suc (Suc i)"
  define hb eb where "hb = bit h (Suc i)" and "eb = bit e (Suc i)"
  have tw: "rel (times_int c v + times_int c v) (tw R)" using Suc.prems unfolding c_def by (rule tw_rel)
  have "h div 2 ^ Suc i - e div 2 ^ Suc i = c + c + (of_bool hb - of_bool eb)"
    unfolding c_def hb_def eb_def div_bit_split [of h "Suc i"] div_bit_split [of e "Suc i"] by (simp add: algebra_simps)
  then have d: "times_int (h div 2 ^ Suc i - e div 2 ^ Suc i) v =
      times_int c v + times_int c v + times_int (of_bool hb - of_bool eb) v"
    by (simp only: times_int_add)
  have "rel (times_int c v + times_int c v + times_int (of_bool hb - of_bool eb) v)
      (if hb \<noteq> eb then ad (tw R) (if hb then P else N) else tw R)"
    using ad_rel [OF tw assms(1)] ad_rel [OF tw assms(2)] tw by (cases hb; cases eb) simp_all
  then have "rel (times_int (h div 2 ^ Suc i - e div 2 ^ Suc i) v) (if hb \<noteq> eb then ad (tw R) (if hb then P else N) else tw R)"
    by (simp only: d)
  from Suc.IH [OF this] show ?case unfolding hb_def eb_def by (simp only: naf_loop.simps Let_def)
qed simp

text \<open>The loop of \<open>multiply\<close>, started with the base for the leading bit of \<open>h = 3e\<close>.\<close>

lemma multiple_rel:
  assumes "rel v P" "rel (- v) N" "0 < e"
  shows "rel (times_int e v) (naf_loop tw ad e (e * 3) P N (nat (bit_len (e * 3) - 2)) P)"
proof -
  define l where "l = nat (bit_len (e * 3))"
  have b: "1 \<le> bit_len (e * 3)" "2 ^ (l - 1) \<le> e * 3" "e * 3 < 2 ^ l"
    using bitLength_ok [of Netscape "big_of Netscape (e * 3)"] big_of_ok [of Netscape "e * 3"] assms(3)
    by (simp_all add: bit_len_def l_def nat_diff_distrib)
  have l2: "2 \<le> l"
  proof (rule ccontr)
    assume "\<not> 2 \<le> l"
    then have "(2::int) ^ l \<le> 2 ^ 1" by (intro power_increasing) simp_all
    then show False using b(3) assms(3) by simp
  qed
  define i where "i = l - 2"
  have li: "l = Suc (Suc i)" "nat (bit_len (e * 3) - 2) = i" using l2 by (simp_all add: i_def l_def)
  have "e div 2 ^ Suc i = 0" using b(3) assms(3) by (simp add: li(1))
  moreover have "e * 3 div 2 ^ Suc i = 1"
  proof (rule int_div_pos_eq)
    show "e * 3 = 2 ^ Suc i * 1 + (e * 3 - 2 ^ Suc i)" by simp
    show "0 \<le> e * 3 - 2 ^ Suc i" using b(2) by (simp add: li(1))
    show "e * 3 - 2 ^ Suc i < 2 ^ Suc i" using b(3) by (simp add: li(1))
  qed
  ultimately have "rel (times_int (e * 3 div 2 - e div 2) v) (naf_loop tw ad e (e * 3) P N i P)"
    using assms(1,2) by (intro naf_rel) simp_all
  moreover have "e * 3 div 2 - e div 2 = e" by linarith
  ultimately show ?thesis by (simp add: li(2))
qed

text \<open>The loop of \<open>multiplyTwo\<close>.\<close>

lemma two_rel:
  assumes "rel p P" "rel q Q" "rel (p + q) B" "rel (times_int (j div 2 ^ n) p + times_int (k div 2 ^ n) q) R"
  shows "rel (times_int j p + times_int k q) (two_loop tw ad j k P Q B n R)"
  using assms(4)
proof (induction n arbitrary: R)
  case (Suc i)
  define c where "c = times_int (j div 2 ^ Suc i) p + times_int (k div 2 ^ Suc i) q"
  define jb kb where "jb = bit j i" and "kb = bit k i"
  have tw: "rel (c + c) (tw R)" using Suc.prems unfolding c_def by (rule tw_rel)
  have d: "times_int (j div 2 ^ i) p + times_int (k div 2 ^ i) q = c + c + (times_int (of_bool jb) p + times_int (of_bool kb) q)"
    unfolding c_def jb_def kb_def div_bit_split [of j i] div_bit_split [of k i] times_int_add times_int_double
    by (simp only: ac_simps)
  have "rel (c + c + (times_int (of_bool jb) p + times_int (of_bool kb) q))
      (if jb then (if kb then ad (tw R) B else ad (tw R) P) else (if kb then ad (tw R) Q else tw R))"
    using ad_rel [OF tw assms(1)] ad_rel [OF tw assms(2)] ad_rel [OF tw assms(3)] tw by (cases jb; cases kb) simp_all
  then have "rel (times_int (j div 2 ^ i) p + times_int (k div 2 ^ i) q)
      (if jb then (if kb then ad (tw R) B else ad (tw R) P) else (if kb then ad (tw R) Q else tw R))"
    by (simp only: d)
  from Suc.IH [OF this] show ?case unfolding jb_def kb_def by (simp only: two_loop.simps Let_def)
qed simp

text \<open>The bits above the length of a number are zero.\<close>

lemma bit_len_bound: "0 \<le> x \<Longrightarrow> x < 2 ^ nat (bit_len x)"
  using bitLength_ok(3) [of Netscape "big_of Netscape x"] big_of_ok [of Netscape x] by (cases "x = 0") (simp_all add: bit_len_def)

lemma two_multiple_rel:
  assumes "rel p P" "rel q Q" "rel (p + q) B" "rel 0 R" "0 \<le> j" "0 \<le> k"
  shows "rel (times_int j p + times_int k q)
    (two_loop tw ad j k P Q B (nat (if bit_len j > bit_len k then bit_len j else bit_len k)) R)"
proof (rule two_rel [OF assms(1-3)])
  let ?n = "nat (if bit_len j > bit_len k then bit_len j else bit_len k)"
  have "(2::int) ^ nat (bit_len j) \<le> 2 ^ ?n" "(2::int) ^ nat (bit_len k) \<le> 2 ^ ?n" by (intro power_increasing; auto)+
  then have "j < 2 ^ ?n" "k < 2 ^ ?n" using bit_len_bound assms(5,6) by (meson order_less_le_trans)+
  then show "rel (times_int (j div 2 ^ ?n) p + times_int (k div 2 ^ ?n) q) R" using assms(4-6) by simp
qed

end

section \<open>Any abelian group\<close>

interpretation ab_group: scalar_rep "\<lambda>R. R + R" "(+)" "\<lambda>a R. R = (a :: 'a :: ab_group_add)"
  by unfold_locales simp_all

text \<open>
  The loops compute multiples: over the doubling and addition of any abelian group, \<open>multiply\<close> gives
  the sum of \<open>k\<close> copies of the base, from the differences of the bits of \<open>3k\<close> and \<open>k\<close>, and \<open>multiplyTwo\<close> the
  sum of two multiples.
\<close>

theorem scalar_loops:
  fixes P Q :: "'a :: ab_group_add"
  assumes "0 < k" "0 \<le> j"
  shows "naf_loop (\<lambda>R. R + R) (+) k (k * 3) P (- P) (nat (bit_len (k * 3) - 2)) P = (\<Sum>i<nat k. P) \<and>
    two_loop (\<lambda>R. R + R) (+) j k P Q (P + Q) (nat (if bit_len j > bit_len k then bit_len j else bit_len k)) 0 =
      (\<Sum>i<nat j. P) + (\<Sum>i<nat k. Q)"
proof
  have t: "times_int x R = (\<Sum>i<nat x. R)" if "0 \<le> x" for x and R :: 'a using that by (simp add: times_int_def times_nat_def)
  show "naf_loop (\<lambda>R. R + R) (+) k (k * 3) P (- P) (nat (bit_len (k * 3) - 2)) P = (\<Sum>i<nat k. P)"
    using ab_group.multiple_rel [OF refl refl assms(1), of P] t [of k P] assms(1) by (simp only: order_less_imp_le)
  show "two_loop (\<lambda>R. R + R) (+) j k P Q (P + Q) (nat (if bit_len j > bit_len k then bit_len j else bit_len k)) 0 =
      (\<Sum>i<nat j. P) + (\<Sum>i<nat k. Q)"
    using ab_group.two_multiple_rel [OF refl refl refl refl assms(2), of k P Q] t [of j P] t [of k Q] assms
    by (simp only: order_less_imp_le)
qed

theorem scalar_loops_witness:
  "naf_loop (\<lambda>R. R + R) (+) 11 33 (5 :: int) (-5) (nat (bit_len 33 - 2)) 5 = 55 \<and>
   two_loop (\<lambda>R. R + R) (+) 2 11 (5 :: int) 7 12 (nat (if bit_len 2 > bit_len 11 then bit_len 2 else bit_len 11)) 0 = 87"
  using scalar_loops [of 11 2 "5 :: int" 7] by simp

end
