(* ===== verification/CurveClosed.thy ===== *)
theory CurveClosed
  imports CurveLaws
begin

text \<open>
  Points of the curve stay on the curve: the projective doubling, addition and negation of
  \<open>src/ellipticcurve.js\<close> satisfy the curve equation of their arguments, and with them every multiple. The
  polynomial identities behind them are proved over the integers, before any reduction modulo \<open>q\<close>.
\<close>

section \<open>Polynomial identities\<close>

text \<open>How far a triple is from the curve.\<close>

definition defect :: "int \<Rightarrow> int \<Rightarrow> int \<Rightarrow> int \<Rightarrow> int \<Rightarrow> int" where
  "defect a b x y z = y * y * z - x * x * x - a * x * z * z - b * z * z * z"

lemma double_identity:
  fixes a b x y z :: int
  defines "s \<equiv> y * z" and "t \<equiv> y * z * y" and "w \<equiv> 3 * x * x + z * z * a"
  shows "defect a b ((w * w - x * 8 * t) * 2 * s) ((w * 3 * x - t * 2) * 4 * t - w * w * w) (s * s * s * 8) =
    512 * (s * s * s) * (t * t * t) * defect a b x y z"
proof -
  define K where "K = w * w - 8 * x * t"
  have 1: "defect a b (K * 2 * s) (12 * w * x * t - 8 * t * t - w * w * w) (s * s * s * 8) =
      8 * (s * s * s) * ((12 * w * x * t - 8 * t * t - w * w * w) ^ 2 - K * K * K - 16 * a * (s * s) * (s * s) * K
        - 64 * b * (s * s) * (s * s) * (s * s))"
    by (simp add: defect_def power2_eq_square algebra_simps)
  have 2: "(12 * w * x * t - 8 * t * t - w * w * w) ^ 2 - K * K * K =
      16 * (t * t) * (w * w * w - 3 * (w * w) * (x * x) + 4 * (t * t) - 12 * w * x * t + 32 * (x * x * x) * t)"
    by (simp add: K_def power2_eq_square algebra_simps)
  have ss: "s * s = t * z" by (simp add: s_def t_def)
  have 3: "w * w * w - 3 * (w * w) * (x * x) + 4 * (t * t) - 12 * w * x * t + 32 * (x * x * x) * t
      - a * z * z * K - 4 * b * t * z * z * z = 4 * t * defect a b x y z"
    by (simp add: K_def w_def t_def defect_def algebra_simps)
  have "16 * a * (s * s) * (s * s) * K = 16 * (t * t) * (a * z * z * K)"
    "64 * b * (s * s) * (s * s) * (s * s) = 16 * (t * t) * (4 * b * t * z * z * z)"
    unfolding ss by (simp_all add: algebra_simps)
  then have 5: "(12 * w * x * t - 8 * t * t - w * w * w) ^ 2 - K * K * K - 16 * a * (s * s) * (s * s) * K
        - 64 * b * (s * s) * (s * s) * (s * s) = 16 * (t * t) * (4 * t * defect a b x y z)"
    unfolding 2 3 [symmetric] by (simp only: right_diff_distrib)
  have k: "(w * 3 * x - t * 2) * 4 * t - w * w * w = 12 * w * x * t - 8 * t * t - w * w * w"
    by (simp add: algebra_simps)
  have l: "w * w - x * 8 * t = K" by (simp add: K_def)
  show ?thesis unfolding k l 1 5 by simp
qed

lemma add_identity_affine:
  fixes a b X Y Z u v :: int
  defines "A \<equiv> u * u * Z - v * v * v - 2 * (v * v) * X"
  shows "defect a b (A * v) (u * (v * v * X - A) - v * v * v * Y) (v * v * v * Z) =
    v * v * v * (v * v * v) * (defect a b X Y Z * (v * v * (X + v) - A) + defect a b (X + v) (Y + u) Z * (A - v * v * X))"
  by (simp add: A_def defect_def algebra_simps)

section \<open>Points of the curve\<close>

definition on_curve :: "curve \<Rightarrow> point \<Rightarrow> bool" where
  "on_curve c p \<longleftrightarrow> pcurve p = c \<and>
     (case (px p, py p) of
        (None, None) \<Rightarrow> True
      | (Some f, Some g) \<Rightarrow> fq f = cq c \<and> fq g = cq c \<and>
          cq c dvd defect (toBigInteger (ca c)) (toBigInteger (cb c)) (fx f) (fx g) (pz p)
      | _ \<Rightarrow> False)"

lemma fe_of_curve: "fq f = cq c \<longleftrightarrow> (\<exists>x. f = fromBigInteger c x)"
  by (cases f) (auto simp: fromBigInteger_def FieldElementFp_def)

lemma on_curve_iff:
  "on_curve c p \<longleftrightarrow> pcurve p = c \<and>
     (px p = None \<and> py p = None \<or>
      (\<exists>x y. px p = Some (fromBigInteger c x) \<and> py p = Some (fromBigInteger c y) \<and>
         cq c dvd defect (toBigInteger (ca c)) (toBigInteger (cb c)) x y (pz p)))"
  unfolding on_curve_def by (auto simp: fe_of_curve fromBigInteger_def FieldElementFp_def split: option.splits)

lemmas congs = mod_diff_cong mod_add_cong mod_mult_cong mod_mod_trivial refl

lemma defect_cong:
  assumes "x' mod q = x mod q" "y' mod q = y mod q" "z' mod q = z mod q" "q dvd defect a b x y z"
  shows "q dvd defect a b x' y' z'"
proof -
  have "defect a b x' y' z' mod q = defect a b x y z mod q"
    unfolding defect_def by (intro congs assms(1-3))
  then show ?thesis using assms(4) by (simp add: dvd_eq_mod_eq_0)
qed

lemma on_curve_infinity: "on_curve c (getInfinity c)"
  by (simp add: on_curve_iff getInfinity_def PointFp_def)

lemma on_curve_PointFp:
  "on_curve c (PointFp c (Some (fromBigInteger c x)) (Some (fromBigInteger c y)) (Some z) m) \<longleftrightarrow>
     cq c dvd defect (toBigInteger (ca c)) (toBigInteger (cb c)) x y z"
  by (auto simp: on_curve_iff PointFp_def fromBigInteger_def FieldElementFp_def)

lemma on_curve_coords:
  assumes "on_curve c p" "\<not> isInfinity p"
  shows "pcurve p = c" "px p = Some (fromBigInteger c (xval p))" "py p = Some (fromBigInteger c (yval p))"
    "cq c dvd defect (toBigInteger (ca c)) (toBigInteger (cb c)) (xval p) (yval p) (pz p)"
  using assms by (auto simp: on_curve_iff isInfinity_def xval_def yval_def fromBigInteger_def toBigInteger_def FieldElementFp_def)

lemma negate_on_curve:
  assumes "on_curve c p"
  shows "on_curve c (point_negate p)"
proof (cases "px p = None \<and> py p = None")
  case True
  then show ?thesis using assms by (simp add: on_curve_iff point_negate_def PointFp_def)
next
  case False
  then obtain x y where p: "pcurve p = c" "px p = Some (fromBigInteger c x)" "py p = Some (fromBigInteger c y)"
    "cq c dvd defect (toBigInteger (ca c)) (toBigInteger (cb c)) x y (pz p)"
    using assms by (auto simp: on_curve_iff)
  have n: "fe_negate (fromBigInteger c y) = fromBigInteger c ((- y) mod cq c)"
    by (simp add: fe_negate_def fromBigInteger_def FieldElementFp_def)
  have "defect (toBigInteger (ca c)) (toBigInteger (cb c)) x (- y) (pz p) =
      defect (toBigInteger (ca c)) (toBigInteger (cb c)) x y (pz p)" by (simp add: defect_def)
  then have "cq c dvd defect (toBigInteger (ca c)) (toBigInteger (cb c)) x ((- y) mod cq c) (pz p)"
    using defect_cong [of x "cq c" x "(- y) mod cq c" "- y" "pz p" "pz p"] p(4) by simp
  then show ?thesis unfolding point_negate_def p by (simp add: n on_curve_PointFp)
qed

lemma twice_eq:
  assumes "\<not> isInfinity p" "yval p \<noteq> 0"
  shows "twice p =
    (let q = cq (pcurve p); x = xval p; s = yval p * pz p; t = s * yval p mod q;
         w = (if toBigInteger (ca (pcurve p)) \<noteq> 0 then x * x * 3 + pz p * pz p * toBigInteger (ca (pcurve p)) else x * x * 3) mod q
     in PointFp (pcurve p) (Some (fromBigInteger (pcurve p) ((w * w - x * 2 ^ 3 * t) * 2 * s mod q)))
          (Some (fromBigInteger (pcurve p) (((w * 3 * x - t * 2) * 2 ^ 2 * t - w * w * w) mod q))) (Some (s * s * s * 2 ^ 3 mod q)) False)"
  unfolding twice_def Let_def if_not_P [OF assms(1)] if_not_P [OF assms(2)] by (rule refl)

lemma twice_trivial:
  "isInfinity p \<Longrightarrow> twice p = p" "\<not> isInfinity p \<Longrightarrow> yval p = 0 \<Longrightarrow> twice p = getInfinity (pcurve p)"
  unfolding twice_def by (simp_all only: if_True if_False simp_thms)

lemma twice_on_curve:
  assumes "on_curve c p"
  shows "on_curve c (twice p)"
proof (cases "isInfinity p \<or> yval p = 0")
  case True
  have "pcurve p = c" using assms by (simp add: on_curve_iff)
  then show ?thesis using True assms twice_trivial [of p] on_curve_infinity by (cases "isInfinity p") simp_all
next
  case False
  define q a b x y z where "q = cq c" and "a = toBigInteger (ca c)" and "b = toBigInteger (cb c)" and
    "x = xval p" and "y = yval p" and "z = pz p"
  note defs = q_def [symmetric] a_def [symmetric] b_def [symmetric] x_def [symmetric] y_def [symmetric] z_def [symmetric]
  have ni: "\<not> isInfinity p" "y \<noteq> 0" using False by (simp_all add: y_def)
  note p = on_curve_coords [OF assms ni(1), unfolded defs]
  note d = p(4)
  define s t w where "s = y * z" and "t = y * z * y" and "w = 3 * x * x + z * z * a"
  have st: "s * y = t" by (simp add: s_def t_def)
  have wq: "(if a \<noteq> 0 then x * x * 3 + z * z * a else x * x * 3) = w" by (simp add: w_def)
  have "q dvd defect a b ((w * w - x * 8 * t) * 2 * s) ((w * 3 * x - t * 2) * 4 * t - w * w * w) (s * s * s * 8)"
    unfolding s_def t_def w_def double_identity using d by (rule dvd_mult)
  moreover have n: "(8 :: int) = 2 ^ 3" "(4 :: int) = 2 ^ 2" by simp_all
  ultimately have e: "q dvd defect a b ((w * w - x * 2 ^ 3 * t) * 2 * s) ((w * 3 * x - t * 2) * 2 ^ 2 * t - w * w * w) (s * s * s * 2 ^ 3)"
    by (simp only: n)
  have "q dvd defect a b ((w mod q * (w mod q) - x * 2 ^ 3 * (t mod q)) * 2 * s mod q)
      (((w mod q * 3 * x - t mod q * 2) * 2 ^ 2 * (t mod q) - w mod q * (w mod q) * (w mod q)) mod q) (s * s * s * 2 ^ 3 mod q)"
  proof (rule defect_cong [OF _ _ _ e])
    show "(w mod q * (w mod q) - x * 2 ^ 3 * (t mod q)) * 2 * s mod q mod q = (w * w - x * 2 ^ 3 * t) * 2 * s mod q"
      unfolding mod_mod_trivial by (intro mod_mult_cong mod_diff_cong mod_mod_trivial refl)
    show "((w mod q * 3 * x - t mod q * 2) * 2 ^ 2 * (t mod q) - w mod q * (w mod q) * (w mod q)) mod q mod q =
      ((w * 3 * x - t * 2) * 2 ^ 2 * t - w * w * w) mod q"
      unfolding mod_mod_trivial by (intro mod_mult_cong mod_diff_cong mod_mod_trivial refl)
  qed (rule mod_mod_trivial)
  moreover have "twice p = PointFp c
      (Some (fromBigInteger c ((w mod q * (w mod q) - x * 2 ^ 3 * (t mod q)) * 2 * s mod q)))
      (Some (fromBigInteger c (((w mod q * 3 * x - t mod q * 2) * 2 ^ 2 * (t mod q) - w mod q * (w mod q) * (w mod q)) mod q)))
      (Some (s * s * s * 2 ^ 3 mod q)) False"
    using twice_eq [of p] ni unfolding Let_def p(1) defs wq s_def [symmetric] st by blast
  ultimately show ?thesis by (simp only: on_curve_PointFp defs)
qed

lemma add_trivial:
  "isInfinity p \<Longrightarrow> point_add p r = r" "\<not> isInfinity p \<Longrightarrow> isInfinity r \<Longrightarrow> point_add p r = p"
  unfolding point_add_def by (simp_all only: if_True if_False)

lemma add_eq:
  assumes "\<not> isInfinity p" "\<not> isInfinity r"
  shows "point_add p r =
    (let q = cq (pcurve p); u = (yval r * pz p - yval p * pz r) mod q; v = (xval r * pz p - xval p * pz r) mod q
     in if v = 0 then (if u = 0 then twice p else getInfinity (pcurve p))
        else PointFp (pcurve p)
          (Some (fromBigInteger (pcurve p) (((u * u * pz p - xval p * (v * v) * 2) * pz r - v * v * v) * v mod q)))
          (Some (fromBigInteger (pcurve p)
            (((xval p * (v * v) * 3 * u - yval p * (v * v * v) - u * u * pz p * u) * pz r + u * (v * v * v)) mod q)))
          (Some (v * v * v * pz p * pz r mod q)) False)"
  unfolding point_add_def Let_def if_not_P [OF assms(1)] if_not_P [OF assms(2)] by (rule refl)

text \<open>The coordinates of both points over the product of their denominators.\<close>

lemma add_identity:
  fixes a b x1 y1 z1 x2 y2 z2 u v :: int
  assumes "y2 * z1 - y1 * z2 = u" "x2 * z1 - x1 * z2 = v" "q dvd defect a b x1 y1 z1" "q dvd defect a b x2 y2 z2"
  shows "q dvd defect a b (((u * u * z1 - x1 * (v * v) * 2) * z2 - v * v * v) * v)
    ((x1 * (v * v) * 3 * u - y1 * (v * v * v) - u * u * z1 * u) * z2 + u * (v * v * v)) (v * v * v * z1 * z2)"
proof -
  define X Y Z where "X = x1 * z2" and "Y = y1 * z2" and "Z = z1 * z2"
  define A where "A = u * u * Z - v * v * v - 2 * (v * v) * X"
  have e1: "defect a b X Y Z = z2 * z2 * z2 * defect a b x1 y1 z1" by (simp add: defect_def X_def Y_def Z_def algebra_simps)
  have "X + v = x2 * z1" "Y + u = y2 * z1" by (simp_all add: X_def Y_def assms(1,2) [symmetric])
  then have e2: "defect a b (X + v) (Y + u) Z = z1 * z1 * z1 * defect a b x2 y2 z2"
    by (simp add: defect_def Z_def algebra_simps)
  have "q dvd defect a b X Y Z * (v * v * (X + v) - A) + defect a b (X + v) (Y + u) Z * (A - v * v * X)"
    unfolding e1 e2 using assms(3,4) by (intro dvd_add dvd_mult2 dvd_mult)
  then have "q dvd defect a b (A * v) (u * (v * v * X - A) - v * v * v * Y) (v * v * v * Z)"
    unfolding A_def add_identity_affine by (rule dvd_mult)
  moreover have "A * v = ((u * u * z1 - x1 * (v * v) * 2) * z2 - v * v * v) * v"
    "u * (v * v * X - A) - v * v * v * Y = (x1 * (v * v) * 3 * u - y1 * (v * v * v) - u * u * z1 * u) * z2 + u * (v * v * v)"
    "v * v * v * Z = v * v * v * z1 * z2"
    by (simp_all add: A_def X_def Y_def Z_def algebra_simps)
  ultimately show ?thesis by (simp only:)
qed

lemma add_on_curve:
  assumes "on_curve c p" "on_curve c r"
  shows "on_curve c (point_add p r)"
proof (cases "isInfinity p \<or> isInfinity r")
  case True
  then show ?thesis using assms add_trivial by (cases "isInfinity p") simp_all
next
  case False
  define q a b where "q = cq c" and "a = toBigInteger (ca c)" and "b = toBigInteger (cb c)"
  define x1 y1 z1 x2 y2 z2 where "x1 = xval p" and "y1 = yval p" and "z1 = pz p" and "x2 = xval r" and "y2 = yval r" and "z2 = pz r"
  note defs = q_def [symmetric] a_def [symmetric] b_def [symmetric] x1_def [symmetric] y1_def [symmetric] z1_def [symmetric]
    x2_def [symmetric] y2_def [symmetric] z2_def [symmetric]
  have ni: "\<not> isInfinity p" "\<not> isInfinity r" using False by simp_all
  note p = on_curve_coords [OF assms(1) ni(1), unfolded defs] and r = on_curve_coords [OF assms(2) ni(2), unfolded defs]
  define u v where "u = y2 * z1 - y1 * z2" and "v = x2 * z1 - x1 * z2"
  have add: "point_add p r =
    (if v mod q = 0 then (if u mod q = 0 then twice p else getInfinity c)
     else PointFp c
          (Some (fromBigInteger c (((u mod q * (u mod q) * z1 - x1 * (v mod q * (v mod q)) * 2) * z2 - v mod q * (v mod q) * (v mod q)) * (v mod q) mod q)))
          (Some (fromBigInteger c
            (((x1 * (v mod q * (v mod q)) * 3 * (u mod q) - y1 * (v mod q * (v mod q) * (v mod q)) - u mod q * (u mod q) * z1 * (u mod q)) * z2
              + u mod q * (v mod q * (v mod q) * (v mod q))) mod q)))
          (Some (v mod q * (v mod q) * (v mod q) * z1 * z2 mod q)) False)"
    using add_eq [OF ni] unfolding Let_def p(1) defs u_def [symmetric] v_def [symmetric] .
  note e = add_identity [OF u_def [symmetric] v_def [symmetric] p(4) r(4)]
  have "q dvd defect a b (((u mod q * (u mod q) * z1 - x1 * (v mod q * (v mod q)) * 2) * z2 - v mod q * (v mod q) * (v mod q)) * (v mod q) mod q)
      (((x1 * (v mod q * (v mod q)) * 3 * (u mod q) - y1 * (v mod q * (v mod q) * (v mod q)) - u mod q * (u mod q) * z1 * (u mod q)) * z2
        + u mod q * (v mod q * (v mod q) * (v mod q))) mod q)
      (v mod q * (v mod q) * (v mod q) * z1 * z2 mod q)"
  proof (rule defect_cong [OF _ _ _ e])
    show "((u mod q * (u mod q) * z1 - x1 * (v mod q * (v mod q)) * 2) * z2 - v mod q * (v mod q) * (v mod q)) * (v mod q) mod q mod q =
      ((u * u * z1 - x1 * (v * v) * 2) * z2 - v * v * v) * v mod q"
      unfolding mod_mod_trivial by (intro congs)
    show "((x1 * (v mod q * (v mod q)) * 3 * (u mod q) - y1 * (v mod q * (v mod q) * (v mod q)) - u mod q * (u mod q) * z1 * (u mod q)) * z2
        + u mod q * (v mod q * (v mod q) * (v mod q))) mod q mod q =
      ((x1 * (v * v) * 3 * u - y1 * (v * v * v) - u * u * z1 * u) * z2 + u * (v * v * v)) mod q"
      unfolding mod_mod_trivial by (intro congs)
    show "v mod q * (v mod q) * (v mod q) * z1 * z2 mod q mod q = v * v * v * z1 * z2 mod q"
      unfolding mod_mod_trivial by (intro congs)
  qed
  then show ?thesis unfolding add using twice_on_curve [OF assms(1)] on_curve_infinity by (simp only: on_curve_PointFp defs split: if_split) simp
qed

interpretation curve_points: scalar_rep twice point_add "\<lambda>_ :: int. on_curve c" for c
  by unfold_locales (auto intro: twice_on_curve add_on_curve)

lemma multiply_on_curve:
  assumes "on_curve c p" "0 \<le> k"
  shows "on_curve c (point_multiply p k)"
proof (cases "isInfinity p \<or> k = 0")
  case True
  have "pcurve p = c" using assms(1) by (simp add: on_curve_iff)
  then show ?thesis using True assms on_curve_infinity by (auto simp: point_multiply_def)
next
  case False
  then have "on_curve c (naf_loop twice point_add k (k * 3) p (point_negate p) (nat (bit_len (k * 3) - 2)) p)"
    using curve_points.multiple_rel [of c p "point_negate p" k] assms negate_on_curve by simp
  then show ?thesis using False assms(2) by (simp add: point_multiply_def Let_def sgn_if)
qed

lemma multiplyTwo_on_curve:
  assumes "on_curve c p" "on_curve c r" "0 \<le> j" "0 \<le> k"
  shows "on_curve c (multiplyTwo p j r k)"
proof -
  have c: "pcurve p = c" using assms(1) by (simp add: on_curve_iff)
  show ?thesis unfolding multiplyTwo_def Let_def c
    by (rule curve_points.two_multiple_rel [OF assms(1,2) add_on_curve [OF assms(1,2)] on_curve_infinity assms(3,4)])
qed

text \<open>
  C29: Points never leave the curve: doubling, negation, addition and the multiples of points that satisfy the
  curve equation satisfy it again, whatever the modulus and without any test of the points.
\<close>

theorem points_closed:
  assumes "on_curve c p" "on_curve c r" "0 \<le> j" "0 \<le> k"
  shows "on_curve c (twice p) \<and> on_curve c (point_negate p) \<and> on_curve c (point_add p r) \<and>
    on_curve c (point_multiply p k) \<and> on_curve c (multiplyTwo p j r k)"
  by (intro conjI) (rule twice_on_curve negate_on_curve add_on_curve multiply_on_curve multiplyTwo_on_curve assms | assumption)+

theorem points_closed_witness:
  "on_curve (CurveFp 23 1 1)
     (point_multiply (PointFp (CurveFp 23 1 1) (Some (FieldElementFp 23 3)) (Some (FieldElementFp 23 10)) None False) 5)"
proof -
  let ?p = "PointFp (CurveFp 23 1 1) (Some (FieldElementFp 23 3)) (Some (FieldElementFp 23 10)) None False"
  have "on_curve (CurveFp 23 1 1) ?p" by code_simp
  from points_closed [OF this this, of 0 5] show ?thesis by simp
qed

end
