(* ===== verification/BigQuot.thy ===== *)
theory BigQuot
  imports BigDiv "HOL-Library.Signed_Division"
begin

text \<open>
  \<open>divRemTo\<close> of \<open>src/biginteger.js\<close> divides: the quotient digit that the code estimates in floating point
  is the true digit or one too large, in the engines of 28 and 30 bits, so the correction loop runs at most
  once and the digits left in the working array are those of the quotient and of the remainder.
\<close>

lemma div_floor:
  fixes n k :: int
  assumes "0 < k"
  shows "n div k * k \<le> n" "n < (n div k + 1) * k"
  using pos_mod_sign [OF assms, of n] pos_mod_bound [OF assms, of n] div_mult_mod_eq [of n k]
  unfolding distrib_right mult_1_left by linarith+

section \<open>Rounding to 53 bits\<close>

lemma pow2_powi: "pow2 k = 2 powi k"
  unfolding pow2_def power_int_def divide_inverse power_inverse by (simp only: mult_1_left)

lemma pow2_pos [simp]: "0 < pow2 k"
  by (simp add: pow2_powi)

lemma pow2_add: "pow2 (j + k) = pow2 j * pow2 k"
  by (simp add: pow2_powi power_int_add)

lemma pow2_mono: "j \<le> k \<Longrightarrow> pow2 j \<le> pow2 k"
  by (simp add: pow2_powi power_int_increasing)

lemma pow2_less_iff: "pow2 j < pow2 k \<longleftrightarrow> j < k"
proof
  assume "j < k"
  then have "pow2 j * 2 \<le> pow2 k" using pow2_mono [of "j + 1" k] pow2_add [of j 1] by (simp add: pow2_def [of 1])
  then show "pow2 j < pow2 k" using pow2_pos [of j] by linarith
qed (use pow2_mono [of k j] in \<open>force simp: not_le [symmetric]\<close>)

lemma pow2_nat: "pow2 (int n) = 2 ^ n"
  by (simp add: pow2_def)

lemma binade_ok:
  assumes "0 < x"
  shows "pow2 (binade x) \<le> x" "x < 2 * pow2 (binade x)"
proof -
  obtain p q where pq: "quotient_of x = (p, q)" by (cases "quotient_of x")
  have q: "0 < q" and x: "x = of_int p / of_int q" using quotient_of_denom_pos [OF pq] quotient_of_div [OF pq] by auto
  have p: "0 < p" using assms q by (simp add: x zero_less_divide_iff)
  have bl: "pow2 (bitlen z - 1) \<le> of_int z" "of_int z < pow2 (bitlen z)" if "0 < z" for z :: int
  proof -
    have "2 ^ nat (bitlen z - 1) \<le> z \<and> z < 2 ^ nat (bitlen z)" using bitlen_bounds [OF that] .
    moreover have "1 \<le> bitlen z" using bitlen_le_iff_power [of z 0] that bitlen_nonneg [of z] by (cases "bitlen z = 0") auto
    moreover have "(2 ^ n :: rat) = of_int (2 ^ n)" for n :: nat by simp
    ultimately show "pow2 (bitlen z - 1) \<le> of_int z" "of_int z < pow2 (bitlen z)"
      by (simp_all only: pow2_def of_int_le_iff of_int_less_iff) simp_all
  qed
  define k where "k = bitlen p - bitlen q"
  have "pow2 (bitlen p - 1) = pow2 (k - 1) * pow2 (bitlen q)" "pow2 (bitlen p) = pow2 (k + 1) * pow2 (bitlen q - 1)"
    by (simp_all add: k_def flip: pow2_add)
  then have "pow2 (k - 1) * pow2 (bitlen q) \<le> of_int p" "of_int p < pow2 (k + 1) * pow2 (bitlen q - 1)"
    using bl [OF p] by simp_all
  moreover have "pow2 (k - 1) * of_int q \<le> pow2 (k - 1) * pow2 (bitlen q)" "pow2 (k + 1) * pow2 (bitlen q - 1) \<le> pow2 (k + 1) * of_int q"
    using bl [OF q] by (simp_all add: less_imp_le)
  ultimately have "pow2 (k - 1) * of_int q \<le> of_int p" "of_int p < pow2 (k + 1) * of_int q" by linarith+
  then have r: "pow2 (k - 1) \<le> x" "x < pow2 (k + 1)" using q by (simp_all add: x field_simps)
  have s: "pow2 (k + 1) = 2 * pow2 k" "2 * pow2 (k - 1) = pow2 k"
    using pow2_add [of k 1] pow2_add [of "k - 1" 1] by (simp_all add: pow2_def [of 1])
  have b: "binade x = (if pow2 k \<le> x then k else k - 1)" by (simp add: binade_def pq k_def)
  show "pow2 (binade x) \<le> x" "x < 2 * pow2 (binade x)" using r s by (auto simp: b)
qed

lemma half_even_near: "\<bar>of_int (half_even x) - x\<bar> \<le> 1 / 2"
proof -
  have "of_int \<lfloor>x\<rfloor> \<le> x" "x < of_int \<lfloor>x\<rfloor> + 1" by linarith+
  then show ?thesis by (auto simp: half_even_def Let_def abs_le_iff)
qed

lemma half_even_ge:
  assumes "of_int n - 1 / 2 \<le> x" "even n \<or> of_int n \<le> x"
  shows "n \<le> half_even x"
proof (rule ccontr)
  assume "\<not> n \<le> half_even x"
  then have h: "of_int (half_even x) \<le> (of_int n - 1 :: rat)" by linarith
  moreover have "x - 1 / 2 \<le> of_int (half_even x)" using half_even_near [of x] by linarith
  ultimately have x: "x = of_int n - 1 / 2" and hn: "half_even x = n - 1" using assms(1) by (linarith, linarith)
  then have "\<lfloor>x\<rfloor> = n - 1" by linarith
  with x have "half_even x = (if even (n - 1) then n - 1 else n)" by (simp add: half_even_def Let_def)
  then show False using hn assms(2) x by (auto split: if_splits)
qed

text \<open>The relative error, and an integer below which rounding never falls.\<close>

lemma rnd_near:
  assumes "0 \<le> x"
  shows "\<bar>rnd x - x\<bar> \<le> x / 2 ^ 53"
proof (cases "x = 0")
  case False
  then have x: "0 < x" using assms by simp
  define u where "u = pow2 (binade x - 52)"
  have u: "0 < u" by (simp add: u_def)
  have r: "rnd x = of_int (half_even (x / u)) * u" using x by (simp add: rnd_def u_def Let_def)
  have "rnd x - x = (of_int (half_even (x / u)) - x / u) * u" using u by (simp add: r field_simps)
  then have "\<bar>rnd x - x\<bar> = \<bar>of_int (half_even (x / u)) - x / u\<bar> * u" using u by (simp add: abs_mult)
  also have "\<dots> \<le> 1 / 2 * u" using half_even_near u by (intro mult_right_mono) auto
  also have "u = pow2 (binade x) / 2 ^ 52"
    using pow2_add [of "binade x" "- 52"] by (simp add: u_def pow2_def [of "- 52"])
  finally show ?thesis using binade_ok(1) [OF x] by simp
qed (simp add: rnd_def)

lemma rnd_bounds:
  assumes "0 \<le> x"
  shows "x * (1 - 1 / 2 ^ 53) \<le> rnd x" "rnd x \<le> x * (1 + 1 / 2 ^ 53)"
  using rnd_near [OF assms, unfolded abs_le_iff] by (simp_all add: algebra_simps)

lemma rnd_nonneg: "0 \<le> x \<Longrightarrow> 0 \<le> rnd x"
  by (rule order_trans [OF mult_nonneg_nonneg rnd_bounds(1)]) simp_all

lemma rnd_ge_int:
  assumes "0 \<le> q" "q \<le> 2 ^ 52" "of_int q * (1 - 1 / 2 ^ 54) \<le> x"
  shows "of_int q \<le> rnd x"
proof (cases "q = 0")
  case True
  then show ?thesis using assms(3) rnd_nonneg by simp
next
  case False
  then have q: "1 \<le> q" "1 \<le> (of_int q :: rat)" using assms(1) by simp_all
  have qmax: "of_int q \<le> (2 ^ 52 :: rat)"
    using of_int_le_iff [of q "2 ^ 52", where ?'a = rat] assms(2) by simp
  have x: "1 / 2 < x" using assms(3) q(2) by simp
  define b where "b = binade x"
  have b: "pow2 b \<le> x" "x < 2 * pow2 b" using binade_ok [of x] x by (simp_all add: b_def)
  have "pow2 (- 1) < pow2 (b + 1)" using x b(2) pow2_add [of b 1] by (simp add: pow2_def [of 1] pow2_def [of "- 1"])
  then have b1: "- 1 \<le> b" by (simp add: pow2_less_iff)
  define u where "u = pow2 (b - 52)"
  have u: "0 < u" by (simp add: u_def)
  have r: "rnd x = of_int (half_even (x / u)) * u" using x by (simp add: rnd_def u_def b_def Let_def)
  show ?thesis
  proof (cases "b \<le> 52")
    case False
    then have "pow2 53 \<le> x" using b(1) pow2_mono [of 53 b] by simp
    then have "2 ^ 53 \<le> x" by (simp add: pow2_def)
    have "2 ^ 52 \<le> (2 ^ 53 * (1 - 1 / 2 ^ 53) :: rat)" by simp
    also have "\<dots> \<le> x * (1 - 1 / 2 ^ 53)" using \<open>2 ^ 53 \<le> x\<close> by (intro mult_right_mono) simp_all
    also have "\<dots> \<le> rnd x" using x by (intro rnd_bounds(1)) simp
    finally have "2 ^ 52 \<le> rnd x" .
    then show ?thesis using qmax by linarith
  next
    case True
    define N where "N = q * 2 ^ nat (52 - b)"
    have iu: "1 / u = 2 ^ nat (52 - b)" using True by (auto simp: u_def pow2_def power_0)
    have N: "of_int N = of_int q / u" using iu by (simp add: N_def divide_inverse)
    have "N \<le> half_even (x / u)"
    proof (rule half_even_ge)
      show "even N \<or> of_int N \<le> x / u"
      proof (cases "b \<le> 51")
        case False
        then have "2 ^ 52 \<le> x" using b(1) True pow2_mono [of 52 b] by (simp add: pow2_def)
        then show ?thesis using qmax u by (simp add: N divide_right_mono)
      qed (simp add: N_def)
      have "q \<le> 2 ^ nat (b + 1)"
      proof (rule ccontr)
        assume "\<not> q \<le> 2 ^ nat (b + 1)"
        then have "2 ^ nat (b + 1) + 1 \<le> q" by simp
        then have "2 ^ nat (b + 1) + 1 \<le> (of_int q :: rat)"
          using of_int_le_iff [of "2 ^ nat (b + 1) + 1" q, where ?'a = rat] by simp
        moreover have "2 ^ nat (b + 1) = 2 * pow2 b" using b1 pow2_add [of b 1] by (simp add: pow2_def [of 1] pow2_def [of "b + 1"])
        moreover have "of_int q / 2 ^ 54 \<le> (1 / 4 :: rat)" using qmax by simp
        ultimately show False using assms(3) b(2) by (simp add: algebra_simps)
      qed
      then have "of_int q \<le> (2 ^ nat (b + 1) :: rat)" using of_int_le_iff [of q "2 ^ nat (b + 1)", where ?'a = rat] by simp
      also have "\<dots> = 2 * pow2 b" using b1 pow2_add [of b 1] by (simp add: pow2_def [of 1] pow2_def [of "b + 1"])
      finally have "of_int q / 2 ^ 54 \<le> u / 2" using pow2_add [of b "- 52"] by (simp add: u_def pow2_def [of "- 52"])
      then have "of_int q - u / 2 \<le> x" using assms(3) by (simp add: algebra_simps)
      then have "(of_int q - u / 2) / u \<le> x / u" using u by (simp add: divide_right_mono)
      then show "of_int N - 1 / 2 \<le> x / u" using u by (simp add: N diff_divide_distrib)
    qed
    then have "of_int N * u \<le> of_int (half_even (x / u)) * u" using u by (intro mult_right_mono) auto
    then show ?thesis using u by (simp add: r N)
  qed
qed

lemma rnd_int:
  assumes "0 \<le> n" "n \<le> 2 ^ 52"
  shows "rnd (of_int n) = of_int n"
proof (cases "n = 0")
  case False
  then have x: "0 < (of_int n :: rat)" using assms(1) by simp
  define b where "b = binade (of_int n)"
  have "pow2 b \<le> of_int n" using binade_ok(1) [OF x] by (simp add: b_def)
  also have "\<dots> \<le> of_int (2 ^ 52)" using assms(2) by (simp only: of_int_le_iff)
  also have "\<dots> = pow2 52" by (simp add: pow2_def)
  finally have "b \<le> 52" using pow2_less_iff [of 52 b] by linarith
  then have u: "1 / pow2 (b - 52) = 2 ^ nat (52 - b)" by (auto simp: pow2_def power_0)
  then have "of_int n / pow2 (b - 52) = of_int (n * 2 ^ nat (52 - b))" by (simp add: divide_inverse)
  then have "half_even (of_int n / pow2 (b - 52)) = n * 2 ^ nat (52 - b)" by (simp only: half_even_def floor_of_int Let_def) simp
  then have "rnd (of_int n) = of_int n * (1 / pow2 (b - 52)) * pow2 (b - 52)" using x by (simp add: rnd_def b_def [symmetric] Let_def u)
  then show ?thesis using pow2_pos [of "b - 52"] by simp
qed (simp add: rnd_def)

section \<open>The estimate of a quotient digit\<close>

lemma F_bounds: "F1 e + DB e = 52" "F1 e + F2 e = DB e" "FV e = 2 ^ F1 e * DV e" "2 ^ F1 e * 2 ^ F2 e = DV e"
  by (cases e; simp add: F1_def F2_def FV_def BI_FP_def DV_eq)+

lemma js_shl_F: "js_shl 1 (int (F1 e)) = 2 ^ F1 e" "js_shl 1 (int (F2 e)) = 2 ^ F2 e"
  by (cases e; simp add: F1_def F2_def BI_FP_def; code_simp)+

lemma estimate_lower:
  fixes E X D B :: rat
  assumes "0 \<le> q" "of_int q \<le> X" "of_int q \<le> B" "0 \<le> B" "B \<le> 2 ^ 52" "X \<le> E - D" "15 / 16 * B / 2 ^ 52 \<le> D"
    "E * (1 - 1 / 2 ^ 52) \<le> p"
  shows "of_int q \<le> rnd p"
proof (rule rnd_ge_int)
  have "of_int q \<le> (2 ^ 52 :: rat)" using assms(3,5) by (rule order_trans)
  then show "q \<le> 2 ^ 52" using of_int_le_iff [of q "2 ^ 52", where ?'a = rat] by simp
  define c where "c = (1 / 2 ^ 52 :: rat)"
  have c: "0 \<le> c" "c \<le> 1 / 16" "1 / 2 ^ 54 = c / 4" by (simp_all add: c_def)
  have d: "15 / 16 * B * c \<le> D" using assms(7) by (simp add: c_def)
  have "of_int q * c \<le> B * c" using assms(3) c(1) by (intro mult_right_mono)
  moreover have "3 / 4 * (B * c) \<le> 15 / 16 * B * c * (1 - c)"
  proof -
    have "B * c * (3 / 4) \<le> B * c * (15 / 16 * (1 - c))" using assms(4) c by (intro mult_left_mono) simp_all
    then show ?thesis by (simp add: algebra_simps)
  qed
  moreover have "15 / 16 * B * c * (1 - c) \<le> D * (1 - c)" using d c(2) by (intro mult_right_mono) simp_all
  moreover have "(of_int q + D) * (1 - c) \<le> E * (1 - c)" using assms(2,6) c(2) by (intro mult_right_mono) simp_all
  moreover have "(of_int q + D) * (1 - c) = of_int q - of_int q * c + D * (1 - c)"
    "of_int q * (1 - c / 4) = of_int q - of_int q * c / 4" by (simp_all add: algebra_simps)
  ultimately have "of_int q * (1 - c / 4) \<le> E * (1 - c)" by linarith
  also have "\<dots> \<le> p" using assms(8) by (simp add: c_def)
  finally show "of_int q * (1 - 1 / 2 ^ 54) \<le> p" by (simp only: c(3))
qed (rule assms(1))

lemma estimate_upper:
  fixes E X p :: rat
  assumes "0 \<le> X" "X \<le> 2 ^ 30" "E \<le> X * (1 + 1 / 2 ^ 51) + 1 / 2 ^ 20" "0 \<le> p" "p \<le> E * (1 + 1 / 2 ^ 51)"
  shows "rnd p < X + 1"
proof -
  define c where "c = (1 / 2 ^ 51 :: rat)"
  have c: "0 \<le> c" "1 / 2 ^ 53 \<le> c" "(1 + c) * (1 + c) \<le> 1 + 3 * c" "X * c \<le> 1 / 2 ^ 20" "c \<le> 1 / 2 ^ 20"
    using assms(2) by (simp_all add: c_def)
  have E: "E \<le> X + 1 / 2 ^ 19" using assms(3) c(4) by (simp only: c_def [symmetric] distrib_left) simp
  have "rnd p \<le> p * (1 + 1 / 2 ^ 53)" using assms(4) by (rule rnd_bounds)
  also have "\<dots> \<le> p * (1 + c)" using assms(4) c(2) by (intro mult_left_mono) simp_all
  also have "\<dots> \<le> E * (1 + c) * (1 + c)" using assms(5) c(1) by (intro mult_right_mono) (simp_all add: c_def)
  also have "\<dots> \<le> (X + 1 / 2 ^ 19) * ((1 + c) * (1 + c))" using E c(1) by (simp add: mult.assoc mult_right_mono)
  also have "\<dots> \<le> (X + 1 / 2 ^ 19) * (1 + 3 * c)" using c(3) assms(1) by (intro mult_left_mono) simp_all
  also have "\<dots> = X + 3 * (X * c) + (1 + 3 * c) / 2 ^ 19" by (simp add: algebra_simps add_divide_distrib)
  also have "\<dots> < X + 1" using c(4,5) by (simp add: add_divide_distrib)
  finally show ?thesis .
qed

lemma products_near:
  assumes "0 \<le> a" "0 \<le> b" "0 \<le> x" "0 \<le> y"
  shows "(a * x + b * y) * (1 - 1 / 2 ^ 52) \<le> rnd (a * rnd x) + rnd (b * rnd y)"
    "rnd (a * rnd x) + rnd (b * rnd y) \<le> (a * x + b * y) * (1 + 1 / 2 ^ 51)" "0 \<le> rnd (a * rnd x) + rnd (b * rnd y)"
proof -
  define c where "c = (1 / 2 ^ 53 :: rat)"
  have c: "0 \<le> c" "c \<le> 1" "1 - 1 / 2 ^ 52 \<le> (1 - c) * (1 - c)" "(1 + c) * (1 + c) \<le> 1 + 1 / 2 ^ 51" by (simp_all add: c_def)
  have one: "a * x * (1 - 1 / 2 ^ 52) \<le> rnd (a * rnd x) \<and> rnd (a * rnd x) \<le> a * x * (1 + 1 / 2 ^ 51) \<and> 0 \<le> rnd (a * rnd x)"
    if "0 \<le> a" "0 \<le> x" for a x :: rat
  proof (intro conjI)
    have n: "0 \<le> a * rnd x" "0 \<le> a * x" using that rnd_nonneg by simp_all
    note r = rnd_bounds [OF n(1), folded c_def] and x = rnd_bounds [OF that(2), folded c_def]
    have "a * x * (1 - 1 / 2 ^ 52) \<le> a * x * ((1 - c) * (1 - c))" using c(3) n(2) by (rule mult_left_mono)
    also have "\<dots> = a * (x * (1 - c)) * (1 - c)" by simp
    also have "\<dots> \<le> a * rnd x * (1 - c)" using x(1) that(1) c by (intro mult_right_mono mult_left_mono) simp_all
    finally show "a * x * (1 - 1 / 2 ^ 52) \<le> rnd (a * rnd x)" using r(1) by linarith
    have "a * rnd x * (1 + c) \<le> a * (x * (1 + c)) * (1 + c)" using x(2) that(1) c by (intro mult_right_mono mult_left_mono) simp_all
    also have "\<dots> = a * x * ((1 + c) * (1 + c))" by simp
    also have "\<dots> \<le> a * x * (1 + 1 / 2 ^ 51)" using c(4) n(2) by (rule mult_left_mono)
    finally show "rnd (a * rnd x) \<le> a * x * (1 + 1 / 2 ^ 51)" using r(2) by linarith
    show "0 \<le> rnd (a * rnd x)" using n(1) by (rule rnd_nonneg)
  qed
  note ax = one [OF assms(1,3)] and bt = one [OF assms(2,4)]
  show "(a * x + b * y) * (1 - 1 / 2 ^ 52) \<le> rnd (a * rnd x) + rnd (b * rnd y)"
    "rnd (a * rnd x) + rnd (b * rnd y) \<le> (a * x + b * y) * (1 + 1 / 2 ^ 51)" "0 \<le> rnd (a * rnd x) + rnd (b * rnd y)"
    using ax bt by (simp_all only: distrib_right) linarith+
qed

lemma two_F_le: "e \<noteq> OtherBrowser \<Longrightarrow> 16 * 2 ^ F1 e \<le> DV e" "(2::int) ^ F1 e \<le> 2 ^ 26"
  by (cases e; simp add: F1_def BI_FP_def DV_eq)+

lemma F2_le: "(2::int) ^ F2 e \<le> 2 ^ 8" "0 < (2::int) ^ F2 e"
  by (cases e; simp add: F2_def BI_FP_def)+

lemma quot_digit_estimate:
  assumes e: "e \<noteq> OtherBrowser" and K: "0 < K" and Y: "0 < Y" and M: "0 \<le> M" "M < Y * DV e" and
    r: "0 \<le> ri" "0 \<le> ri1" "(ri * DV e + ri1) * K \<le> M" "M < (ri * DV e + ri1 + 1) * K" and
    yt: "2 ^ 51 \<le> yt" "yt < 2 ^ 52" "yt * K \<le> Y * 2 ^ F1 e" "Y * 2 ^ F1 e \<le> (yt + 1) * K"
  defines "p \<equiv> rnd (of_int ri * rnd (of_int (FV e) / of_int yt)) + rnd (of_int (ri1 + 2 ^ F2 e) * rnd (2 ^ F1 e / of_int yt))"
  shows "M div Y \<le> \<lfloor>rnd p\<rfloor> \<and> \<lfloor>rnd p\<rfloor> \<le> M div Y + 1"
proof -
  define s g B t m :: rat where "s = 2 ^ F1 e" and "g = 2 ^ F2 e" and "B = of_int (DV e)" and "t = of_int yt" and
    "m = of_int (ri * DV e + ri1)"
  define X E :: rat where "X = of_int M / of_int Y" and "E = of_int ri * (of_int (FV e) / t) + of_int (ri1 + 2 ^ F2 e) * (s / t)"
  have le: "of_int x \<le> (of_int y :: rat)" if "x \<le> y" for x y :: int using that by simp
  have t: "2 ^ 51 \<le> t" "t \<le> 2 ^ 52" "0 < t" using le [OF yt(1)] le [of yt "2 ^ 52"] yt(1,2) by (simp_all add: t_def)
  have sB: "0 < s" "s * g = B" "16 * s \<le> B" "0 < B" "B \<le> 2 ^ 30" "of_int (FV e) = s * B"
    using le [OF two_F_le(1) [OF e]] DV_bounds [of e] le [OF DV_bounds(3) [of e]] arg_cong [OF F_bounds(4) [of e], of "of_int :: int \<Rightarrow> rat"] F_bounds(3) [of e]
    by (simp_all add: s_def g_def B_def)
  have E: "E = (m + g) * s / t" using sB(6) by (simp add: E_def m_def g_def B_def add_divide_distrib algebra_simps)
  have k: "0 < (of_int K :: rat)" and y: "0 < (of_int Y :: rat)" using K Y by simp_all
  have X: "0 \<le> X" "X * of_int Y = of_int M" "X < B" using M y of_int_less_iff [of M "DV e * Y", where ?'a = rat]
    by (simp_all add: X_def B_def divide_less_eq mult.commute [of Y])
  have q: "0 \<le> M div Y" "of_int (M div Y) = (of_int \<lfloor>X\<rfloor> :: rat)"
    using M(1) Y by (simp_all add: X_def floor_divide_of_int_eq pos_imp_zdiv_nonneg_iff)
  have qX: "of_int (M div Y) \<le> X" "X < of_int (M div Y) + 1" unfolding q(2) by linarith+
  have near: "E * (1 - 1 / 2 ^ 52) \<le> p" "p \<le> E * (1 + 1 / 2 ^ 51)" "0 \<le> p"
    using products_near [of "of_int ri" "of_int (ri1 + 2 ^ F2 e)" "of_int (FV e) / t" "s / t"] r(1,2) t(3) sB
    by (simp_all add: E_def p_def s_def t_def)
  have "X * t * of_int K \<le> X * (of_int Y * s)"
    using le [OF yt(3)] X(1) by (simp add: t_def s_def mult.assoc mult_left_mono)
  also have "\<dots> = of_int M * s" using X(2) by (simp add: mult.assoc [symmetric])
  also have "\<dots> \<le> ((m + 1) * of_int K) * s" using le [of M "(ri * DV e + ri1 + 1) * K"] r(4) sB(1) by (intro mult_right_mono) (simp_all add: m_def)
  finally have Xt: "X * t \<le> (m + 1) * s" using k by (simp add: mult.assoc [symmetric] mult.commute [of _ "of_int K"])
  have "m * of_int K * s \<le> X * (of_int Y * s)"
    using le [OF r(3)] sB(1) X(2) by (simp add: m_def mult.assoc [symmetric] mult_right_mono)
  also have "\<dots> \<le> X * ((t + 1) * of_int K)"
    using le [OF yt(4)] X(1) by (intro mult_left_mono) (simp_all add: s_def t_def)
  finally have ms: "m * s \<le> X * (t + 1)" using k by (simp add: mult.assoc [symmetric] mult.commute [of _ "of_int K"])
  have "of_int (M div Y) \<le> rnd p"
  proof (rule estimate_lower [where E = E and D = "(g - 1) * s / t"])
    show "X \<le> E - (g - 1) * s / t" proof -
      have "X \<le> (m + 1) * s / t" using Xt t(3) by (simp add: le_divide_eq)
      also have "\<dots> = E - (g - 1) * s / t" by (simp add: E algebra_simps add_divide_distrib diff_divide_distrib)
      finally show ?thesis .
    qed
    have "15 / 16 * B * t \<le> 15 / 16 * B * 2 ^ 52" using t(2) sB(4) by (intro mult_left_mono) simp_all
    also have "\<dots> \<le> (g - 1) * s * 2 ^ 52" using sB(2,3) by (simp add: algebra_simps)
    finally show "15 / 16 * B / 2 ^ 52 \<le> (g - 1) * s / t" using t(3) by (simp add: divide_le_eq le_divide_eq)
    show "of_int (M div Y) \<le> B" using qX(1) X(3) by linarith
    show "B \<le> 2 ^ 52" using sB(5) by simp
  qed (use q(1) qX(1) sB(4) near(1) in simp_all)
  then have l: "M div Y \<le> \<lfloor>rnd p\<rfloor>" by (simp add: le_floor_iff)
  have "rnd p < X + 1"
  proof (rule estimate_upper [OF X(1) _ _ near(3,2)])
    have "E * t = (m + g) * s" using t(3) by (simp add: E)
    then have "E * t \<le> X * (t + 1) + B" using ms sB(2) by (simp add: distrib_right mult.commute [of g])
    also have "\<dots> \<le> X * (t + t / 2 ^ 51) + t / 2 ^ 20"
      using X(1) t(1) sB(5) by (intro add_mono mult_left_mono) simp_all
    also have "\<dots> = (X * (1 + 1 / 2 ^ 51) + 1 / 2 ^ 20) * t" by (simp add: algebra_simps)
    finally show "E \<le> X * (1 + 1 / 2 ^ 51) + 1 / 2 ^ 20" using t(3) by (rule mult_right_le_imp_le)
  qed (use X sB in simp)
  then have "rnd p < of_int (M div Y + 2)" using qX(2) by simp
  then have "\<lfloor>rnd p\<rfloor> < M div Y + 2" by (simp only: floor_less_iff)
  with l show ?thesis by linarith
qed

section \<open>One round\<close>

lemma am_row:
  assumes "digits_in (DV e) this" "digits_in (DV e) (lo @ mid @ hi)" "length mid = length this" "0 \<le> x" "x < 2 * DV e"
  obtains mid' c where "am e 0 x this (lo @ mid @ hi) (length lo) 0 (length this) = (lo @ mid' @ hi, c)"
    "length mid' = length this" "digits_in (DV e) mid'" "0 \<le> c"
    "val (DV e) mid' + c * DV e ^ length this = val (DV e) mid + x * val (DV e) this"
proof -
  obtain w c where k: "am e 0 x this (lo @ mid @ hi) (length lo) 0 (length this) = (w, c)" by fastforce
  have df: "digits_from (DV e) (lo @ mid @ hi) (length lo) (length this)" using assms(2,3) by (intro digits_in_from) auto
  have n: "0 + length this \<le> length this" "0 < 3 * DV e" using DV_bounds(1) by simp_all
  note ko = km.kernel_ok [OF assms(1) df n(1) assms(4,5) order_refl n(2) k]
  define mid' where "mid' = take (length this) (drop (length lo) w)"
  have len: "length w = length lo + length this + length hi" using ko(1) assms(3) by simp
  have "take (length lo) w = lo"
  proof (rule nth_equalityI)
    show "take (length lo) w ! k = lo ! k" if "k < length (take (length lo) w)" for k
      using that len ko(2) [of k] by (simp add: nth_append)
  qed (simp add: len)
  moreover have "drop (length lo + length this) w = hi"
  proof (rule nth_equalityI)
    show "drop (length lo + length this) w ! k = hi ! k" if "k < length (drop (length lo + length this) w)" for k
      using that len ko(2) [of "length lo + length this + k"] by (simp add: nth_append assms(3))
  qed (simp add: len)
  ultimately have w: "w = lo @ mid' @ hi"
    unfolding mid'_def by (metis add.commute append_take_drop_id drop_drop)
  have l: "length mid' = length this" by (simp add: mid'_def len)
  have "digits_in (DV e) w"
    using digits_in_nth [OF assms(2)] by (intro digits_from_all [OF ko(3)]) (simp add: ko(1,2))
  then have d: "digits_in (DV e) mid'" by (simp add: w)
  have "(val (DV e) mid' + c * DV e ^ length this) * DV e ^ length lo = (val (DV e) mid + x * val (DV e) this) * DV e ^ length lo"
    using ko(4) unfolding w by (simp add: val_append power_add l assms(3) algebra_simps)
  then have "val (DV e) mid' + c * DV e ^ length this = val (DV e) mid + x * val (DV e) this"
    using DV_bounds(1) [of e] by simp
  then show ?thesis using that k ko(5) l d unfolding w by blast
qed

lemma map_js_num: "map (js_num xs) [0..<length xs] = xs"
  by (rule nth_equalityI) simp_all

lemma sub_in_place_full:
  assumes "top w = length (arr w)" "wsg w = 0" "digits_in (DV e) (arr w)" "wf_big e t" "bt t \<le> length (arr w)"
    "digits_in (DV e) ds" "length ds = length (arr w)" "no_lead0 ds" "val (DV e) ds = val (DV e) (arr w) - bval e t"
  shows "sub_in_place e w t = w\<lparr>arr := ds\<rparr>"
proof -
  have v: "view w = \<lparr>digs = arr w, sg = 0\<rparr>" using assms(1,2) by (simp add: view_def map_js_num)
  have wf: "wf_big e (view w)" using assms(3) by (simp add: v wf_big_def)
  have "subTo e (view w) t = \<lparr>digs = ds, sg = 0\<rparr>"
  proof (rule ok_big_unique)
    show "ok_big e \<lparr>digs = ds, sg = 0\<rparr>" using assms(6,8) by (auto simp: ok_big_def wf_big_def clamped_def no_lead0_def)
    show "bval e (subTo e (view w) t) = bval e \<lparr>digs = ds, sg = 0\<rparr>"
      using subTo_ok(2) [OF wf assms(4)] assms(9) by (simp add: v bval_def)
  qed (rule subTo_ok(1) [OF wf assms(4)])
  then show ?thesis using assms(1,2,5,7) by (simp add: sub_in_place_def)
qed

text \<open>A divisor that has been shifted up: its leading digit, and the 52 leading bits that the estimate uses.\<close>

definition normalized :: "engine \<Rightarrow> int \<Rightarrow> nat \<Rightarrow> int \<Rightarrow> int \<Rightarrow> bool" where
  "normalized e Y ys y0 yt \<longleftrightarrow>
     0 < ys \<and> DV e \<le> 2 * y0 \<and> y0 < DV e \<and> y0 * DV e ^ (ys - 1) \<le> Y \<and> Y < (y0 + 1) * DV e ^ (ys - 1) \<and>
     2 ^ 51 \<le> yt \<and> yt < 2 ^ 52 \<and> yt * DV e ^ (ys - 1) \<le> Y * 2 ^ F1 e \<and> Y * 2 ^ F1 e \<le> (yt + 1) * DV e ^ (ys - 1)"

definition dinv1 :: "engine \<Rightarrow> int \<Rightarrow> rat" where "dinv1 e yt = rnd (of_int (FV e) / of_int yt)"

definition dinv2 :: "engine \<Rightarrow> int \<Rightarrow> rat" where "dinv2 e yt = rnd (of_int (js_shl 1 (int (F1 e))) / of_int yt)"

lemma normalized_bounds:
  assumes "normalized e Y ys y0 yt"
  shows "0 < Y" "Y < DV e ^ ys" "DV e ^ ys = DV e * DV e ^ (ys - 1)" "0 < ys" "DV e ^ ys \<le> 2 * Y"
proof -
  note n = assms [unfolded normalized_def]
  have K: "0 < DV e ^ (ys - 1)" using DV_bounds(1) by simp
  show ys: "DV e ^ ys = DV e * DV e ^ (ys - 1)" "0 < ys" using n by (simp_all flip: power_Suc)
  have y0: "0 < y0" using n DV_bounds(1) [of e] by linarith
  then show "0 < Y" using n K by (meson mult_pos_pos order_less_le_trans)
  have "(y0 + 1) * DV e ^ (ys - 1) \<le> DV e * DV e ^ (ys - 1)" using n K by (intro mult_right_mono) auto
  then show "Y < DV e ^ ys" using n ys by linarith
  have "DV e * DV e ^ (ys - 1) \<le> 2 * y0 * DV e ^ (ys - 1)" using n K by (intro mult_right_mono) auto
  then show "DV e ^ ys \<le> 2 * Y" using n ys by linarith
qed

lemma quot_digit_ok:
  assumes "e \<noteq> OtherBrowser" "normalized e Y ys y0 yt" "0 \<le> M" "M < Y * DV e"
    "ri = M div DV e ^ ys" "ri1 = M div DV e ^ (ys - 1) mod DV e"
  shows "M div Y \<le> quot_digit e (dinv1 e yt) (dinv2 e yt) y0 ri ri1 \<and>
    quot_digit e (dinv1 e yt) (dinv2 e yt) y0 ri ri1 \<le> M div Y + 1"
proof -
  note n = assms(2) [unfolded normalized_def] and nb = normalized_bounds [OF assms(2)]
  define K where "K = DV e ^ (ys - 1)"
  have K: "0 < K" using DV_bounds(1) by (simp add: K_def)
  note B = DV_bounds(1) [of e]
  have "ri = M div (K * DV e)" unfolding assms(5) nb(3) K_def by (simp only: mult.commute)
  then have "ri = M div K div DV e" using B by (simp add: zdiv_zmult2_eq)
  then have m: "ri * DV e + ri1 = M div K" by (simp add: assms(6) K_def)
  have QB: "M div Y < DV e" using assms(4) nb(1) by (intro div_less_of_less_mult) (simp_all add: mult.commute)
  show ?thesis
  proof (cases "ri = y0")
    case True
    have "M div Y \<le> DM e" using QB by (simp add: DM_eq DV_eq)
    moreover have "DV e - 2 \<le> M div Y"
    proof -
      have "(DV e - 2) * Y \<le> (DV e - 2) * ((y0 + 1) * K)" using n DV_bounds(2) [of e] by (intro mult_left_mono) (auto simp: K_def)
      also have "\<dots> = (DV e * y0 + (DV e - 2 * y0 - 2)) * K" by (simp add: algebra_simps)
      also have "\<dots> \<le> DV e * y0 * K" using n K by (intro mult_right_mono) auto
      also have "\<dots> = DV e ^ ys * ri" by (simp add: nb(3) K_def True)
      also have "\<dots> \<le> M"
        unfolding assms(5) using mult_div_mod_eq [of "DV e ^ ys" M] pos_mod_sign [OF zero_less_power [OF B], of M ys] by linarith
      finally have "(DV e - 2) * Y div Y \<le> M div Y" using nb(1) by (rule zdiv_mono1)
      then show ?thesis using nb(1) by simp
    qed
    ultimately show ?thesis using True by (simp add: quot_digit_def DM_eq DV_eq)
  next
    case False
    have "(ri * DV e + ri1) * K \<le> M \<and> M < (ri * DV e + ri1 + 1) * K"
      unfolding m distrib_right mult_1_left
      using pos_mod_sign [OF K, of M] pos_mod_bound [OF K, of M] div_mult_mod_eq [of M K] by linarith
    moreover have "0 \<le> ri" "0 \<le> ri1" using assms(3,5,6) B by (simp_all add: pos_imp_zdiv_nonneg_iff)
    moreover have "rnd (of_int (ri1 + 2 ^ F2 e)) = of_int (ri1 + 2 ^ F2 e)"
    proof (rule rnd_int)
      have "ri1 < 2 ^ 30" using pos_mod_bound [OF B, of "M div DV e ^ (ys - 1)"] DV_bounds(3) [of e] unfolding assms(6) by linarith
      then show "ri1 + 2 ^ F2 e \<le> 2 ^ 52" using F2_le(1) [of e] by simp
    qed (use \<open>0 \<le> ri1\<close> F2_le(2) [of e] in simp)
    ultimately show ?thesis
      using quot_digit_estimate [OF assms(1) K nb(1) assms(3,4), of ri ri1 yt] n False
      by (simp del: of_int_add add: quot_digit_def dinv1_def dinv2_def js_shl_F K_def)
  qed
qed

lemma digits_exist:
  assumes "0 \<le> v" "v < DV e ^ n"
  obtains ds where "length ds = n" "digits_in (DV e) ds" "val (DV e) ds = v"
proof -
  have "\<exists>ds. length ds = n \<and> digits_in (DV e) ds \<and> val (DV e) ds = v"
    using assms
  proof (induction n arbitrary: v)
    case (Suc n)
    have "v div DV e < DV e ^ n" using Suc.prems DV_bounds(1) by (intro div_less_of_less_mult) (simp_all add: mult.commute)
    then obtain ds where "length ds = n" "digits_in (DV e) ds" "val (DV e) ds = v div DV e"
      using Suc.IH [of "v div DV e"] Suc.prems(1) DV_bounds(1) [of e] by (auto simp: pos_imp_zdiv_nonneg_iff)
    then show ?case using DV_bounds(1) [of e] by (intro exI [of _ "v mod DV e # ds"]) simp
  qed simp
  then show ?thesis using that by blast
qed

lemma remainder_unique:
  fixes a k K r :: int
  assumes "0 \<le> a" "a < K" "a + k * K = r" "0 \<le> r" "r < K"
  shows "k = 0" "a = r"
proof -
  have "r div K = k" "r mod K = a" using assms(1,2) assms(3) [symmetric] by simp_all
  moreover have "r div K = 0" "r mod K = r" using assms(4,5) by simp_all
  ultimately show "k = 0" "a = r" by simp_all
qed

lemma div_step_ok:
  assumes e: "e \<noteq> OtherBrowser" and Y: "normalized e Y ys y0 yt"
    and y: "digits_in (DV e) y" "length y = ys" "val (DV e) y = DV e ^ ys - Y"
    and w: "arr w = lo @ mid @ ri # hi" "length mid = ys" "digits_in (DV e) (arr w)" "wsg w = 0" "top w = length (arr w)"
      "no_lead0 (arr w)"
    and M: "M = val (DV e) (mid @ [ri])" "M < Y * DV e"
  obtains mid' where "div_step e (dinv1 e yt) (dinv2 e yt) y0 y (length lo) w = Some (w\<lparr>arr := lo @ mid' @ (M div Y) # hi\<rparr>)"
    "length mid' = ys" "val (DV e) mid' = M mod Y" "digits_in (DV e) (lo @ mid' @ (M div Y) # hi)" "no_lead0 (lo @ mid' @ (M div Y) # hi)"
proof -
  define K Q where "K = DV e ^ ys" and "Q = M div Y"
  note n = normalized_bounds [OF Y, folded K_def]
  have K: "0 < K" using DV_bounds(1) by (simp add: K_def)
  have d: "digits_in (DV e) lo" "digits_in (DV e) mid" "0 \<le> ri" "ri < DV e" "digits_in (DV e) hi" using w(3) by (simp_all add: w(1))
  have v: "0 \<le> val (DV e) mid" "val (DV e) mid < K" using radixDV.val_nonneg [OF d(2)] radixDV.val_less [OF d(2)] w(2) by (simp_all add: K_def)
  have Mv: "M = val (DV e) mid + ri * K" by (simp add: M(1) val_append w(2) K_def mult.commute)
  have M0: "0 \<le> M" using v d(3) K by (simp add: Mv)
  have ri: "ri = M div K" using v K by (simp add: Mv)
  have "digits_in (DV e) (mid @ [ri])" using d by simp
  then have ri1: "mid ! (ys - 1) = M div DV e ^ (ys - 1) mod DV e"
    using radixDV.val_nth [of e "mid @ [ri]" "ys - 1"] n(4) w(2) by (simp add: M(1) nth_append)
  have Q: "0 \<le> Q" "Q < DV e" using M0 M(2) n(1) by (auto simp: Q_def pos_imp_zdiv_nonneg_iff mult.commute intro!: div_less_of_less_mult)
  have Qm: "Q * Y + M mod Y = M" "0 \<le> M mod Y" "M mod Y < Y" using n(1) by (simp_all add: Q_def)
  have lead: "Q \<noteq> 0" if "hi = []"
  proof -
    have "ri \<noteq> 0" using w(6) that by (simp add: w(1) no_lead0_def)
    then have "1 * K \<le> ri * K" using d(3) K by (intro mult_right_mono) auto
    then have "Y \<le> M" using n(2) v(1) unfolding Mv by linarith
    then show ?thesis using pos_imp_zdiv_pos_iff [OF n(1), of M] unfolding Q_def by linarith
  qed
  have res: "digits_in (DV e) (lo @ mid' @ Q # hi) \<and> no_lead0 (lo @ mid' @ Q # hi)" if "digits_in (DV e) mid'" for mid'
    using d Q that lead w(6) by (auto simp: w(1) no_lead0_def split: if_splits)
  define qd where "qd = quot_digit e (dinv1 e yt) (dinv2 e yt) y0 ri (mid ! (ys - 1))"
  have qd: "qd = Q \<or> qd = Q + 1"
    using quot_digit_ok [OF e Y M0 M(2) ri [unfolded K_def] ri1] by (auto simp: qd_def Q_def)
  have "0 \<le> qd" "qd < 2 * DV e" using qd Q by auto
  from am_row [OF y(1) w(3) [unfolded w(1)] _ this] obtain mid1 c where
    a: "am e 0 qd y (lo @ mid @ ri # hi) (length lo) 0 ys = (lo @ mid1 @ ri # hi, c)" "length mid1 = ys" "digits_in (DV e) mid1"
      "val (DV e) mid1 + c * K = val (DV e) mid + qd * (K - Y)"
    using w(2) y(2,3) unfolding K_def by metis
  have v1: "0 \<le> val (DV e) mid1" "val (DV e) mid1 < K"
    using radixDV.val_nonneg [OF a(3)] radixDV.val_less [OF a(3)] a(2) by (simp_all add: K_def)
  have eq: "val (DV e) mid1 + (ri + c - qd) * K = M - qd * Y" using a(4) by (simp add: Mv algebra_simps)
  define i where "i = length lo + ys"
  have i: "i = length (lo @ mid)" "i < length (arr w)" "js_num (arr w) i = ri" "js_num (arr w) (i - 1) = mid ! (ys - 1)" "i \<noteq> 0"
    using n(4) by (auto simp: i_def w(1,2) nth_append)
  define r1 where "r1 = w\<lparr>arr := lo @ mid1 @ (ri + c) # hi\<rparr>"
  have st: "js_set (lo @ mid1 @ ri # hi) i (ri + c) = lo @ mid1 @ (ri + c) # hi"
    using a(2) by (simp add: js_set_def i_def list_update_append)
  define t where "t = dlShiftTo (length lo) \<lparr>digs = y, sg = 0\<rparr>"
  have step: "div_step e (dinv1 e yt) (dinv2 e yt) y0 y (length lo) w =
    (if ri + c < qd then fix_loop e t i qd (sub_in_place e r1 t) else Some r1)"
    unfolding div_step_def Let_def y(2) i_def [symmetric] i(3,4) if_not_P [OF i(5)] qd_def [symmetric] t_def r1_def
    by (simp add: w(1) a(1) st)
  from qd show ?thesis
  proof
    assume q: "qd = Q"
    have "M - qd * Y = M mod Y" using Qm(1) by (simp add: q)
    with remainder_unique [OF v1 eq] Qm n(2) have "ri + c = Q" "val (DV e) mid1 = M mod Y" by (simp_all add: q)
    then show ?thesis using that [of mid1] step a(2,3) res by (simp add: q r1_def Q_def)
  next
    assume q: "qd = Q + 1"
    have "val (DV e) mid1 + (ri + c - Q) * K = M mod Y + (K - Y)" using Qm(1) eq by (simp add: q algebra_simps)
    with remainder_unique [OF v1 this] Qm n(2) have c: "ri + c = Q" "val (DV e) mid1 = M mod Y + (K - Y)" by simp_all
    have r1: "r1 = w\<lparr>arr := lo @ mid1 @ Q # hi\<rparr>" by (simp only: r1_def c(1))
    have "M mod Y < K" using Qm(3) n(2) by linarith
    then obtain ds where ds: "length ds = ys" "digits_in (DV e) ds" "val (DV e) ds = M mod Y"
      using digits_exist [OF Qm(2)] unfolding K_def by metis
    have "sub_in_place e r1 t = r1\<lparr>arr := lo @ ds @ Q # hi\<rparr>"
    proof (rule sub_in_place_full)
      show "digits_in (DV e) (arr r1)" using res [OF a(3)] by (simp add: r1)
      show "wf_big e t" using y(1) by (simp add: t_def dlShiftTo_def wf_big_def digits_in_replicate0 DV_bounds(1))
      show "val (DV e) (lo @ ds @ Q # hi) = val (DV e) (arr r1) - bval e t"
        by (simp add: r1 c(2) t_def dlShiftTo_def bval_def val_append val_replicate0 ds a(2) y(3) K_def [symmetric] algebra_simps)
    qed (use res [OF ds(2)] w a(2) ds(1) y(2) in \<open>simp_all add: r1 t_def dlShiftTo_def\<close>)
    moreover have "js_num (lo @ ds @ Q # hi) i = Q" using ds(1) by (simp add: js_num_def i_def nth_append)
    ultimately have "div_step e (dinv1 e yt) (dinv2 e yt) y0 y (length lo) w = Some (w\<lparr>arr := lo @ ds @ Q # hi\<rparr>)"
      using step by (subst (asm) fix_loop.simps) (simp add: c(1) q r1)
    then show ?thesis using that [of ds] ds res [OF ds(2)] by (simp add: Q_def)
  qed
qed

section \<open>The loop\<close>

lemma div_loop_ok:
  assumes e: "e \<noteq> OtherBrowser" and Y: "normalized e Y ys y0 yt"
    and y: "digits_in (DV e) y" "length y = ys" "val (DV e) y = DV e ^ ys - Y"
    and w: "arr w = lo @ hi" "length lo = j + ys" "digits_in (DV e) (arr w)" "wsg w = 0" "top w = length (arr w)" "no_lead0 (arr w)"
    and lo: "val (DV e) lo < Y * DV e ^ j"
  shows "\<exists>w' lo' hi'. div_loop e (dinv1 e yt) (dinv2 e yt) y0 y j w = Some w' \<and> arr w' = lo' @ hi' \<and> length lo' = ys \<and>
    digits_in (DV e) (arr w') \<and> wsg w' = 0 \<and> top w' = length (arr w') \<and> no_lead0 (arr w') \<and> val (DV e) lo' < Y \<and>
    val (DV e) hi' * Y + val (DV e) lo' = val (DV e) hi * Y * DV e ^ j + val (DV e) lo"
  using w lo
proof (induction j arbitrary: w lo hi)
  case 0
  then show ?case by auto
next
  case (Suc j)
  define lo0 mid ri where "lo0 = take j lo" and "mid = take ys (drop j lo)" and "ri = lo ! (j + ys)"
  have lo: "lo = lo0 @ mid @ [ri]"
    using Suc.prems(2) unfolding lo0_def mid_def ri_def
    by (metis Suc_eq_plus1 add.commute add_Suc append.assoc append_take_drop_id hd_drop_conv_nth lessI plus_1_eq_Suc take_add take_all take_hd_drop order_refl)
  have len: "length lo0 = j" "length mid = ys" using Suc.prems(2) by (simp_all add: lo0_def mid_def)
  define M where "M = val (DV e) (mid @ [ri])"
  define T where "T = DV e ^ j"
  have T: "0 < T" using DV_bounds(1) by (simp add: T_def)
  have Y0: "0 < Y" using normalized_bounds(1) [OF Y] .
  have vlo: "val (DV e) lo = val (DV e) lo0 + T * M" by (simp add: lo val_append len M_def T_def)
  have dlo: "digits_in (DV e) lo0" using Suc.prems(1,3) by (simp add: lo)
  have lo0: "0 \<le> val (DV e) lo0" "val (DV e) lo0 < T"
    using radixDV.val_nonneg [OF dlo] radixDV.val_less [OF dlo] len by (simp_all add: T_def)
  have "T * M < T * (Y * DV e)" using Suc.prems(7) lo0(1) vlo by (simp add: T_def algebra_simps)
  then have M: "M < Y * DV e" using T by simp
  have a: "arr w = lo0 @ mid @ ri # hi" using Suc.prems(1) by (simp add: lo)
  from div_step_ok [OF e Y y a len(2) Suc.prems(3-6) M_def M] obtain mid' where
    st: "div_step e (dinv1 e yt) (dinv2 e yt) y0 y (length lo0) w = Some (w\<lparr>arr := lo0 @ mid' @ (M div Y) # hi\<rparr>)"
      "length mid' = ys" "val (DV e) mid' = M mod Y" "digits_in (DV e) (lo0 @ mid' @ (M div Y) # hi)" "no_lead0 (lo0 @ mid' @ (M div Y) # hi)"
    by metis
  define w1 where "w1 = w\<lparr>arr := lo0 @ mid' @ (M div Y) # hi\<rparr>"
  have v1: "val (DV e) (lo0 @ mid') = val (DV e) lo0 + T * (M mod Y)" by (simp add: val_append len st(3) T_def)
  have "T * (M mod Y + 1) \<le> T * Y" using pos_mod_bound [OF Y0, of M] T by (intro mult_left_mono) linarith+
  then have l1: "val (DV e) (lo0 @ mid') < Y * DV e ^ j" using lo0 unfolding v1 by (simp add: T_def algebra_simps)
  have "\<exists>w' lo' hi'. div_loop e (dinv1 e yt) (dinv2 e yt) y0 y j w1 = Some w' \<and> arr w' = lo' @ hi' \<and> length lo' = ys \<and>
    digits_in (DV e) (arr w') \<and> wsg w' = 0 \<and> top w' = length (arr w') \<and> no_lead0 (arr w') \<and> val (DV e) lo' < Y \<and>
    val (DV e) hi' * Y + val (DV e) lo' = val (DV e) (M div Y # hi) * Y * DV e ^ j + val (DV e) (lo0 @ mid')"
    using Suc.prems(4,5) len st(2,4,5) by (intro Suc.IH [of w1 "lo0 @ mid'" "M div Y # hi"] l1) (simp_all add: w1_def a)
  moreover have "val (DV e) (M div Y # hi) * Y * DV e ^ j + val (DV e) (lo0 @ mid') = val (DV e) hi * Y * DV e ^ Suc j + val (DV e) lo"
  proof -
    have "val (DV e) (M div Y # hi) * Y * T + val (DV e) (lo0 @ mid') =
      (M div Y * Y + M mod Y) * T + DV e * val (DV e) hi * Y * T + val (DV e) lo0"
      by (simp only: v1 val.simps distrib_right) (simp add: algebra_simps)
    then show ?thesis by (simp only: div_mult_mod_eq vlo T_def power_Suc) (simp add: algebra_simps)
  qed
  moreover have "div_loop e (dinv1 e yt) (dinv2 e yt) y0 y (Suc j) w = div_loop e (dinv1 e yt) (dinv2 e yt) y0 y j w1"
    using st(1) len(1) by (simp add: w1_def)
  ultimately show ?case by simp
qed

section \<open>Division\<close>

lemma copyTo_id: "copyTo b = b"
  by (cases b) (simp add: copyTo_def map_js_num)

lemma length_unique:
  assumes "ok_big e b" "sg b = 0" "DV e ^ (n - 1) \<le> bval e b" "bval e b < DV e ^ n" "0 < n"
  shows "bt b = n"
proof -
  have wf: "wf_big e b" using assms(1) by (simp add: ok_big_def)
  have p: "0 < bval e b" using assms(3) DV_bounds(1) by (meson order_less_le_trans zero_less_power)
  have ne: "digs b \<noteq> []" using p assms(2) by (auto simp: bval_def)
  note l = bval_lead(1) [OF assms(1) ne assms(2)] and u = bval_range(2) [OF wf assms(2)]
  have p: "1 < DV e" "DV e ^ (bt b - 1) < DV e ^ n" "DV e ^ (n - 1) < DV e ^ bt b" using l u assms(3,4) DV_bounds(2) [of e] by linarith+
  have "bt b - 1 < n" "n - 1 < bt b" by (rule power_less_imp_less_exp [OF p(1)], rule p)+
  moreover have "0 < bt b" using ne by simp
  ultimately show ?thesis using assms(5) by linarith
qed

lemma top_digit:
  assumes "ok_big e b" "sg b = 0" "digs b \<noteq> []"
  shows "last (digs b) = bval e b div DV e ^ (bt b - 1)" "0 < last (digs b)" "last (digs b) < DV e"
proof -
  have d: "digits_in (DV e) (digs b)" using assms(1) by (simp add: ok_big_def wf_big_def)
  obtain ds x where b: "digs b = ds @ [x]" using assms(3) by (cases "digs b" rule: rev_cases) auto
  have "digits_in (DV e) ds" "0 \<le> x" "x < DV e" using d by (simp_all add: b)
  moreover have "x \<noteq> 0" using assms(1,2) by (simp add: ok_big_def clamped_def b)
  ultimately show "last (digs b) = bval e b div DV e ^ (bt b - 1)" "0 < last (digs b)" "last (digs b) < DV e"
    using radixDV.val_less [of e ds] radixDV.val_nonneg [of e ds] DV_bounds(1) [of e]
    by (simp_all add: bval_def assms(2) b val_append)
qed

lemma normalize_ok:
  assumes "ok_big e pm" "sg pm = 0" "digs pm \<noteq> []"
  defines "nsh \<equiv> int (DB e) - nbits (last (digs pm))"
  shows "0 \<le> nsh" "\<And>b. wf_big e b \<Longrightarrow> clamped e b \<Longrightarrow>
      ok_big e (if nsh > 0 then lShiftTo e (nat nsh) b else copyTo b) \<and>
      bval e (if nsh > 0 then lShiftTo e (nat nsh) b else copyTo b) = bval e b * 2 ^ nat nsh"
    "DV e ^ bt pm \<le> 2 * (bval e pm * 2 ^ nat nsh)" "bval e pm * 2 ^ nat nsh < DV e ^ bt pm"
proof -
  define x where "x = last (digs pm)"
  note td = top_digit [OF assms(1-3), folded x_def]
  have x32: "x < 2 ^ 32" using td(3) DV_bounds(3) [of e] by simp
  note nb = nbits_ok [OF td(2) x32]
  have "2 ^ nat (nbits x - 1) < (2 :: int) ^ DB e" using nb(2) td(3) unfolding DV_eq by linarith
  then have "nat (nbits x - 1) < DB e" by (rule power_less_imp_less_exp [rotated]) simp
  then have n: "0 \<le> nsh" "nat nsh + nat (nbits x) = DB e" using nb(1) by (auto simp: nsh_def x_def [symmetric])
  show "0 \<le> nsh" by (rule n)
  show "ok_big e (if nsh > 0 then lShiftTo e (nat nsh) b else copyTo b) \<and>
      bval e (if nsh > 0 then lShiftTo e (nat nsh) b else copyTo b) = bval e b * 2 ^ nat nsh"
    if "wf_big e b" "clamped e b" for b
    using lShiftTo_ok [OF that(1), of "nat nsh"] that n(1) by (auto simp: copyTo_id ok_big_def)
  define K v s where "K = DV e ^ (bt pm - 1)" and "v = bval e pm" and "s = (2::int) ^ nat nsh"
  have K: "0 < K" "DV e ^ bt pm = DV e * K" and s: "0 < s"
    using DV_bounds(1) assms(3) by (simp_all add: K_def s_def flip: power_Suc)
  have v: "x * K \<le> v" "v < (x + 1) * K"
    using div_floor [OF K(1), of v]
    unfolding td(1) K_def [symmetric] v_def [symmetric] by simp_all
  have B: "DV e = s * 2 ^ nat (nbits x)" "2 ^ nat (nbits x) = 2 * (2::int) ^ nat (nbits x - 1)"
    using n(2) nb(1) by (simp_all add: DV_eq s_def flip: power_add power_Suc)
  have "DV e \<le> 2 * (x * s)" using nb(2) s unfolding B by simp
  then have "DV e * K \<le> 2 * (x * s) * K" using K(1) by (intro mult_right_mono) simp_all
  also have "\<dots> = 2 * (x * K * s)" by simp
  also have "\<dots> \<le> 2 * (v * s)" using v(1) s by (intro mult_left_mono mult_right_mono) simp_all
  finally show "DV e ^ bt pm \<le> 2 * (bval e pm * 2 ^ nat nsh)" by (simp add: K(2) v_def s_def)
  have "v * s < (x + 1) * K * s" using v(2) s by (rule mult_strict_right_mono)
  also have "\<dots> = s * (x + 1) * K" by simp
  also have "\<dots> \<le> DV e * K" using nb(3) s K(1) unfolding B(1) by (intro mult_right_mono mult_left_mono) simp_all
  finally show "bval e pm * 2 ^ nat nsh < DV e ^ bt pm" by (simp add: K(2) v_def s_def)
qed

lemma leading_bits:
  assumes "ok_big e b" "sg b = 0" "DV e ^ bt b \<le> 2 * bval e b" "digs b \<noteq> []"
  shows "normalized e (bval e b) (bt b) (js_num (digs b) (bt b - 1))
    (js_num (digs b) (bt b - 1) * js_shl 1 (int (F1 e)) +
      (if bt b > 1 then js_shr (js_num (digs b) (bt b - 2)) (int (F2 e)) else 0))"
proof -
  define ys Y K y0 s g where "ys = bt b" and "Y = bval e b" and "K = DV e ^ (ys - 1)" and "y0 = js_num (digs b) (ys - 1)" and
    "s = (2::int) ^ F1 e" and "g = (2::int) ^ F2 e"
  have d: "digits_in (DV e) (digs b)" using assms(1) by (simp add: ok_big_def wf_big_def)
  have ys: "0 < ys" using assms(4) by (simp add: ys_def)
  have Yv: "Y = val (DV e) (digs b)" using assms(2) by (simp add: Y_def bval_def)
  have y0: "y0 = Y div K" "0 < y0" "y0 < DV e"
    using top_digit [OF assms(1,2,4)] assms(4) ys by (simp_all add: y0_def Y_def K_def ys_def last_conv_nth)
  have K: "0 < K" "DV e ^ ys = DV e * K" using DV_bounds(1) ys by (simp_all add: K_def flip: power_Suc)
  have YK: "y0 * K \<le> Y" "Y < (y0 + 1) * K"
    using div_floor [OF K(1), of Y]
    unfolding y0(1) by simp_all
  have "DV e * K < 2 * ((y0 + 1) * K)" using assms(3) YK(2) by (simp add: K(2) [unfolded ys_def] Y_def [symmetric])
  then have "DV e * K < (2 * (y0 + 1)) * K" by (simp only: mult.assoc)
  then have "DV e < 2 * (y0 + 1)" using K(1) by (simp only: mult_less_cancel_right_pos)
  then have top: "DV e \<le> 2 * y0" using DV_even [of e] by presburger
  have sg: "s * g = DV e" "0 < s" "0 < g" "s * DV e = 2 ^ 52"
    using F_bounds(4) [of e] F_bounds(3) [of e] by (simp_all add: s_def g_def FV_def BI_FP_def)
  define y1 where "y1 = (if ys > 1 then js_num (digs b) (ys - 2) else 0)"
  have y1: "0 \<le> y1" "y1 < DV e" using digits_in_nth [OF d, of "ys - 2"] DV_bounds(1) [of e] by (auto simp: y1_def ys_def)
  have q: "0 \<le> y1 div g" "y1 div g < s" using y1 sg by (auto simp: pos_imp_zdiv_nonneg_iff mult.commute intro!: div_less_of_less_mult)
  have q': "y1 div g * g \<le> y1" "y1 < (y1 div g + 1) * g"
    using div_floor [OF sg(3), of y1] by simp_all
  define yt where "yt = y0 * s + y1 div g"
  have sh: "js_shr y1 (int (F2 e)) = y1 div g"
    using y1 DV_bounds(3) [of e] unfolding g_def by (subst js_shr_div) (cases e; simp add: F2_def BI_FP_def)+
  have "y0 * js_shl 1 (int (F1 e)) + (if ys > 1 then js_shr (js_num (digs b) (ys - 2)) (int (F2 e)) else 0) = yt"
    using sh by (simp add: yt_def y1_def js_shl_F s_def split: if_splits)
  moreover have "normalized e Y ys y0 yt"
    unfolding normalized_def K_def [symmetric] s_def [symmetric]
  proof (intro conjI)
    have "2 ^ 52 \<le> 2 * (y0 * s)" using mult_left_mono [OF top, of s] sg(2,4) by simp
    then show "2 ^ 51 \<le> yt" using q(1) by (simp add: yt_def mult.commute)
    have "(y0 + 1) * s \<le> DV e * s" using y0(3) sg(2) by (intro mult_right_mono) auto
    then show "yt < 2 ^ 52" using q(2) sg(4) by (simp add: yt_def algebra_simps)
    show "yt * K \<le> Y * s" "Y * s \<le> (yt + 1) * K"
    proof -
      have "yt * K \<le> Y * s \<and> Y * s \<le> (yt + 1) * K"
      proof (cases "ys > 1")
        case False
        then have "K = 1" "y1 = 0" using ys by (simp_all add: K_def y1_def)
        then show ?thesis using y0(1) by (simp add: yt_def)
      next
        case True
        define L Z where "L = DV e ^ (ys - 2)" and "Z = Y div L"
        have n: "ys - 1 = Suc (ys - 2)" using True by simp
        have L: "0 < L" "K = L * DV e" using DV_bounds(1) unfolding L_def K_def n by simp_all
        have "y1 = Z mod DV e" using radixDV.val_nth [OF d, of "ys - 2"] True by (simp add: y1_def Z_def L_def Yv ys_def)
        moreover have "Z div DV e = y0" using L DV_bounds(1) [of e] by (simp add: y0(1) Z_def L(2) zdiv_zmult2_eq)
        ultimately have Z: "Z = y0 * DV e + y1" using div_mult_mod_eq [of Z "DV e"] by simp
        have YL: "Z * L \<le> Y" "Y < (Z + 1) * L"
          using div_floor [OF L(1), of Y]
          unfolding Z_def by simp_all
        have tg: "yt * g = y0 * DV e + y1 div g * g" "(yt + 1) * g = y0 * DV e + (y1 div g + 1) * g"
          by (simp_all add: yt_def sg(1) [symmetric] algebra_simps)
        have "yt * g \<le> Z" "Z + 1 \<le> (yt + 1) * g" using q' unfolding tg Z by linarith+
        then have "yt * g * (L * s) \<le> Z * (L * s)" "(Z + 1) * (L * s) \<le> (yt + 1) * g * (L * s)"
          using L(1) sg(2) by (simp_all add: mult_right_mono)
        moreover have "Z * L * s \<le> Y * s" "Y * s \<le> (Z + 1) * L * s" using YL sg(2) by (simp_all add: mult_right_mono)
        moreover have "yt * K = yt * g * (L * s)" "(yt + 1) * K = (yt + 1) * g * (L * s)" by (simp_all add: L(2) sg(1) [symmetric])
        ultimately show ?thesis by (simp only: mult.assoc) linarith
      qed
      then show "yt * K \<le> Y * s" "Y * s \<le> (yt + 1) * K" by blast+
    qed
  qed (use ys top y0(3) YK in simp_all)
  ultimately show ?thesis unfolding ys_def [symmetric] Y_def [symmetric] y0_def [symmetric] by simp
qed

text \<open>What the loop starts from, and what is made of the array it leaves.\<close>

lemma start_ok:
  assumes "ok_big e y" "sg y = 0" "ok_big e r" "sg r = 0" "bt y \<le> bt r" "0 < bval e y" "DV e ^ bt y \<le> 2 * bval e y"
  defines "t \<equiv> dlShiftTo (bt r - bt y) y" and "w \<equiv> of_big r"
  obtains lo hi where
    "(if compareTo r t \<ge> 0 then sub_in_place e \<lparr>arr = js_set (arr w) (top w) 1, top = Suc (top w), wsg = wsg w\<rparr> t else w) =
      \<lparr>arr = lo @ hi, top = length (lo @ hi), wsg = 0\<rparr>" "length lo = bt r - bt y + bt y" "digits_in (DV e) (lo @ hi)" "no_lead0 (lo @ hi)"
    "val (DV e) lo < bval e y * DV e ^ (bt r - bt y)" "val (DV e) hi * bval e y * DV e ^ (bt r - bt y) + val (DV e) lo = bval e r"
proof -
  define j Y R where "j = bt r - bt y" and "Y = bval e y" and "R = bval e r"
  have jr: "j + bt y = bt r" using assms(5) by (simp add: j_def)
  have d: "digits_in (DV e) (digs y)" "digits_in (DV e) (digs r)" using assms(1,3) by (simp_all add: ok_big_def wf_big_def)
  have vt: "bval e t = Y * DV e ^ j" using assms(2) by (simp add: t_def dlShiftTo_def bval_def Y_def j_def val_append val_replicate0)
  have ne: "digs y \<noteq> []" using assms(2,6) by (auto simp: bval_def)
  have tok: "ok_big e t" "bt t = bt r" "sg t = 0"
    using assms(1,2) d(1) ne jr by (simp_all add: t_def dlShiftTo_def ok_big_def wf_big_def clamped_def digits_in_replicate0 DV_bounds(1) j_def)
  have w: "w = \<lparr>arr = digs r, top = bt r, wsg = 0\<rparr>" using assms(4) by (simp add: w_def of_big_def)
  have lead: "no_lead0 (digs r)" using assms(3,4) by (auto simp: ok_big_def clamped_def no_lead0_def)
  have R: "R = val (DV e) (digs r)" using assms(4) by (simp add: R_def bval_def)
  have Rn: "0 \<le> R" "R < DV e ^ bt r" using radixDV.val_nonneg [OF d(2)] radixDV.val_less [OF d(2)] by (simp_all add: R)
  show ?thesis
  proof (cases "0 \<le> compareTo r t")
    case False
    then have "R < Y * DV e ^ j" using compareTo_ge [OF assms(3) tok(1)] by (simp add: vt R_def)
    then show ?thesis using that [of "digs r" "[]"] False w jr d(2) lead by (simp add: R Y_def j_def [symmetric]) (simp add: R_def [symmetric] R)
  next
    case True
    then have ge: "Y * DV e ^ j \<le> R" using compareTo_ge [OF assms(3) tok(1)] by (simp add: vt R_def)
    have Yj: "0 \<le> Y * DV e ^ j" using assms(6) DV_bounds(1) [of e] by (simp add: Y_def)
    have "R - Y * DV e ^ j < DV e ^ bt r" using Rn(2) Yj by linarith
    then obtain ds where ds: "length ds = bt r" "digits_in (DV e) ds" "val (DV e) ds = R - Y * DV e ^ j"
      using digits_exist [of "R - Y * DV e ^ j"] ge by auto
    have st: "js_set (digs r) (bt r) 1 = digs r @ [1]" by (simp add: js_set_def)
    have "sub_in_place e \<lparr>arr = digs r @ [1], top = Suc (bt r), wsg = 0\<rparr> t = \<lparr>arr = digs r @ [1], top = Suc (bt r), wsg = 0\<rparr>\<lparr>arr := ds @ [1]\<rparr>"
      using tok d(2) ds DV_bounds(2) [of e]
      by (intro sub_in_place_full) (auto simp: ok_big_def no_lead0_def val_append vt R)
    moreover have "R - Y * DV e ^ j < Y * DV e ^ j"
    proof -
      have "DV e ^ bt y * DV e ^ j \<le> 2 * Y * DV e ^ j" using assms(7) DV_bounds(1) [of e] by (intro mult_right_mono) (simp_all add: Y_def)
      moreover have "DV e ^ bt r = DV e ^ bt y * DV e ^ j" by (simp add: jr [symmetric] power_add)
      ultimately show ?thesis using Rn(2) by linarith
    qed
    ultimately show ?thesis using that [of ds "[1]"] True w jr ds st DV_bounds(2) [of e]
      by (simp add: Y_def j_def [symmetric] R_def no_lead0_def)
  qed
qed

lemma negated_ok:
  assumes "ok_big e y" "sg y = 0" "0 < bval e y" "bval e y < DV e ^ bt y"
  defines "y' \<equiv> subTo e (dlShiftTo (bt y) (ONE e)) y"
  shows "digits_in (DV e) (digs y' @ replicate (bt y - bt y') 0)" "length (digs y' @ replicate (bt y - bt y') 0) = bt y"
    "val (DV e) (digs y' @ replicate (bt y - bt y') 0) = DV e ^ bt y - bval e y"
proof -
  have one: "ONE e = \<lparr>digs = [1], sg = 0\<rparr>" by (simp add: ONE_def fromInt_def)
  have wf: "wf_big e (dlShiftTo (bt y) (ONE e))" "wf_big e y"
    using assms(1) DV_bounds(2) [of e] by (auto simp: one dlShiftTo_def wf_big_def ok_big_def digits_in_replicate0)
  have y': "ok_big e y'" "bval e y' = DV e ^ bt y - bval e y"
    using subTo_ok [OF wf] by (simp_all add: y'_def one dlShiftTo_def bval_def val_append val_replicate0)
  have wf': "wf_big e y'" using y'(1) by (simp add: ok_big_def)
  have s: "sg y' = 0" using sg_cases [OF wf'] y'(2) assms(4) by simp
  have "bt y' \<le> bt y"
  proof (cases "digs y' = []")
    case False
    have "DV e ^ (bt y' - 1) < DV e ^ bt y" using bval_lead(1) [OF y'(1) False s] y'(2) assms(3) by linarith
    then have "bt y' - 1 < bt y" by (rule power_less_imp_less_exp [rotated]) (use DV_bounds(2) [of e] in simp)
    then show ?thesis by simp
  qed simp
  then show "length (digs y' @ replicate (bt y - bt y') 0) = bt y" by simp
  show "digits_in (DV e) (digs y' @ replicate (bt y - bt y') 0)"
    using wf' DV_bounds(1) by (simp add: wf_big_def digits_in_replicate0)
  show "val (DV e) (digs y' @ replicate (bt y - bt y') 0) = DV e ^ bt y - bval e y"
    using y'(2) s by (simp add: val_append val_replicate0 bval_def)
qed

lemma divRemTo_loop:
  assumes defs: "pm = abs_big e m" "pt = abs_big e this" "nsh = int (DB e) - nbits (last (digs pm))"
      "y = (if nsh > 0 then lShiftTo e (nat nsh) pm else copyTo pm)" "r = (if nsh > 0 then lShiftTo e (nat nsh) pt else copyTo pt)"
      "y' = subTo e (dlShiftTo (bt y) (ONE e)) y"
    and ne: "bt pm \<noteq> 0" "\<not> bt pt < bt pm" "js_num (digs y) (bt y - 1) \<noteq> 0"
    and yt: "yt = js_num (digs y) (bt y - 1) * js_shl 1 (int (F1 e)) +
      (if bt y > 1 then js_shr (js_num (digs y) (bt y - 2)) (int (F2 e)) else 0)"
    and w1: "(if compareTo r (dlShiftTo (bt r - bt y) y) \<ge> 0
      then sub_in_place e \<lparr>arr = js_set (arr (of_big r)) (top (of_big r)) 1, top = Suc (top (of_big r)), wsg = wsg (of_big r)\<rparr>
        (dlShiftTo (bt r - bt y) y)
      else of_big r) = w1"
    and lp: "div_loop e (dinv1 e yt) (dinv2 e yt) (js_num (digs y) (bt y - 1)) (digs y' @ replicate (bt y - bt y') 0) (bt r - bt y) w1 = Some w2"
    and qr: "drShiftTo (bt y) (view w2) = q" "clamp e (view (w2\<lparr>top := bt y\<rparr>)) = rr"
  shows "divRemTo e this m =
    Some (QR (if sg this \<noteq> sg m then subTo e (ZERO e) q else q)
      (if sg this < 0 then subTo e (ZERO e) (if nsh > 0 then rShiftTo e (nat nsh) rr else rr)
       else (if nsh > 0 then rShiftTo e (nat nsh) rr else rr)))"
proof -
  have p: "(if nsh > 0 then (lShiftTo e (nat nsh) pm, lShiftTo e (nat nsh) pt) else (copyTo pm, copyTo pt)) = (y, r)"
    by (simp add: defs(4,5))
  show ?thesis
    unfolding divRemTo_def Let_def defs(1,2) [symmetric] if_not_P [OF ne(1)] if_not_P [OF ne(2)] defs(3) [symmetric] p prod.case
      if_not_P [OF ne(3)] yt [symmetric] w1 defs(6) [symmetric] dinv1_def [symmetric] dinv2_def [symmetric] lp option.map qr
    by (rule refl)
qed

lemma drop_view:
  assumes "arr w = lo @ hi" "top w = length (arr w)" "wsg w = 0"
  shows "drShiftTo (length lo) (view w) = \<lparr>digs = hi, sg = 0\<rparr>" "view (w\<lparr>top := length lo\<rparr>) = \<lparr>digs = lo, sg = 0\<rparr>"
proof -
  have "map (js_num (lo @ hi)) [0..<length lo] = lo" by (rule nth_equalityI) (simp_all add: nth_append)
  then show "view (w\<lparr>top := length lo\<rparr>) = \<lparr>digs = lo, sg = 0\<rparr>" using assms by (simp add: view_def)
  show "drShiftTo (length lo) (view w) = \<lparr>digs = hi, sg = 0\<rparr>"
    using assms map_js_num [of "lo @ hi"] by (simp add: view_def drShiftTo_def drop_map)
qed

lemma scaled_division:
  fixes q m s r x :: int
  assumes "q * (m * s) + r = x * s" "0 < s" "0 \<le> r" "r < m * s" "0 < m"
  shows "q = x div m" "r div s = x mod m"
proof -
  have "x * s div (m * s) = q" "x * s mod (m * s) = r" using assms by (simp_all flip: assms(1))
  then have "q = x div m" "r = x mod m * s" using assms(2) by (simp_all flip: mult_mod_left)
  then show "q = x div m" "r div s = x mod m" using assms(2) by simp_all
qed

lemma negate_if:
  assumes "ok_big e b"
  shows "ok_big e (if P then subTo e (ZERO e) b else b)" "bval e (if P then subTo e (ZERO e) b else b) = (if P then - bval e b else bval e b)"
  using assms subTo_ok [of e "ZERO e" b] ZERO_ok [of e] by (simp_all add: ok_big_def)

lemma sdiv_by_abs:
  fixes a b :: int
  assumes "b \<noteq> 0"
  shows "a sdiv b = (if (a < 0) \<noteq> (b < 0) then - (\<bar>a\<bar> div \<bar>b\<bar>) else \<bar>a\<bar> div \<bar>b\<bar>)"
    "a smod b = (if a < 0 then - (\<bar>a\<bar> mod \<bar>b\<bar>) else \<bar>a\<bar> mod \<bar>b\<bar>)"
  using assms by (auto simp: signed_divide_int_def signed_modulo_int_def sgn_if)

lemma divRemTo_ok:
  assumes e: "e \<noteq> OtherBrowser" and ok: "ok_big e this" "ok_big e m" and m: "bval e m \<noteq> 0"
  obtains q r where "divRemTo e this m = Some (QR q r)" "ok_big e q" "ok_big e r"
    "bval e q = bval e this sdiv bval e m" "bval e r = bval e this smod bval e m"
proof -
  define pm pt where "pm = abs_big e m" and "pt = abs_big e this"
  note am = abs_big_ok [OF ok(2), folded pm_def] and at = abs_big_ok [OF ok(1), folded pt_def]
  have ne: "bt pm \<noteq> 0" using am m by (auto simp: bval_def)
  have sgs: "sg this < 0 \<longleftrightarrow> bval e this < 0" "sg this \<noteq> sg m \<longleftrightarrow> (bval e this < 0) \<noteq> (bval e m < 0)"
    using sg_cases [of e this] sg_cases [of e m] ok by (simp_all add: ok_big_def)
  show ?thesis
  proof (cases "bt pt < bt pm")
    case True
    then have "\<bar>bval e this\<bar> < \<bar>bval e m\<bar>"
      using bval_longer [of e pt pm] am at by (simp add: ok_big_def) 
    moreover have "divRemTo e this m = Some (QR (fromInt e 0) this)"
      using True ne unfolding divRemTo_def Let_def pm_def [symmetric] pt_def [symmetric] copyTo_id by (simp only: if_False if_True)
    moreover have "ok_big e (fromInt e 0)" "bval e (fromInt e 0) = 0" using ZERO_ok by (simp_all add: ZERO_def)
    ultimately show ?thesis using that [of "fromInt e 0" this] ok(1) m by (auto simp: sdiv_by_abs)
  next
    case False
    define nsh where "nsh = int (DB e) - nbits (last (digs pm))"
    define s where "s = (2::int) ^ nat nsh"
    define y r where "y = (if nsh > 0 then lShiftTo e (nat nsh) pm else copyTo pm)" and
      "r = (if nsh > 0 then lShiftTo e (nat nsh) pt else copyTo pt)"
    have ne': "digs pm \<noteq> []" using ne by simp
    note nz = normalize_ok [OF am(1,3) ne', folded nsh_def s_def]
    have y: "ok_big e y" "bval e y = \<bar>bval e m\<bar> * s" and r: "ok_big e r" "bval e r = \<bar>bval e this\<bar> * s"
      using nz(2) [of pm] nz(2) [of pt] am at by (simp_all add: y_def r_def ok_big_def)
    have s: "0 < s" by (simp add: s_def)
    have pos: "0 < bval e y" "0 \<le> bval e r" using m s by (simp_all add: y r)
    have sg: "sg y = 0" "sg r = 0" using sg_cases [of e y] sg_cases [of e r] y(1) r(1) pos by (simp_all add: ok_big_def)
    have "DV e ^ (bt pm - 1) \<le> \<bar>bval e m\<bar>" using bval_lead(1) [OF am(1) ne' am(3)] am(2) by simp
    also have "\<dots> \<le> bval e y" using s mult_left_mono [of 1 s "\<bar>bval e m\<bar>"] by (simp add: y)
    finally have by': "bt y = bt pm" using nz(4) am(2) ne by (intro length_unique [OF y(1) sg(1)]) (simp_all add: y(2))
    have "bt pm \<le> bt r"
    proof (rule ccontr)
      assume "\<not> bt pm \<le> bt r"
      then have "bt r < bt pt" using False by simp
      then have "bval e r < bval e pt" using bval_longer [of e r pt] r(1) at sg(2) by (simp add: ok_big_def)
      then show False using at(2) r(2) mult_left_mono [of 1 s "\<bar>bval e this\<bar>"] s by simp
    qed
    then have ln: "bt y \<le> bt r" by (simp add: by')
    have lead: "DV e ^ bt y \<le> 2 * bval e y" "bval e y < DV e ^ bt y" "digs y \<noteq> []" using nz(3,4) am(2) ne by' by (auto simp: y(2))
    define yt where "yt = js_num (digs y) (bt y - 1) * js_shl 1 (int (F1 e)) +
      (if bt y > 1 then js_shr (js_num (digs y) (bt y - 2)) (int (F2 e)) else 0)"
    note nm = leading_bits [OF y(1) sg(1) lead(1,3), folded yt_def]
    have y0: "js_num (digs y) (bt y - 1) \<noteq> 0" using nm DV_bounds(1) [of e] by (auto simp: normalized_def)
    define y' where "y' = subTo e (dlShiftTo (bt y) (ONE e)) y"
    note ng = negated_ok [OF y(1) sg(1) pos(1) lead(2), folded y'_def]
    obtain lo hi where st: "(if compareTo r (dlShiftTo (bt r - bt y) y) \<ge> 0
          then sub_in_place e \<lparr>arr = js_set (arr (of_big r)) (top (of_big r)) 1, top = Suc (top (of_big r)), wsg = wsg (of_big r)\<rparr> (dlShiftTo (bt r - bt y) y)
          else of_big r) = \<lparr>arr = lo @ hi, top = length (lo @ hi), wsg = 0\<rparr>" "length lo = bt r - bt y + bt y" "digits_in (DV e) (lo @ hi)" "no_lead0 (lo @ hi)"
      "val (DV e) lo < bval e y * DV e ^ (bt r - bt y)" "val (DV e) hi * bval e y * DV e ^ (bt r - bt y) + val (DV e) lo = bval e r"
      using start_ok [OF y(1) sg(1) r(1) sg(2) ln pos(1) lead(1)] by metis
    obtain w2 lo' hi' where lp: "div_loop e (dinv1 e yt) (dinv2 e yt) (js_num (digs y) (bt y - 1)) (digs y' @ replicate (bt y - bt y') 0) (bt r - bt y)
          \<lparr>arr = lo @ hi, top = length (lo @ hi), wsg = 0\<rparr> = Some w2"
      "arr w2 = lo' @ hi'" "length lo' = bt y" "digits_in (DV e) (arr w2)" "wsg w2 = 0" "top w2 = length (arr w2)" "no_lead0 (arr w2)"
      "val (DV e) lo' < bval e y" "val (DV e) hi' * bval e y + val (DV e) lo' = bval e r"
      using div_loop_ok [OF e nm ng, of "\<lparr>arr = lo @ hi, top = length (lo @ hi), wsg = 0\<rparr>" lo hi "bt r - bt y"] st(2-6) by auto
    define q rr where "q = \<lparr>digs = hi', sg = 0\<rparr>" and "rr = clamp e \<lparr>digs = lo', sg = 0\<rparr>"
    have dig: "digits_in (DV e) lo'" "digits_in (DV e) hi'" using lp(2,4) by simp_all
    have qr: "ok_big e q" "bval e q = val (DV e) hi'" "ok_big e rr" "bval e rr = val (DV e) lo'"
      using clamp_ok [of e "\<lparr>digs = lo', sg = 0\<rparr>"] dig lp(2,7)
      by (auto simp: q_def rr_def ok_big_def wf_big_def clamped_def bval_def no_lead0_def)
    define rr' where "rr' = (if nsh > 0 then rShiftTo e (nat nsh) rr else rr)"
    have rr': "ok_big e rr'" "bval e rr' = val (DV e) lo' div s"
      using rShiftTo_ok [of e rr "nat nsh"] qr(3,4) nz(1) by (auto simp: rr'_def s_def ok_big_def)
    have sd: "val (DV e) hi' = \<bar>bval e this\<bar> div \<bar>bval e m\<bar>" "val (DV e) lo' div s = \<bar>bval e this\<bar> mod \<bar>bval e m\<bar>"
      using scaled_division [OF lp(9) [unfolded y r] s radixDV.val_nonneg [OF dig(1)] lp(8) [unfolded y]] m by simp_all
    have "divRemTo e this m = Some (QR (if sg this \<noteq> sg m then subTo e (ZERO e) q else q) (if sg this < 0 then subTo e (ZERO e) rr' else rr'))"
      unfolding rr'_def
      by (rule divRemTo_loop [OF pm_def pt_def nsh_def y_def r_def y'_def ne False y0 yt_def st(1) lp(1)])
        (simp_all only: drop_view [OF lp(2,6,5), unfolded lp(3)] q_def rr_def)
    then show ?thesis using that negate_if [OF qr(1), of "sg this \<noteq> sg m"] negate_if [OF rr'(1), of "sg this < 0"]
      by (simp add: qr(2) rr'(2) sd sgs sdiv_by_abs [OF m])
  qed
qed

section \<open>What the division promises\<close>

lemma mod_big_ok:
  assumes "e \<noteq> OtherBrowser" "ok_big e this" "ok_big e m" "0 < bval e m"
  obtains x where "mod_big e this m = Some x" "ok_big e x" "bval e x = bval e this mod bval e m"
proof -
  note a = abs_big_ok [OF assms(2)]
  have m: "bval e m \<noteq> 0" using assms(4) by simp
  obtain q r where d: "divRemTo e (abs_big e this) m = Some (QR q r)" "ok_big e q" "ok_big e r"
      "bval e q = bval e (abs_big e this) sdiv bval e m" "bval e r = bval e (abs_big e this) smod bval e m"
    using divRemTo_ok [OF assms(1) a(1) assms(3) m] .
  have d: "divRemTo e (abs_big e this) m = Some (QR q r)" "ok_big e r" "bval e r = \<bar>bval e this\<bar> mod bval e m"
    using d a(2) assms(4) m by (simp_all add: sdiv_by_abs)
  have wf: "wf_big e m" "wf_big e r" using assms(3) d(2) by (simp_all add: ok_big_def)
  have s: "sg this < 0 \<longleftrightarrow> bval e this < 0" using sg_cases [of e this] assms(2) by (simp add: ok_big_def)
  have c: "compareTo r (ZERO e) > 0 \<longleftrightarrow> bval e r \<noteq> 0"
    using compareTo_less [OF ZERO_ok(1) d(2)] compareTo_ok [OF d(2) ZERO_ok(1)] ZERO_ok(2) [of e] d(3) pos_mod_sign [OF assms(4), of "\<bar>bval e this\<bar>"]
    by (simp add: sgn_if split: if_splits)
  define x where "x = (if sg this < 0 \<and> compareTo r (ZERO e) > 0 then subTo e m r else r)"
  have "bval e x = bval e this mod bval e m"
  proof (cases "bval e this < 0")
    case True
    then have "bval e r = (- bval e this) mod bval e m" using d(3) by simp
    then have "bval e this mod bval e m = (if bval e r = 0 then 0 else bval e m - bval e r)"
      using zmod_zminus1_eq_if [of "- bval e this" "bval e m"] by simp
    then show ?thesis using True subTo_ok(2) [OF wf] by (auto simp: x_def s c)
  qed (simp add: x_def s d(3))
  moreover have "ok_big e x" using d(2) subTo_ok(1) [OF wf] by (simp add: x_def)
  moreover have "mod_big e this m = Some x" by (simp add: mod_big_def d(1) x_def)
  ultimately show ?thesis using that by blast
qed

text \<open>
  C30: Division of digit arrays is division of integers in the engines of 28 and 30 bits: for every divisor that is
  not zero, \<open>divRemTo\<close> returns, its quotient is rounded towards zero and its remainder has the sign of the
  dividend; \<open>mod\<close> by a positive number is the least residue. The estimate of each quotient digit in
  floating point is off by at most one.
\<close>

theorem divRemTo_correct:
  assumes "e \<noteq> OtherBrowser" "ok_big e this" "ok_big e m" "bval e m \<noteq> 0"
  shows "\<exists>q r. divRemTo e this m = Some (QR q r) \<and> ok_big e q \<and> ok_big e r \<and>
    bval e q = bval e this sdiv bval e m \<and> bval e r = bval e this smod bval e m \<and>
    (0 < bval e m \<longrightarrow> (\<exists>x. mod_big e this m = Some x \<and> ok_big e x \<and> bval e x = bval e this mod bval e m))"
proof -
  obtain q r where "divRemTo e this m = Some (QR q r)" "ok_big e q" "ok_big e r"
    "bval e q = bval e this sdiv bval e m" "bval e r = bval e this smod bval e m"
    using divRemTo_ok [OF assms] .
  moreover have "\<exists>x. mod_big e this m = Some x \<and> ok_big e x \<and> bval e x = bval e this mod bval e m" if "0 < bval e m"
    using mod_big_ok [OF assms(1-3) that] by metis
  ultimately show ?thesis by blast
qed

theorem divRemTo_correct_witness:
  "\<exists>q r. divRemTo Netscape \<lparr>digs = [3, 7], sg = -1\<rparr> \<lparr>digs = [10], sg = 0\<rparr> = Some (QR q r) \<and>
    bval Netscape q = - ((2 ^ 56 - 7 * 2 ^ 28 - 3) div 10) \<and> bval Netscape r = - ((2 ^ 56 - 7 * 2 ^ 28 - 3) mod 10)"
proof -
  have ok: "ok_big Netscape \<lparr>digs = [3, 7], sg = -1\<rparr>" "ok_big Netscape \<lparr>digs = [10], sg = 0\<rparr>"
    by (simp_all add: ok_big_def wf_big_def clamped_def DV_eq)
  have v: "bval Netscape \<lparr>digs = [3, 7], sg = -1\<rparr> = - (2 ^ 56 - 7 * 2 ^ 28 - 3)" "bval Netscape \<lparr>digs = [10], sg = 0\<rparr> = 10"
    by (simp_all add: bval_def DV_eq)
  have "\<exists>q r. divRemTo Netscape \<lparr>digs = [3, 7], sg = -1\<rparr> \<lparr>digs = [10], sg = 0\<rparr> = Some (QR q r) \<and>
    bval Netscape q = - (2 ^ 56 - 7 * 2 ^ 28 - 3) sdiv 10 \<and> bval Netscape r = - (2 ^ 56 - 7 * 2 ^ 28 - 3) smod 10"
    using divRemTo_correct [OF _ ok, unfolded v] by fastforce
  then show ?thesis by (simp add: sdiv_by_abs)
qed

text \<open>
  With the 26 bits of any other browser the estimate has no slack and can be one too small, which the
  code never corrects: the quotient is one short and the remainder is the divisor.
\<close>

lemma division_26_bits:
  "divRemTo OtherBrowser \<lparr>digs = [67108859, 16777220, 50331647], sg = 0\<rparr> \<lparr>digs = [5, 50331648], sg = 0\<rparr> =
    Some (QR \<lparr>digs = [67108862], sg = 0\<rparr> \<lparr>digs = [5, 50331648], sg = 0\<rparr>)"
  "(67108859 + 16777220 * 2 ^ 26 + 50331647 * 2 ^ 52 :: int) = (2 ^ 26 - 1) * (5 + 50331648 * 2 ^ 26)"
  by (code_simp, simp)

end
