(* ===== verification/BigReduce.thy ===== *)
theory BigReduce
  imports BigMod BigQuot
begin

text \<open>
  The reducers of \<open>src/biginteger.js\<close> compute residues: the digit inverse of \<open>invDigit\<close>, the reduction of
  \<open>Montgomery\<close> on the digits of its argument, and the approximate quotient of \<open>Barrett\<close>.
\<close>

section \<open>The digit inverse\<close>

text \<open>One step of Newton's iteration doubles the number of correct bits.\<close>

lemma newton_step:
  fixes x y n :: int
  assumes "n dvd x * y - 1"
  shows "n * n dvd x * (y * (2 - x * y)) - 1"
proof -
  have "x * (y * (2 - x * y)) - 1 = - ((x * y - 1) * (x * y - 1))" by (simp add: algebra_simps)
  then show ?thesis using mult_dvd_mono [OF assms assms] by simp
qed

lemma dvd_minus_one_cong:
  fixes a b n :: int
  assumes "a mod n = b mod n" "n dvd x * b - 1"
  shows "n dvd x * a - 1"
proof -
  have "(x * a - 1) mod n = (x * b - 1) mod n" by (intro mod_diff_cong mod_mult_cong assms(1) refl)
  then show ?thesis using assms(2) by (simp add: dvd_eq_mod_eq_0)
qed

lemma newton_mod:
  fixes x y n :: int
  assumes "n dvd x * y - 1" "x' mod (n * n) = x mod (n * n)" "z mod (n * n) = y * (2 - x' * y) mod (n * n)"
  shows "n * n dvd x * z - 1"
proof (rule dvd_minus_one_cong [OF _ newton_step [OF assms(1)]])
  have "y * (2 - x' * y) mod (n * n) = y * (2 - x * y) mod (n * n)"
    by (intro mod_mult_cong mod_diff_cong assms(2) refl)
  then show "z mod (n * n) = y * (2 - x * y) mod (n * n)" using assms(3) by simp
qed

lemma js_rem_mod:
  assumes "0 < b"
  shows "js_rem a b mod b = a mod b" "- b < js_rem a b" "js_rem a b < b" "0 \<le> a \<Longrightarrow> js_rem a b = a mod b"
proof -
  have r: "js_rem a b = (if 0 \<le> a then a mod b else - ((- a) mod b))" using assms by (simp add: js_rem_def sgn_if)
  show "js_rem a b mod b = a mod b" by (simp add: r mod_minus_eq)
  show "- b < js_rem a b" "js_rem a b < b"
    using pos_mod_bound [OF assms, of a] pos_mod_sign [OF assms, of a] pos_mod_bound [OF assms, of "- a"] pos_mod_sign [OF assms, of "- a"] assms
    by (cases "0 \<le> a"; simp add: r; linarith)+
  show "0 \<le> a \<Longrightarrow> js_rem a b = a mod b" by (simp add: r)
qed

lemma invDigit_ok:
  assumes "digits_in (DV e) (digs m)" "digs m \<noteq> []" "odd (digs m ! 0)"
  shows "0 \<le> invDigit e m" "invDigit e m < DV e" "DV e dvd digs m ! 0 * invDigit e m + 1"
proof -
  define x where "x = digs m ! 0"
  have x: "0 \<le> x" "x < DV e" "odd x" using assms digits_in_nth [OF assms(1), of 0] by (simp_all add: x_def)
  define y1 where "y1 = js_and x 3"
  define y2 where "y2 = js_and (y1 * (2 - js_and x 0xf * y1)) 0xf"
  define y3 where "y3 = js_and (y2 * (2 - js_and x 0xff * y2)) 0xff"
  define y4 where "y4 = js_and (y3 * (2 - js_and (js_and x 0xffff * y3) 0xffff)) 0xffff"
  define y5 where "y5 = js_rem (y4 * (2 - js_rem (x * y4) (DV e))) (DV e)"
  have ne: "\<not> bt m < 1" "js_and x 1 \<noteq> 0" using assms(2) x(3) by (cases "digs m"; simp add: js_and_mask_num odd_iff_mod_2_eq_one)+
  have d: "invDigit e m = (if y5 > 0 then DV e - y5 else - y5)"
    unfolding invDigit_def Let_def x_def [symmetric] if_not_P [OF ne(1)] if_not_P [OF ne(2)] y1_def [symmetric] y2_def [symmetric]
      y3_def [symmetric] y4_def [symmetric] y5_def [symmetric] by (rule refl)
  note ys = y1_def y2_def y3_def y4_def
  note ys = ys [unfolded js_and_mask_num]
  have "x mod 4 = 1 \<or> x mod 4 = 3" using x(3) by presburger
  then have "x mod 4 = 1 \<and> y1 = 1 \<or> x mod 4 = 3 \<and> y1 = 3" by (simp only: ys(1)) simp
  then have "4 dvd x * y1 - 1" by (elim disjE conjE; simp only: mult_1_right; presburger)
  then have "4 * 4 dvd x * y2 - 1" by (rule newton_mod [where x' = "x mod 16"]) (simp_all add: ys(2))
  then have "16 dvd x * y2 - 1" by simp
  then have "16 * 16 dvd x * y3 - 1" by (rule newton_mod [where x' = "x mod 256"]) (simp_all add: ys(3))
  then have "256 dvd x * y3 - 1" by simp
  then have "256 * 256 dvd x * y4 - 1"
  proof (rule newton_mod [where x' = x])
    have "y4 mod 65536 = y3 * (2 - x * y3) mod 65536"
      unfolding ys(4) mod_mod_trivial mod_mult_left_eq by (intro mod_mult_cong mod_diff_cong mod_mod_trivial refl)
    then show "y4 mod (256 * 256) = y3 * (2 - x * y3) mod (256 * 256)" by simp
  qed simp
  then have y4: "65536 * 65536 dvd x * (y4 * (2 - x * y4)) - 1" using newton_step [of 65536 x y4] by simp
  have D: "0 < DV e" "DV e dvd 65536 * 65536" using DV_bounds(1) by (cases e; simp add: DV_eq)+
  have "y5 mod DV e = y4 * (2 - x * y4) mod DV e"
    unfolding y5_def js_rem_mod(1) [OF D(1)] by (intro mod_mult_cong mod_diff_cong js_rem_mod(1) [OF D(1)] refl)
  then have y5: "DV e dvd x * y5 - 1" using dvd_trans [OF D(2) y4] by (rule dvd_minus_one_cong)
  have b: "- DV e < y5" "y5 < DV e" unfolding y5_def by (rule js_rem_mod [OF D(1)])+
  show "0 \<le> invDigit e m" "invDigit e m < DV e" using b D by (auto simp: d)
  have "x * invDigit e m + 1 = (if y5 > 0 then x * DV e else 0) - (x * y5 - 1)" by (simp add: d algebra_simps)
  moreover have "DV e dvd (if y5 > 0 then x * DV e else 0) - (x * y5 - 1)" by (rule dvd_diff [OF _ y5]) simp
  ultimately show "DV e dvd digs m ! 0 * invDigit e m + 1" unfolding x_def [symmetric] by (simp only:)
qed

section \<open>Montgomery reduction\<close>

lemma mont_u_ok:
  assumes "0 \<le> xi" "xi < DV e" "0 \<le> mp z" "mp z < DV e"
    and z: "mpl z = js_and (mp z) 0x7fff" "mph z = js_shr (mp z) 15" "um z = js_shl 1 (int (DB e) - 15) - 1"
  shows "mont_u e z xi = xi * mp z mod DV e"
proof -
  define b w where "b = DB e - 15" and "w = (2::int) ^ b"
  have b: "int (DB e) - 15 = int b" "b \<le> 15" "11 \<le> b" "DV e = w * 0x8000" by (cases e; simp add: b_def w_def DV_eq)+
  define xl xh ml mh where "xl = xi mod 0x8000" and "xh = xi div 0x8000" and "ml = mp z mod 0x8000" and "mh = mp z div 0x8000"
  have lt: "xh < w" "mh < w" "0 \<le> xh" "0 \<le> mh" "0 \<le> xl" "0 \<le> ml" "xl < 0x8000" "ml < 0x8000"
    using assms(1-4) by (auto simp: xh_def mh_def xl_def ml_def b(4) pos_imp_zdiv_nonneg_iff intro!: div_less_of_less_mult)
  have w: "w \<le> 0x8000" "0 < w" using power_increasing [OF b(2), of "2::int"] by (simp_all add: w_def)
  have shr: "js_shr xi 15 = xh" "js_shr (mp z) 15 = mh"
    using assms(1-4) DV_bounds(3) [of e] by (simp_all add: js_shr_div xh_def mh_def)
  have um: "um z = w - 1" using b(2) w(1) unfolding z(3) b(1) w_def by (subst js_shl_mult_pos) auto
  define k where "k = (xl * mh + xh * ml) mod w"
  have k: "0 \<le> k" "k < w" using w by (simp_all add: k_def)
  have mid: "js_and (xl * mh + xh * ml) (um z) = k"
    using js_and_mask [of b "xl * mh + xh * ml"] b(2) by (simp add: um w_def k_def)
  have sh: "js_shl k 15 = k * 0x8000"
  proof -
    have "k * 2 ^ 15 < w * 2 ^ 15" using k(2) by simp
    also have "\<dots> \<le> 2 ^ 15 * 2 ^ 15" using w(1) by simp
    finally show ?thesis using k(1) by (subst js_shl_mult_pos) auto
  qed
  have "mont_u e z xi = (xl * ml + k * 0x8000) mod DV e"
    unfolding mont_u_def Let_def z(1,2) shr js_and_DM js_and_mask_num xl_def [symmetric] ml_def [symmetric] mid sh by (rule refl)
  also have "k * 0x8000 = (xl * mh + xh * ml) * 0x8000 mod DV e"
    unfolding k_def b(4) by (simp only: mult_mod_left)
  also have "(xl * ml + (xl * mh + xh * ml) * 0x8000 mod DV e) mod DV e = (xl * ml + (xl * mh + xh * ml) * 0x8000) mod DV e"
    by (rule mod_add_right_eq)
  also have "\<dots> = (xl * ml + (xl * mh + xh * ml) * 0x8000 + DV e * (xh * mh * (0x8000 div w))) mod DV e" by simp
  also have "DV e * (xh * mh * (0x8000 div w)) = xh * mh * (0x8000 * 0x8000)"
  proof -
    have "w * (0x8000 div w) = 0x8000" using b(2) le_imp_power_dvd [OF b(2), of "2 :: int"] by (simp add: w_def)
    then have "DV e * (xh * mh * (0x8000 div w)) = xh * mh * 0x8000 * (w * (0x8000 div w))" by (simp add: b(4))
    with \<open>w * (0x8000 div w) = 0x8000\<close> show ?thesis by simp
  qed
  also have "xl * ml + (xl * mh + xh * ml) * 0x8000 + xh * mh * (0x8000 * 0x8000) = (xh * 0x8000 + xl) * (mh * 0x8000 + ml)"
    by (simp add: algebra_simps)
  also have "\<dots> = xi * mp z" by (simp add: xl_def xh_def ml_def mh_def)
  finally show ?thesis .
qed

lemma mont_carry_ok:
  assumes "j < length x" "\<And>k. k < length x \<Longrightarrow> k \<noteq> j \<Longrightarrow> 0 \<le> x ! k \<and> x ! k < DV e" "0 \<le> x ! j" "x ! j < 2 * DV e"
    "val (DV e) x < DV e ^ length x" "length x - j \<le> n"
  shows "length (mont_carry e n x j) = length x \<and> val (DV e) (mont_carry e n x j) = val (DV e) x \<and> digits_in (DV e) (mont_carry e n x j)"
  using assms
proof (induction n arbitrary: x j)
  case 0
  then show ?case by simp
next
  case (Suc n)
  show ?case
  proof (cases "DV e \<le> x ! j")
    case False
    then have "digits_in (DV e) x" using Suc.prems(2,3) by (force simp: digits_in_def in_set_conv_nth)
    then show ?thesis using False by simp
  next
    case True
    have lo: "digits_in (DV e) (take j x)" using Suc.prems(2) by (auto simp: digits_in_def in_set_conv_nth)
    have hi: "digits_in (DV e) (drop (Suc j) x)" using Suc.prems(2) by (auto simp: digits_in_def in_set_conv_nth)
    have v: "val (DV e) x = val (DV e) (take j x) + DV e ^ j * (x ! j + DV e * val (DV e) (drop (Suc j) x))"
      using val_take_drop [of "DV e" x j] Suc.prems(1) by (simp add: Cons_nth_drop_Suc [symmetric] min_absorb1)
    have j: "Suc j < length x"
    proof (rule ccontr)
      assume "\<not> Suc j < length x"
      then have "length x = Suc j" using Suc.prems(1) by simp
      moreover have "DV e ^ j * DV e \<le> DV e ^ j * x ! j" using True DV_bounds(1) [of e] by (intro mult_left_mono) simp_all
      ultimately show False using Suc.prems(5) v radixDV.val_nonneg [OF lo] by (simp add: mult.commute [of "DV e ^ j" "DV e"])
    qed
    define x1 where "x1 = x[j := x ! j - DV e, Suc j := x ! Suc j + 1]"
    have n: "0 \<le> x ! Suc j" "x ! Suc j < DV e" using Suc.prems(2) [OF j] by simp_all
    have l1: "length x1 = length x" by (simp add: x1_def)
    have "val (DV e) x1 = val (DV e) x - DV e * DV e ^ j + DV e ^ Suc j"
      using j by (simp add: x1_def val_update algebra_simps)
    then have v1: "val (DV e) x1 = val (DV e) x" by simp
    have "length (mont_carry e n x1 (Suc j)) = length x1 \<and> val (DV e) (mont_carry e n x1 (Suc j)) = val (DV e) x1 \<and>
        digits_in (DV e) (mont_carry e n x1 (Suc j))"
    proof (rule Suc.IH)
      show "0 \<le> x1 ! Suc j" "x1 ! Suc j < 2 * DV e" using n j DV_bounds(2) [of e] by (simp_all add: x1_def)
    qed (use Suc.prems j True l1 v1 in \<open>auto simp: x1_def nth_list_update\<close>)
    then show ?thesis using True by (simp add: x1_def [symmetric] l1 v1)
  qed
qed

lemma mont_loop_ok:
  assumes m: "digits_in (DV e) (digs (mm z))" "digs (mm z) \<noteq> []" "0 \<le> mp z" "mp z < DV e" "DV e dvd digs (mm z) ! 0 * mp z + 1"
    and z: "mpl z = js_and (mp z) 0x7fff" "mph z = js_shr (mp z) 15" "um z = js_shl 1 (int (DB e) - 15) - 1"
    and x: "digits_in (DV e) x" "bt (mm z) + (i + n) \<le> length x" "i + n < length x" "DV e ^ i dvd val (DV e) x"
      "val (DV e) x + (DV e ^ (i + n) - DV e ^ i) * val (DV e) (digs (mm z)) < DV e ^ length x"
  shows "\<exists>U. length (mont_loop e z n i x) = length x \<and> digits_in (DV e) (mont_loop e z n i x) \<and> 0 \<le> U \<and> U \<le> DV e ^ (i + n) - DV e ^ i \<and>
    val (DV e) (mont_loop e z n i x) = val (DV e) x + U * val (DV e) (digs (mm z)) \<and>
    DV e ^ (i + n) dvd val (DV e) (mont_loop e z n i x)"
  using x
proof (induction n arbitrary: i x)
  case 0
  then show ?case by (auto intro!: exI [of _ 0])
next
  case (Suc n)
  define t M P where "t = bt (mm z)" and "M = val (DV e) (digs (mm z))" and "P = DV e ^ i"
  have P: "0 < P" "DV e ^ Suc i = DV e * P" using DV_bounds(1) by (simp_all add: P_def)
  have M0: "0 \<le> M" using radixDV.val_nonneg [OF m(1)] by (simp add: M_def)
  have jl: "i + t < length x" "i < length x" using Suc.prems(2,3) by (simp_all add: t_def)
  have xi: "0 \<le> x ! i" "x ! i < DV e" using digits_in_nth [OF Suc.prems(1)] jl by auto
  define u where "u = mont_u e z (x ! i)"
  have u: "u = x ! i * mp z mod DV e" using mont_u_ok [OF xi m(3,4) z] by (simp add: u_def)
  then have ub: "0 \<le> u" "u < DV e" using DV_bounds(1) [of e] by simp_all
  obtain x1 c where am: "am e 0 u (digs (mm z)) x i 0 t = (x1, c)" by fastforce
  have df: "digits_from (DV e) x i t" using jl by (intro digits_in_from Suc.prems(1)) simp
  have n: "0 + t \<le> length (digs (mm z))" "0 < 3 * DV e" "u < 2 * DV e" using ub DV_bounds(1) [of e] by (simp_all add: t_def)
  note ko = km.kernel_ok [OF m(1) df n(1) ub(1) n(3) order_refl n(2) am]
  have c: "0 \<le> c" "c < DV e" using ko(5) ko(7) ub by simp_all
  define x2 where "x2 = x1[i + t := x ! (i + t) + c]"
  have xj: "x1 ! (i + t) = x ! (i + t)" "0 \<le> x ! (i + t)" "x ! (i + t) < DV e"
    using ko(2) [of "i + t"] digits_in_nth [OF Suc.prems(1) jl(1)] by simp_all
  have l2: "length x2 = length x" using ko(1) by (simp add: x2_def)
  have v2: "val (DV e) x2 = val (DV e) x + u * M * P"
    using ko(1,4) jl xj(1) by (simp add: x2_def val_update M_def P_def t_def)
  have "digits_in (DV e) x1"
    using digits_in_nth [OF Suc.prems(1)] by (intro digits_from_all [OF ko(3)]) (simp add: ko(1,2))
  then have d2: "0 \<le> x2 ! k \<and> x2 ! k < DV e" if "k < length x2" "k \<noteq> i + t" for k
    using that digits_in_nth [of "DV e" x1 k] by (simp add: x2_def)
  have "P * DV e \<le> DV e ^ (i + Suc n)" using P(2) DV_bounds(2) [of e] by (subst mult.commute, subst P(2) [symmetric]) (intro power_increasing; simp)
  moreover have "u * P \<le> (DV e - 1) * P" using ub P(1) by (intro mult_right_mono) auto
  ultimately have uP: "u * P + (DV e ^ (i + Suc n) - DV e * P) \<le> DV e ^ (i + Suc n) - P" "0 \<le> DV e ^ (i + Suc n) - DV e * P"
    by (simp_all add: algebra_simps)
  have "u * M * P + (DV e ^ (i + Suc n) - DV e * P) * M = (u * P + (DV e ^ (i + Suc n) - DV e * P)) * M" by (simp add: algebra_simps)
  also have "\<dots> \<le> (DV e ^ (i + Suc n) - P) * M" using uP(1) M0 by (rule mult_right_mono)
  finally have bound: "val (DV e) x2 + (DV e ^ (i + Suc n) - DV e * P) * M < DV e ^ length x"
    using Suc.prems(5) v2 by (simp add: M_def P_def)
  have "val (DV e) x2 < DV e ^ length x2" using bound mult_nonneg_nonneg [OF uP(2) M0] by (simp add: l2)
  then have "length (mont_carry e (length x - (i + t)) x2 (i + t)) = length x2 \<and>
      val (DV e) (mont_carry e (length x - (i + t)) x2 (i + t)) = val (DV e) x2 \<and> digits_in (DV e) (mont_carry e (length x - (i + t)) x2 (i + t))"
    using d2 jl l2 xj c ko(1) by (intro mont_carry_ok) (simp_all add: x2_def)
  then obtain x3 where x3: "mont_carry e (length x - (i + t)) x2 (i + t) = x3" "length x3 = length x" "val (DV e) x3 = val (DV e) x2" "digits_in (DV e) x3"
    using l2 by auto
  obtain v where v: "val (DV e) x = P * v" using Suc.prems(4) by (auto simp: P_def)
  have "v mod DV e = x ! i" using radixDV.val_nth [OF Suc.prems(1) jl(2)] P(1) unfolding v P_def [symmetric] by simp
  moreover have "M mod DV e = digs (mm z) ! 0" using m(1,2) unfolding M_def by (cases "digs (mm z)") simp_all
  ultimately have "(v + u * M) mod DV e = (x ! i + x ! i * mp z * (digs (mm z) ! 0)) mod DV e"
    unfolding u by (metis (no_types) mod_add_cong mod_mod_trivial mod_mult_cong)
  also have "\<dots> = x ! i * (digs (mm z) ! 0 * mp z + 1) mod DV e" by (simp add: algebra_simps)
  also have "\<dots> = 0" using m(5) by (simp add: dvd_eq_mod_eq_0 [symmetric])
  finally have "DV e dvd v + u * M" by (simp add: dvd_eq_mod_eq_0)
  then have "DV e ^ Suc i dvd P * (v + u * M)" unfolding P(2) by (simp add: mult.commute [of _ P])
  then have dv: "DV e ^ Suc i dvd val (DV e) x3" by (simp add: x3(3) v2 v algebra_simps)
  have s: "mont_loop e z (Suc n) i x = mont_loop e z n (Suc i) x3"
    by (simp add: Let_def u_def [symmetric] t_def [symmetric] am x2_def [symmetric] x3(1))
  have "\<exists>U. length (mont_loop e z n (Suc i) x3) = length x3 \<and> digits_in (DV e) (mont_loop e z n (Suc i) x3) \<and> 0 \<le> U \<and>
      U \<le> DV e ^ (Suc i + n) - DV e ^ Suc i \<and> val (DV e) (mont_loop e z n (Suc i) x3) = val (DV e) x3 + U * val (DV e) (digs (mm z)) \<and>
      DV e ^ (Suc i + n) dvd val (DV e) (mont_loop e z n (Suc i) x3)"
    using Suc.prems(2,3) bound x3(2,3,4) dv by (intro Suc.IH) (simp_all add: M_def P_def)
  then obtain U where U: "length (mont_loop e z n (Suc i) x3) = length x" "digits_in (DV e) (mont_loop e z n (Suc i) x3)" "0 \<le> U"
      "U \<le> DV e ^ (i + Suc n) - DV e * P" "val (DV e) (mont_loop e z n (Suc i) x3) = val (DV e) x3 + U * M"
      "DV e ^ (i + Suc n) dvd val (DV e) (mont_loop e z n (Suc i) x3)"
    by (auto simp: x3(2) M_def P_def)
  have "val (DV e) (mont_loop e z n (Suc i) x3) = val (DV e) x + (U + u * P) * M"
    using U(5) by (simp add: x3(3) v2 algebra_simps)
  moreover have "0 \<le> U + u * P" "U + u * P \<le> DV e ^ (i + Suc n) - DV e ^ i" using U(3,4) ub P(1) uP(1) by (simp_all add: P_def [symmetric])
  ultimately show ?case unfolding s using U(1,2,6) by (intro exI [of _ "U + u * P"]) (simp add: M_def)
qed

lemma ok_drShiftTo:
  assumes "ok_big e b" "n \<le> bt b"
  shows "ok_big e (drShiftTo n b)" "bval e (drShiftTo n b) = bval e b div DV e ^ n"
proof -
  have wf: "wf_big e b" using assms(1) by (simp add: ok_big_def)
  have "digs (drShiftTo n b) = [] \<or> last (digs (drShiftTo n b)) = last (digs b) \<and> digs b \<noteq> []"
    using assms(2) by (cases "n = bt b") (auto simp: drShiftTo_def last_drop)
  then show "ok_big e (drShiftTo n b)" using assms(1) by (auto simp: ok_big_def wf_big_def clamped_def drShiftTo_def)
  show "bval e (drShiftTo n b) = bval e b div DV e ^ n"
    using bval_drop [OF wf assms(2)] by (simp add: drShiftTo_def bval_def)
qed

lemma ok_drShiftTo_nonneg:
  assumes "ok_big e b" "sg b = 0"
  shows "ok_big e (drShiftTo n b)" "bval e (drShiftTo n b) = bval e b div DV e ^ n"
proof -
  have wf: "wf_big e b" using assms(1) by (simp add: ok_big_def)
  have "ok_big e (drShiftTo n b) \<and> bval e (drShiftTo n b) = bval e b div DV e ^ n"
  proof (cases "n \<le> bt b")
    case False
    have "DV e ^ bt b \<le> DV e ^ n" using False DV_bounds(2) [of e] by (intro power_increasing) auto
    then have "bval e b div DV e ^ n = 0" using bval_range(1,2) [OF wf assms(2)] by simp
    then show ?thesis using False assms(2) by (simp add: drShiftTo_def ok_big_def wf_big_def clamped_def bval_def)
  qed (use ok_drShiftTo [OF assms(1)] in blast)
  then show "ok_big e (drShiftTo n b)" "bval e (drShiftTo n b) = bval e b div DV e ^ n" by blast+
qed

lemma n_digits_power:
  assumes "0 < m"
  shows "DV e ^ (n_digits e m - 1) \<le> m" "m < DV e ^ n_digits e m" "0 < n_digits e m" "digs (big_of e m) \<noteq> []" "sg (big_of e m) = 0"
proof -
  note b = big_of_ok [of e m]
  have s: "sg (big_of e m) = 0" using assms by (simp add: big_of_def)
  have wf: "wf_big e (big_of e m)" using b by (simp add: ok_big_def)
  have ne: "digs (big_of e m) \<noteq> []" using b assms s by (auto simp: bval_def)
  then show "digs (big_of e m) \<noteq> []" "sg (big_of e m) = 0" "0 < n_digits e m" using s by (simp_all add: n_digits_def)
  show "DV e ^ (n_digits e m - 1) \<le> m" "m < DV e ^ n_digits e m"
    using bval_lead(1) [of e "big_of e m"] bval_range(2) [OF wf s] b ne s by (simp_all add: n_digits_def)
qed

lemma mont_reduce_ok:
  assumes m: "ok_big e m" "sg m = 0" "digs m \<noteq> []" "odd (bval e m)"
    and x: "ok_big e x" "0 \<le> bval e x" "bval e x < bval e m * DV e ^ bt m"
  defines "r \<equiv> mont_reduce e (Montgomery e m) x"
  shows "ok_big e r" "0 \<le> bval e r" "bval e r < bval e m" "bval e r * DV e ^ bt m mod bval e m = bval e x mod bval e m"
proof -
  define z t R M where "z = Montgomery e m" and "t = bt m" and "R = DV e ^ t" and "M = bval e m"
  have zs: "mm z = m" "mt2 z = 2 * t" "mp z = invDigit e m" by (simp_all add: z_def Montgomery_def Let_def t_def)
  have dm: "digits_in (DV e) (digs m)" using m(1) by (simp add: ok_big_def wf_big_def)
  have Mv: "M = val (DV e) (digs m)" using m(2) by (simp add: M_def bval_def)
  have odd0: "odd (digs m ! 0)"
    using m(3,4) DV_even [of e] unfolding M_def [symmetric] Mv by (cases "digs m") simp_all
  note inv = invDigit_ok [OF dm m(3) odd0]
  have wfm: "wf_big e m" using m(1) by (simp add: ok_big_def)
  have MR: "0 < M" "M < R" using bval_range(1,2) [OF wfm m(2)] m(4) unfolding M_def R_def t_def by (auto simp: less_le)
  have R: "0 < R" using DV_bounds(1) by (simp add: R_def)
  have wfx: "wf_big e x" using x(1) by (simp add: ok_big_def)
  have sx: "sg x = 0" using sg_cases [OF wfx] x(2) by simp
  have xM: "bval e x < M * R" using x(3) by (simp add: M_def R_def t_def)
  have RR: "M * R < R * R" using MR R by simp
  have bx: "bt x \<le> 2 * t"
  proof (cases "digs x = []")
    case False
    have "DV e ^ (bt x - 1) < DV e ^ (2 * t)"
      using bval_lead(1) [OF x(1) False sx] xM RR by (simp add: R_def mult_2 power_add)
    then have "bt x - 1 < 2 * t" by (rule power_less_imp_less_exp [rotated]) (use DV_bounds(2) [of e] in simp)
    then show ?thesis using False by simp
  qed simp
  define pad where "pad = digs x @ replicate (Suc (mt2 z) - bt x) 0"
  have pad: "digits_in (DV e) pad" "length pad = Suc (2 * t)" "val (DV e) pad = bval e x"
    using wfx bx sx DV_bounds(1) by (simp_all add: pad_def zs wf_big_def digits_in_replicate0 val_append val_replicate0 bval_def)
  have "(R - 1) * M = M * R - M" by (simp add: algebra_simps)
  then have "bval e x + (R - 1) * M < 2 * (R * R)" using xM RR MR by linarith
  also have "\<dots> \<le> DV e * (R * R)" using DV_bounds(2) [of e] R by (intro mult_right_mono) auto
  also have "\<dots> = DV e ^ length pad" by (simp add: pad(2) R_def power_add mult_2)
  finally have bound: "bval e x + (R - 1) * M < DV e ^ length pad" .
  have "\<exists>U. length (mont_loop e z t 0 pad) = length pad \<and> digits_in (DV e) (mont_loop e z t 0 pad) \<and> 0 \<le> U \<and> U \<le> DV e ^ (0 + t) - DV e ^ 0 \<and>
    val (DV e) (mont_loop e z t 0 pad) = val (DV e) pad + U * val (DV e) (digs (mm z)) \<and>
    DV e ^ (0 + t) dvd val (DV e) (mont_loop e z t 0 pad)"
    using inv dm m(3) pad bound
    by (intro mont_loop_ok) (simp_all add: zs z_def Montgomery_def Let_def t_def R_def Mv)
  then obtain U where U: "digits_in (DV e) (mont_loop e z t 0 pad)" "0 \<le> U" "U \<le> R - 1"
      "val (DV e) (mont_loop e z t 0 pad) = bval e x + U * M" "R dvd bval e x + U * M" "length (mont_loop e z t 0 pad) = Suc (2 * t)"
    using pad by (auto simp: zs R_def Mv)
  define c where "c = clamp e (x\<lparr>digs := mont_loop e z t 0 pad\<rparr>)"
  have wfc: "wf_big e (x\<lparr>digs := mont_loop e z t 0 pad\<rparr>)" using U(1) wfx by (simp add: wf_big_def)
  have c: "ok_big e c" "bval e c = bval e x + U * M" "sg c = 0"
    using clamp_ok [OF wfc] U(4) sx by (simp_all add: c_def bval_def)
  define y where "y = drShiftTo t c"
  have y: "ok_big e y" "bval e y = (bval e x + U * M) div R"
    using ok_drShiftTo_nonneg [OF c(1,3)] c(2) by (simp_all add: y_def R_def)
  have yR: "bval e y * R = bval e x + U * M" using U(5) by (simp add: y(2))
  have y0: "0 \<le> bval e y" unfolding y(2) using x(2) U(2) MR R by (intro div_nonneg) simp_all
  have "U * M \<le> (R - 1) * M" using U(3) MR by (intro mult_right_mono) simp_all
  also have "(R - 1) * M = M * R - M" by (simp add: algebra_simps)
  finally have "bval e x + U * M < 2 * (M * R)" using xM MR by linarith
  then have "bval e y * R < (2 * M) * R" unfolding yR by simp
  then have y2: "bval e y < 2 * M" using R by (simp only: mult_less_cancel_right_pos)
  have r: "r = (if compareTo y m \<ge> 0 then subTo e y m else y)"
    by (simp add: r_def mont_reduce_def Let_def z_def [symmetric] zs t_def [symmetric] pad_def [unfolded zs, symmetric] c_def [symmetric] y_def [symmetric])
  have wfy: "wf_big e y" using y(1) by (simp add: ok_big_def)
  note st = subTo_ok [OF wfy wfm]
  have rv: "bval e r = (if M \<le> bval e y then bval e y - M else bval e y)"
    using compareTo_ge [OF y(1) m(1)] st(2) by (simp add: r M_def)
  show "ok_big e r" using y(1) st(1) by (simp add: r)
  show "0 \<le> bval e r" "bval e r < bval e m" using rv y0 y2 by (simp_all add: M_def)
  have "bval e r * R mod M = bval e y * R mod M"
    by (simp add: rv left_diff_distrib) (metis mod_diff_right_eq mod_mult_self1_is_0 diff_zero mult.commute)
  also have "\<dots> = bval e x mod M" by (simp add: yR)
  finally show "bval e r * DV e ^ bt m mod bval e m = bval e x mod bval e m" by (simp add: R_def t_def M_def)
qed

lemma redc_ok:
  assumes "0 < m" "odd m" "0 \<le> x" "x < m * DV e ^ n_digits e m"
  shows "0 \<le> redc e m x" "redc e m x < m" "redc e m x * DV e ^ n_digits e m mod m = x mod m"
  using mont_reduce_ok [of e "big_of e m" "big_of e x"] big_of_ok [of e m] big_of_ok [of e x] n_digits_power [OF assms(1), of e] assms
  by (simp_all add: redc_def n_digits_def)

section \<open>Barrett reduction\<close>

text \<open>The columns from \<open>n\<close> upwards of a product.\<close>

definition high_part :: "int \<Rightarrow> int list \<Rightarrow> int list \<Rightarrow> nat \<Rightarrow> int" where
  "high_part B xs ys n = (\<Sum>i<length ys. ys ! i * val B (drop (n - i) xs))"

lemma mul_up_loop_ok:
  assumes "digits_in (DV e) xs" "digits_in (DV e) ys" "i + k = length ys" "n \<le> length xs + i" "length ys \<le> Suc n"
    "digits_in (DV e) r" "length r = length xs + length ys - n" "\<And>j. length xs + i - n \<le> j \<Longrightarrow> j < length r \<Longrightarrow> r ! j = 0"
  shows "digits_in (DV e) (mul_up_loop e xs ys n k i r) \<and>
    val (DV e) (mul_up_loop e xs ys n k i r) = val (DV e) r + (\<Sum>j\<in>{i..<length ys}. ys ! j * val (DV e) (drop (n - j) xs))"
  using assms(3-)
proof (induction k arbitrary: i r)
  case 0
  then show ?case by simp
next
  case (Suc k)
  define t where "t = length xs + i - n"
  obtain r' c where a: "am e (n - i) (ys ! i) xs r 0 0 t = (r', c)" by fastforce
  have i: "i < length ys" "i \<le> n" using Suc.prems(1,3) by simp_all
  have y: "0 \<le> ys ! i" "ys ! i < DV e" using digits_in_nth [OF assms(2) i(1)] by simp_all
  have t: "t < length r" "n - i + t = length xs" using Suc.prems i by (simp_all add: t_def)
  have df: "digits_from (DV e) r 0 t" using t by (intro digits_in_from Suc.prems(4)) simp
  have n: "n - i + t \<le> length xs" "ys ! i < 2 * DV e" "0 < 3 * DV e" using t y DV_bounds(1) [of e] by simp_all
  note ko = km.kernel_ok [OF assms(1) df n(1) y(1) n(2) order_refl n(3) a]
  define r2 where "r2 = r'[t := c]"
  have c: "0 \<le> c" "c < DV e" using ko(5,7) y by auto
  have len: "length r2 = length r" using ko(1) by (simp add: r2_def)
  have "digits_in (DV e) r'"
    using digits_in_nth [OF Suc.prems(4)] by (intro digits_from_all [OF ko(3)]) (simp add: ko(1,2))
  then have d2: "digits_in (DV e) r2" using c by (auto simp: r2_def)
  have "r' ! t = 0" using ko(2) [of t] Suc.prems(6) [of t] t by (simp add: t_def)
  moreover have "take t (drop (n - i) xs) = drop (n - i) xs" using t by simp
  ultimately have v2: "val (DV e) r2 = val (DV e) r + ys ! i * val (DV e) (drop (n - i) xs)"
    using ko(1,4) t by (simp add: r2_def val_update)
  have z: "r2 ! j = 0" if "length xs + Suc i - n \<le> j" "j < length r2" for j
    using that ko(2) [of j] Suc.prems(2) Suc.prems(6) [of j] len by (simp add: r2_def t_def)
  have s: "mul_up_loop e xs ys n (Suc k) i r = mul_up_loop e xs ys n k (Suc i) r2"
    by (simp add: t_def [symmetric] a r2_def)
  have "digits_in (DV e) (mul_up_loop e xs ys n k (Suc i) r2) \<and>
    val (DV e) (mul_up_loop e xs ys n k (Suc i) r2) = val (DV e) r2 + (\<Sum>j\<in>{Suc i..<length ys}. ys ! j * val (DV e) (drop (n - j) xs))"
    using Suc.prems(1-3,5) d2 z len by (intro Suc.IH) simp_all
  then show ?case unfolding s using v2 i(1) by (simp add: sum.atLeast_Suc_lessThan)
qed

lemma upper_bounds:
  assumes "digits_in (DV e) xs" "digits_in (DV e) ys" "length ys \<le> Suc n"
  shows "high_part (DV e) xs ys n * DV e ^ n \<le> val (DV e) xs * val (DV e) ys"
    "val (DV e) xs * val (DV e) ys \<le> (high_part (DV e) xs ys n + int (length ys) * DV e) * DV e ^ n" "0 \<le> high_part (DV e) xs ys n"
proof -
  have y: "0 \<le> ys ! i" "ys ! i \<le> DV e" if "i < length ys" for i using digits_in_nth [OF assms(2) that] by simp_all
  have v: "val (DV e) ys = (\<Sum>i<length ys. ys ! i * DV e ^ i)"
  proof (induction ys rule: rev_induct)
    case (snoc y ys)
    then show ?case by (simp add: val_snoc nth_append)
  qed simp
  have split: "val (DV e) xs * DV e ^ i = val (DV e) (take (n - i) xs) * DV e ^ i + val (DV e) (drop (n - i) xs) * DV e ^ n \<and>
      0 \<le> val (DV e) (take (n - i) xs) \<and> val (DV e) (take (n - i) xs) * DV e ^ i \<le> DV e ^ n" if "i < length ys" for i
  proof -
    have i: "i \<le> n" using that assms(3) by simp
    have d: "digits_in (DV e) (take (n - i) xs)" using assms(1) by auto
    note nn = radixDV.val_nonneg [OF d] and lt = radixDV.val_less [OF d]
    have "DV e ^ length (take (n - i) xs) \<le> DV e ^ (n - i)" using DV_bounds(2) [of e] by (intro power_increasing) auto
    then have "val (DV e) (take (n - i) xs) * DV e ^ i \<le> DV e ^ (n - i) * DV e ^ i"
      using lt DV_bounds(1) [of e] by (intro mult_right_mono) auto
    moreover have "val (DV e) xs * DV e ^ i = (val (DV e) (take (n - i) xs) + DV e ^ (n - i) * val (DV e) (drop (n - i) xs)) * DV e ^ i"
    proof (cases "n - i \<le> length xs")
      case True
      then show ?thesis using val_take_drop [of "DV e" xs "n - i"] by (simp add: min_absorb1)
    qed simp
    ultimately show ?thesis using nn i by (simp add: algebra_simps flip: power_add)
  qed
  have p: "val (DV e) xs * val (DV e) ys = (\<Sum>i<length ys. ys ! i * (val (DV e) xs * DV e ^ i))"
    by (simp add: v sum_distrib_left algebra_simps)
  have up: "high_part (DV e) xs ys n * DV e ^ n = (\<Sum>i<length ys. ys ! i * (val (DV e) (drop (n - i) xs) * DV e ^ n))"
    by (simp add: high_part_def sum_distrib_right mult.assoc)
  have D: "0 \<le> DV e ^ n" using DV_bounds(1) [of e] by simp
  show "high_part (DV e) xs ys n * DV e ^ n \<le> val (DV e) xs * val (DV e) ys"
    unfolding p up
  proof (intro sum_mono mult_left_mono)
    fix i assume "i \<in> {..<length ys}"
    then have i: "i < length ys" by simp
    have "0 \<le> val (DV e) (take (n - i) xs) * DV e ^ i" using split [OF i] DV_bounds(1) [of e] by simp
    then show "val (DV e) (drop (n - i) xs) * DV e ^ n \<le> val (DV e) xs * DV e ^ i" "0 \<le> ys ! i" using split [OF i] y(1) [OF i] by linarith+
  qed
  have "val (DV e) xs * val (DV e) ys \<le> (\<Sum>i<length ys. ys ! i * (val (DV e) (drop (n - i) xs) * DV e ^ n) + DV e * DV e ^ n)"
    unfolding p
  proof (rule sum_mono)
    fix i assume "i \<in> {..<length ys}"
    then have i: "i < length ys" by simp
    have "ys ! i * (val (DV e) (take (n - i) xs) * DV e ^ i) \<le> DV e * DV e ^ n"
      using split [OF i] y [OF i] D DV_bounds(1) [of e] by (intro mult_mono) auto
    moreover have "ys ! i * (val (DV e) xs * DV e ^ i) =
        ys ! i * (val (DV e) (take (n - i) xs) * DV e ^ i) + ys ! i * (val (DV e) (drop (n - i) xs) * DV e ^ n)"
      using split [OF i] by (simp add: distrib_left)
    ultimately show "ys ! i * (val (DV e) xs * DV e ^ i) \<le> ys ! i * (val (DV e) (drop (n - i) xs) * DV e ^ n) + DV e * DV e ^ n" by linarith
  qed
  also have "\<dots> = (high_part (DV e) xs ys n + int (length ys) * DV e) * DV e ^ n"
    by (simp add: sum.distrib up [symmetric] distrib_right)
  finally show "val (DV e) xs * val (DV e) ys \<le> (high_part (DV e) xs ys n + int (length ys) * DV e) * DV e ^ n" .
  show "0 \<le> high_part (DV e) xs ys n"
    unfolding high_part_def using y(1) assms(1) by (intro sum_nonneg mult_nonneg_nonneg) (auto intro: radixDV.val_nonneg)
qed

lemma multiplyUpperTo_ok:
  assumes "ok_big e this" "ok_big e a" "sg this = 0" "sg a = 0" "bt a \<le> Suc n"
  shows "ok_big e (multiplyUpperTo e this a (Suc n))" "sg (multiplyUpperTo e this a (Suc n)) = 0"
    "bval e (multiplyUpperTo e this a (Suc n)) = high_part (DV e) (digs this) (digs a) n div DV e"
proof -
  define xs ys i0 where "xs = digs this" and "ys = digs a" and "i0 = n - bt this"
  have d: "digits_in (DV e) xs" "digits_in (DV e) ys" using assms(1,2) by (simp_all add: ok_big_def wf_big_def xs_def ys_def)
  define r where "r = mul_up_loop e xs ys n (length ys - i0) i0 (replicate (length xs + length ys - n) 0)"
  have z: "ys ! i * val (DV e) (drop (n - i) xs) = 0" if "i < i0" for i
    using that by (simp add: i0_def xs_def)
  have r: "digits_in (DV e) r \<and> val (DV e) r = high_part (DV e) xs ys n"
  proof (cases "i0 \<le> length ys")
    case True
    have "digits_in (DV e) r \<and> val (DV e) r = val (DV e) (replicate (length xs + length ys - n) 0) +
        (\<Sum>j\<in>{i0..<length ys}. ys ! j * val (DV e) (drop (n - j) xs))"
      unfolding r_def using True assms(5) d DV_bounds(1) [of e]
      by (intro mul_up_loop_ok) (auto simp: i0_def xs_def ys_def digits_in_replicate0)
    moreover have "high_part (DV e) xs ys n = (\<Sum>j\<in>{i0..<length ys}. ys ! j * val (DV e) (drop (n - j) xs))"
      unfolding high_part_def lessThan_atLeast0 using z True by (intro sum.mono_neutral_right) (auto simp del: mult_eq_0_iff)
    ultimately show ?thesis by (simp add: val_replicate0)
  next
    case False
    then have "high_part (DV e) xs ys n = 0" unfolding high_part_def using z by (intro sum.neutral) auto
    moreover have "r = []" using False by (simp add: r_def i0_def xs_def)
    ultimately show ?thesis by simp
  qed
  have wf: "wf_big e \<lparr>digs = r, sg = 0\<rparr>" using r by (simp add: wf_big_def)
  note c = clamp_ok [OF wf]
  have "sg (clamp e \<lparr>digs = r, sg = 0\<rparr>) = 0" using c(3) by simp
  note dr = ok_drShiftTo_nonneg [OF c(1) this, of 1]
  have m: "multiplyUpperTo e this a (Suc n) = drShiftTo 1 (clamp e \<lparr>digs = r, sg = 0\<rparr>)"
    by (simp add: multiplyUpperTo_def Let_def r_def xs_def ys_def i0_def)
  show "ok_big e (multiplyUpperTo e this a (Suc n))" using dr(1) by (simp only: m)
  show "sg (multiplyUpperTo e this a (Suc n)) = 0" using c(3) by (simp add: m drShiftTo_def)
  show "bval e (multiplyUpperTo e this a (Suc n)) = high_part (DV e) (digs this) (digs a) n div DV e"
    using dr(2) c(2) r by (simp add: m bval_def xs_def ys_def)
qed

lemma barrett_up_ok:
  assumes "0 \<le> x" "x < s" "0 \<le> r" "r < s"
  shows "barrett_up s x r = (if x < r then x + s else x)"
  using assms by (simp add: barrett_up.simps [of s x r] barrett_up.simps [of s "x + s" r])

lemma barrett_down_ok: "0 < m \<Longrightarrow> 0 \<le> x \<Longrightarrow> barrett_down m x = x mod m"
proof (induction m x rule: barrett_down.induct)
  case (1 m x)
  then show ?case by (subst barrett_down.simps) (auto simp: mod_pos_pos_trivial)
qed

text \<open>The approximate quotient is never too large, and too small by less than \<open>t + 4\<close>.\<close>

lemma barrett_quotient:
  fixes x m B q1 mu u q3 :: int and t :: nat
  assumes t: "0 < t" and B: "2 \<le> B" and m: "B ^ (t - 1) \<le> m" "m < B ^ t" and x: "0 \<le> x" "x < B ^ (2 * t)"
    and q1: "q1 = x div B ^ (t - 1)" and mu: "mu = B ^ (2 * t) div m"
    and u: "0 \<le> u" "u * B ^ t \<le> mu * q1" "mu * q1 \<le> (u + (int t + 1) * B) * B ^ t" and q3: "q3 = u div B"
  shows "0 \<le> q3" "q3 * m \<le> x" "x - q3 * m < (int t + 4) * m"
proof -
  define P where "P = B ^ (t - 1)"
  have P: "0 < P" "B ^ t = B * P" "B ^ (2 * t) = B * B * P * P"
    using t B by (simp_all add: P_def mult_2 power_add flip: power_Suc) (simp flip: power_Suc add: power_add [symmetric] mult.assoc)
  have m0: "0 < m" using m(1) P(1) by (simp add: P_def)
  show q0: "0 \<le> q3" using u(1) B by (simp add: q3 pos_imp_zdiv_nonneg_iff)
  have a: "q3 * B \<le> u" "u < (q3 + 1) * B"
    using div_floor [of B u] B by (simp_all add: q3)
  have b: "q1 * P \<le> x" "x < (q1 + 1) * P" "0 \<le> q1"
    unfolding q1 P_def [symmetric] using P(1) div_floor [of P x] x(1) by (simp_all add: pos_imp_zdiv_nonneg_iff)
  have c: "mu * m \<le> B * B * P * P" "B * B * P * P < (mu + 1) * m" "0 \<le> mu"
    using m0 P B div_floor [of m "B * B * P * P"] by (simp_all add: mu P(3) pos_imp_zdiv_nonneg_iff)
  have BP: "0 < B * P" using B P(1) by simp
  have "q3 * m * (B * (B * P) * P) \<le> u * (B * P) * (m * P)"
    using mult_right_mono [OF a(1), of "B * P * (m * P)"] m0 P(1) B by (simp add: mult_ac)
  also have "\<dots> \<le> mu * q1 * (m * P)" using u(2) m0 P(1) by (intro mult_right_mono) (simp_all add: P(2))
  also have "\<dots> = (mu * m) * (q1 * P)" by (simp add: mult_ac)
  also have "\<dots> \<le> (B * B * P * P) * x" using b(3) B P(1) by (intro mult_mono [OF c(1) b(1)]) simp_all
  finally have "q3 * m * (B * B * P * P) \<le> x * (B * B * P * P)" by (simp add: mult_ac)
  moreover have K: "0 < B * B * P * P" using B P(1) by simp
  ultimately show "q3 * m \<le> x" by (simp only: mult_le_cancel_right_pos)
  have x': "x < B * B * P * P" using x(2) by (simp add: P(3))
  have "x * (B * B * P * P) < (q1 * P + P) * (B * B * P * P)" using b(2) K by (intro mult_strict_right_mono) (simp_all add: distrib_right)
  also have "\<dots> = q1 * P * (B * B * P * P) + P * (B * B * P * P)" by (simp add: distrib_right)
  also have "q1 * P * (B * B * P * P) \<le> q1 * P * ((mu + 1) * m)" using b(3) P(1) c(2) by (intro mult_left_mono) simp_all
  also have "q1 * P * ((mu + 1) * m) = mu * q1 * (m * P) + q1 * P * m" by (simp add: algebra_simps)
  also have "mu * q1 * (m * P) \<le> (u + (int t + 1) * B) * (B * P) * (m * P)" using u(3) m0 P(1) by (intro mult_right_mono) (simp_all add: P(2))
  also have "(u + (int t + 1) * B) * (B * P) * (m * P) \<le> ((q3 + 1) * B + (int t + 1) * B) * (B * P) * (m * P)"
    using a(2) BP m0 P(1) by (intro mult_right_mono) simp_all
  also have "((q3 + 1) * B + (int t + 1) * B) * (B * P) * (m * P) = (q3 + int t + 2) * m * (B * B * P * P)" by (simp add: algebra_simps)
  also have "q1 * P * m \<le> B * B * P * P * m" by (rule mult_right_mono [OF order_trans [OF b(1) less_imp_le [OF x']] less_imp_le [OF m0]])
  also have "P * (B * B * P * P) \<le> m * (B * B * P * P)" using m(1) K by (intro mult_right_mono) (simp_all add: P_def)
  finally have "x * (B * B * P * P) < (q3 + int t + 4) * m * (B * B * P * P)" by (simp add: algebra_simps)
  then have "x < (q3 + int t + 4) * m" using K by (simp only: mult_less_cancel_right_pos)
  then show "x - q3 * m < (int t + 4) * m" by (simp add: algebra_simps)
qed

lemma big_of_length:
  assumes "0 \<le> x" "x < DV e ^ n"
  shows "n_digits e x \<le> n" "sg (big_of e x) = 0"
  using length_to_digits [OF DV_bounds(2) assms] assms(1) by (simp_all add: n_digits_def big_of_def)

lemma power_mod_self:
  fixes a m q3 T :: int
  assumes "0 \<le> a - q3 * m" "a - q3 * m < T"
  shows "(if a mod T < q3 * m mod T then a mod T + T else a mod T) - q3 * m mod T = a - q3 * m"
proof -
  have T: "0 < T" using assms by linarith
  have "(a mod T - q3 * m mod T) mod T = (a - q3 * m) mod T" by (rule mod_diff_eq)
  then have m: "(a mod T - q3 * m mod T) mod T = a - q3 * m" using assms by simp
  have b: "0 \<le> a mod T" "a mod T < T" "0 \<le> q3 * m mod T" "q3 * m mod T < T" using T by simp_all
  show ?thesis
  proof (cases "a mod T < q3 * m mod T")
    case True
    then have "(a mod T - q3 * m mod T) mod T = a mod T - q3 * m mod T + T"
      using b by (subst mod_add_self2 [symmetric]) (intro mod_pos_pos_trivial; linarith)
    then show ?thesis using m True by simp
  next
    case False
    then have "(a mod T - q3 * m mod T) mod T = a mod T - q3 * m mod T" using b by (intro mod_pos_pos_trivial) linarith+
    then show ?thesis using m False by simp
  qed
qed

lemma barrett_reduce_ok:
  assumes "0 < m" "0 \<le> x" "x < DV e ^ (2 * n_digits e m)" "int (n_digits e m) + 4 \<le> DV e"
  shows "barrett_reduce e m x = x mod m"
proof -
  define t where "t = n_digits e m"
  note m = n_digits_power [OF assms(1), of e, folded t_def]
  note B = DV_bounds(2) [of e]
  define T where "T = DV e ^ (t + 1)"
  have T: "0 < T" using B by (simp add: T_def)
  have Tt: "DV e ^ t * DV e = T" by (simp add: T_def)
  define q1 mu where "q1 = x div DV e ^ (t - 1)" and "mu = DV e ^ (2 * t) div m"
  define r2 where "r2 = drShiftTo (t - 1) (big_of e x)"
  note bx = big_of_ok [of e x] big_of_length [OF assms(2,3)]
  have r2: "ok_big e r2" "bval e r2 = q1"
    using ok_drShiftTo_nonneg [of e "big_of e x" "t - 1"] bx by (simp_all add: r2_def q1_def)
  have "bt r2 = n_digits e x - (t - 1)" by (simp add: r2_def drShiftTo_def n_digits_def)
  then have r2: "ok_big e r2" "bval e r2 = q1" "bt r2 \<le> t + 1" using r2 bx(2) m(3) unfolding t_def [symmetric] by simp_all
  have q10: "0 \<le> q1" using assms(2) B by (simp add: q1_def pos_imp_zdiv_nonneg_iff)
  have sr: "sg r2 = 0" using sg_cases [of e r2] r2 q10 by (simp add: ok_big_def)
  have mu0: "0 \<le> mu" using assms(1) B by (simp add: mu_def pos_imp_zdiv_nonneg_iff)
  note bm = big_of_ok [of e mu]
  have sm: "sg (big_of e mu) = 0" using mu0 by (simp add: big_of_def)
  define u where "u = high_part (DV e) (digs (big_of e mu)) (digs r2) t"
  define q3 where "q3 = multiplyUpperTo e (big_of e mu) r2 (t + 1)"
  have q3: "ok_big e q3" "sg q3 = 0" "bval e q3 = u div DV e"
    using multiplyUpperTo_ok [OF bm [THEN conjunct1] r2(1) sm sr, of t] r2(3) by (simp_all add: q3_def u_def)
  have v: "val (DV e) (digs (big_of e mu)) = mu" "val (DV e) (digs r2) = q1"
    using bm sm r2(2) sr by (simp_all add: bval_def)
  have dg: "digits_in (DV e) (digs (big_of e mu))" "digits_in (DV e) (digs r2)" using bm r2(1) by (simp_all add: ok_big_def wf_big_def)
  have "bt r2 \<le> Suc t" using r2(3) by simp
  note ub = upper_bounds [OF dg this, unfolded v, folded u_def]
  have "u + int (bt r2) * DV e \<le> u + (int t + 1) * DV e" using r2(3) B by (intro add_left_mono mult_right_mono) simp_all
  then have "(u + int (bt r2) * DV e) * DV e ^ t \<le> (u + (int t + 1) * DV e) * DV e ^ t" using B by (intro mult_right_mono) simp_all
  then have "mu * q1 \<le> (u + (int t + 1) * DV e) * DV e ^ t" using ub(2) by linarith
  note q = barrett_quotient [OF m(3) B m(1,2) assms(2) assms(3) [folded t_def] q1_def mu_def ub(3,1) this q3(3)]
  have "(int t + 4) * m \<le> DV e * m" using assms(1,4) by (intro mult_right_mono) (simp_all add: t_def)
  also have "\<dots> < DV e * DV e ^ t" using m(2) B by (intro mult_strict_left_mono) simp_all
  finally have "(int t + 4) * m < DV e * DV e ^ t" .
  then have lt: "x - bval e q3 * m < T" using q(3) Tt by (simp add: mult.commute)
  have q0: "0 \<le> x - bval e q3 * m" using q(2) by simp
  have bmm: "ok_big e (big_of e m)" "bval e (big_of e m) = m" "sg (big_of e m) = 0" using big_of_ok m(5) by auto
  have low: "bval e (multiplyLowerTo e (big_of e m) q3 (t + 1)) = bval e q3 * m mod T"
    using multiplyLowerTo_ok(2) [OF bmm(1) q3(1) bmm(3) q3(2)] bmm(2) by (simp add: T_def mult.commute)
  have x1: "(if n_digits e x > t + 1 then bval e (clamp e (big_of e x\<lparr>digs := take (t + 1) (digs (big_of e x))\<rparr>)) else x) = x mod T"
  proof (cases "n_digits e x > t + 1")
    case True
    have d: "digits_in (DV e) (digs (big_of e x))" using bx by (simp add: ok_big_def wf_big_def)
    have vx: "val (DV e) (digs (big_of e x)) = x" using bx by (simp add: bval_def)
    have "wf_big e (big_of e x\<lparr>digs := take (t + 1) (digs (big_of e x))\<rparr>)" using d bx by (simp add: wf_big_def digits_in_take)
    then show ?thesis using True clamp_ok(2) radixDV.val_take [OF d] vx bx by (simp add: bval_def T_def)
  next
    case False
    have "x < DV e ^ n_digits e x"
    proof (cases "x = 0")
      case False
      then show ?thesis using n_digits_power(2) [of x e] assms(2) by simp
    qed (use B in simp)
    also have "\<dots> \<le> T" using False B unfolding T_def by (intro power_increasing) simp_all
    finally show ?thesis using False assms(2) by simp
  qed
  have up: "barrett_up T (x mod T) (bval e q3 * m mod T) = (if x mod T < bval e q3 * m mod T then x mod T + T else x mod T)"
    using T by (intro barrett_up_ok) simp_all
  have "barrett_reduce e m x = barrett_down m (x - bval e q3 * m)"
    unfolding barrett_reduce_def Let_def barrett_mu_def t_def [symmetric] mu_def [symmetric] r2_def [symmetric] q3_def [symmetric]
      low x1 T_def [symmetric] up power_mod_self [OF q0 lt] by (rule refl)
  also have "\<dots> = (x - bval e q3 * m) mod m" using assms(1) q0 by (rule barrett_down_ok)
  also have "\<dots> = x mod m" using mod_mult_self1 [of "x - bval e q3 * m" "bval e q3" m] by simp
  finally show ?thesis .
qed

end
