(* ===== verification/BigExp.thy ===== *)
theory BigExp
  imports BigReduce
begin

text \<open>
  Modular exponentiation in \<open>src/biginteger.js\<close>. The locale \<open>reducer\<close> states what \<open>exp\<close> and \<open>modPow\<close> rely
  on: a reducer converts a number to a representation of its residue, and multiplies and squares
  representations. The binary and the sliding-window algorithm are proved correct inside it, for every
  reducer; the four reducers of the code are instances of it.
\<close>

section \<open>What a reducer promises\<close>

locale reducer =
  fixes z :: reducer_ops and m :: int and rel :: "int \<Rightarrow> int \<Rightarrow> bool"
  assumes convert_rel: "rel (convert z x) x"
    and mul_rel: "rel a x \<Longrightarrow> rel b y \<Longrightarrow> rel (mulTo z a b) (x * y)"
    and sqr_rel: "rel a x \<Longrightarrow> rel (sqrTo z a) (x * x)"
    and revert_rel: "rel a x \<Longrightarrow> revert z a = x mod m"

interpretation null_exp: reducer NullExp 0 "(=)"
  by unfold_locales (simp_all add: NullExp_def)

lemma classic_reducer:
  assumes "0 < m"
  shows "reducer (Classic m) m (\<lambda>a x. a = x mod m)"
proof
  show "convert (Classic m) x = x mod m" for x using assms by (simp add: Classic_def)
  show "mulTo (Classic m) a b = x * y mod m" if "a = x mod m" "b = y mod m" for a b x y
    using that assms by (simp add: Classic_def js_rem_mod(4) mod_mult_eq)
  show "sqrTo (Classic m) a = x * x mod m" if "a = x mod m" for a x
    using that assms by (simp add: Classic_def js_rem_mod(4) mod_mult_eq)
  show "revert (Classic m) a = x mod m" if "a = x mod m" for a x using that by (simp add: Classic_def)
qed

lemma small_product:
  fixes a b m :: int
  assumes "0 \<le> a" "a < m" "0 \<le> b" "b < m" "m \<le> n"
  shows "0 \<le> a * b" "a * b < m * n"
proof -
  show "0 \<le> a * b" using assms by simp
  have "a * b < m * m" using assms by (intro mult_strict_mono) simp_all
  also have "\<dots> \<le> m * n" using assms by (intro mult_left_mono) simp_all
  finally show "a * b < m * n" .
qed

lemma barrett_reducer:
  assumes "0 < m" "int (n_digits e m) + 4 \<le> DV e"
  shows "reducer (Barrett_ops e m) m (\<lambda>a x. a = x mod m)"
proof
  note b = n_digits_power(2) [OF assms(1), of e]
  have B: "barrett_reduce e m (a * c) = a * c mod m" if "a = x mod m" "c = y mod m" for a c x y
  proof (rule barrett_reduce_ok [OF assms(1) _ _ assms(2)])
    note p = small_product [of a m c "DV e ^ n_digits e m"]
    show "0 \<le> a * c" using p that assms(1) b by simp
    have "a * c < m * DV e ^ n_digits e m" using p that assms(1) b by simp
    also have "\<dots> \<le> DV e ^ (2 * n_digits e m)"
      using b DV_bounds(1) [of e] by (simp add: mult_2 power_add mult_right_mono)
    finally show "a * c < DV e ^ (2 * n_digits e m)" .
  qed
  show "convert (Barrett_ops e m) x = x mod m" for x
  proof -
    have "barrett_reduce e m x = x mod m" if "0 \<le> x" "n_digits e x \<le> 2 * n_digits e m" "\<not> x < m"
    proof (rule barrett_reduce_ok [OF assms(1) that(1) _ assms(2)])
      have "x < DV e ^ n_digits e x" using n_digits_power(2) [of x e] that assms(1) by simp
      also have "\<dots> \<le> DV e ^ (2 * n_digits e m)" using that(2) DV_bounds(2) [of e] by (intro power_increasing) simp_all
      finally show "x < DV e ^ (2 * n_digits e m)" .
    qed
    then show ?thesis by (simp add: Barrett_ops_def)
  qed
  show "mulTo (Barrett_ops e m) a c = x * y mod m" if "a = x mod m" "c = y mod m" for a c x y
    using B [OF that] that by (simp add: Barrett_ops_def mod_mult_eq)
  show "sqrTo (Barrett_ops e m) a = x * x mod m" if "a = x mod m" for a x
    using B [OF that that] that by (simp add: Barrett_ops_def mod_mult_eq)
  show "revert (Barrett_ops e m) a = x mod m" if "a = x mod m" for a x using that by (simp add: Barrett_ops_def)
qed

text \<open>A residue in Montgomery's form.\<close>

definition mont_rel :: "engine \<Rightarrow> int \<Rightarrow> int \<Rightarrow> int \<Rightarrow> bool" where
  "mont_rel e m a x \<longleftrightarrow> a = x * DV e ^ n_digits e m mod m"

lemma coprime_cancel:
  fixes a b R m :: int
  assumes "odd m" "a * 2 ^ k mod m = b * 2 ^ k mod m"
  shows "a mod m = b mod m"
proof -
  have "m dvd (a - b) * 2 ^ k" using assms(2) by (simp add: mod_eq_dvd_iff left_diff_distrib)
  moreover have "coprime m (2 ^ k)" using assms(1) by (simp add: coprime_commute)
  ultimately show ?thesis by (simp add: coprime_dvd_mult_left_iff mod_eq_dvd_iff)
qed

lemma montgomery_reducer:
  assumes "0 < m" "odd m"
  shows "reducer (Montgomery_ops e m) m (mont_rel e m)"
proof
  define R where "R = DV e ^ n_digits e m"
  note b = n_digits_power(2) [OF assms(1), of e, folded R_def]
  have cancel: "a mod m = c mod m" if "a * R mod m = c * R mod m" for a c
    using coprime_cancel [OF assms(2), of a "DB e * n_digits e m" c] that by (simp add: R_def DV_eq power_mult)
  have red: "redc e m y = v mod m" if "0 \<le> y" "y < m * R" "y mod m = v * R mod m" for y v
  proof -
    note r = redc_ok [OF assms that(1), of e, folded R_def, OF that(2)]
    show ?thesis using cancel [of "redc e m y" v] r that(3) by simp
  qed
  show "mont_rel e m (convert (Montgomery_ops e m) x) x" for x
  proof -
    have a: "js_rem (\<bar>x\<bar> * R) m = \<bar>x\<bar> * R mod m"
      using assms(1) DV_bounds(1) [of e] by (intro js_rem_mod) (simp_all add: R_def)
    have "(if x < 0 \<and> \<bar>x\<bar> * R mod m > 0 then m - \<bar>x\<bar> * R mod m else \<bar>x\<bar> * R mod m) = x * R mod m"
    proof (cases "x < 0")
      case True
      then have "x * R mod m = (- (\<bar>x\<bar> * R)) mod m" by simp
      moreover have "0 \<le> \<bar>x\<bar> * R mod m" using assms(1) by simp
      ultimately show ?thesis using True zmod_zminus1_eq_if [of "\<bar>x\<bar> * R" m] by simp
    qed simp
    then show ?thesis unfolding Montgomery_ops_def mont_rel_def R_def [symmetric] reducer_ops.select_convs Let_def a .
  qed
  have prod: "redc e m (a * c) = x * y * R mod m" if "a = x * R mod m" "c = y * R mod m" for a c x y
  proof (rule red)
    show "0 \<le> a * c" "a * c < m * R" using small_product [of a m c R] that assms(1) b by simp_all
    show "a * c mod m = x * y * R * R mod m" using that by (simp add: mod_mult_eq mult_ac)
  qed
  show "mont_rel e m (mulTo (Montgomery_ops e m) a c) (x * y)" if "mont_rel e m a x" "mont_rel e m c y" for a c x y
    using prod [of a x c y] that by (simp add: mont_rel_def Montgomery_ops_def R_def)
  show "mont_rel e m (sqrTo (Montgomery_ops e m) a) (x * x)" if "mont_rel e m a x" for a x
    using prod [of a x a x] that by (simp add: mont_rel_def Montgomery_ops_def R_def)
  show "revert (Montgomery_ops e m) a = x mod m" if "mont_rel e m a x" for a x
  proof -
    have a: "a = x * R mod m" using that by (simp add: mont_rel_def R_def)
    have "m * 1 \<le> m * R" using assms(1) DV_bounds(1) [of e] by (intro mult_left_mono) (simp_all add: R_def)
    then have "a < m * R" using a pos_mod_bound [OF assms(1), of "x * R"] by linarith
    then show ?thesis using red [of a x] a assms(1) by (simp add: Montgomery_ops_def)
  qed
qed

section \<open>The binary algorithm\<close>

lemma js_test:
  assumes "i \<le> 30"
  shows "0 < js_and e (js_shl 1 (int i)) \<longleftrightarrow> bit e i"
proof -
  have p: "(2::int) ^ i \<le> 2 ^ 30" using assms by (intro power_increasing) auto
  then have s: "js_shl 1 (int i) = 2 ^ i" using assms by (subst js_shl_mult_pos) auto
  have t: "toInt32 (2 ^ i) = 2 ^ i" using p order_trans [of "- (2 ^ 31)" 0 "(2::int) ^ i"] by (intro toInt32_id) simp_all
  have "bit (toInt32 e) i \<longleftrightarrow> bit e i" using assms by (simp add: bit_toInt32)
  then have "js_and e (js_shl 1 (int i)) \<noteq> 0 \<longleftrightarrow> bit e i"
    by (simp add: js_and_def s t and_exp_eq_0_iff_not_bit)
  moreover have "0 \<le> js_and e (js_shl 1 (int i))" by (simp add: js_and_def s t)
  ultimately show ?thesis by linarith
qed

lemma half_step:
  fixes E i :: nat
  shows "E div 2 ^ i = 2 * (E div 2 ^ Suc i) + (if bit E i then 1 else 0)"
proof -
  have "E div 2 ^ Suc i = E div 2 ^ i div 2" by (simp only: power_Suc2 div_mult2_eq)
  then show ?thesis unfolding bit_iff_odd by simp
qed

context reducer
begin

lemma exp_loop_rel:
  assumes "rel g x" "i \<le> 31" "rel r (x ^ (E div 2 ^ i))"
  shows "rel (exp_loop z g (int E) i r) (x ^ E)"
  using assms(2,3)
proof (induction i arbitrary: r)
  case (Suc i)
  have s: "rel (sqrTo z r) (x ^ (2 * (E div 2 ^ Suc i)))" using sqr_rel [OF Suc.prems(2)] by (simp add: mult_2 power_add)
  have b: "0 < js_and (int E) (js_shl 1 (int i)) \<longleftrightarrow> bit E i" using js_test [of i "int E"] Suc.prems(1) by (simp add: bit_of_nat_iff_bit)
  have "rel (if bit E i then mulTo z (sqrTo z r) g else sqrTo z r) (x ^ (E div 2 ^ i))"
    unfolding half_step [of E i] using s mul_rel [OF s assms(1)] by (simp add: mult.commute [of x])
  then show ?case using Suc.IH Suc.prems(1) by (simp only: exp_loop.simps Let_def b)
qed simp

lemma exp_ok:
  assumes "1 \<le> e" "e \<le> 0xffffffff"
  shows "exp_big z x e = x ^ nat e mod m"
proof -
  define E i where "E = nat e" and "i = nat (nbits e - 1)"
  have e: "e = int E" using assms(1) by (simp add: E_def)
  have nb: "1 \<le> nbits e" "2 ^ i \<le> e" "e < 2 ^ nat (nbits e)" using nbits_ok [of e] assms by (simp_all add: i_def)
  have ni: "nat (nbits e) = Suc i" using nb(1) by (simp add: i_def)
  have "(2::int) ^ i < 2 ^ 32" using nb(2) assms(2) by simp
  then have i: "i \<le> 31" using power_less_imp_less_exp [of "2::int" i 32] by simp
  have "int (2 ^ i) \<le> int E" "int E < int (2 ^ Suc i)" using nb(2) nb(3) [unfolded ni] unfolding e by simp_all
  then have "2 ^ i \<le> E" "E < 2 ^ Suc i" by (simp_all only: of_nat_le_iff of_nat_less_iff)
  then have "E div 2 ^ i = 1" by (intro div_nat_eqI) simp_all
  then have "rel (exp_loop z (convert z x) (int E) i (convert z x)) (x ^ E)"
    by (intro exp_loop_rel convert_rel i) (simp add: convert_rel)
  from revert_rel [OF this] show ?thesis
    using assms unfolding exp_big_def Let_def i_def [symmetric] by (simp add: e [symmetric] E_def)
qed

end

section \<open>The windows of the exponent\<close>

lemma js_or_bit:
  assumes "0 \<le> x" "x < 2 ^ 31" "0 \<le> y" "y < 2 ^ 31"
  shows "bit (js_or x y) n \<longleftrightarrow> bit x n \<or> bit y n"
proof -
  have "toInt32 x = x" "toInt32 y = y" using assms by (simp_all add: toInt32_id)
  then show ?thesis by (simp add: js_or_def bit_or_iff)
qed

lemma mod_bit: "bit ((x::int) mod 2 ^ k) n \<longleftrightarrow> n < k \<and> bit x n"
  by (simp add: bit_take_bit_iff flip: take_bit_eq_mod)

lemma div_bit: "bit ((x::int) div 2 ^ k) n \<longleftrightarrow> bit x (k + n)"
  by (simp add: bit_drop_bit_eq flip: drop_bit_eq_div)

lemma mult_bit: "bit ((x::int) * 2 ^ k) n \<longleftrightarrow> k \<le> n \<and> bit x (n - k)"
  by (simp add: bit_push_bit_iff flip: push_bit_eq_mult)

lemma js_shr_nat: "0 \<le> x \<Longrightarrow> x < 2 ^ 31 \<Longrightarrow> n < 32 \<Longrightarrow> js_shr x (int n) = x div 2 ^ n"
  by (simp add: js_shr_div)

lemma window_bit:
  assumes ds: "digits_in (DV e) ds" "j < length ds" "i < DB e" and k: "1 \<le> k" "k \<le> 6"
  shows "bit (window e ds (int k) (int j) (int i)) b \<longleftrightarrow>
    b < k \<and> k \<le> Suc (DB e * j + i) + b \<and> bit (val (DV e) ds) (Suc (DB e * j + i) + b - k)"
proof -
  define d where "d = ds ! j"
  have d: "0 \<le> d" "d < DV e" using digits_in_nth [OF ds(1,2)] by (simp_all add: d_def)
  have DBb: "26 \<le> DB e" "DB e \<le> 30" by (cases e; simp)+
  have d31: "d < 2 ^ 31" using d(2) DV_bounds(3) [of e] by simp
  have bv: "bit (val (DV e) ds) (DB e * j' + a) \<longleftrightarrow> bit (ds ! j') a" if "j' < length ds" "a < DB e" for j' a
  proof -
    have "DB e * j' + a < DB e * Suc j'" using that(2) by simp
    also have "\<dots> \<le> DB e * length ds" using that(1) by (intro mult_le_mono) simp_all
    finally show ?thesis using bit_val [OF ds(1), of "DB e * j' + a"] that(2) by simp
  qed
  show ?thesis
  proof (cases "k \<le> Suc i")
    case True
    have "js_shr d (int i - (int k - 1)) = d div 2 ^ (Suc i - k)"
    proof -
      have i: "int i - (int k - 1) = int (Suc i - k)" using True by simp
      show ?thesis unfolding i by (rule js_shr_nat) (use True ds(3) DBb d d31 in simp_all)
    qed
    then have w: "window e ds (int k) (int j) (int i) = d div 2 ^ (Suc i - k) mod 2 ^ k"
      using True k js_and_bm [of "int k"] by (simp add: window_def Let_def d_def)
    have "bit (val (DV e) ds) (Suc (DB e * j + i) + b - k) \<longleftrightarrow> bit d (Suc i - k + b)" if "b < k"
    proof -
      have "Suc (DB e * j + i) + b - k = DB e * j + (Suc i - k + b)" using True by simp
      then show ?thesis using bv [OF ds(2), of "Suc i - k + b"] that True ds(3) by (simp add: d_def)
    qed
    then show ?thesis using True by (auto simp: w mod_bit div_bit)
  next
    case False
    define s where "s = k - Suc i"
    have s: "1 \<le> s" "s \<le> 5" "k = s + Suc i" using False k by (simp_all add: s_def)
    define w where "w = d mod 2 ^ Suc i * 2 ^ s"
    have m: "js_and d (js_shl 1 (int i + 1) - 1) = d mod 2 ^ Suc i"
      using js_and_bm [of "int i + 1" d] ds(3) DBb by (simp add: nat_add_distrib)
    have md: "0 \<le> d mod 2 ^ Suc i" "d mod 2 ^ Suc i < 2 ^ Suc i" by simp_all
    have "w < 2 ^ Suc i * 2 ^ s" unfolding w_def using md by (intro mult_strict_right_mono) simp_all
    also have "\<dots> = 2 ^ k" by (simp add: s(3) power_add)
    also have "\<dots> \<le> 2 ^ 6" using k(2) by (intro power_increasing) simp_all
    finally have wb: "0 \<le> w" "w < 2 ^ 6" by (simp_all add: w_def)
    have w: "js_shl (js_and d (js_shl 1 (int i + 1) - 1)) (int k - 1 - int i) = w"
    proof -
      have i: "int k - 1 - int i = int s" using s by simp
      show ?thesis unfolding m i w_def using md s wb(2) by (subst js_shl_mult_pos) (auto simp: w_def)
    qed
    have wbit: "bit w b \<longleftrightarrow> s \<le> b \<and> b < k \<and> bit d (b - s)" unfolding w_def mult_bit mod_bit using s(3) by auto
    have hi: "bit (val (DV e) ds) (Suc (DB e * j + i) + b - k) \<longleftrightarrow> bit d (b - s)" if "s \<le> b" "b < k"
    proof -
      have "Suc (DB e * j + i) + b - k = DB e * j + (b - s)" using that s by simp
      then show ?thesis using bv [OF ds(2), of "b - s"] that s ds(3) by (simp add: d_def)
    qed
    show ?thesis
    proof (cases "j = 0")
      case True
      then have "window e ds (int k) (int j) (int i) = w" using False w by (simp add: window_def Let_def d_def)
      then show ?thesis using wbit hi s True by auto
    next
      case j: False
      define d' where "d' = ds ! (j - 1)"
      have j1: "j - 1 < length ds" using ds(2) by simp
      have d': "0 \<le> d'" "d' < DV e" using digits_in_nth [OF ds(1) j1] by (simp_all add: d'_def)
      have "js_shr d' (int (DB e) + int i - (int k - 1)) = d' div 2 ^ (DB e - s)"
      proof -
        have i: "int (DB e) + int i - (int k - 1) = int (DB e - s)" using s DBb by simp
        show ?thesis unfolding i by (rule js_shr_nat) (use d' DV_bounds(3) [of e] s DBb in simp_all)
      qed
      moreover have "nat (int j - 1) = j - 1" by simp
      ultimately have win: "window e ds (int k) (int j) (int i) = js_or w (d' div 2 ^ (DB e - s))"
        using False j w by (simp add: window_def Let_def d_def d'_def)
      have "d' div 2 ^ (DB e - s) \<le> d'" using zdiv_mono2 [of d' 1 "2 ^ (DB e - s)"] d'(1) by simp
      then have "bit (window e ds (int k) (int j) (int i)) b \<longleftrightarrow> bit w b \<or> bit d' (DB e - s + b)"
        unfolding win using wb d' DV_bounds(3) [of e] by (subst js_or_bit) (auto simp: div_bit pos_imp_zdiv_nonneg_iff)
      moreover have "bit d' (DB e - s + b) \<longleftrightarrow> b < s \<and> bit d' (DB e - s + b)"
        using digit_bits [OF d', of "DB e - s + b"] s DBb by (cases "b < s") simp_all
      moreover have "bit (val (DV e) ds) (Suc (DB e * j + i) + b - k) \<longleftrightarrow> bit d' (DB e - s + b)" if "b < s"
      proof -
        obtain n where n: "j = Suc n" using j by (cases j) auto
        have "Suc (DB e * j + i) + b - k = DB e * (j - 1) + (DB e - s + b)" using that s DBb by (simp add: n)
        then show ?thesis using bv [OF j1, of "DB e - s + b"] that s DBb by (simp add: d'_def)
      qed
      moreover have "k \<le> Suc (DB e * j + i) + b" using j k DBb by (cases j) auto
      ultimately show ?thesis using wbit hi s by (cases "b < s") auto
    qed
  qed
qed

lemma strip_even_ok:
  assumes "0 < w0" "w0 < 2 ^ 31"
  obtains w c where "strip_even w0 n = (w, n - int c)" "odd w" "w0 = w * 2 ^ c"
proof -
  have "\<exists>w c. strip_even w0 n = (w, n - int c) \<and> odd w \<and> w0 = w * 2 ^ c"
    using assms
  proof (induction w0 n rule: strip_even.induct)
    case (1 w n)
    show ?case
    proof (cases "even w")
      case False
      then show ?thesis by (subst strip_even.simps) (auto simp: js_and_mask_num odd_iff_mod_2_eq_one intro: exI [of _ 0])
    next
      case True
      have h: "js_shr w 1 = w div 2" using 1(2,3) by (simp add: js_shr_div)
      have "0 < w div 2" "w div 2 < 2 ^ 31" "js_and w 1 = 0" using True 1(2,3) by (auto simp: js_and_mask_num)
      then obtain w' c where "strip_even (w div 2) (n - 1) = (w', n - 1 - int c)" "odd w'" "w div 2 = w' * 2 ^ c"
        using 1(1) 1(2,3) h by auto
      then show ?thesis using 1(2,3) h True \<open>js_and w 1 = 0\<close>
        by (subst strip_even.simps) (auto intro!: exI [of _ w'] exI [of _ "Suc c"])
    qed
  qed
  then show ?thesis using that by blast
qed

text \<open>The place \<open>(j, i)\<close> of the code that has \<open>q\<close> bits from it downwards.\<close>

definition place :: "engine \<Rightarrow> nat \<Rightarrow> int \<times> int" where
  "place e q = ((int q - 1) div int (DB e), (int q - 1) mod int (DB e))"

lemma DB_range: "0 < int (DB e)" "26 \<le> int (DB e)" "int (DB e) \<le> 30"
  by (cases e; simp)+

lemma place_0: "place e 0 = (-1, int (DB e) - 1)"
  using DB_range(1) [of e] zmod_minus1 [of "int (DB e)"] div_eq_minus1 [of "int (DB e)"] by (simp add: place_def)

lemma place_at: "j < n \<Longrightarrow> i < DB e \<Longrightarrow> place e (Suc (DB e * j + i)) = (int j, int i)"
  by (simp add: place_def div_mult_self4 zdiv_int [symmetric] zmod_int [symmetric] flip: of_nat_add of_nat_mult)

lemma place_back:
  assumes "n \<le> q" "n \<le> DB e" "place e q = (j, i)"
  shows "place e (q - n) = (if i - int n < 0 then (j - 1, i - int n + int (DB e)) else (j, i - int n))"
proof -
  have q: "int q - 1 = j * int (DB e) + i" "0 \<le> i" "i < int (DB e)"
    using assms(3) DB_range(1) [of e] by (auto simp: place_def)
  have s: "int (q - n) - 1 = j * int (DB e) + (i - int n)" using q(1) assms(1) by simp
  show ?thesis
  proof (cases "i - int n < 0")
    case True
    define r where "r = i - int n + int (DB e)"
    have "int (q - n) - 1 = (j - 1) * int (DB e) + r" by (simp add: s r_def algebra_simps)
    moreover have "0 \<le> r" "r < int (DB e)" using True q assms(2) by (simp_all add: r_def)
    ultimately show ?thesis using True by (simp add: place_def r_def [symmetric])
  next
    case False
    then show ?thesis using q by (simp add: place_def s)
  qed
qed

lemma place_bit:
  assumes ds: "digits_in (DV e) ds" and q: "0 < q" "q \<le> DB e * length ds"
  obtains j i where "q = Suc (DB e * j + i)" "j < length ds" "i < DB e" "place e q = (int j, int i)"
    "bit (ds ! j) i \<longleftrightarrow> bit (val (DV e) ds) (q - 1)"
proof -
  define j i where "j = (q - 1) div DB e" and "i = (q - 1) mod DB e"
  have p: "0 < DB e" using DB_range(1) [of e] by simp
  have 1: "q = Suc (DB e * j + i)" using q(1) by (simp add: j_def i_def)
  have 2: "i < DB e" "j < length ds" using q p by (auto simp: i_def j_def less_mult_imp_div_less mult.commute)
  have "bit (ds ! j) i \<longleftrightarrow> bit (val (DV e) ds) (q - 1)"
    using bit_val [OF ds, of "q - 1"] q by (simp add: j_def i_def)
  with that [OF 1 2(2,1) _] place_at [OF 2(2,1)] 1 show ?thesis by simp
qed

context reducer
begin

lemma sqr_times_rel: "rel r y \<Longrightarrow> rel (sqr_times z n r) (y ^ 2 ^ n)"
proof (induction n arbitrary: r y)
  case (Suc n)
  from Suc.IH [OF sqr_rel [OF Suc.prems]] show ?case by (simp add: power_mult power2_eq_square)
qed simp

lemma table_loop_rel:
  assumes "rel g2 (x * x)" "g \<noteq> []" "\<And>i. i < length g \<Longrightarrow> rel (g ! i) (x ^ (2 * i + 1))"
  shows "length (table_loop z g2 n g) = length g + n \<and>
    (\<forall>i < length g + n. rel (table_loop z g2 n g ! i) (x ^ (2 * i + 1)))"
  using assms(2,3)
proof (induction n arbitrary: g)
  case (Suc n)
  define g' where "g' = g @ [mulTo z g2 (last g)]"
  have "rel (last g) (x ^ (2 * (length g - 1) + 1))" using Suc.prems by (simp add: last_conv_nth)
  then have "rel (mulTo z g2 (last g)) (x * x * x ^ (2 * (length g - 1) + 1))" by (rule mul_rel [OF assms(1)])
  also have "x * x * x ^ (2 * (length g - 1) + 1) = x ^ (2 * length g + 1)"
    using Suc.prems(1) by (cases g) (simp_all add: mult_ac)
  finally have "rel (g' ! i) (x ^ (2 * i + 1))" if "i < length g'" for i
    using that Suc.prems(2) by (cases "i = length g") (auto simp: g'_def nth_append)
  from Suc.IH [OF _ this] show ?case by (simp add: g'_def)
qed simp

lemma odd_powers_rel:
  assumes "1 \<le> k"
  shows "length (odd_powers z x (int k)) = 2 ^ (k - 1)" "\<And>i. i < 2 ^ (k - 1) \<Longrightarrow> rel (odd_powers z x (int k) ! i) (x ^ (2 * i + 1))"
proof -
  have n: "nat (int k - 1) = k - 1" by simp
  have c: "rel ([convert z x] ! i) (x ^ (2 * i + 1))" if "i < length [convert z x]" for i using that convert_rel by simp
  have "length (odd_powers z x (int k)) = 2 ^ (k - 1) \<and> (\<forall>i < 2 ^ (k - 1). rel (odd_powers z x (int k) ! i) (x ^ (2 * i + 1)))"
  proof (cases "1 < k")
    case True
    have "(1::nat) \<le> 2 ^ (k - 1)" by simp
    then show ?thesis using True table_loop_rel [OF sqr_rel [OF convert_rel] _ c, of "2 ^ (k - 1) - 1"]
      by (simp add: odd_powers_def Let_def n)
  next
    case False
    then have "k = 1" using assms by simp
    then show ?thesis using convert_rel by (simp add: odd_powers_def)
  qed
  then show "length (odd_powers z x (int k)) = 2 ^ (k - 1)" "\<And>i. i < 2 ^ (k - 1) \<Longrightarrow> rel (odd_powers z x (int k) ! i) (x ^ (2 * i + 1))"
    by blast+
qed

lemma skip_zeros_rel:
  assumes "digits_in (DV e) ds" "val (DV e) ds = int E" "q \<le> DB e * length ds" "rel r (x ^ (E div 2 ^ q))" "place e q = (j, i)"
  shows "\<exists>q' r' j' i'. skip_zeros e z ds j i r = (j', i', r') \<and> place e q' = (j', i') \<and> q' \<le> q \<and> rel r' (x ^ (E div 2 ^ q')) \<and>
    (q' = 0 \<or> bit E (q' - 1))"
  using assms(3-)
proof (induction q arbitrary: r j i)
  case 0
  then have "\<not> 0 \<le> j" by (auto simp: place_0)
  then have "skip_zeros e z ds j i r = (j, i, r)" by (subst skip_zeros.simps) (simp only: if_False simp_thms)
  then show ?case using 0 by (intro exI [of _ 0] exI) simp
next
  case (Suc q)
  obtain j0 i0 where p: "Suc q = Suc (DB e * j0 + i0)" "j0 < length ds" "i0 < DB e" "place e (Suc q) = (int j0, int i0)"
    "bit (ds ! j0) i0 \<longleftrightarrow> bit (val (DV e) ds) (Suc q - 1)"
    using place_bit [OF assms(1) zero_less_Suc Suc.prems(1)] .
  have ji: "j = int j0" "i = int i0" using p(4) Suc.prems(3) by simp_all
  have d: "0 \<le> ds ! j0" "ds ! j0 < 2 ^ 31" using digits_in_nth [OF assms(1) p(2)] DV_bounds(3) [of e] by simp_all
  have "js_and (ds ! j0) (js_shl 1 (int i0)) \<noteq> 0 \<longleftrightarrow> bit (ds ! j0) i0"
    using js_and_bit1 [OF d, of i0] p(3) DB_range(3) [of e] by simp
  then have t: "js_and (ds ! nat j) (js_shl 1 i) = 0 \<longleftrightarrow> \<not> bit E q" using p(5) by (auto simp: ji assms(2) bit_of_nat_iff_bit)
  show ?case
  proof (cases "bit E q")
    case True
    then have "\<not> (0 \<le> j \<and> js_and (ds ! nat j) (js_shl 1 i) = 0)" using t by simp
    then have "skip_zeros e z ds j i r = (j, i, r)" by (subst skip_zeros.simps) (simp only: if_False)
    then show ?thesis using Suc.prems True by (intro exI [of _ "Suc q"] exI) simp
  next
    case False
    have "rel (sqrTo z r) (x ^ (E div 2 ^ q))"
      using sqr_rel [OF Suc.prems(2)] False unfolding half_step [of E q] by (simp add: mult_2 power_add)
    moreover obtain j' i' where n: "(if i - 1 < 0 then (j - 1, int (DB e) - 1) else (j, i - 1)) = (j', i')" by fastforce
    moreover have "place e q = (j', i')"
    proof -
      have "place e q = (if i - 1 < 0 then (j - 1, i - 1 + int (DB e)) else (j, i - 1))"
        using place_back [of 1 "Suc q" e j i] Suc.prems(3) DB_range(2) [of e] by simp
      also have "\<dots> = (if i - 1 < 0 then (j - 1, int (DB e) - 1) else (j, i - 1))" using ji by simp
      finally show ?thesis by (simp only: n)
    qed
    ultimately obtain q' r' j1 i1 where IH: "skip_zeros e z ds j' i' (sqrTo z r) = (j1, i1, r') \<and> place e q' = (j1, i1) \<and> q' \<le> q \<and>
        rel r' (x ^ (E div 2 ^ q')) \<and> (q' = 0 \<or> bit E (q' - 1))"
      using Suc.IH [of "sqrTo z r" j' i'] Suc.prems(1) by auto
    have "0 \<le> j \<and> js_and (ds ! nat j) (js_shl 1 i) = 0" using t False by (simp add: ji)
    then have "skip_zeros e z ds j i r = skip_zeros e z ds j' i' (sqrTo z r)"
      by (subst skip_zeros.simps) (simp only: if_True n Let_def prod.case simp_thms)
    with IH have "skip_zeros e z ds j i r = (j1, i1, r') \<and> place e q' = (j1, i1) \<and> q' \<le> Suc q \<and>
        rel r' (x ^ (E div 2 ^ q')) \<and> (q' = 0 \<or> bit E (q' - 1))" by simp
    then show ?thesis by blast
  qed
qed

end

section \<open>The sliding window\<close>

lemma window_value:
  assumes ds: "digits_in (DV e) ds" "val (DV e) ds = int E" "j < length ds" "i < DB e" and k: "1 \<le> k" "k \<le> 6"
    and q: "q = Suc (DB e * j + i)" "bit E (q - 1)"
  obtains w n where "window e ds (int k) (int j) (int i) \<noteq> 0" "strip_even (window e ds (int k) (int j) (int i)) (int k) = (int w, int n)"
    "1 \<le> n" "n \<le> k" "n \<le> q" "odd w" "w < 2 ^ k" "E div 2 ^ (q - n) = E div 2 ^ q * 2 ^ n + w"
proof -
  define W where "W = window e ds (int k) (int j) (int i)"
  have Wb: "bit W b \<longleftrightarrow> b < k \<and> k \<le> q + b \<and> bit E (q + b - k)" for b
    unfolding W_def window_bit [OF ds(1,3,4) k] ds(2) q(1) bit_of_nat_iff_bit by simp
  have "bit W (k - 1)" using k q by (simp add: Wb)
  then have W0: "W \<noteq> 0" by auto
  have Wr: "0 \<le> W" "W < 2 ^ k" using bits_bound [of k W] Wb by auto
  have "(2::int) ^ k \<le> 2 ^ 6" using k by (intro power_increasing) simp_all
  then have W31: "W < 2 ^ 31" using Wr by simp
  have Wp: "0 < W" using W0 Wr(1) by simp
  obtain w c where sw: "strip_even W (int k) = (w, int k - int c)" "odd w" "W = w * 2 ^ c"
    using strip_even_ok [OF Wp W31] .
  have wb: "bit w b \<longleftrightarrow> b + c < k \<and> k \<le> q + (b + c) \<and> bit E (q + (b + c) - k)" for b
    using Wb [of "b + c"] unfolding sw(3) mult_bit by simp
  have c: "c < k" "k \<le> q + c" using wb [of 0] sw(2) by (simp_all add: bit_0)
  define n where "n = k - c"
  have n: "1 \<le> n" "n \<le> k" "n \<le> q" "int k - int c = int n" "q + c - k = q - n" using c by (simp_all add: n_def)
  have w0: "0 \<le> w" using sw(3) Wr(1) by (simp add: zero_le_mult_iff)
  define v where "v = nat w"
  have v: "w = int v" using w0 by (simp add: v_def)
  have vb: "bit v b \<longleftrightarrow> b < n \<and> bit E (q - n + b)" for b
  proof -
    have "bit v b \<longleftrightarrow> bit w b" by (simp add: v bit_of_nat_iff_bit)
    also have "\<dots> \<longleftrightarrow> b < n \<and> bit E (q - n + b)"
    proof (cases "b < n")
      case True
      then have "q + (b + c) - k = q - n + b" "b + c < k" "k \<le> q + (b + c)" using n c by (simp_all add: n_def)
      then show ?thesis using wb True by simp
    next
      case False
      then have "\<not> b + c < k" by (simp add: n_def)
      then show ?thesis using False wb by simp
    qed
    finally show ?thesis .
  qed
  have "v = E div 2 ^ (q - n) mod 2 ^ n"
    by (rule bit_eqI) (simp add: vb bit_take_bit_iff bit_drop_bit_eq flip: take_bit_eq_mod drop_bit_eq_div)
  moreover have "E div 2 ^ (q - n) div 2 ^ n = E div 2 ^ q" using n(3) by (simp add: div_mult2_eq [symmetric] power_add [symmetric])
  ultimately have d: "E div 2 ^ (q - n) = E div 2 ^ q * 2 ^ n + v" using div_mult_mod_eq [of "E div 2 ^ (q - n)" "2 ^ n"] by simp
  have "int v * 1 \<le> w * 2 ^ c" using w0 unfolding v by (intro mult_left_mono) simp_all
  then have "int v < 2 ^ k" using Wr(2) sw(3) by linarith
  then have "v < 2 ^ k" using of_nat_less_iff [of v "2 ^ k", where ?'a = int] by simp
  moreover have "odd v" using sw(2) by (simp add: v)
  ultimately show ?thesis using that [of v n] W0 sw(1) n d unfolding W_def [symmetric] by (simp add: v)
qed

context reducer
begin

lemma modPow_loop_rel:
  assumes ds: "digits_in (DV e) ds" "val (DV e) ds = int E" and k: "1 \<le> k" "k \<le> 6"
    and g: "length g = 2 ^ (k - 1)" "\<And>i. i < 2 ^ (k - 1) \<Longrightarrow> rel (g ! i) (x ^ (2 * i + 1))"
    and q: "q \<le> DB e * length ds" "place e q = (j, i)" "q = 0 \<or> bit E (q - 1)"
      "case r of None \<Rightarrow> 0 < q \<and> E div 2 ^ q = 0 | Some r0 \<Rightarrow> rel r0 (x ^ (E div 2 ^ q))"
  shows "\<exists>r'. modPow_loop e z g ds (int k) j i r = Some (Some r') \<and> rel r' (x ^ E)"
  using q
proof (induction q arbitrary: j i r rule: less_induct)
  case (less q)
  show ?case
  proof (cases "q = 0")
    case True
    then have "j < 0" using less.prems(2) by (simp add: place_0)
    then show ?thesis using less.prems(4) True by (subst modPow_loop.simps) (auto split: option.splits)
  next
    case False
    then have q0: "0 < q" by simp
    obtain j0 i0 where p: "q = Suc (DB e * j0 + i0)" "j0 < length ds" "i0 < DB e" "place e q = (int j0, int i0)"
      using place_bit [OF ds(1) q0 less.prems(1)] by metis
    have ji: "j = int j0" "i = int i0" using p(4) less.prems(2) by simp_all
    have "bit E (q - 1)" using less.prems(3) False by simp
    then obtain w n where w: "window e ds (int k) j i \<noteq> 0" "strip_even (window e ds (int k) j i) (int k) = (int w, int n)"
        "1 \<le> n" "n \<le> k" "n \<le> q" "odd w" "w < 2 ^ k" "E div 2 ^ (q - n) = E div 2 ^ q * 2 ^ n + w"
      using window_value [OF ds p(2,3) k p(1)] unfolding ji by metis
    have "n \<le> DB e" using w(4) k DB_range(2) [of e] by simp
    note bk = place_back [OF w(5) this less.prems(2)]
    obtain j1 i1 where ji1: "(if i - int n < 0 then (j - 1, i - int n + int (DB e)) else (j, i - int n)) = (j1, i1)" by fastforce
    define u where "u = w div 2"
    have "(2::nat) ^ k = 2 * 2 ^ (k - 1)" using k by (cases k) simp_all
    then have u: "w = 2 * u + 1" "u < 2 ^ (k - 1)" using w(6,7) by (simp_all add: u_def)
    have gr: "rel (g ! u) (x ^ w)" using g(2) [OF u(2)] u(1) by simp
    define r1 where "r1 = (case r of None \<Rightarrow> g ! u | Some r0 \<Rightarrow> mulTo z (sqr_times z n r0) (g ! u))"
    have r1: "rel r1 (x ^ (E div 2 ^ (q - n)))"
    proof (cases r)
      case None
      then show ?thesis using less.prems(4) gr w(8) by (simp add: r1_def)
    next
      case (Some r0)
      have "rel (sqr_times z n r0) ((x ^ (E div 2 ^ q)) ^ 2 ^ n)" using sqr_times_rel less.prems(4) Some by simp
      from mul_rel [OF this gr] show ?thesis by (simp add: r1_def Some w(8) power_add power_mult)
    qed
    have "q - n \<le> DB e * length ds" using less.prems(1) by simp
    then obtain q' r' j' i' where s: "skip_zeros e z ds j1 i1 r1 = (j', i', r')" "place e q' = (j', i')" "q' \<le> q - n"
        "rel r' (x ^ (E div 2 ^ q'))" "q' = 0 \<or> bit E (q' - 1)"
      using skip_zeros_rel [OF ds _ r1 bk [unfolded ji1]] by blast
    have lt: "q' < q" using s(3) w(3,5) by simp
    have "\<exists>r''. modPow_loop e z g ds (int k) j' i' (Some r') = Some (Some r'') \<and> rel r'' (x ^ E)"
      using less.IH [OF lt _ s(2,5), of "Some r'"] s(4) lt less.prems(1) by simp
    moreover have "modPow_loop e z g ds (int k) j i r = modPow_loop e z g ds (int k) j' i' (Some r')"
    proof -
      have j: "\<not> j < 0" by (simp add: ji)
      show ?thesis
        by (subst modPow_loop.simps)
          (simp only: if_not_P [OF j] Let_def if_not_P [OF w(1)] w(2) prod.case ji1 nat_int u_def [symmetric] r1_def [symmetric] s(1))
    qed
    ultimately show ?thesis by simp
  qed
qed

end

context reducer
begin

lemma modPow_rel:
  assumes "0 < x" "z = choose_reducer eng (bitLength eng (big_of eng x)) m'"
  shows "modPow eng a x m' = Some (a ^ nat x mod m)"
proof -
  define ds E where "ds = digs (big_of eng x)" and "E = nat x"
  have b: "ok_big eng (big_of eng x)" "bval eng (big_of eng x) = x" "ds \<noteq> []" "sg (big_of eng x) = 0"
    using big_of_ok [of eng x] n_digits_power [OF assms(1), of eng] by (simp_all add: ds_def)
  have v: "digits_in (DV eng) ds" "val (DV eng) ds = int E"
    using b assms(1) by (simp_all add: ok_big_def wf_big_def bval_def ds_def E_def)
  have L: "0 < bitLength eng (big_of eng x)" using bitLength_ok(1) [OF b(1)] b(2) assms(1) by simp
  obtain k where k: "window_size (bitLength eng (big_of eng x)) = int k" "1 \<le> k" "k \<le> 6"
    by (rule that [of "nat (window_size (bitLength eng (big_of eng x)))"]) (simp_all add: window_size_def)
  define j i where "j = length ds - 1" and "i = nat (nbits (last ds) - 1)"
  have last: "0 < last ds" "last ds < DV eng" "last ds = ds ! j"
    using top_digit(2,3) [OF b(1,4)] b(3) by (simp_all add: ds_def j_def last_conv_nth)
  have l32: "last ds < 2 ^ 32" using last(2) DV_bounds(3) [of eng] by simp
  note nb = nbits_ok [OF last(1) l32]
  have i: "nbits (last ds) - 1 = int i" "2 ^ i \<le> last ds" "last ds < 2 ^ Suc i"
    using nb by (simp_all add: i_def Suc_nat_eq_nat_zadd1 flip: power_Suc)
  have "(2::int) ^ i < 2 ^ DB eng" using i(2) last(2) unfolding DV_eq by linarith
  then have iDB: "i < DB eng" by (rule power_less_imp_less_exp [rotated]) simp
  have jl: "j < length ds" "length ds = Suc j" using b(3) by (simp_all add: j_def)
  define q where "q = Suc (DB eng * j + i)"
  have q0: "0 < q" by (simp add: q_def)
  have q: "q \<le> DB eng * length ds" using iDB by (simp add: q_def jl(2))
  have pl: "place eng q = (int j, int i)" using place_at [OF jl(1) iDB] by (simp add: q_def)
  have "bit (ds ! j) i" using i(2,3) unfolding last(3) odd_div_bit
    by (subst div_pos_geq) (simp_all add: div_pos_pos_trivial)
  then have bit: "bit E (q - 1)" using bit_val [OF v(1), of "q - 1"] iDB jl
    by (simp add: q_def v(2) bit_of_nat_iff_bit)
  have "val (DV eng) ds < 2 ^ q"
  proof -
    have "val (DV eng) ds = val (DV eng) (take j ds) + DV eng ^ j * (ds ! j)"
      using val_take_drop [of "DV eng" ds j] jl by (simp add: Cons_nth_drop_Suc [symmetric])
    moreover have "val (DV eng) (take j ds) < DV eng ^ j" using radixDV.val_less [of eng "take j ds"] v(1) jl by auto
    moreover have "DV eng ^ j * (ds ! j + 1) \<le> DV eng ^ j * 2 ^ Suc i" using i(3) last(3) DV_bounds(1) [of eng] by (intro mult_left_mono) simp_all
    ultimately have "val (DV eng) ds < DV eng ^ j * 2 ^ Suc i" by (simp add: algebra_simps)
    also have "\<dots> = 2 ^ q" by (simp add: q_def DV_eq power_mult power_add)
    finally show ?thesis .
  qed
  then have "int E < int (2 ^ q)" by (simp add: v(2))
  then have "E div 2 ^ q = 0" by (simp only: of_nat_less_iff div_eq_0_iff simp_thms)
  then have "\<exists>r'. modPow_loop eng z (odd_powers z a (int k)) ds (int k) (int j) (int i) None = Some (Some r') \<and> rel r' (a ^ E)"
    using odd_powers_rel [OF k(2)] k v q0 q pl bit by (intro modPow_loop_rel [where q = q]) simp_all
  then obtain r' where r: "modPow_loop eng z (odd_powers z a (int k)) ds (int k) (int j) (int i) None = Some (Some r')" "rel r' (a ^ E)"
    by blast
  have j: "int (length ds) - 1 = int j" using jl(2) by simp
  have L': "\<not> bitLength eng (big_of eng x) \<le> 0" using L by simp
  show ?thesis
    unfolding modPow_def Let_def if_not_P [OF L'] ds_def [symmetric] k(1) assms(2) [symmetric] j i(1) r(1)
    using revert_rel [OF r(2)] by (simp add: E_def)
qed

end

section \<open>What the component promises\<close>

lemma choose_reducer_ok:
  assumes "0 < m" "odd m \<or> int (n_digits eng m) + 4 \<le> DV eng"
  shows "\<exists>rel. reducer (choose_reducer eng i m) m rel"
  unfolding choose_reducer_def
  using classic_reducer [OF assms(1)] barrett_reducer [OF assms(1)] montgomery_reducer [OF assms(1)] assms(2) by auto

lemma modPow_ok:
  assumes "0 < m" "odd m \<or> int (n_digits eng m) + 4 \<le> DV eng" "0 < e"
  shows "modPow eng x e m = Some (x ^ nat e mod m)"
proof -
  obtain rel where "reducer (choose_reducer eng (bitLength eng (big_of eng e)) m) m rel" using choose_reducer_ok [OF assms(1,2)] by blast
  from reducer.modPow_rel [OF this assms(3) refl] show ?thesis .
qed

lemma modPow_zero: "modPow eng x 0 m = Some 1"
  by (cases eng; simp add: modPow_def big_of_def bitLength_def)

text \<open>
  C31: The reducers compute residues. \<open>Montgomery\<close> leaves, for an odd modulus, the residue of its argument divided
  by the power of the digit base, for every argument below the modulus times that power; \<open>Barrett\<close> leaves the
  residue of every number of twice the digits of the modulus, up to moduli of \<open>2^26 - 4\<close> digits.
\<close>

theorem reduction_correct:
  assumes "0 < m" "0 \<le> x"
  shows "(odd m \<and> x < m * DV e ^ n_digits e m \<longrightarrow>
      0 \<le> redc e m x \<and> redc e m x < m \<and> redc e m x * DV e ^ n_digits e m mod m = x mod m) \<and>
    (x < DV e ^ (2 * n_digits e m) \<and> int (n_digits e m) + 4 \<le> DV e \<longrightarrow> barrett_reduce e m x = x mod m)"
  using redc_ok [OF assms(1) _ assms(2)] barrett_reduce_ok [OF assms] by blast

theorem reduction_correct_witness:
  "redc Netscape 7 100 * 2 ^ 28 mod 7 = 2 \<and> barrett_reduce Netscape 10 12345 = 5"
proof -
  have n: "n_digits Netscape 7 = 1" "n_digits Netscape 10 = 1" by code_simp+
  have d: "DV Netscape = 2 ^ 28" by (simp add: DV_eq)
  show ?thesis using reduction_correct [of 7 100 Netscape] reduction_correct [of 10 12345 Netscape] by (simp add: n d)
qed



end
