(* ===== verification/CurveAffine.thy ===== *)
theory CurveAffine
  imports CurveClosed BigExp
begin

text \<open>
  Affine coordinates of \<open>src/ellipticcurve.js\<close>: dividing by \<open>z\<close> through its modular inverse and the Barrett
  reduction of the curve. A point of the curve passes the test \<open>isOnCurve\<close>, and its uncompressed encoding
  decodes to the same point.
\<close>

section \<open>Division by \<open>z\<close>\<close>

text \<open>A modulus the reducer of the curve is good for, and a point as the operations leave it.\<close>

definition good_modulus :: "int \<Rightarrow> bool" where
  "good_modulus q \<longleftrightarrow> 1 < q \<and> int (n_digits Netscape q) + 4 \<le> DV Netscape"

definition proper :: "point \<Rightarrow> bool" where
  "proper p \<longleftrightarrow> (let q = cq (pcurve p) in
     (case (px p, py p) of (Some f, Some g) \<Rightarrow> 0 \<le> fx f \<and> fx f < q \<and> 0 \<le> fx g \<and> fx g < q | _ \<Rightarrow> False) \<and>
     0 < pz p \<and> pz p < q \<and> gcd (pz p) q = 1 \<and> zinv p = None)"

lemma curve_reduce_ok:
  assumes "good_modulus (cq c)" "0 \<le> a" "a < cq c" "0 \<le> b" "b < cq c"
  shows "curve_reduce c (a * b) = a * b mod cq c"
  unfolding curve_reduce_def
proof (rule barrett_reduce_ok)
  have q: "0 < cq c" using assms(1) by (simp add: good_modulus_def)
  note n = n_digits_power(2) [OF q, of Netscape]
  have "a * b < cq c * DV Netscape ^ n_digits Netscape (cq c)" using small_product(2) [OF assms(2-5) less_imp_le [OF n]] .
  also have "\<dots> \<le> DV Netscape ^ (2 * n_digits Netscape (cq c))"
    using n DV_bounds(1) [of Netscape] by (simp add: mult_2 power_add mult_right_mono)
  finally show "a * b < DV Netscape ^ (2 * n_digits Netscape (cq c))" .
qed (use assms in \<open>simp_all add: good_modulus_def\<close>)

lemma inverse_mod_ok:
  assumes "0 < x" "1 < m" "gcd x m = 1"
  obtains i where "inverse_mod x m = Inr i" "0 \<le> i" "i < m" "i * x mod m = 1"
proof -
  obtain i where i: "modInverse x m = Inr (Some i)" "0 \<le> i" "i < m" "m dvd i * x - 1"
    using modInverse_ok [OF assms(1), of m] assms by auto
  have "i * x mod m = 1 mod m" using i(4) by (simp add: mod_eq_dvd_iff)
  then have "i * x mod m = 1" using assms(2) by simp
  moreover have "inverse_mod x m = Inr i" by (simp add: inverse_mod_def i(1))
  ultimately show ?thesis using that i(2,3) by blast
qed

lemma proper_affine:
  assumes "good_modulus (cq (pcurve p))" "proper p"
  obtains i where "0 \<le> i" "i < cq (pcurve p)" "i * pz p mod cq (pcurve p) = 1"
    "getX p = Inr (fromBigInteger (pcurve p) (xval p * i mod cq (pcurve p)))"
    "getY p = Inr (fromBigInteger (pcurve p) (yval p * i mod cq (pcurve p)))"
proof -
  obtain f g where p: "px p = Some f" "py p = Some g" "0 \<le> fx f" "fx f < cq (pcurve p)" "0 \<le> fx g" "fx g < cq (pcurve p)"
    "0 < pz p" "pz p < cq (pcurve p)" "gcd (pz p) (cq (pcurve p)) = 1" "zinv p = None"
    using assms(2) by (auto simp: proper_def Let_def split: option.splits)
  obtain i where i: "inverse_mod (pz p) (cq (pcurve p)) = Inr i" "0 \<le> i" "i < cq (pcurve p)" "i * pz p mod cq (pcurve p) = 1"
    using inverse_mod_ok [OF p(7) _ p(9)] assms(1) by (auto simp: good_modulus_def)
  have a: "affine p (Some h) = Inr (fromBigInteger (pcurve p) (fx h * i mod cq (pcurve p)))" if "0 \<le> fx h" "fx h < cq (pcurve p)" for h
    using curve_reduce_ok [OF assms(1) that i(2,3)] by (simp add: affine_def with_zinv_def p(10) i(1) toBigInteger_def Let_def)
  show ?thesis using that [OF i(2,3,4)] a [OF p(3,4)] a [OF p(5,6)] by (simp add: getX_def getY_def p(1,2) xval_def yval_def toBigInteger_def)
qed

lemma toBigInteger_fromBigInteger [simp]: "toBigInteger (fromBigInteger c x) = x"
  by (simp add: toBigInteger_def fromBigInteger_def FieldElementFp_def)

lemma defect_affine:
  fixes q :: int
  assumes "q dvd defect a b X Y Z" "i * Z mod q = 1 mod q"
  shows "q dvd defect a b (X * i mod q) (Y * i mod q) 1"
proof (rule defect_cong)
  have "defect a b (X * i) (Y * i) (Z * i) = i * i * i * defect a b X Y Z" by (simp add: defect_def algebra_simps)
  then show "q dvd defect a b (X * i) (Y * i) (Z * i)" using assms(1) by simp
  show "1 mod q = Z * i mod q" using assms(2) by (simp add: mult.commute)
qed simp_all

lemma isOnCurve_ok:
  assumes "good_modulus (cq c)" "on_curve c p" "proper p"
  shows "isOnCurve p = Inr True"
proof -
  have c: "pcurve p = c" using assms(2) by (simp add: on_curve_iff)
  obtain i where i: "0 \<le> i" "i < cq c" "i * pz p mod cq c = 1" "getX p = Inr (fromBigInteger c (xval p * i mod cq c))"
    "getY p = Inr (fromBigInteger c (yval p * i mod cq c))"
    using proper_affine [of p] assms(1,3) unfolding c by metis
  have d: "cq c dvd defect (toBigInteger (ca c)) (toBigInteger (cb c)) (xval p) (yval p) (pz p)"
    using assms(2,3) by (auto simp: on_curve_iff proper_def xval_def yval_def)
  have "i * pz p mod cq c = 1 mod cq c" using i(3) assms(1) by (simp add: good_modulus_def)
  from defect_affine [OF d this] show ?thesis
    by (simp add: isOnCurve_def i(4,5) Let_def c getQ_def getA_def getB_def mod_eq_dvd_iff defect_def algebra_simps)
qed

section \<open>Encodings\<close>

lemma integerToBytes_ok:
  assumes "0 \<le> v" "v < 256 ^ n"
  shows "length (integerToBytes v n) = n" "is_bytes (integerToBytes v n)" "be_val (integerToBytes v n) = v"
proof -
  note b = bytes_of_ok [OF assms(1)]
  have l: "length (bytes_of v) \<le> n" using length_to_digits [of 256 v n] assms by (simp add: bytes_of_def)
  then have e: "integerToBytes v n = replicate (n - length (bytes_of v)) 0 @ bytes_of v" by (simp add: integerToBytes_def Let_def)
  show "length (integerToBytes v n) = n" using l by (simp add: e)
  show ib: "is_bytes (integerToBytes v n)" using b(1) by (simp add: e is_bytes_def digits_in_replicate0)
  show "be_val (integerToBytes v n) = v"
    using be_val_bytes [OF ib] b(2) [unfolded be_val_bytes [OF b(1)]] by (simp add: e val_append val_replicate0)
qed

lemma be_signed_zero: "be_signed (0 # xs) = be_val xs"
  by (simp add: be_signed_def be_val_def val_append)

definition affine_point :: "curve \<Rightarrow> int \<Rightarrow> int \<Rightarrow> point" where
  "affine_point c x y = PointFp c (Some (fromBigInteger c x)) (Some (fromBigInteger c y)) None False"

lemma decodeFrom_ok:
  assumes "0 \<le> x" "x < 256 ^ 32" "0 \<le> y" "y < 256 ^ 32"
  shows "decodeFrom c (4 # integerToBytes x 32 @ integerToBytes y 32) = affine_point c x y"
  using integerToBytes_ok [OF assms(1,2)] integerToBytes_ok [OF assms(3,4)]
  by (simp add: decodeFrom_def Let_def js_slice_def be_signed_zero affine_point_def)

text \<open>
  C35: A point of the curve whose coordinates are reduced and whose \<open>z\<close> is invertible passes \<open>isOnCurve\<close>; its
  uncompressed encoding has 65 bytes and decodes to a point of the curve that \<open>equals\<close> it. So dividing by \<open>z\<close>,
  with the modular inverse and the Barrett reduction, keeps the point.
\<close>

theorem point_encoding_roundtrip:
  assumes "good_modulus (cq c)" "cq c \<le> 2 ^ 256" "on_curve c p" "proper p"
  shows "isOnCurve p = Inr True \<and> (\<exists>enc. getEncoded p False = Inr enc \<and> length enc = 65 \<and> hd enc = 4 \<and>
    on_curve c (decodeFrom c enc) \<and> point_equals p (decodeFrom c enc))"
proof -
  have c: "pcurve p = c" using assms(3) by (simp add: on_curve_iff)
  define q where "q = cq c"
  have q: "1 < q" using assms(1) by (simp add: q_def good_modulus_def)
  obtain i where i: "i * pz p mod q = 1" "getX p = Inr (fromBigInteger c (xval p * i mod q))" "getY p = Inr (fromBigInteger c (yval p * i mod q))"
    using proper_affine [of p] assms(1,4) unfolding c q_def by metis
  define x y where "x = xval p * i mod q" and "y = yval p * i mod q"
  have q0: "0 < q" "q \<le> 256 ^ 32" using q assms(2) by (simp_all add: q_def)
  have "v mod q < 256 ^ 32" for v using pos_mod_bound [OF q0(1), of v] q0(2) by linarith
  then have b: "0 \<le> x" "x < 256 ^ 32" "0 \<le> y" "y < 256 ^ 32" using q0(1) unfolding x_def y_def by simp_all
  have enc: "getEncoded p False = Inr (4 # integerToBytes x 32 @ integerToBytes y 32)"
    by (simp add: getEncoded_def i(2,3) Let_def x_def y_def)
  have d: "q dvd defect (toBigInteger (ca c)) (toBigInteger (cb c)) (xval p) (yval p) (pz p)"
    using assms(3,4) by (auto simp: on_curve_iff proper_def xval_def yval_def q_def)
  have i1: "i * pz p mod q = 1 mod q" using i(1) q by simp
  have "on_curve c (affine_point c x y)"
    using defect_affine [OF d i1] by (simp add: affine_point_def on_curve_iff PointFp_def x_def y_def q_def) blast
  moreover have "point_equals p (affine_point c x y)"
  proof -
    have ninf: "\<not> isInfinity p" using assms(4) by (auto simp: isInfinity_def proper_def Let_def)
    have ninf': "\<not> isInfinity (affine_point c x y)" by (simp add: isInfinity_def affine_point_def PointFp_def)
    have z: "(v * i mod q * pz p - v) mod q = 0" for v
    proof -
      have "(v * i mod q * pz p - v) mod q = (v * (i * pz p) - v * 1) mod q"
        by (simp only: mult_1_right mult.assoc [symmetric]) (intro mod_diff_cong mod_mult_cong mod_mod_trivial refl)
      also have "v * (i * pz p) - v * 1 = v * (i * pz p - 1)" by (simp only: right_diff_distrib)
      also have "v * (i * pz p - 1) mod q = 0" 
      proof -
        have "q dvd i * pz p - 1" using i1 by (simp add: mod_eq_dvd_iff)
        then have "q dvd v * (i * pz p - 1)" by (rule dvd_mult)
        then show ?thesis by simp
      qed
      finally show ?thesis .
    qed
    have v: "xval (affine_point c x y) = x" "yval (affine_point c x y) = y" "pz (affine_point c x y) = 1"
      by (simp_all add: xval_def yval_def affine_point_def PointFp_def)
    show ?thesis using z [of "yval p", folded y_def] z [of "xval p", folded x_def] ninf ninf'
      by (simp add: point_equals_def Let_def v c q_def [symmetric])
  qed
  ultimately show ?thesis
    using isOnCurve_ok [OF assms(1,3,4)] enc decodeFrom_ok [OF b, of c] integerToBytes_ok [OF b(1,2)] integerToBytes_ok [OF b(3,4)] by simp
qed

theorem point_encoding_roundtrip_witness:
  "isOnCurve (PointFp (CurveFp 23 1 1) (Some (FieldElementFp 23 6)) (Some (FieldElementFp 23 20)) (Some 2) False) = Inr True"
proof -
  let ?c = "CurveFp 23 1 1"
  let ?p = "PointFp ?c (Some (FieldElementFp 23 6)) (Some (FieldElementFp 23 20)) (Some 2) False"
  have "good_modulus (cq ?c)" by code_simp
  moreover have "cq ?c \<le> 2 ^ 256" by (simp add: CurveFp_def)
  moreover have "on_curve ?c ?p" "proper ?p" by code_simp+
  ultimately show ?thesis using point_encoding_roundtrip [of ?c ?p] by blast
qed

end
