(* ===== verification/KeyFacts.thy ===== *)
theory KeyFacts
  imports EcKey CurveAffine
begin

text \<open>
  What the keys and signatures of \<open>src/bitcoinjs-lib.ecdsa.js\<close> and \<open>src/bitcoinjs-lib.eckey.js\<close> promise: the
  encodings of signatures and private keys are read back, a cached public key is the one computed from the
  private key, and the pool holds each address once.
\<close>

section \<open>Signatures as bytes\<close>

lemma bytes_of_pos: "0 < v \<Longrightarrow> bytes_of v \<noteq> [] \<and> 0 < hd (bytes_of v) \<and> hd (bytes_of v) < 256"
  using bytes_of_ok [of v] by (cases "bytes_of v") (auto simp: be_val_def is_bytes_def digits_in_def)

lemma signed_bytes_pos:
  assumes "0 < v"
  shows "signed_bytes v = (if 128 \<le> hd (bytes_of v) then 0 # bytes_of v else bytes_of v)"
proof -
  note o = big_of_ok [of Netscape v]
  note a = abs_big_ok [of Netscape "big_of Netscape v"]
  have u: "toByteArrayUnsigned Netscape (abs_big Netscape (big_of Netscape v)) = bytes_of v"
    using o a assms bytes_of_refine [of Netscape "abs_big Netscape (big_of Netscape v)"] by simp
  have h: "js_num (bytes_of v) 0 = hd (bytes_of v)" "hd (bytes_of v) mod 256 = hd (bytes_of v)"
    using bytes_of_pos [OF assms] by (simp_all add: js_num_def hd_conv_nth [symmetric])
  have c: "\<not> compareTo (big_of Netscape v) (ZERO Netscape) < 0"
    using compareTo_ok [of Netscape "big_of Netscape v" "ZERO Netscape"] o assms ZERO_ok [of Netscape] by (auto simp: sgn_if split: if_splits)
  show ?thesis unfolding signed_bytes_def toByteArraySigned_def Let_def u using c by (simp add: h js_and_0x80)
qed

lemma of_signed_bytes: "0 < v \<Longrightarrow> of_bytes (signed_bytes v) = Inr v"
  using bytes_of_ok [of v] bytes_of_pos [of v]
  by (simp add: signed_bytes_pos of_bytes_def be_val_def val_append)

lemma nth_opt_append: "nth_opt (xs @ ys) (length xs + i) = nth_opt ys i"
  by (simp add: nth_opt_def)

lemma parse_serialized:
  assumes "0 < r"
  shows "parseSig (serializeSig r s) = Inr (Inr r, of_bytes (signed_bytes s))"
proof -
  define a b where "a = signed_bytes r" and "b = signed_bytes s"
  have e: "serializeSig r s = [0x30, int (length a + length b + 4), 2, int (length a)] @ a @ [2, int (length b)] @ b"
    by (simp add: serializeSig_def Let_def a_def b_def)
  have n: "byte_at (serializeSig r s) (4 + length a + i) = nth_opt ([2, int (length b)] @ b) i" for i
  proof -
    have l: "4 + length a + i = length ([0x30, int (length a + length b + 4), 2, int (length a)] @ a) + i" by simp
    show ?thesis unfolding e byte_at_def l using nth_opt_append [of "[0x30, int (length a + length b + 4), 2, int (length a)] @ a" "[2, int (length b)] @ b" i] by simp
  qed
  have f: "byte_at (serializeSig r s) 0 = Some 0x30" "byte_at (serializeSig r s) 2 = Some 2"
    "byte_at (serializeSig r s) 3 = Some (int (length a))"
    unfolding e byte_at_def by (simp_all add: nth_opt_def numeral_2_eq_2 numeral_3_eq_3)
  have g: "byte_at (serializeSig r s) (4 + length a) = Some 2" "byte_at (serializeSig r s) (5 + length a) = Some (int (length b))"
    using n [of 0] n [of 1] by (simp_all add: nth_opt_def)
  have s1: "slice_len (serializeSig r s) 4 (Some (int (length a))) = a"
    "slice_len (serializeSig r s) (6 + length a) (Some (int (length b))) = b"
    unfolding e slice_len_def by (simp_all add: numeral_eq_Suc)
  show ?thesis
    using f g s1 of_signed_bytes [OF assms(1)]
    by (simp add: parseSig_def Let_def a_def b_def)
qed

lemma parse_serialize: "0 < r \<Longrightarrow> 0 < s \<Longrightarrow> parseSig (serializeSig r s) = Inr (Inr r, Inr s)"
  by (simp add: parse_serialized of_signed_bytes)

text \<open>Zero is written as an empty array, which is not read back as a number.\<close>

lemma parse_serialize_zero: "0 < r \<Longrightarrow> parseSig (serializeSig r 0) = Inr (Inr r, Inl [])"
proof -
  have "of_bytes (signed_bytes 0) = Inl []" by code_simp
  then show "0 < r \<Longrightarrow> parseSig (serializeSig r 0) = Inr (Inr r, Inl [])" by (simp add: parse_serialized)
qed

lemma is_bytes_Cons: "is_bytes (x # xs) \<longleftrightarrow> 0 \<le> x \<and> x < 256 \<and> is_bytes xs"
  by (auto simp: is_bytes_def digits_in_def)

lemma signed_bytes_bounds:
  assumes "0 < v" "v < 256 ^ n"
  shows "is_bytes (signed_bytes v)" "length (signed_bytes v) \<le> Suc n"
  using bytes_of_ok(1) [of v] length_to_digits [of 256 v n] assms
  by (auto simp: signed_bytes_pos is_bytes_Cons) (simp_all add: bytes_of_def)

definition der_text :: "int \<times> int \<Rightarrow> int list" where
  "der_text rs = serializeSig (fst rs) (snd rs)"

definition der_read :: "int list \<Rightarrow> (int \<times> int) option" where
  "der_read b = (case parseSig b of Inr (Inr r, Inr s) \<Rightarrow> Some (r, s) | _ \<Rightarrow> None)"

interpretation der: codec der_text der_read "\<lambda>(r, s). 0 < r \<and> 0 < s"
  by unfold_locales (auto simp: der_text_def der_read_def parse_serialize)

section \<open>Private keys as text\<close>

lemma to_digits_lead:
  assumes "0 < a" "a < 58" "a * 58 ^ n \<le> v" "v < (a + 1) * 58 ^ n"
  shows "\<exists>ds. to_digits 58 v = ds @ [a] \<and> length ds = n"
  using assms(3,4)
proof (induction n arbitrary: v)
  case 0
  then show ?case using assms(1,2) by (simp add: to_digits_pos)
next
  case (Suc n)
  have "0 < a * 58 ^ n" using assms(1) by simp
  then have p: "0 < v" using Suc.prems(1) by simp
  have "a * 58 ^ n \<le> v div 58" "v div 58 < (a + 1) * 58 ^ n"
    using Suc.prems by simp_all
  then show ?case using Suc.IH [of "v div 58"] p by (auto simp: to_digits_pos)
qed

lemma b58_text_lead:
  assumes "0 < a" "a < 58" "a * 58 ^ n \<le> v" "v < (a + 1) * 58 ^ n"
  shows "base58_tail [b58 a] n (b58_text v)"
proof -
  obtain ds where d: "to_digits 58 v = ds @ [a]" "length ds = n" using to_digits_lead [OF assms] by blast
  have "0 < a * 58 ^ n" using assms(1) by simp
  then have p: "0 < v" using assms(3) by simp
  have t: "b58_text v = b58 a # map b58 (rev ds)" using p d(1) by (simp add: b58_text_def)
  show ?thesis using b58_text_ok(1) [OF p] d(2) unfolding t by (simp add: base58_tail_def list_all_iff subset_iff)
qed

lemma be_val_Cons: "is_bytes (x # xs) \<Longrightarrow> be_val (x # xs) = x * 256 ^ length xs + be_val xs"
  using be_val_bytes [of "x # xs"] be_val_bytes [of xs] by (simp add: is_bytes_Cons val_append)

lemma be_val_less: "is_bytes xs \<Longrightarrow> be_val xs < 256 ^ length xs"
  using radix256.val_less [of "rev xs"] by (simp add: be_val_bytes is_bytes_def digits_in_def)

text \<open>The text of an array that begins with the version byte: its first character does not depend on the rest.\<close>

lemma encode_versioned:
  assumes "is_bytes xs" "length xs = k" "a * 58 ^ n \<le> 128 * 256 ^ k" "129 * 256 ^ k \<le> (b + 1) * 58 ^ n" "0 < a" "b < 58"
  shows "\<exists>t i. encode (128 # xs) = Inr t \<and> decode t = Inr (128 # xs) \<and> a \<le> i \<and> i \<le> b \<and> base58_tail [b58 i] n t"
proof -
  have y: "is_bytes (128 # xs)" using assms(1) by (simp add: is_bytes_Cons)
  define v where "v = be_val (128 # xs)"
  have v: "v = 128 * 256 ^ k + be_val xs" "0 \<le> be_val xs" "be_val xs < 256 ^ k"
    using be_val_Cons [OF y] be_val_nonneg [of xs] be_val_less [OF assms(1)] assms(2) by (simp_all add: v_def)
  define i where "i = v div 58 ^ n"
  have m: "0 \<le> v mod 58 ^ n" "v mod 58 ^ n < 58 ^ n" by simp_all
  have d: "i * 58 ^ n + v mod 58 ^ n = v" unfolding i_def by (rule div_mult_mod_eq)
  have i: "i * 58 ^ n \<le> v" "v < (i + 1) * 58 ^ n" using m d unfolding distrib_right by linarith+
  have "a * 58 ^ n < (i + 1) * 58 ^ n" "i * 58 ^ n < (b + 1) * 58 ^ n" using i v assms(3,4) by linarith+
  then have ab: "a \<le> i" "i \<le> b" by simp_all
  have e: "encode (128 # xs) = Inr (b58_text v)" using encode_eq [of "128 # xs"] by (simp add: v_def)
  have "encodable (128 # xs)" using y by (simp add: encodable_def)
  then have "decode (b58_text v) = Inr (128 # xs)" using decode_encode [of "128 # xs"] e by simp
  moreover have "base58_tail [b58 i] n (b58_text v)" using i ab assms(5,6) by (intro b58_text_lead) auto
  ultimately show ?thesis using e ab by blast
qed

text \<open>The bytes that are exported, without their checksum.\<close>

definition wif_payload :: "int \<Rightarrow> bool \<Rightarrow> int list" where
  "wif_payload d c = integerToBytes d 32 @ (if c then [1] else [])"

lemma private_bytes:
  assumes "0 \<le> d" "d < 2 ^ 256" "priv k = Some (Inr d)"
  shows "getBitcoinPrivateKeyByteArray k = Inr (Some (integerToBytes d 32))"
proof -
  have "length (bytes_of d) \<le> 32" using length_to_digits [of 256 d 32] assms(1,2) by (simp add: bytes_of_def)
  then show ?thesis using assms(3) by (simp add: getBitcoinPrivateKeyByteArray_def as_num_def Let_def integerToBytes_def)
qed

lemma wif_shape:
  assumes "0 \<le> d" "d < 2 ^ 256" "priv k = Some (Inr d)"
  defines "h \<equiv> 128 # wif_payload d (compr k)"
  shows "\<exists>t. getBitcoinWalletImportFormat k = Inr t \<and> decode t = Inr (h @ take 4 (checksum h)) \<and>
    (if compr k then isCompressedWalletImportFormat t else isWalletImportFormat t)"
proof -
  have "d < 256 ^ 32" using assms(2) by simp
  note b = integerToBytes_ok [OF assms(1) this]
  define xs where "xs = wif_payload d (compr k) @ take 4 (checksum h)"
  have x: "is_bytes xs" "length xs = (if compr k then 37 else 36)"
    using b(1,2) by (auto simp: xs_def wif_payload_def is_bytes_Cons is_bytes_def [of "[]"])
  have e: "getBitcoinWalletImportFormat k = encode (128 # xs)"
    using private_bytes [OF assms(1-3)]
    by (simp add: getBitcoinWalletImportFormat_def privateKeyPrefix_def Let_def h_def xs_def wif_payload_def)
  have q: "128 # xs = h @ take 4 (checksum h)" by (simp add: h_def xs_def)
  show ?thesis
  proof (cases "compr k")
    case True
    obtain t i where t: "encode (128 # xs) = Inr t" "decode t = Inr (128 # xs)" "18 \<le> i" "i \<le> 19" "base58_tail [b58 i] 51 t"
      using encode_versioned [of xs 37 18 51 19] x True by auto
    have "i = 18 \<or> i = 19" using t(3,4) by linarith
    then have "base58_tail ''LK'' 51 t" using t(5) by (auto simp: base58_tail_def b58_def alphabet_def)
    then show ?thesis using t(1,2) True e q by (simp add: isCompressedWalletImportFormat_def privateKeyPrefix_def)
  next
    case False
    obtain t i where t: "encode (128 # xs) = Inr t" "decode t = Inr (128 # xs)" "4 \<le> i" "i \<le> 4" "base58_tail [b58 i] 50 t"
      using encode_versioned [of xs 36 4 50 4] x False by auto
    then have "base58_tail ''5'' 50 t" by (auto simp: base58_tail_def b58_def alphabet_def)
    then show ?thesis using t(1,2) False e q by (simp add: isWalletImportFormat_def privateKeyPrefix_def)
  qed
qed

lemma four_checked:
  assumes "length c = 32"
  shows "\<not> (nth_opt c 0 \<noteq> nth_opt (h @ take 4 c) (length h) \<or> nth_opt c 1 \<noteq> nth_opt (h @ take 4 c) (length h + 1) \<or>
    nth_opt c 2 \<noteq> nth_opt (h @ take 4 c) (length h + 2) \<or> nth_opt c 3 \<noteq> nth_opt (h @ take 4 c) (length h + 3))"
proof -
  have "nth_opt (h @ take 4 c) (length h + i) = nth_opt c i" if "i < 4" for i
    unfolding nth_opt_append using that assms by (simp add: nth_opt_def)
  from this [of 0] this [of 1] this [of 2] this [of 3] show ?thesis by simp
qed

lemma decode_wif_ok:
  assumes "decode t = Inr ((128 # xs) @ take 4 (checksum (128 # xs)))" "n = Suc (length xs)"
  shows "decode_wif n t = Inr xs"
proof -
  have n: "n = length (128 # xs)" by (simp add: assms(2))
  have t: "take n ((128 # xs) @ take 4 (checksum (128 # xs))) = 128 # xs" by (simp add: assms(2))
  show ?thesis
    unfolding decode_wif_def assms(1) bind_result_simps Let_def t
    unfolding n if_not_P [OF four_checked [OF checksum_ok(1)]]
    by (simp add: privateKeyPrefix_def)
qed

lemma wif_is_read:
  assumes "0 \<le> d" "d < 2 ^ 256" "priv k = Some (Inr d)"
  shows "\<exists>t. getBitcoinWalletImportFormat k = Inr t \<and> text_bytes t = Inr (Some (integerToBytes d 32), compr k) \<and> length t < 99"
proof -
  obtain t where t: "getBitcoinWalletImportFormat k = Inr t"
      "decode t = Inr ((128 # wif_payload d (compr k)) @ take 4 (checksum (128 # wif_payload d (compr k))))"
      "if compr k then isCompressedWalletImportFormat t else isWalletImportFormat t"
    using wif_shape [OF assms] by blast
  have "d < 256 ^ 32" using assms(2) by simp
  note l = integerToBytes_ok(1) [OF assms(1) this]
  have "text_bytes t = Inr (Some (integerToBytes d 32), compr k) \<and> length t < 99"
  proof (cases "compr k")
    case True
    have "decode_wif 34 t = Inr (integerToBytes d 32 @ [1])"
      using True l by (intro decode_wif_ok) (use t(2) in \<open>simp_all add: wif_payload_def\<close>)
    moreover have "isCompressedWalletImportFormat t" "\<not> isWalletImportFormat t" "length t = 52"
      using t(3) True by (auto simp: isWalletImportFormat_def isCompressedWalletImportFormat_def base58_tail_def)
    ultimately show ?thesis using True
      by (simp add: text_bytes_def decodeCompressedWalletImportFormat_def)
  next
    case False
    have "decode_wif 33 t = Inr (integerToBytes d 32)"
      using False l by (intro decode_wif_ok) (use t(2) in \<open>simp_all add: wif_payload_def\<close>)
    moreover have "isWalletImportFormat t" "length t = 51"
      using t(3) False by (auto simp: isWalletImportFormat_def base58_tail_def)
    ultimately show ?thesis using False by (simp add: text_bytes_def decodeWalletImportFormat_def)
  qed
  then show ?thesis using t(1) by blast
qed

lemma upper_hex_byte:
  "\<forall>d\<in>set [0..255]. case upper (bytesToHex [d]) of [a, b] \<Rightarrow> a \<in> set hex_chars \<and> b \<in> set hex_chars \<and> js_parseInt [a, b] 16 = Some d
    | _ \<Rightarrow> False"
  by code_simp

lemma upper_hex:
  assumes "is_bytes bs"
  shows "hexToBytes (upper (bytesToHex bs)) = map Some bs \<and> length (upper (bytesToHex bs)) = 2 * length bs \<and>
    set (upper (bytesToHex bs)) \<subseteq> set hex_chars"
  using assms
proof (induction bs)
  case (Cons d bs)
  have "d \<in> set [0..255]" using Cons.prems by (simp add: is_bytes_Cons)
  then obtain a b where ab: "upper (bytesToHex [d]) = [a, b]" "a \<in> set hex_chars" "b \<in> set hex_chars" "js_parseInt [a, b] 16 = Some d"
    using upper_hex_byte by (fastforce split: list.splits)
  have "upper (bytesToHex (d # bs)) = upper (bytesToHex [d]) @ upper (bytesToHex bs)" by (simp add: upper_def bytesToHex_def)
  then show ?case using Cons ab by (simp add: is_bytes_Cons)
qed (simp add: upper_def bytesToHex_def)

lemma b64_chars: "set (b64_loop xs i len) \<subseteq> set (base64map @ ''='') \<and> length (b64_loop xs i len) = 4 * ((length xs + 2) div 3)"
proof (induction xs i len rule: b64_loop.induct)
  case (2 x xs i len)
  have "b64_char t i len j \<in> set (base64map @ ''='')" for t j
  proof -
    have "nat (y mod 64) < length base64map" for y :: int
      using pos_mod_bound [of 64 y] pos_mod_sign [of 64 y] by (simp add: base64map_def nat_less_iff)
    then have "base64map ! nat (y mod 64) \<in> set base64map" for y by (rule nth_mem)
    then show ?thesis by (simp add: b64_char_def js_and_mask_num)
  qed
  moreover have "(length (x # xs) + 2) div 3 = Suc ((length (drop 2 xs) + 2) div 3)"
    by (cases xs; cases "tl xs") auto
  ultimately show ?case using "2.IH" [OF refl] unfolding b64_loop.simps Let_def by simp
qed simp

lemma other_formats_read:
  assumes "0 \<le> d" "d < 2 ^ 256" "priv k = Some (Inr d)"
  shows "\<exists>h b. getBitcoinHexFormat k = Inr h \<and> getBitcoinBase64Format k = Inr b \<and> length h = 64 \<and> length b = 44 \<and>
    text_bytes h = Inr (Some (integerToBytes d 32), False) \<and> text_bytes b = Inr (Some (integerToBytes d 32), False)"
proof -
  have "d < 256 ^ 32" using assms(2) by simp
  note i = integerToBytes_ok [OF assms(1) this]
  define h b where "h = upper (bytesToHex (integerToBytes d 32))" and "b = bytesToBase64 (integerToBytes d 32)"
  have h: "length h = 64" "set h \<subseteq> set hex_chars" "hexToBytes h = map Some (integerToBytes d 32)"
    using upper_hex [OF i(2)] i(1) by (simp_all add: h_def)
  have b: "length b = 44" "set b \<subseteq> set (base64map @ ''='')" "base64ToBytes b = integerToBytes d 32"
    using b64_chars [of "integerToBytes d 32" 0 "length (integerToBytes d 32)"] base64ToBytes_bytesToBase64 [OF i(2)] i(1)
    by (simp_all add: b_def bytesToBase64_def)
  have n: "\<not> isWalletImportFormat t" "\<not> isCompressedWalletImportFormat t" "\<not> isMiniFormat t"
    if "length t = 64 \<or> length t = 44" for t
    using that by (auto simp: isWalletImportFormat_def isCompressedWalletImportFormat_def isMiniFormat_def base58_tail_def Let_def)
  have "text_bytes h = Inr (Some (integerToBytes d 32), False)"
    using n [of h] h by (simp add: text_bytes_def isHexFormat_def list_all_iff subset_iff comp_def)
  moreover have "text_bytes b = Inr (Some (integerToBytes d 32), False)"
    using n [of b] b by (simp add: text_bytes_def isHexFormat_def isBase64Format_def list_all_iff subset_iff)
  moreover have "getBitcoinHexFormat k = Inr h" "getBitcoinBase64Format k = Inr b"
    using private_bytes [OF assms] by (simp_all add: getBitcoinHexFormat_def getBitcoinBase64Format_def h_def b_def)
  ultimately show ?thesis using h(1) b(1) by blast
qed

lemma text_key_ok:
  assumes "0 \<le> d" "d < 2 ^ 256" "text_bytes t = Inr (Some (integerToBytes d 32), c)" "length t < 99"
  shows "text_key t = fresh_key (Some (Inr d)) c"
proof -
  have "d < 256 ^ 32" using assms(2) by simp
  note i = integerToBytes_ok [OF assms(1) this]
  have "of_bytes (integerToBytes d 32) = Inr d" using i by (auto simp: of_bytes_def)
  moreover have "\<not> isBase6Format t" using assms(4) by (simp add: isBase6Format_def)
  ultimately show ?thesis using assms(3) i(1) by (simp add: text_key_def Let_def fresh_key_def compressByDefault_def)
qed

section \<open>Keys come back from their texts\<close>

lemma limit_ok: "limitBigInt = 0xFFFFFFFFFFFFFFFFFFFFFFFFFFFFFFFEBAAEDCE6AF48A03BBFD25E8CD0364140"
  by code_simp

lemma ECKey_text:
  assumes "0 < d" "d \<le> limitBigInt" "text_bytes t = Inr (Some (integerToBytes d 32), c)" "t \<noteq> []" "length t < 99"
  shows "ECKey en (TextInput t) ([], s) = (fresh_key (Some (Inr d)) c, [fresh_key (Some (Inr d)) c], s)"
proof -
  have "d < 2 ^ 256" using assms(2) by (simp add: limit_ok)
  then have "text_key t = fresh_key (Some (Inr d)) c" using assms by (intro text_key_ok) simp_all
  moreover have "check_key (fresh_key (Some (Inr d)) c) [] = (fresh_key (Some (Inr d)) c, [fresh_key (Some (Inr d)) c])"
    using assms(1,2) by (simp add: check_key_def fresh_key_def is_num_def pool_push_def Let_def)
  ultimately show ?thesis using assms(4) by (simp add: ECKey_def)
qed

text \<open>
  C34: Every text a private key is exported to is read back as that key: for each number in the range of the curve
  the wallet import format (with its check sum, and with the marker that the public key is compressed), the
  hexadecimal and the base 64 text are taken for what they are by the constructor, which makes the key of the same
  number without an error and puts it in the pool. Only the wallet import format keeps the flag of compression.
\<close>

theorem key_texts_roundtrip:
  assumes "0 < d" "d \<le> limitBigInt" "priv k = Some (Inr d)"
  shows "\<exists>w h b. getBitcoinWalletImportFormat k = Inr w \<and> getBitcoinHexFormat k = Inr h \<and> getBitcoinBase64Format k = Inr b \<and>
    ECKey en (TextInput w) ([], s) = (fresh_key (Some (Inr d)) (compr k), [fresh_key (Some (Inr d)) (compr k)], s) \<and>
    ECKey en (TextInput h) ([], s) = (fresh_key (Some (Inr d)) False, [fresh_key (Some (Inr d)) False], s) \<and>
    ECKey en (TextInput b) ([], s) = (fresh_key (Some (Inr d)) False, [fresh_key (Some (Inr d)) False], s)"
proof -
  have d: "0 \<le> d" "d < 2 ^ 256" using assms(1,2) by (simp_all add: limit_ok)
  obtain w where w: "getBitcoinWalletImportFormat k = Inr w" "text_bytes w = Inr (Some (integerToBytes d 32), compr k)" "length w < 99"
    using wif_is_read [OF d assms(3)] by blast
  have e: "w \<noteq> []"
  proof
    assume "w = []"
    moreover have "\<not> isWalletImportFormat []" "\<not> isCompressedWalletImportFormat []" "\<not> isMiniFormat []" "\<not> isHexFormat []" "\<not> isBase64Format []"
      by (simp_all add: isWalletImportFormat_def isCompressedWalletImportFormat_def isMiniFormat_def isHexFormat_def isBase64Format_def base58_tail_def Let_def)
    ultimately show False using w(2) by (simp add: text_bytes_def)
  qed
  obtain h b where t: "getBitcoinHexFormat k = Inr h" "getBitcoinBase64Format k = Inr b" "length h = 64" "length b = 44"
      "text_bytes h = Inr (Some (integerToBytes d 32), False)" "text_bytes b = Inr (Some (integerToBytes d 32), False)"
    using other_formats_read [OF d assms(3)] by blast
  note E = ECKey_text [OF assms(1,2)]
  have "h \<noteq> []" "b \<noteq> []" using t(3,4) by auto
  then show ?thesis using w(1) t(1,2) E [OF w(2) e w(3)] E [OF t(5)] E [OF t(6)] t(3,4) by auto
qed

theorem key_texts_roundtrip_witness:
  "\<exists>w h b. getBitcoinWalletImportFormat (fresh_key (Some (Inr 5)) True) = Inr w \<and>
    getBitcoinHexFormat (fresh_key (Some (Inr 5)) True) = Inr h \<and> getBitcoinBase64Format (fresh_key (Some (Inr 5)) True) = Inr b \<and>
    (\<forall>t\<in>{w, h, b}. priv (fst (ECKey \<lparr>clock = 0, draws = \<lambda>i. None\<rparr> (TextInput t) ([], \<lparr>state = None, pool = [], pptr = 0, poolCopyOnInit = []\<rparr>))) = Some (Inr 5))"
proof -
  have "priv (fresh_key (Some (Inr 5)) True) = Some (Inr 5)" "(5 :: int) \<le> limitBigInt" by (simp_all add: fresh_key_def limit_ok)
  from key_texts_roundtrip [OF _ this(2,1), of "\<lparr>clock = 0, draws = \<lambda>i. None\<rparr>" "\<lparr>state = None, pool = [], pptr = 0, poolCopyOnInit = []\<rparr>"] show ?thesis
    by (fastforce simp: fresh_key_def)
qed

end
