(* ===== verification/Signing.thy ===== *)
theory Signing
  imports KeyFacts
begin

text \<open>
  What signing and verification of \<open>src/bitcoinjs-lib.ecdsa.js\<close> promise each other. The group law of an elliptic
  curve is a theorem of mathematics that no code can establish; \<open>group_law\<close> states it for the operations of
  \<open>PointFp\<close>, by a relation between the multiples of the base point and the points that represent them.
\<close>

section \<open>The group law as a hypothesis\<close>

definition group_law :: "x9 \<Rightarrow> (int \<Rightarrow> point \<Rightarrow> bool) \<Rightarrow> bool" where
  "group_law ec rep \<longleftrightarrow>
     rep 1 (getG ec) \<and> rep 0 (getInfinity (getCurve ec)) \<and>
     (\<forall>a P. rep a P \<longrightarrow> pcurve P = getCurve ec \<and> rep (a + a) (twice P) \<and> rep (- a) (point_negate P)) \<and>
     (\<forall>a b P Q. rep a P \<and> rep b Q \<longrightarrow> rep (a + b) (point_add P Q)) \<and>
     (\<forall>a b P. rep a P \<and> a mod getN ec = b mod getN ec \<longrightarrow> rep b P) \<and>
     (\<forall>a P. rep a P \<and> isInfinity P \<longrightarrow> a mod getN ec = 0) \<and>
     (\<forall>a P Q. rep a P \<and> rep a Q \<and> a mod getN ec \<noteq> 0 \<longrightarrow> (\<exists>f. getX P = Inr f \<and> getX Q = Inr f))"

lemma group_lawD:
  assumes "group_law ec rep"
  shows "rep 1 (getG ec)" "rep 0 (getInfinity (getCurve ec))" "rep a P \<Longrightarrow> pcurve P = getCurve ec"
    "rep a P \<Longrightarrow> rep (a + a) (twice P)" "rep a P \<Longrightarrow> rep (- a) (point_negate P)"
    "rep a P \<Longrightarrow> rep b Q \<Longrightarrow> rep (a + b) (point_add P Q)"
    "rep a P \<Longrightarrow> a mod getN ec = b mod getN ec \<Longrightarrow> rep b P" "rep a P \<Longrightarrow> isInfinity P \<Longrightarrow> a mod getN ec = 0"
    "rep a P \<Longrightarrow> rep a Q \<Longrightarrow> a mod getN ec \<noteq> 0 \<Longrightarrow> \<exists>f. getX P = Inr f \<and> getX Q = Inr f"
proof -
  note c = assms [unfolded group_law_def]
  note h1 = conjunct1 [OF c] and c1 = conjunct2 [OF c]
  note h2 = conjunct1 [OF c1] and c2 = conjunct2 [OF c1]
  note h3 = conjunct1 [OF c2] and c3 = conjunct2 [OF c2]
  note h4 = conjunct1 [OF c3] and c4 = conjunct2 [OF c3]
  note h5 = conjunct1 [OF c4] and c5 = conjunct2 [OF c4]
  note h6 = conjunct1 [OF c5] and h7 = conjunct2 [OF c5]
  note h = h3 h4 h5 h6 h7 h1 h2
  show "rep 1 (getG ec)" "rep 0 (getInfinity (getCurve ec))" by (rule h)+
  show "rep a P \<Longrightarrow> pcurve P = getCurve ec" "rep a P \<Longrightarrow> rep (a + a) (twice P)" "rep a P \<Longrightarrow> rep (- a) (point_negate P)"
    using h(1) by simp_all
  show "rep a P \<Longrightarrow> rep b Q \<Longrightarrow> rep (a + b) (point_add P Q)" using h(2) by simp
  show "rep a P \<Longrightarrow> a mod getN ec = b mod getN ec \<Longrightarrow> rep b P" using h(3) by metis
  show "rep a P \<Longrightarrow> isInfinity P \<Longrightarrow> a mod getN ec = 0" using h(4) by metis
  show "rep a P \<Longrightarrow> rep a Q \<Longrightarrow> a mod getN ec \<noteq> 0 \<Longrightarrow> \<exists>f. getX P = Inr f \<and> getX Q = Inr f" using h(5) by metis
qed

lemma times_int_mult: "0 \<le> k \<Longrightarrow> times_int k (a :: int) = k * a"
  by (simp add: times_int_def times_nat_def)

text \<open>The multiples that \<open>multiply\<close> computes.\<close>

lemma multiply_rep:
  assumes "group_law ec rep" "rep a P" "0 \<le> k"
  shows "rep (k * a) (point_multiply P k)"
proof -
  note g = group_lawD [OF assms(1)]
  consider "isInfinity P" | "\<not> isInfinity P" "k = 0" | "\<not> isInfinity P" "0 < k" using assms(3) by linarith
  then show ?thesis
  proof cases
    case 1
    then have "a mod getN ec = 0" using g(8) [OF assms(2)] by blast
    then have "(k * a) mod getN ec = a mod getN ec" by (metis mod_mult_right_eq mult_zero_right mod_0)
    then show ?thesis using 1 g(7) [OF assms(2)] by (simp add: point_multiply_def)
  next
    case 2
    then show ?thesis using g(2) g(3) [OF assms(2)] by (simp add: point_multiply_def)
  next
    case 3
    have "scalar_rep twice point_add rep" by unfold_locales (rule g(4), assumption, rule g(6))
    from scalar_rep.multiple_rel [OF this assms(2) g(5) [OF assms(2)] 3(2)] show ?thesis
      using 3 by (simp add: point_multiply_def Let_def times_int_mult)
  qed
qed

section \<open>Signing\<close>

lemma getBigRandom_range:
  assumes "2 < n" "getBigRandom en i n s = (k, s')"
  shows "0 < k \<and> k < n"
proof -
  obtain x t where "fromNumber (bit_len n) (clock en) (draws en i) s = (x, t)" by (rule prod.exhaust)
  then have k: "k = x mod (n - 1) + 1" using assms(2) by (simp add: getBigRandom_def)
  have "0 \<le> x mod (n - 1)" "x mod (n - 1) < n - 1" using assms(1) by simp_all
  then show ?thesis unfolding k by linarith
qed

definition good_nonce :: "x9 \<Rightarrow> (int \<times> int \<times> sr) result \<Rightarrow> bool" where
  "good_nonce ec y \<longleftrightarrow> (\<forall>k r s'. y = Inr (k, r, s') \<longrightarrow>
     0 < k \<and> k < getN ec \<and> 0 < r \<and> (\<exists>f. getX (point_multiply (getG ec) k) = Inr f \<and> r = toBigInteger f mod getN ec))"

lemma nonce_loop_ok: "nonce_loop ec en i s = Some y \<Longrightarrow> 2 < getN ec \<longrightarrow> good_nonce ec y"
proof (erule nonce_loop.raw_induct [where P = "\<lambda>ec en i s y. 2 < getN ec \<longrightarrow> good_nonce ec y", rotated])
  fix loop ec en i s y
  assume IH: "\<And>ec en i s y. loop ec en i s = Some y \<Longrightarrow> 2 < getN ec \<longrightarrow> good_nonce ec y"
    and e: "(let n = getN ec; (k, s') = getBigRandom en i n s; G = getG ec; Q = point_multiply G k
      in case getX Q of
           Inl e \<Rightarrow> Some (Inl e)
         | Inr f \<Rightarrow> let r = toBigInteger f mod n
             in if r \<le> 0 then loop ec en (Suc i) s' else Some (Inr (k, r, s'))) = Some y"
  show "2 < getN ec \<longrightarrow> good_nonce ec y"
  proof
    assume n: "2 < getN ec"
    obtain k s' where k: "getBigRandom en i (getN ec) s = (k, s')" by (rule prod.exhaust)
    note k' = getBigRandom_range [OF n k]
    show "good_nonce ec y"
      using e IH [of ec en "Suc i" s' y] n k'
      by (auto simp: k Let_def good_nonce_def split: sum.splits if_splits)
  qed
qed

section \<open>What is signed is accepted\<close>

definition prime_order :: "int \<Rightarrow> bool" where
  "prime_order n \<longleftrightarrow> 2 < n \<and> (\<forall>x\<in>set [1..n - 1]. gcd x n = 1)"

lemma signature_equation:
  fixes n :: int
  assumes "ki * k mod n = 1" "c * s mod n = 1" "s = ki * t mod n"
  shows "c * t mod n = k mod n"
proof -
  have "k mod n = (c * s mod n * k) mod n" by (simp add: assms(2))
  also have "\<dots> = (c * (ki * t) * k) mod n" unfolding assms(3) by (simp add: mod_simps)
  also have "c * (ki * t) * k = ki * k * (c * t)" by (simp add: ac_simps)
  also have "ki * k * (c * t) mod n = (ki * k mod n) * (c * t) mod n" by (simp only: mod_mult_left_eq)
  also have "\<dots> = c * t mod n" by (simp add: assms(1))
  finally show ?thesis by simp
qed

lemma verifyRaw_ok:
  assumes "group_law ec rep" "prime_order (getN ec)" "rep d Q" "good_nonce ec (Inr (k, r, s'))"
    "inverse_mod k (getN ec) = Inr ki" "s = ki * (e + d * r) mod getN ec" "s \<noteq> 0"
  shows "verifyRaw ec (Inr e) (Inr r) (Inr s) Q = Inr True"
proof -
  define n where "n = getN ec"
  have n: "2 < n" "\<And>x. 0 < x \<Longrightarrow> x < n \<Longrightarrow> gcd x n = 1" using assms(2) by (simp_all add: prime_order_def n_def)
  obtain f where k: "0 < k" "k < n" "0 < r" "getX (point_multiply (getG ec) k) = Inr f" "r = toBigInteger f mod n"
    using assms(4) by (auto simp: good_nonce_def n_def)
  have r: "r < n" using n(1) unfolding k(5) by simp
  have "0 \<le> s" "s < n" using n(1) unfolding assms(6) n_def [symmetric] by simp_all
  then have s: "0 < s" "s < n" using assms(7) by simp_all
  obtain ki' where "inverse_mod k n = Inr ki'" "ki' * k mod n = 1" using inverse_mod_ok [OF k(1) _ n(2) [OF k(1,2)]] n(1) by auto
  then have ki: "ki * k mod n = 1" using assms(5) by (simp add: n_def)
  obtain c where c: "inverse_mod s n = Inr c" "c * s mod n = 1" using inverse_mod_ok [OF s(1) _ n(2) [OF s]] n(1) by auto
  define u1 u2 where "u1 = e * c mod n" and "u2 = r * c mod n"
  have u: "0 \<le> u1" "0 \<le> u2" using n(1) by (simp_all add: u1_def u2_def)
  define P where "P = point_add (point_multiply (getG ec) u1) (point_multiply Q u2)"
  note g = group_lawD [OF assms(1), folded n_def]
  have "rep (u1 * 1 + u2 * d) P"
    unfolding P_def by (intro g(6) multiply_rep [OF assms(1)] g(1) assms(3) u)
  moreover have "(u1 * 1 + u2 * d) mod n = k mod n"
  proof -
    have "(u1 * 1 + u2 * d) mod n = (e * c * 1 + r * c * d) mod n"
      unfolding u1_def u2_def by (intro mod_add_cong mod_mult_cong mod_mod_trivial refl)
    also have "e * c * 1 + r * c * d = c * (e + d * r)" by (simp add: algebra_simps)
    also have "c * (e + d * r) mod n = k mod n" using signature_equation [OF ki c(2)] assms(6) by (simp add: n_def)
    finally show ?thesis .
  qed
  ultimately have "rep k P" by (rule g(7))
  moreover have "rep k (point_multiply (getG ec) k)" using multiply_rep [OF assms(1) g(1), of k] k(1) by simp
  ultimately have x: "getX P = Inr f" using g(9) [of k P] k(1,2,4) by fastforce
  have "verifyRaw ec (Inr e) (Inr r) (Inr s) Q = bind_result (getX P) (\<lambda>f. Inr (toBigInteger f mod n = r))"
    using s r k(3) c(1)
    by (simp add: verifyRaw_def as_num_def Let_def n_def [symmetric] u1_def [symmetric] u2_def [symmetric] P_def [symmetric])
  then show ?thesis using k(5) by (simp add: x)
qed


section \<open>Signing returns\<close>

text \<open>The nonces in the order they are drawn, and the first half of the signature that a nonce gives.\<close>

primrec rng_after :: "x9 \<Rightarrow> entropy \<Rightarrow> sr \<Rightarrow> nat \<Rightarrow> sr" where
  "rng_after ec en s 0 = s"
| "rng_after ec en s (Suc i) = snd (getBigRandom en i (getN ec) (rng_after ec en s i))"

definition drawn_nonce :: "x9 \<Rightarrow> entropy \<Rightarrow> sr \<Rightarrow> nat \<Rightarrow> int" where
  "drawn_nonce ec en s i = fst (getBigRandom en i (getN ec) (rng_after ec en s i))"

definition first_half :: "x9 \<Rightarrow> int \<Rightarrow> int" where
  "first_half ec k = (case getX (point_multiply (getG ec) k) of Inl _ \<Rightarrow> 0 | Inr f \<Rightarrow> toBigInteger f mod getN ec)"

lemma nonce_loop_step:
  assumes "group_law ec rep" "2 < getN ec"
  shows "nonce_loop ec en i (rng_after ec en s i) =
    (if first_half ec (drawn_nonce ec en s i) = 0 then nonce_loop ec en (Suc i) (rng_after ec en s (Suc i))
     else Some (Inr (drawn_nonce ec en s i, first_half ec (drawn_nonce ec en s i), rng_after ec en s (Suc i))))"
proof -
  define k where "k = drawn_nonce ec en s i"
  have b: "getBigRandom en i (getN ec) (rng_after ec en s i) = (k, rng_after ec en s (Suc i))" by (simp add: k_def drawn_nonce_def)
  note k = getBigRandom_range [OF assms(2) b]
  have "rep k (point_multiply (getG ec) k)" using multiply_rep [OF assms(1) group_lawD(1) [OF assms(1)], of k] k by simp
  then obtain f where f: "getX (point_multiply (getG ec) k) = Inr f"
    using group_lawD(9) [OF assms(1), of k] k by (metis mod_pos_pos_trivial order_less_le)
  have h: "first_half ec k = toBigInteger f mod getN ec" by (simp add: first_half_def f)
  have "0 \<le> toBigInteger f mod getN ec" using assms(2) by simp
  then have z: "(first_half ec k \<le> 0) = (first_half ec k = 0)" unfolding h by linarith
  show ?thesis
    by (subst nonce_loop.simps) (simp only: b f h [symmetric] z Let_def k_def [symmetric] split sum.case)
qed

lemma nonce_loop_reaches:
  assumes "group_law ec rep" "2 < getN ec" "first_half ec (drawn_nonce ec en s (i + m)) \<noteq> 0"
  shows "\<exists>y. nonce_loop ec en i (rng_after ec en s i) = Some (Inr y)"
  using assms(3)
proof (induction m arbitrary: i)
  case (Suc m)
  from Suc.IH [of "Suc i"] Suc.prems show ?case by (subst nonce_loop_step [OF assms(1,2)]) (simp del: rng_after.simps)
qed (subst nonce_loop_step [OF assms(1,2)], simp del: rng_after.simps)


section \<open>A curve of seven points\<close>

text \<open>
  The curve \<open>y^2 = x^3 + 2x + 1\<close> modulo 3 has seven points with the one at infinity, all of them multiples of
  \<open>(0, 1)\<close>. Its group law is checked on all representations of the points by reduced coordinates.
\<close>

definition curve7 :: curve where "curve7 = CurveFp 3 2 1"

definition ec7 :: x9 where
  "ec7 = X9Parameters curve7 (PointFp curve7 (Some (FieldElementFp 3 0)) (Some (FieldElementFp 3 1)) None False) 7 1"

definition table7 :: "(int \<times> int) list" where
  "table7 = [(0, 1), (1, 1), (2, 2), (2, 1), (1, 2), (0, 2)]"

definition forms7 :: "int \<Rightarrow> point list" where
  "forms7 a =
     (if a = 0 then [getInfinity curve7]
      else let (x, y) = table7 ! nat (a - 1)
        in map (\<lambda>z. PointFp curve7 (Some (FieldElementFp 3 (x * z mod 3))) (Some (FieldElementFp 3 (y * z mod 3))) (Some z) False) [1, 2])"

definition rep7 :: "int \<Rightarrow> point \<Rightarrow> bool" where
  "rep7 a P \<longleftrightarrow> P \<in> set (forms7 (a mod 7))"

declare inv_loop.simps [code] halve_loop.simps [code] sub_while.simps [code] add_while.simps [code] nonce_loop.simps [code]

lemma unary7:
  "\<forall>a\<in>set [0..6]. \<forall>P\<in>set (forms7 a). pcurve P = curve7 \<and> twice P \<in> set (forms7 ((a + a) mod 7)) \<and>
     point_negate P \<in> set (forms7 (- a mod 7)) \<and> (isInfinity P \<longrightarrow> a = 0)"
  by code_simp

lemma binary7:
  "\<forall>a\<in>set [0..6]. \<forall>b\<in>set [0..6]. \<forall>P\<in>set (forms7 a). \<forall>Q\<in>set (forms7 b). point_add P Q \<in> set (forms7 ((a + b) mod 7))"
  by code_simp

lemma getX7: "\<forall>a\<in>set [1..6]. \<forall>P\<in>set (forms7 a). getX P = Inr (fromBigInteger curve7 (fst (table7 ! nat (a - 1))))"
  by code_simp

lemma group_law7: "group_law ec7 rep7"
  unfolding group_law_def
proof (intro conjI allI impI)
  have r: "a mod 7 \<in> set [0..6]" for a :: int using pos_mod_bound [of 7 a] pos_mod_sign [of 7 a] by simp
  have n: "getN ec7 = 7" "getCurve ec7 = curve7" by (simp_all add: ec7_def X9Parameters_def getN_def getCurve_def)
  show "rep7 1 (getG ec7)" "rep7 0 (getInfinity (getCurve ec7))" unfolding rep7_def by code_simp+
  fix a P assume P: "rep7 a P"
  note u = bspec [OF bspec [OF unary7 r] P [unfolded rep7_def]]
  show "pcurve P = getCurve ec7" using u by (simp add: n)
  show "rep7 (a + a) (twice P)" "rep7 (- a) (point_negate P)" using u by (simp_all add: rep7_def mod_simps)
next
  have r: "a mod 7 \<in> set [0..6]" for a :: int using pos_mod_bound [of 7 a] pos_mod_sign [of 7 a] by simp
  fix a b P Q assume "rep7 a P \<and> rep7 b Q"
  then have "point_add P Q \<in> set (forms7 ((a mod 7 + b mod 7) mod 7))"
    unfolding rep7_def by (intro bspec [OF bspec [OF bspec [OF bspec [OF binary7 r] r]]]) simp_all
  then show "rep7 (a + b) (point_add P Q)" by (simp add: rep7_def mod_simps)
next
  have n: "getN ec7 = 7" by (simp add: ec7_def X9Parameters_def getN_def)
  show "rep7 a P \<and> a mod getN ec7 = b mod getN ec7 \<Longrightarrow> rep7 b P" for a b P unfolding rep7_def n by metis
  have r: "a mod 7 \<in> set [0..6]" for a :: int using pos_mod_bound [of 7 a] pos_mod_sign [of 7 a] by simp
  show "rep7 a P \<and> isInfinity P \<Longrightarrow> a mod getN ec7 = 0" for a P
    using unary7 r [of a] unfolding rep7_def n by blast
  fix a P Q assume a: "rep7 a P \<and> rep7 a Q \<and> a mod getN ec7 \<noteq> 0"
  have "a mod 7 \<noteq> 0" using conjunct2 [OF conjunct2 [OF a]] unfolding n .
  moreover have "0 \<le> a mod 7" "a mod 7 < 7" by simp_all
  ultimately have "a mod 7 \<in> set [1..6]" unfolding set_upto atLeastAtMost_iff by linarith
  from bspec [OF getX7 this] a show "\<exists>f. getX P = Inr f \<and> getX Q = Inr f" unfolding rep7_def by blast
qed



end
