(* ===== verification/Utf8.thy ===== *)
theory Utf8
  imports CryptoUtil
begin

text \<open>
  The module \<open>utf8\<close> of the web3 bundle (\<open>app/javascripts/web3.js\<close>): text to UTF-8 and back. A JavaScript
  string is the list of its UTF-16 code units; the byte strings are strings whose units are bytes.
\<close>

section \<open>Code points and code units\<close>

fun ucs2decode :: "int list \<Rightarrow> int list" where
  "ucs2decode [] = []"
| "ucs2decode [value] = [value]"
| "ucs2decode (value # extra # string) =
     (if value \<ge> 0xD800 \<and> value \<le> 0xDBFF
      then if js_and extra 0xFC00 = 0xDC00
           then (js_shl (js_and value 0x3FF) 10 + js_and extra 0x3FF + 0x10000) # ucs2decode string
           else value # ucs2decode (extra # string)
      else value # ucs2decode (extra # string))"

definition ucs2_units :: "int \<Rightarrow> int list" where
  "ucs2_units value =
     (if value > 0xFFFF
      then let value = value - 0x10000
        in [js_or (js_and (js_ushr value 10) 0x3FF) 0xD800, js_or 0xDC00 (js_and value 0x3FF)]
      else [value])"

definition ucs2encode :: "int list \<Rightarrow> int list" where
  "ucs2encode array = concat (map ucs2_units array)"

definition checkScalarValue :: "int \<Rightarrow> unit result" where
  "checkScalarValue codePoint =
     (if codePoint \<ge> 0xD800 \<and> codePoint \<le> 0xDFFF
      then Inl (''Lone surrogate U+'' @ upper (num_str 16 codePoint) @ '' is not a scalar value'')
      else Inr ())"

section \<open>Encoding\<close>

definition createByte :: "int \<Rightarrow> int \<Rightarrow> int" where
  "createByte codePoint shift = js_or (js_and (js_shr codePoint shift) 0x3F) 0x80"

definition encodeCodePoint :: "int \<Rightarrow> int list result" where
  "encodeCodePoint codePoint =
     (if js_and codePoint 0xFFFFFF80 = 0 then Inr [codePoint]
      else bind_result
        (if js_and codePoint 0xFFFFF800 = 0
         then Inr [js_or (js_and (js_shr codePoint 6) 0x1F) 0xC0]
         else if js_and codePoint 0xFFFF0000 = 0
         then bind_result (checkScalarValue codePoint) (\<lambda>_.
                Inr [js_or (js_and (js_shr codePoint 12) 0x0F) 0xE0, createByte codePoint 6])
         else if js_and codePoint 0xFFE00000 = 0
         then Inr [js_or (js_and (js_shr codePoint 18) 0x07) 0xF0, createByte codePoint 12, createByte codePoint 6]
         else Inr [])
        (\<lambda>symbol. Inr (symbol @ [js_or (js_and codePoint 0x3F) 0x80])))"

fun encode_points :: "int list \<Rightarrow> int list result" where
  "encode_points [] = Inr []"
| "encode_points (codePoint # codePoints) =
     bind_result (encodeCodePoint codePoint) (\<lambda>symbol.
       bind_result (encode_points codePoints) (\<lambda>byteString. Inr (symbol @ byteString)))"

definition utf8encode :: "int list \<Rightarrow> int list result" where
  "utf8encode string = encode_points (ucs2decode string)"

section \<open>Decoding\<close>

text \<open>The rest of \<open>byteArray\<close> from \<open>byteIndex\<close> on is passed along.\<close>

fun readContinuationByte :: "int list \<Rightarrow> (int \<times> int list) result" where
  "readContinuationByte [] = Inl ''Invalid byte index''"
| "readContinuationByte (b # rest) =
     (let continuationByte = js_and b 0xFF
      in if js_and continuationByte 0xC0 = 0x80 then Inr (js_and continuationByte 0x3F, rest)
         else Inl ''Invalid continuation byte'')"

text \<open>The code point and what is left, \<open>None\<close> at the end.\<close>

fun decodeSymbol :: "int list \<Rightarrow> (int \<times> int list) option result" where
  "decodeSymbol [] = Inr None"
| "decodeSymbol (b # rest) =
     (let byte1 = js_and b 0xFF
      in if js_and byte1 0x80 = 0 then Inr (Some (byte1, rest))
         else if js_and byte1 0xE0 = 0xC0
         then bind_result (readContinuationByte rest) (\<lambda>(byte2, rest).
           let codePoint = js_or (js_shl (js_and byte1 0x1F) 6) byte2
           in if codePoint \<ge> 0x80 then Inr (Some (codePoint, rest)) else Inl ''Invalid continuation byte'')
         else if js_and byte1 0xF0 = 0xE0
         then bind_result (readContinuationByte rest) (\<lambda>(byte2, rest).
           bind_result (readContinuationByte rest) (\<lambda>(byte3, rest).
             let codePoint = js_or (js_or (js_shl (js_and byte1 0x0F) 12) (js_shl byte2 6)) byte3
             in if codePoint \<ge> 0x0800
                then bind_result (checkScalarValue codePoint) (\<lambda>_. Inr (Some (codePoint, rest)))
                else Inl ''Invalid continuation byte''))
         else if js_and byte1 0xF8 = 0xF0
         then bind_result (readContinuationByte rest) (\<lambda>(byte2, rest).
           bind_result (readContinuationByte rest) (\<lambda>(byte3, rest).
             bind_result (readContinuationByte rest) (\<lambda>(byte4, rest).
               let codePoint = js_or (js_or (js_or (js_shl (js_and byte1 0x07) 0x12) (js_shl byte2 0x0C)) (js_shl byte3 0x06)) byte4
               in if codePoint \<ge> 0x010000 \<and> codePoint \<le> 0x10FFFF then Inr (Some (codePoint, rest))
                  else Inl ''Invalid UTF-8 detected'')))
         else Inl ''Invalid UTF-8 detected'')"

lemma readContinuationByte_shorter: "readContinuationByte bs = Inr (b, rest) \<Longrightarrow> length rest < length bs"
  by (cases bs) (auto simp: Let_def split: if_splits)

lemma decodeSymbol_shorter: "decodeSymbol bs = Inr (Some (c, rest)) \<Longrightarrow> length rest < length bs"
  by (cases bs)
    (fastforce simp: Let_def bind_result_Inr dest!: readContinuationByte_shorter split: if_splits)+

function decode_loop :: "int list \<Rightarrow> int list \<Rightarrow> int list result" where
  "decode_loop bytes codePoints =
     (case decodeSymbol bytes of
        Inl e \<Rightarrow> Inl e
      | Inr None \<Rightarrow> Inr codePoints
      | Inr (Some (tmp, rest)) \<Rightarrow> decode_loop rest (codePoints @ [tmp]))"
  by pat_completeness auto
termination
  by (relation "measure (\<lambda>(bytes, codePoints). length bytes)") (auto dest: decodeSymbol_shorter)

declare decode_loop.simps [simp del]

definition utf8decode :: "int list \<Rightarrow> int list result" where
  "utf8decode byteString =
     bind_result (decode_loop (ucs2decode byteString) []) (\<lambda>codePoints. Inr (ucs2encode codePoints))"

section \<open>The encoding form by arithmetic\<close>

definition scalar :: "int \<Rightarrow> bool" where
  "scalar c \<longleftrightarrow> 0 \<le> c \<and> c \<le> 0x10FFFF \<and> \<not> (0xD800 \<le> c \<and> c \<le> 0xDFFF)"

definition utf8_spec :: "int \<Rightarrow> int list" where
  "utf8_spec c =
     (if c < 0x80 then [c]
      else if c < 0x800 then [0xC0 + c div 64, 0x80 + c mod 64]
      else if c < 0x10000 then [0xE0 + c div 4096, 0x80 + c div 64 mod 64, 0x80 + c mod 64]
      else [0xF0 + c div 262144, 0x80 + c div 4096 mod 64, 0x80 + c div 64 mod 64, 0x80 + c mod 64])"

definition is_units :: "int list \<Rightarrow> bool" where
  "is_units s \<longleftrightarrow> (\<forall>u\<in>set s. 0 \<le> u \<and> u < 65536)"

lemma and_high:
  fixes x :: int
  assumes "0 \<le> x" "x < 2 ^ 31" "toInt32 m = - (2 ^ k)"
  shows "js_and x m = 0 \<longleftrightarrow> x < 2 ^ k"
proof -
  have "js_and x m = x AND NOT (mask k)"
    using assms by (simp add: js_and_def toInt32_id mask_eq_exp_minus_1 not_int_def)
  also have "\<dots> = push_bit k (drop_bit k x)"
    by (rule bit_eqI) (auto simp: bit_and_iff bit_not_iff bit_mask_iff bit_push_bit_iff bit_drop_bit_eq)
  finally have "js_and x m = x div 2 ^ k * 2 ^ k" by (simp add: push_bit_eq_mult drop_bit_eq_div)
  then show ?thesis using assms(1) by (auto simp: zdiv_eq_0_iff dest: order_less_le_trans [of _ 0])
qed

lemma high_masks:
  "toInt32 0xFFFFFF80 = - (2 ^ 7)" "toInt32 0xFFFFF800 = - (2 ^ 11)" "toInt32 0xFFFF0000 = - (2 ^ 16)" "toInt32 0xFFE00000 = - (2 ^ 21)"
  by code_simp+

lemma or_lead:
  "0 \<le> x \<Longrightarrow> x < 64 \<Longrightarrow> js_or x 0x80 = 0x80 + x"
  "0 \<le> x \<Longrightarrow> x < 32 \<Longrightarrow> js_or x 0xC0 = 0xC0 + x"
  "0 \<le> x \<Longrightarrow> x < 16 \<Longrightarrow> js_or x 0xE0 = 0xE0 + x"
  "0 \<le> x \<Longrightarrow> x < 8 \<Longrightarrow> js_or x 0xF0 = 0xF0 + x"
  "0 \<le> x \<Longrightarrow> x < 1024 \<Longrightarrow> js_or x 0xD800 = 0xD800 + x"
  "0 \<le> x \<Longrightarrow> x < 1024 \<Longrightarrow> js_or 0xDC00 x = 0xDC00 + x"
  using js_or_add [of 2 x 6] js_or_add [of 6 x 5] js_or_add [of 14 x 4] js_or_add [of 30 x 3] js_or_add [of 54 x 10] js_or_add [of 55 x 10]
  by (simp_all add: js_or_comm [of x])

lemma more_masks:
  "js_and x 0x1F = x mod 32" "js_and x 0x3FF = x mod 1024"
  using js_and_mask [of 5 x] js_and_mask [of 10 x] by simp_all

lemma shr_point:
  assumes "0 \<le> c" "c < 2 ^ 21"
  shows "js_shr c 6 = c div 64" "js_shr c 12 = c div 4096" "js_shr c 18 = c div 262144" "js_ushr c 10 = c div 1024"
  using assms by (simp_all add: js_shr_div js_ushr_div)

lemma createByte_ok:
  assumes "0 \<le> c" "c < 2 ^ 21"
  shows "createByte c 6 = 0x80 + c div 64 mod 64" "createByte c 12 = 0x80 + c div 4096 mod 64"
  using assms by (simp_all add: createByte_def shr_point js_and_mask_num or_lead)

lemma encodeCodePoint_ok:
  assumes "0 \<le> c" "c \<le> 0x10FFFF"
  shows "encodeCodePoint c = (if scalar c then Inr (utf8_spec c)
    else Inl (''Lone surrogate U+'' @ upper (num_str 16 c) @ '' is not a scalar value''))"
proof -
  have r: "c < 2 ^ 21" "c < 2 ^ 31" using assms(2) by simp_all
  have t: "js_and c 0xFFFFFF80 = 0 \<longleftrightarrow> c < 0x80" "js_and c 0xFFFFF800 = 0 \<longleftrightarrow> c < 0x800"
    "js_and c 0xFFFF0000 = 0 \<longleftrightarrow> c < 0x10000" "js_and c 0xFFE00000 = 0 \<longleftrightarrow> c < 0x200000"
    using and_high [OF assms(1) r(2) high_masks(1)] and_high [OF assms(1) r(2) high_masks(2)]
      and_high [OF assms(1) r(2) high_masks(3)] and_high [OF assms(1) r(2) high_masks(4)] by simp_all
  note s = shr_point [OF assms(1) r(1)] createByte_ok [OF assms(1) r(1)]
  show ?thesis
    unfolding encodeCodePoint_def t s js_and_mask_num more_masks checkScalarValue_def utf8_spec_def scalar_def
    using assms by (auto simp: or_lead)
qed

section \<open>Reading symbols\<close>

lemma byte_tests:
  "\<forall>b\<in>set [0..255]. (js_and b 0x80 = 0 \<longleftrightarrow> b < 128) \<and> (js_and b 0xE0 = 0xC0 \<longleftrightarrow> 192 \<le> b \<and> b < 224) \<and>
    (js_and b 0xF0 = 0xE0 \<longleftrightarrow> 224 \<le> b \<and> b < 240) \<and> (js_and b 0xF8 = 0xF0 \<longleftrightarrow> 240 \<le> b \<and> b < 248) \<and>
    (js_and b 0xC0 = 0x80 \<longleftrightarrow> 128 \<le> b \<and> b < 192)"
  by code_simp

lemma byte_test:
  assumes "0 \<le> b" "b < 256"
  shows "js_and b 0xFF = b" "js_and b 0x80 = 0 \<longleftrightarrow> b < 128" "js_and b 0xE0 = 0xC0 \<longleftrightarrow> 192 \<le> b \<and> b < 224"
    "js_and b 0xF0 = 0xE0 \<longleftrightarrow> 224 \<le> b \<and> b < 240" "js_and b 0xF8 = 0xF0 \<longleftrightarrow> 240 \<le> b \<and> b < 248"
    "js_and b 0xC0 = 0x80 \<longleftrightarrow> 128 \<le> b \<and> b < 192"
proof -
  have "b \<in> set [0..255]" using assms by simp
  from bspec [OF byte_tests this] assms
  show "js_and b 0xFF = b" "js_and b 0x80 = 0 \<longleftrightarrow> b < 128" "js_and b 0xE0 = 0xC0 \<longleftrightarrow> 192 \<le> b \<and> b < 224"
    "js_and b 0xF0 = 0xE0 \<longleftrightarrow> 224 \<le> b \<and> b < 240" "js_and b 0xF8 = 0xF0 \<longleftrightarrow> 240 \<le> b \<and> b < 248"
    "js_and b 0xC0 = 0x80 \<longleftrightarrow> 128 \<le> b \<and> b < 192"
    by (simp_all add: js_and_mask_num)
qed

text \<open>A continuation byte carries six bits.\<close>

lemma read_byte:
  assumes "0 \<le> b" "b < 256"
  shows "readContinuationByte (b # bs) = (if 128 \<le> b \<and> b < 192 then Inr (b - 128, bs) else Inl ''Invalid continuation byte'')"
proof -
  have "b mod 64 = b - 128" if "128 \<le> b" "b < 192" using that by presburger
  then show ?thesis using byte_test [OF assms] by (simp add: js_and_mask_num)
qed

declare readContinuationByte.simps(2) [simp del]

lemma readContinuationByte_iff:
  assumes "is_bytes bs"
  shows "readContinuationByte bs = Inr (v, rest) \<longleftrightarrow> 0 \<le> v \<and> v < 64 \<and> bs = (0x80 + v) # rest"
proof (cases bs)
  case (Cons b bs')
  then have b: "0 \<le> b" "b < 256" using assms by (simp_all add: is_bytes_def digits_in_def)
  show ?thesis unfolding Cons read_byte [OF b] by auto
qed simp

lemma join_bits:
  assumes "0 \<le> x" "0 \<le> y" "y < 64" "0 \<le> z" "z < 64" "0 \<le> w" "w < 64"
  shows "x < 32 \<Longrightarrow> js_or (js_shl x 6) y = 64 * x + y"
    "x < 16 \<Longrightarrow> js_or (js_or (js_shl x 12) (js_shl y 6)) z = 4096 * x + 64 * y + z"
    "x < 8 \<Longrightarrow> js_or (js_or (js_or (js_shl x 0x12) (js_shl y 0x0C)) (js_shl z 0x06)) w = 262144 * x + 4096 * y + 64 * z + w"
proof -
  have s: "js_shl y 6 = y * 64" "js_shl z 6 = z * 64" "js_shl y 12 = y * 4096" using assms by (simp_all add: js_shl_mult_pos)
  show "js_or (js_shl x 6) y = 64 * x + y" if "x < 32"
    using that assms js_or_add [of x y 6] by (simp add: js_shl_mult_pos)
  show "js_or (js_or (js_shl x 12) (js_shl y 6)) z = 4096 * x + 64 * y + z" if "x < 16"
    using that assms js_or_add [of x "y * 64" 12] js_or_add [of "64 * x + y" z 6] by (simp add: js_shl_mult_pos s algebra_simps)
  show "js_or (js_or (js_or (js_shl x 0x12) (js_shl y 0x0C)) (js_shl z 0x06)) w = 262144 * x + 4096 * y + 64 * z + w" if "x < 8"
    using that assms js_or_add [of x "y * 4096" 18] js_or_add [of "64 * x + y" "z * 64" 12] js_or_add [of "4096 * x + 64 * y + z" w 6]
    by (simp add: js_shl_mult_pos s algebra_simps)
qed

lemma lead_mod:
  "192 \<le> b \<Longrightarrow> b < 224 \<Longrightarrow> b mod 32 = b - (192 :: int)"
  "224 \<le> b \<Longrightarrow> b < 240 \<Longrightarrow> b mod 16 = b - (224 :: int)"
  "240 \<le> b \<Longrightarrow> b < 248 \<Longrightarrow> b mod 8 = b - (240 :: int)"
  by presburger+

lemma is_bytes_tail: "is_bytes (b # bs) \<longleftrightarrow> 0 \<le> b \<and> b < 256 \<and> is_bytes bs"
  by (auto simp: is_bytes_def digits_in_def)

lemma read_cont: "0 \<le> v \<Longrightarrow> v < 64 \<Longrightarrow> readContinuationByte ((0x80 + v) # rest) = Inr (v, rest)"
  by (simp add: read_byte)

text \<open>The four shapes of a symbol, in the order of the code.\<close>

lemma decodeSymbol_shapes:
  assumes "0 \<le> b" "b < 256"
  shows "b < 128 \<Longrightarrow> decodeSymbol (b # bs) = Inr (Some (b, bs))"
    and "128 \<le> b \<Longrightarrow> b < 192 \<or> 248 \<le> b \<Longrightarrow> decodeSymbol (b # bs) = Inl ''Invalid UTF-8 detected''"
    and "192 \<le> b \<Longrightarrow> b < 224 \<Longrightarrow> decodeSymbol (b # bs) =
      bind_result (readContinuationByte bs) (\<lambda>(y, bs).
        let c = js_or (js_shl (b - 192) 6) y in if 0x80 \<le> c then Inr (Some (c, bs)) else Inl ''Invalid continuation byte'')"
    and "224 \<le> b \<Longrightarrow> b < 240 \<Longrightarrow> decodeSymbol (b # bs) =
      bind_result (readContinuationByte bs) (\<lambda>(y, bs). bind_result (readContinuationByte bs) (\<lambda>(z, bs).
        let c = js_or (js_or (js_shl (b - 224) 12) (js_shl y 6)) z
        in if 0x800 \<le> c then bind_result (checkScalarValue c) (\<lambda>_. Inr (Some (c, bs))) else Inl ''Invalid continuation byte''))"
    and "240 \<le> b \<Longrightarrow> b < 248 \<Longrightarrow> decodeSymbol (b # bs) =
      bind_result (readContinuationByte bs) (\<lambda>(y, bs). bind_result (readContinuationByte bs) (\<lambda>(z, bs).
        bind_result (readContinuationByte bs) (\<lambda>(w, bs).
          let c = js_or (js_or (js_or (js_shl (b - 240) 0x12) (js_shl y 0x0C)) (js_shl z 0x06)) w
          in if 0x10000 \<le> c \<and> c \<le> 0x10FFFF then Inr (Some (c, bs)) else Inl ''Invalid UTF-8 detected'')))"
  using assms by (auto simp: byte_test js_and_mask_num more_masks lead_mod Let_def)

declare decodeSymbol.simps(2) [simp del]

lemma utf8_spec_bytes: "scalar c \<Longrightarrow> is_bytes (utf8_spec c) \<and> utf8_spec c \<noteq> []"
  by (auto simp: utf8_spec_def scalar_def is_bytes_def digits_in_def)

lemma digits64:
  fixes c :: int
  shows "64 * (c div 64) + c mod 64 = c" "64 * (c div 4096) + c div 64 mod 64 = c div 64"
    "64 * (c div 262144) + c div 4096 mod 64 = c div 4096"
  using mult_div_mod_eq [of 64 c] mult_div_mod_eq [of 64 "c div 64"] mult_div_mod_eq [of 64 "c div 4096"]
  by (simp_all add: zdiv_zmult2_eq [of 64 c 64, simplified] zdiv_zmult2_eq [of 64 c 4096, simplified])

lemma spec_shapes:
  assumes "scalar c"
  obtains "c < 128" "utf8_spec c = [c]"
  | x y where "0 \<le> x" "x < 32" "0 \<le> y" "y < 64" "c = 64 * x + y" "128 \<le> c" "utf8_spec c = [0xC0 + x, 0x80 + y]"
  | x y z where "0 \<le> x" "x < 16" "0 \<le> y" "y < 64" "0 \<le> z" "z < 64" "c = 4096 * x + 64 * y + z" "2048 \<le> c"
      "utf8_spec c = [0xE0 + x, 0x80 + y, 0x80 + z]"
  | x y z w where "0 \<le> x" "x < 8" "0 \<le> y" "y < 64" "0 \<le> z" "z < 64" "0 \<le> w" "w < 64"
      "c = 262144 * x + 4096 * y + 64 * z + w" "65536 \<le> c" "utf8_spec c = [0xF0 + x, 0x80 + y, 0x80 + z, 0x80 + w]"
proof -
  have c: "0 \<le> c" "c \<le> 0x10FFFF" using assms by (simp_all add: scalar_def)
  define x1 x2 x3 y1 y2 z where "x1 = c div 64" and "x2 = c div 4096" and "x3 = c div 262144"
    and "y1 = c div 64 mod 64" and "y2 = c div 4096 mod 64" and "z = c mod 64"
  note ds = x1_def x2_def x3_def y1_def y2_def z_def
  have m: "0 \<le> z" "z < 64" "0 \<le> y1" "y1 < 64" "0 \<le> y2" "y2 < 64" unfolding ds by simp_all
  have d: "64 * x1 + z = c" "64 * x2 + y1 = x1" "64 * x3 + y2 = x2" using digits64 [of c] unfolding ds by blast+
  have u: "utf8_spec c = (if c < 0x80 then [c] else if c < 0x800 then [0xC0 + x1, 0x80 + z]
      else if c < 0x10000 then [0xE0 + x2, 0x80 + y1, 0x80 + z] else [0xF0 + x3, 0x80 + y2, 0x80 + y1, 0x80 + z])"
    unfolding utf8_spec_def ds by (rule refl)
  have x: "0 \<le> x1" "0 \<le> x2" "0 \<le> x3" using c m d by linarith+
  consider "c < 128" | "128 \<le> c" "c < 2048" | "2048 \<le> c" "c < 65536" | "65536 \<le> c" by linarith
  then show ?thesis
  proof cases
    case 1 then show ?thesis by (intro that(1)) (simp_all add: u)
  next
    case 2
    then have "x1 < 32" using m d by linarith
    then show ?thesis using 2 x m d u by (intro that(2) [of x1 z]) simp_all
  next
    case 3
    then have "x2 < 16" "c = 4096 * x2 + 64 * y1 + z" using m d by linarith+
    then show ?thesis using 3 x m u by (intro that(3) [of x2 y1 z]) (assumption | simp)+
  next
    case 4
    then have "x3 < 8" "c = 262144 * x3 + 4096 * y2 + 64 * y1 + z" using m d c by linarith+
    then show ?thesis using 4 x m u by (intro that(4) [of x3 y2 y1 z]) (assumption | simp)+
  qed
qed

lemma decodeSymbol_spec:
  assumes "scalar c"
  shows "decodeSymbol (utf8_spec c @ rest) = Inr (Some (c, rest))"
  using assms
proof (cases rule: spec_shapes)
  case 1
  then show ?thesis using assms decodeSymbol_shapes(1) [of c] by (simp add: scalar_def)
next
  case (2 x y)
  then show ?thesis using decodeSymbol_shapes(3) [of "0xC0 + x"] join_bits(1) [of x y 0 0] by (simp add: read_cont Let_def)
next
  case (3 x y z)
  moreover have "checkScalarValue c = Inr ()" using assms by (auto simp: scalar_def checkScalarValue_def)
  ultimately show ?thesis using decodeSymbol_shapes(4) [of "0xE0 + x"] join_bits(2) [of x y z 0] by (simp add: read_cont Let_def)
next
  case (4 x y z w)
  moreover have "c \<le> 0x10FFFF" using assms by (simp add: scalar_def)
  ultimately show ?thesis using decodeSymbol_shapes(5) [of "0xF0 + x"] join_bits(3) [of x y z w] by (simp add: read_cont Let_def)
qed

lemma split64:
  fixes a b x y :: int
  assumes "64 * a + b = 64 * x + y" "0 \<le> b" "b < 64" "0 \<le> y" "y < 64"
  shows "a = x" "b = y"
proof -
  have e: "(64 * p + q) div 64 = p" "(64 * p + q) mod 64 = q" if "0 \<le> q" "q < 64" for p q :: int
    using that by simp_all
  show "a = x" using e(1) [of b a] e(1) [of y x] assms by simp
  show "b = y" using e(2) [of b a] e(2) [of y x] assms by simp
qed

lemma spec_of_digits:
  assumes "0 \<le> x" "0 \<le> y" "y < 64" "0 \<le> z" "z < 64" "0 \<le> w" "w < 64"
  shows "c = 64 * x + y \<Longrightarrow> 128 \<le> c \<Longrightarrow> x < 32 \<Longrightarrow> utf8_spec c = [0xC0 + x, 0x80 + y]"
    and "c = 4096 * x + 64 * y + z \<Longrightarrow> 2048 \<le> c \<Longrightarrow> x < 16 \<Longrightarrow> utf8_spec c = [0xE0 + x, 0x80 + y, 0x80 + z]"
    and "c = 262144 * x + 4096 * y + 64 * z + w \<Longrightarrow> 65536 \<le> c \<Longrightarrow> utf8_spec c = [0xF0 + x, 0x80 + y, 0x80 + z, 0x80 + w]"
proof -
  have m: "0 \<le> v mod 64" "v mod 64 < 64" for v :: int by simp_all
  show "utf8_spec c = [0xC0 + x, 0x80 + y]" if c: "c = 64 * x + y" "128 \<le> c" "x < 32"
  proof -
    have "c div 64 = x" "c mod 64 = y" by (rule split64 [OF trans [OF digits64(1) c(1)] m assms(2,3)])+
    note e = this
    have n: "\<not> c < 0x80" "c < 0x800" using c assms(3) by linarith+
    show ?thesis by (simp only: utf8_spec_def n e if_False if_True simp_thms)
  qed
  show "utf8_spec c = [0xE0 + x, 0x80 + y, 0x80 + z]" if c: "c = 4096 * x + 64 * y + z" "2048 \<le> c" "x < 16"
  proof -
    have e: "c = 64 * (64 * x + y) + z" using c(1) by simp
    have 1: "c div 64 = 64 * x + y" "c mod 64 = z" by (rule split64 [OF trans [OF digits64(1) e] m assms(4,5)])+
    have e2: "c div 4096 = x" "c div 64 mod 64 = y" by (rule split64 [OF trans [OF digits64(2) 1(1)] m assms(2,3)])+
    have n: "\<not> c < 0x80" "\<not> c < 0x800" "c < 0x10000" using c assms by linarith+
    show ?thesis by (simp only: utf8_spec_def n e2 1(2) if_False if_True simp_thms)
  qed
  show "utf8_spec c = [0xF0 + x, 0x80 + y, 0x80 + z, 0x80 + w]" if c: "c = 262144 * x + 4096 * y + 64 * z + w" "65536 \<le> c"
  proof -
    have e: "c = 64 * (64 * (64 * x + y) + z) + w" using c(1) by simp
    have 1: "c div 64 = 64 * (64 * x + y) + z" "c mod 64 = w" by (rule split64 [OF trans [OF digits64(1) e] m assms(6,7)])+
    have 2: "c div 4096 = 64 * x + y" "c div 64 mod 64 = z" by (rule split64 [OF trans [OF digits64(2) 1(1)] m assms(4,5)])+
    have e2: "c div 262144 = x" "c div 4096 mod 64 = y" by (rule split64 [OF trans [OF digits64(3) 2(1)] m assms(2,3)])+
    have n: "\<not> c < 0x80" "\<not> c < 0x800" "\<not> c < 0x10000" using c by linarith+
    show ?thesis by (simp only: utf8_spec_def n e2 1(2) 2(2) if_False simp_thms)
  qed
qed

lemma decodeSymbol_back:
  assumes "decodeSymbol bs = Inr (Some (c, rest))" "is_bytes bs"
  shows "scalar c \<and> bs = utf8_spec c @ rest"
proof (cases bs)
  case (Cons b bs')
  then have b: "0 \<le> b" "b < 256" and t: "is_bytes bs'" using assms(2) by (simp_all add: is_bytes_tail)
  note sh = decodeSymbol_shapes [OF b, of bs'] and d = assms(1) [unfolded Cons]
  consider "b < 128" | "128 \<le> b" "b < 192 \<or> 248 \<le> b" | "192 \<le> b" "b < 224" | "224 \<le> b" "b < 240" | "240 \<le> b" "b < 248" by linarith
  then show ?thesis
  proof cases
    case 1 then show ?thesis using sh(1) d b Cons by (auto simp: scalar_def utf8_spec_def)
  next
    case 2 then show ?thesis using sh(2) d by simp
  next
    case 3
    from d obtain y where y: "readContinuationByte bs' = Inr (y, rest)" "c = js_or (js_shl (b - 192) 6) y" "128 \<le> c"
      unfolding sh(3) [OF 3] by (auto simp: bind_result_Inr Let_def split: if_splits)
    have y': "0 \<le> y" "y < 64" "bs' = (0x80 + y) # rest" using y(1) readContinuationByte_iff [OF t] by simp_all
    have c: "c = 64 * (b - 192) + y" using y(2) join_bits(1) [of "b - 192" y 0 0] 3 y' by simp
    have "utf8_spec c = [0xC0 + (b - 192), 0x80 + y]" using spec_of_digits(1) [of "b - 192" y 0 0 c] 3 y' y(3) c by simp
    then show ?thesis using Cons y' y(3) 3 c by (simp add: scalar_def)
  next
    case 4
    from d obtain y z bs1 where y: "readContinuationByte bs' = Inr (y, bs1)" "readContinuationByte bs1 = Inr (z, rest)"
        "c = js_or (js_or (js_shl (b - 224) 12) (js_shl y 6)) z" "2048 \<le> c" "checkScalarValue c = Inr ()"
      unfolding sh(4) [OF 4] by (auto simp: bind_result_Inr Let_def split: if_splits)
    have y': "0 \<le> y" "y < 64" "bs' = (0x80 + y) # bs1" using y(1) readContinuationByte_iff [OF t] by simp_all
    then have t1: "is_bytes bs1" using t by (simp add: is_bytes_tail)
    have z': "0 \<le> z" "z < 64" "bs1 = (0x80 + z) # rest" using y(2) readContinuationByte_iff [OF t1] by simp_all
    have c: "c = 4096 * (b - 224) + 64 * y + z" using y(3) join_bits(2) [of "b - 224" y z 0] 4 y' z' by simp
    have "utf8_spec c = [0xE0 + (b - 224), 0x80 + y, 0x80 + z]" using spec_of_digits(2) [of "b - 224" y z 0 c] 4 y' z' y(4) c by simp
    then show ?thesis using Cons y' z' y(4,5) 4 c by (simp add: scalar_def checkScalarValue_def split: if_splits)
  next
    case 5
    from d obtain y z w bs1 bs2 where y: "readContinuationByte bs' = Inr (y, bs1)" "readContinuationByte bs1 = Inr (z, bs2)"
        "readContinuationByte bs2 = Inr (w, rest)" "c = js_or (js_or (js_or (js_shl (b - 240) 0x12) (js_shl y 0x0C)) (js_shl z 0x06)) w"
        "65536 \<le> c" "c \<le> 0x10FFFF"
      unfolding sh(5) [OF 5] by (auto simp: bind_result_Inr Let_def split: if_splits)
    have y': "0 \<le> y" "y < 64" "bs' = (0x80 + y) # bs1" using y(1) readContinuationByte_iff [OF t] by simp_all
    then have t1: "is_bytes bs1" using t by (simp add: is_bytes_tail)
    have z': "0 \<le> z" "z < 64" "bs1 = (0x80 + z) # bs2" using y(2) readContinuationByte_iff [OF t1] by simp_all
    then have t2: "is_bytes bs2" using t1 by (simp add: is_bytes_tail)
    have w': "0 \<le> w" "w < 64" "bs2 = (0x80 + w) # rest" using y(3) readContinuationByte_iff [OF t2] by simp_all
    have c: "c = 262144 * (b - 240) + 4096 * y + 64 * z + w" using y(4) join_bits(3) [of "b - 240" y z w] 5 y' z' w' by simp
    have "utf8_spec c = [0xF0 + (b - 240), 0x80 + y, 0x80 + z, 0x80 + w]" using spec_of_digits(3) [of "b - 240" y z w c] 5 y' z' w' y(5) c by simp
    then show ?thesis using Cons y' z' w' y(5,6) by (simp add: scalar_def)
  qed
qed (use assms(1) in simp)

section \<open>Whole texts\<close>

lemma decode_loop_spec:
  assumes "list_all scalar cps"
  shows "decode_loop (concat (map utf8_spec cps)) acc = Inr (acc @ cps)"
  using assms
proof (induction cps arbitrary: acc)
  case (Cons c cps)
  then show ?case by (subst decode_loop.simps) (simp add: decodeSymbol_spec)
qed (simp add: decode_loop.simps)

lemma decode_loop_back:
  assumes "decode_loop bs acc = Inr r" "is_bytes bs"
  shows "\<exists>cps. r = acc @ cps \<and> list_all scalar cps \<and> bs = concat (map utf8_spec cps)"
  using assms
proof (induction bs acc rule: decode_loop.induct)
  case (1 bytes codePoints)
  show ?case
  proof (cases "decodeSymbol bytes")
    case (Inl e)
    then show ?thesis using "1.prems" by (simp add: decode_loop.simps)
  next
    case (Inr o1)
    show ?thesis
    proof (cases o1)
      case None
      have "bytes = []"
      proof (rule ccontr)
        assume "bytes \<noteq> []"
        then obtain b bs where "bytes = b # bs" by (cases bytes) auto
        then show False using Inr None
          by (simp add: decodeSymbol.simps Let_def bind_result_Inr split_def split: if_splits)
      qed
      then show ?thesis using "1.prems" by (intro exI [of _ "[]"]) (simp add: decode_loop.simps)
    next
      case (Some p)
      obtain c rest where p: "p = (c, rest)" by (cases p)
      have d: "decodeSymbol bytes = Inr (Some (c, rest))" using Inr Some p by simp
      note b = decodeSymbol_back [OF d "1.prems"(2)]
      then have t: "is_bytes rest" using "1.prems"(2) by (auto simp: is_bytes_def digits_in_def)
      have "decode_loop rest (codePoints @ [c]) = Inr r" using "1.prems"(1) by (subst (asm) decode_loop.simps) (simp add: d)
      then obtain cps where "r = (codePoints @ [c]) @ cps" "list_all scalar cps" "rest = concat (map utf8_spec cps)"
        using "1.IH" [OF Inr Some p [symmetric] _ t] by blast
      then show ?thesis using b by (intro exI [of _ "c # cps"]) simp
    qed
  qed
qed

lemma encode_points_ok:
  assumes "\<forall>c\<in>set cps. 0 \<le> c \<and> c \<le> 0x10FFFF"
  shows "encode_points cps =
    (if list_all scalar cps then Inr (concat (map utf8_spec cps))
     else Inl (''Lone surrogate U+'' @ upper (num_str 16 (hd (dropWhile scalar cps))) @ '' is not a scalar value''))"
  using assms by (induction cps) (auto simp: encodeCodePoint_ok)

section \<open>UTF-16\<close>

lemma surrogate_test:
  assumes "0 \<le> u" "u < 65536"
  shows "js_and u 0xFC00 = 0xDC00 \<longleftrightarrow> 0xDC00 \<le> u \<and> u \<le> 0xDFFF"
proof -
  have "js_and u 0xFC00 = u div 1024 * 1024"
  proof -
    have u: "take_bit 16 u = u" using assms by (simp add: take_bit_int_eq_self)
    have lt: "n < 16" if "bit u n" for n using that u by (metis bit_take_bit_iff)
    have g: "u AND take_bit 16 m = u AND m" for m :: int
      by (rule bit_eqI) (auto simp: bit_and_iff bit_take_bit_iff dest: lt)
    have "js_and u 0xFC00 = u AND NOT (mask 10)"
      using g [of "- 1024"] assms by (simp add: js_and_def toInt32_id mask_eq_exp_minus_1 not_int_def)
    also have "\<dots> = push_bit 10 (drop_bit 10 u)"
      by (rule bit_eqI) (auto simp: bit_and_iff bit_not_iff bit_mask_iff bit_push_bit_iff bit_drop_bit_eq)
    finally show ?thesis by (simp add: push_bit_eq_mult drop_bit_eq_div)
  qed
  then show ?thesis using assms by auto
qed

lemma ucs2decode_range:
  assumes "is_units s"
  shows "\<forall>c\<in>set (ucs2decode s). 0 \<le> c \<and> c \<le> 0x10FFFF"
  using assms
proof (induction s rule: ucs2decode.induct)
  case (3 "value" extra string)
  have "js_shl (value mod 1024) 10 = value mod 1024 * 1024" by (simp add: js_shl_mult_pos)
  then have "0 \<le> js_shl (js_and value 0x3FF) 10 + js_and extra 0x3FF + 0x10000 \<and> js_shl (js_and value 0x3FF) 10 + js_and extra 0x3FF + 0x10000 \<le> 0x10FFFF"
    using pos_mod_bound [of 1024 "value"] pos_mod_bound [of 1024 extra] pos_mod_sign [of 1024 "value"] pos_mod_sign [of 1024 extra]
    by (simp add: more_masks)
  then show ?case using 3 by (auto simp: is_units_def)
qed (auto simp: is_units_def)

text \<open>Joining a pair and splitting it again.\<close>

lemma pair_units:
  assumes "0xD800 \<le> v" "v \<le> 0xDBFF" "0xDC00 \<le> x" "x \<le> 0xDFFF"
  shows "ucs2_units (js_shl (js_and v 0x3FF) 10 + js_and x 0x3FF + 0x10000) = [v, x]"
proof -
  define a b where "a = v - 0xD800" and "b = x - 0xDC00"
  have ab: "0 \<le> a" "a < 1024" "0 \<le> b" "b < 1024" using assms by (simp_all add: a_def b_def)
  have m: "js_and v 0x3FF = a" "js_and x 0x3FF = b"
    using ab mod_mult_self3 [of 54 1024 a] mod_mult_self3 [of 55 1024 b] by (simp_all add: more_masks a_def b_def)
  have "js_ushr (a * 1024 + b) 10 = a" using ab by (simp add: js_ushr_div)
  then have "ucs2_units (a * 1024 + b + 0x10000) = [0xD800 + a, 0xDC00 + b]"
    using ab by (simp add: ucs2_units_def more_masks or_lead Let_def)
  moreover have "js_shl a 10 = a * 1024" using ab by (simp add: js_shl_mult_pos)
  ultimately show ?thesis unfolding m by (simp add: a_def b_def)
qed

lemma ucs2encode_decode: "is_units s \<Longrightarrow> ucs2encode (ucs2decode s) = s"
proof (induction s rule: ucs2decode.induct)
  case (3 "value" extra string)
  then have u: "0 \<le> value" "value < 65536" "0 \<le> extra" "extra < 65536" "is_units string" "is_units (extra # string)" by (simp_all add: is_units_def)
  show ?case
  proof (cases "0xD800 \<le> value \<and> value \<le> 0xDBFF \<and> js_and extra 0xFC00 = 0xDC00")
    case True
    then have "ucs2_units (js_shl (js_and value 0x3FF) 10 + js_and extra 0x3FF + 0x10000) = [value, extra]"
      using surrogate_test [OF u(3,4)] by (intro pair_units) simp_all
    then show ?thesis using True "3.IH"(1) u(5) by (simp add: ucs2encode_def)
  next
    case False
    have "ucs2_units value = [value]" using u by (simp add: ucs2_units_def)
    then show ?thesis using False "3.IH"(2,3) u(6) by (auto simp: ucs2encode_def)
  qed
qed (simp_all add: ucs2encode_def ucs2_units_def is_units_def)

lemma scalar_units:
  assumes "scalar c"
  obtains "ucs2_units c = [c]" "0 \<le> c" "c < 65536" "\<not> (0xD800 \<le> c \<and> c \<le> 0xDFFF)"
  | v x where "ucs2_units c = [v, x]" "0xD800 \<le> v" "v \<le> 0xDBFF" "0xDC00 \<le> x" "x \<le> 0xDFFF"
      "js_shl (js_and v 0x3FF) 10 + js_and x 0x3FF + 0x10000 = c"
proof (cases "c < 65536")
  case True
  then show ?thesis using assms by (intro that(1)) (simp_all add: scalar_def ucs2_units_def)
next
  case False
  define a b where "a = (c - 0x10000) div 1024" and "b = (c - 0x10000) mod 1024"
  have r: "0 \<le> c - 0x10000" "c - 0x10000 < 1024 * 1024" using False assms by (simp_all add: scalar_def)
  have ab: "0 \<le> a" "a < 1024" "0 \<le> b" "b < 1024" "1024 * a + b = c - 0x10000" using r by (simp_all add: a_def b_def)
  have "js_ushr (c - 0x10000) 10 = a" using r by (simp add: js_ushr_div a_def)
  moreover have "js_and (c - 0x10000) 0x3FF = b" by (simp only: more_masks b_def)
  ultimately have u: "ucs2_units c = [0xD800 + a, 0xDC00 + b]"
    using ab False by (simp add: ucs2_units_def Let_def more_masks or_lead)
  have "js_and (0xD800 + a) 0x3FF = a" "js_and (0xDC00 + b) 0x3FF = b"
    using ab mod_mult_self3 [of 54 1024 a] mod_mult_self3 [of 55 1024 b] by (simp_all add: more_masks)
  moreover have "js_shl a 10 = a * 1024" using ab by (simp add: js_shl_mult_pos)
  ultimately have "js_shl (js_and (0xD800 + a) 0x3FF) 10 + js_and (0xDC00 + b) 0x3FF + 0x10000 = c" using ab(5) by simp
  then show ?thesis using u ab by (intro that(2) [of "0xD800 + a" "0xDC00 + b"]) simp_all
qed

lemma ucs2decode_encode:
  assumes "list_all scalar cps"
  shows "ucs2decode (ucs2encode cps) = cps \<and> is_units (ucs2encode cps)"
  using assms
proof (induction cps)
  case (Cons c cps)
  then have IH: "ucs2decode (ucs2encode cps) = cps" "is_units (ucs2encode cps)" and c: "scalar c" by simp_all
  have e: "ucs2encode (c # cps) = ucs2_units c @ ucs2encode cps" by (simp add: ucs2encode_def)
  from c show ?case
  proof (cases rule: scalar_units)
    case 1
    have "ucs2decode (c # ucs2encode cps) = c # ucs2decode (ucs2encode cps)" using 1 by (cases "ucs2encode cps") auto
    then show ?thesis using IH 1 unfolding e by (simp add: is_units_def)
  next
    case (2 v x)
    have "js_and x 0xFC00 = 0xDC00" using surrogate_test [of x] 2 by simp
    then show ?thesis using IH 2 by (auto simp: e is_units_def)
  qed
qed (simp add: ucs2encode_def is_units_def)

lemma ucs2decode_bytes: "is_bytes bs \<Longrightarrow> ucs2decode bs = bs"
  by (induction bs rule: ucs2decode.induct) (auto simp: is_bytes_def digits_in_def)

lemma utf8encode_iff:
  assumes "is_units s"
  shows "utf8encode s = Inr b \<longleftrightarrow> list_all scalar (ucs2decode s) \<and> b = concat (map utf8_spec (ucs2decode s))"
  using encode_points_ok [OF ucs2decode_range [OF assms]] by (auto simp: utf8encode_def)

lemma utf8decode_iff:
  assumes "is_bytes b"
  shows "utf8decode b = Inr s \<longleftrightarrow> (\<exists>cps. list_all scalar cps \<and> b = concat (map utf8_spec cps) \<and> s = ucs2encode cps)"
proof
  assume "utf8decode b = Inr s"
  then obtain r where r: "decode_loop b [] = Inr r" "s = ucs2encode r"
    by (auto simp: utf8decode_def ucs2decode_bytes [OF assms] bind_result_Inr)
  from decode_loop_back [OF r(1) assms] r(2) show "\<exists>cps. list_all scalar cps \<and> b = concat (map utf8_spec cps) \<and> s = ucs2encode cps" by auto
next
  assume "\<exists>cps. list_all scalar cps \<and> b = concat (map utf8_spec cps) \<and> s = ucs2encode cps"
  then show "utf8decode b = Inr s" using decode_loop_spec [of _ "[]"] by (auto simp: utf8decode_def ucs2decode_bytes [OF assms])
qed

lemma utf8_spec_list_bytes: "list_all scalar cps \<Longrightarrow> is_bytes (concat (map utf8_spec cps))"
proof (induction cps)
  case (Cons c cps)
  then show ?case using utf8_spec_bytes [of c] by (auto simp: is_bytes_def digits_in_def)
qed (simp add: is_bytes_def)

section \<open>What the module promises\<close>

definition utf8_opt :: "'a result \<Rightarrow> 'a option" where
  "utf8_opt r = (case r of Inl _ \<Rightarrow> None | Inr x \<Rightarrow> Some x)"

definition encodes :: "int list \<Rightarrow> bool" where
  "encodes s \<longleftrightarrow> is_units s \<and> list_all scalar (ucs2decode s)"

interpretation utf8: codec "\<lambda>s. concat (map utf8_spec (ucs2decode s))" "\<lambda>b. utf8_opt (utf8decode b)" encodes
proof unfold_locales
  fix s assume s: "encodes s"
  then have "utf8decode (concat (map utf8_spec (ucs2decode s))) = Inr s"
    using ucs2encode_decode [of s] by (subst utf8decode_iff) (auto simp: encodes_def utf8_spec_list_bytes)
  then show "utf8_opt (utf8decode (concat (map utf8_spec (ucs2decode s)))) = Some s" by (simp add: utf8_opt_def)
qed

text \<open>
  C36: The UTF-8 encoder and decoder of the bundle are inverse to each other on strings of UTF-16 units and strings
  of bytes: the bytes of a text decode to that text, and bytes that the decoder accepts (no overlong forms, no
  surrogates, nothing cut off) are the bytes of the text it returns. The bytes are those of the standard's table,
  and encoding fails exactly on a text with an unpaired surrogate.
\<close>

theorem utf8_roundtrip:
  assumes "is_units s" "is_bytes b"
  shows "(utf8encode s = Inr b \<longleftrightarrow> utf8decode b = Inr s) \<and>
    utf8encode s = (if list_all scalar (ucs2decode s) then Inr (concat (map utf8_spec (ucs2decode s)))
      else Inl (''Lone surrogate U+'' @ upper (num_str 16 (hd (dropWhile scalar (ucs2decode s)))) @ '' is not a scalar value''))"
proof
  show "utf8encode s = Inr b \<longleftrightarrow> utf8decode b = Inr s"
    unfolding utf8encode_iff [OF assms(1)] utf8decode_iff [OF assms(2)]
    using ucs2decode_encode ucs2encode_decode [OF assms(1)] by metis
qed (simp add: utf8encode_def encode_points_ok [OF ucs2decode_range [OF assms(1)]])

text \<open>The text is the one of an e with an acute accent and of an emoji, a pair of surrogates.\<close>

theorem utf8_roundtrip_witness:
  "utf8encode [0xE9, 0xD83D, 0xDE00] = Inr [0xC3, 0xA9, 0xF0, 0x9F, 0x98, 0x80] \<and>
   utf8decode [0xC3, 0xA9, 0xF0, 0x9F, 0x98, 0x80] = Inr [0xE9, 0xD83D, 0xDE00]"
proof -
  have e: "utf8encode [0xE9, 0xD83D, 0xDE00] = Inr [0xC3, 0xA9, 0xF0, 0x9F, 0x98, 0x80]" by code_simp
  have "utf8encode [0xE9, 0xD83D, 0xDE00] = Inr [0xC3, 0xA9, 0xF0, 0x9F, 0x98, 0x80] \<longleftrightarrow>
      utf8decode [0xC3, 0xA9, 0xF0, 0x9F, 0x98, 0x80] = Inr [0xE9, 0xD83D, 0xDE00]"
    by (rule conjunct1 [OF utf8_roundtrip]) (simp_all add: is_units_def is_bytes_def digits_in_def)
  then show ?thesis using e by blast
qed

end
