(* ===== verification/Iban.thy ===== *)
theory Iban
  imports BtcUtil
begin

text \<open>
  The class \<open>Iban\<close> of the web3 bundle (\<open>app/javascripts/web3.js\<close>): account numbers with the check digits of
  ISO 7064. An object is its one property, the text. The conversions of an address through \<open>BigNumber\<close>
  (\<open>fromAddress\<close> and \<open>address\<close>) are left out.
\<close>

section \<open>Check digits\<close>

definition charCode :: "char \<Rightarrow> int" where "charCode c = of_char c"

definition iso_char :: "char \<Rightarrow> string" where
  "iso_char n =
     (let A = charCode CHR ''A''; Z = charCode CHR ''Z''; code = charCode n
      in if code \<ge> A \<and> code \<le> Z then dec_text (code - A + 10) else [n])"

definition iso13616Prepare :: "string \<Rightarrow> string" where
  "iso13616Prepare iban0 =
     (let iban = upper iban0; iban = drop 4 iban @ take 4 iban in concat (map iso_char iban))"

text \<open>The operator \<open>%\<close> keeps the sign of its first operand; \<open>NaN\<close> is \<open>None\<close>.\<close>

definition num_rem :: "int \<Rightarrow> int \<Rightarrow> int" where
  "num_rem a b = sgn a * (\<bar>a\<bar> mod b)"

definition rem97 :: "string \<Rightarrow> int option" where
  "rem97 block = map_option (\<lambda>n. num_rem n 97) (js_parseInt block 10)"

definition rem_text :: "int option \<Rightarrow> string" where
  "rem_text r = (case r of None \<Rightarrow> ''NaN'' | Some n \<Rightarrow> dec_text n)"

text \<open>A block that is not a number is replaced by the text \<open>NaN\<close>, which is not one either: the loop goes on.\<close>

partial_function (option) mod_loop :: "string \<Rightarrow> string option" where
  "mod_loop remainder =
     (if length remainder > 2
      then let block = take 9 remainder in mod_loop (rem_text (rem97 block) @ drop (length block) remainder)
      else Some remainder)"

definition mod9710 :: "string \<Rightarrow> int option option" where
  "mod9710 iban = map_option rem97 (mod_loop iban)"

section \<open>Numbers\<close>

definition check_text :: "int option \<Rightarrow> string" where
  "check_text remainder =
     (let t = CHR ''0'' # rem_text (map_option (\<lambda>r. 98 - r) remainder) in drop (length t - 2) t)"

definition fromBban :: "string \<Rightarrow> string option" where
  "fromBban bban =
     (let countryCode = ''XE''
      in map_option (\<lambda>remainder. countryCode @ check_text remainder @ bban)
           (mod9710 (iso13616Prepare (countryCode @ ''00'' @ bban))))"

definition createIndirect :: "string \<Rightarrow> string \<Rightarrow> string option" where
  "createIndirect institution identifier = fromBban (''ETH'' @ institution @ identifier)"

definition code_char :: "char \<Rightarrow> bool" where
  "code_char c \<longleftrightarrow> 48 \<le> charCode c \<and> charCode c \<le> 57 \<or> 65 \<le> charCode c \<and> charCode c \<le> 90"

definition dec_digit :: "char \<Rightarrow> bool" where
  "dec_digit c \<longleftrightarrow> 48 \<le> charCode c \<and> charCode c \<le> 57"

text \<open>The regular expression of \<open>isValid\<close>: two digits after the country, then one of the two forms.\<close>

definition iban_form :: "string \<Rightarrow> bool" where
  "iban_form iban \<longleftrightarrow>
     take 2 iban = ''XE'' \<and> length (take 2 (drop 2 iban)) = 2 \<and> list_all dec_digit (take 2 (drop 2 iban)) \<and>
     (let b = drop 4 iban
      in list_all code_char b \<and> (take 3 b = ''ETH'' \<and> length b = 16 \<or> length b = 30 \<or> length b = 31))"

text \<open>The remainder is computed only for a text of the right form.\<close>

definition isValid :: "string \<Rightarrow> bool option" where
  "isValid iban = (if iban_form iban then map_option (\<lambda>r. r = Some 1) (mod9710 (iso13616Prepare iban)) else Some False)"

definition isDirect :: "string \<Rightarrow> bool" where
  "isDirect iban \<longleftrightarrow> length iban = 34 \<or> length iban = 35"

definition isIndirect :: "string \<Rightarrow> bool" where
  "isIndirect iban \<longleftrightarrow> length iban = 20"

definition iban_checksum :: "string \<Rightarrow> string" where
  "iban_checksum iban = take 2 (drop 2 iban)"

definition institution :: "string \<Rightarrow> string" where
  "institution iban = (if isIndirect iban then take 4 (drop 7 iban) else [])"

definition client :: "string \<Rightarrow> string" where
  "client iban = (if isIndirect iban then drop 11 iban else [])"

section \<open>Texts of digits\<close>

lemma dec_int_append: "dec_int (s @ t) = dec_int s * 10 ^ length t + dec_int t"
proof (induction t rule: rev_induct)
  case (snoc c t)
  then show ?case by (simp add: dec_int_def algebra_simps flip: append_assoc)
qed (simp add: dec_int_def)

lemma dec_char_props:
  assumes "dec_char c"
  shows "\<not> js_space c" "c \<noteq> CHR ''-''" "c \<noteq> CHR ''+''" "digit_in_base 10 c" "0 \<le> the (char_digit c)"
  using assms
  by (auto simp: dec_char_def char_digit_def js_space_def digit_in_base_def parseInt1_def Let_def split: if_splits option.splits)

lemma parseInt_digits:
  assumes "list_all dec_char s" "s \<noteq> []"
  shows "js_parseInt s 10 = Some (dec_int s)" "0 \<le> dec_int s"
proof -
  obtain c cs where s: "s = c # cs" using assms(2) by (cases s) auto
  have c: "dec_char c" using assms(1) s by simp
  have sp: "dropWhile js_space s = s" "split_sign s = (False, s)"
    using dec_char_props [OF c] by (simp_all add: s split_sign_def)
  have t: "takeWhile (digit_in_base 10) s = s"
    using assms(1) by (simp add: takeWhile_eq_all_conv list_all_iff dec_char_props(4))
  show "js_parseInt s 10 = Some (dec_int s)"
    unfolding js_parseInt_def Let_def sp prod.case using assms(2) by (simp add: t dec_int_def)
  have "0 \<le> foldl (\<lambda>a c. 10 * a + the (char_digit c)) a s" if "0 \<le> a" for a
    using that assms(1) by (induction s arbitrary: a) (auto simp: dec_char_props(5))
  then show "0 \<le> dec_int s" by (simp add: dec_int_def)
qed

lemma rem97_digits:
  assumes "list_all dec_char s" "s \<noteq> []"
  shows "rem97 s = Some (dec_int s mod 97)"
  using parseInt_digits [OF assms] by (cases "dec_int s = 0") (simp_all add: rem97_def num_rem_def)

lemma small_text:
  assumes "0 \<le> r" "r < 100"
  shows "list_all dec_char (dec_text r)" "dec_text r \<noteq> []" "length (dec_text r) \<le> 2" "dec_int (dec_text r) = r"
proof -
  have "\<forall>r\<in>set [0..99]. list_all dec_char (dec_text r) \<and> dec_text r \<noteq> [] \<and> length (dec_text r) \<le> 2 \<and> dec_int (dec_text r) = r"
    by code_simp
  moreover have "r \<in> set [0..99]" using assms by simp
  ultimately show "list_all dec_char (dec_text r)" "dec_text r \<noteq> []" "length (dec_text r) \<le> 2" "dec_int (dec_text r) = r"
    by blast+
qed
section \<open>The remainder of a number of any length\<close>

text \<open>Replacing the first nine digits by their remainder changes nothing modulo 97.\<close>

lemma mod_loop_ok:
  assumes "list_all dec_char s" "s \<noteq> []"
  shows "\<exists>r. mod_loop s = Some r \<and> list_all dec_char r \<and> r \<noteq> [] \<and> dec_int r mod 97 = dec_int s mod 97"
  using assms
proof (induction "length s" arbitrary: s rule: less_induct)
  case less
  show ?case
  proof (cases "length s > 2")
    case True
    define b t where "b = take 9 s" and "t = drop 9 s"
    have s: "s = b @ t" by (simp add: b_def t_def)
    have b: "list_all dec_char b" and t: "list_all dec_char t" using less.prems(1) unfolding s by simp_all
    have bl: "2 < length b" using True by (simp add: b_def)
    then have bn: "b \<noteq> []" by auto
    define n where "n = dec_text (dec_int b mod 97)"
    have n: "list_all dec_char n" "n \<noteq> []" "length n \<le> 2" "dec_int n = dec_int b mod 97"
      using small_text [of "dec_int b mod 97"] by (simp_all add: n_def)
    have l: "drop (length b) s = t" by (simp add: s)
    have e: "mod_loop s = mod_loop (n @ t)"
      unfolding mod_loop.simps [of s] if_P [OF True] Let_def b_def [symmetric] l rem97_digits [OF b bn] rem_text_def n_def option.case
      by (rule refl)
    have m: "dec_int (n @ t) mod 97 = dec_int s mod 97"
      unfolding s dec_int_append n(4) by (metis mod_add_left_eq mod_mult_left_eq)
    have "length (n @ t) < length s" using n(3) bl by (simp add: s)
    moreover have "list_all dec_char (n @ t)" "n @ t \<noteq> []" using n(1,2) t by simp_all
    ultimately show ?thesis unfolding e m [symmetric] by (rule less.hyps)
  next
    case False
    then show ?thesis using less.prems by (subst mod_loop.simps) auto
  qed
qed

lemma mod9710_ok:
  assumes "list_all dec_char s" "s \<noteq> []"
  shows "mod9710 s = Some (Some (dec_int s mod 97))"
  using mod_loop_ok [OF assms] rem97_digits by (auto simp: mod9710_def)

section \<open>Letters as numbers\<close>

lemma upper_code: "code_char c \<Longrightarrow> to_upper_char c = c"
  by (auto simp: code_char_def charCode_def to_upper_char_def Let_def)

lemma iso_digits: "code_char c \<Longrightarrow> list_all dec_char (iso_char c) \<and> iso_char c \<noteq> []"
proof -
  assume c: "code_char c"
  show ?thesis
  proof (cases "65 \<le> charCode c \<and> charCode c \<le> 90")
    case True
    then show ?thesis using small_text [of "charCode c - 55"] by (simp add: iso_char_def Let_def charCode_def)
  next
    case False
    then show ?thesis using c
      by (auto simp: iso_char_def code_char_def charCode_def Let_def dec_char_def char_digit_def)
  qed
qed

definition expand :: "string \<Rightarrow> string" where
  "expand s = concat (map iso_char s)"

lemma expand_digits: "list_all code_char s \<Longrightarrow> list_all dec_char (expand s)"
  by (induction s) (simp_all add: expand_def iso_digits)

lemma prepare_ok:
  assumes "list_all code_char s" "list_all code_char h" "length h = 4"
  shows "iso13616Prepare (h @ s) = expand s @ expand h"
proof -
  have "upper (h @ s) = h @ s" using assms by (auto simp: upper_def list_all_iff upper_code intro!: map_idI)
  then show ?thesis using assms(3) by (simp add: iso13616Prepare_def Let_def expand_def)
qed

lemma check_digits:
  assumes "0 \<le> r" "r < 97"
  shows "length (check_text (Some r)) = 2" "list_all dec_digit (check_text (Some r))" "dec_int (expand (check_text (Some r))) = 98 - r"
    "expand (check_text (Some r)) = check_text (Some r)"
proof -
  have "\<forall>r\<in>set [0..96]. length (check_text (Some r)) = 2 \<and> list_all dec_digit (check_text (Some r)) \<and>
      dec_int (expand (check_text (Some r))) = 98 - r \<and> expand (check_text (Some r)) = check_text (Some r)"
    by code_simp
  moreover have "r \<in> set [0..96]" using assms by simp
  ultimately show "length (check_text (Some r)) = 2" "list_all dec_digit (check_text (Some r))" "dec_int (expand (check_text (Some r))) = 98 - r"
      "expand (check_text (Some r)) = check_text (Some r)"
    by blast+
qed

text \<open>The number of a text whose country is \<open>XE\<close>.\<close>

lemma number_of:
  assumes "list_all code_char b" "list_all dec_digit h" "length h = 2" "expand h = h"
  shows "mod9710 (iso13616Prepare (''XE'' @ h @ b)) = Some (Some ((dec_int (expand b) * 1000000 + 331400 + dec_int h) mod 97))"
proof -
  have h: "list_all code_char h" using assms(2) by (auto simp: list_all_iff dec_digit_def code_char_def)
  have xe: "list_all code_char (''XE'' @ h)" using h by (simp add: code_char_def charCode_def)
  have x: "expand (''XE'' @ h) = ''3314'' @ h" using assms(4) by (simp add: expand_def) code_simp
  have p: "iso13616Prepare (''XE'' @ h @ b) = expand b @ ''3314'' @ h"
    using prepare_ok [OF assms(1) xe] assms(3) x by simp
  have "dec_int (expand b @ ''3314'' @ h) = dec_int (expand b) * 1000000 + 331400 + dec_int h"
  proof -
    have "dec_int ''3314'' = 3314" by code_simp
    then have "dec_int (''3314'' @ h) = 331400 + dec_int h" unfolding dec_int_append using assms(3) by simp
    moreover have "length (''3314'' @ h) = 6" using assms(3) by simp
    ultimately show ?thesis unfolding dec_int_append [of "expand b"] by simp
  qed
  moreover have "list_all dec_char (expand b @ ''3314'' @ h)"
    using expand_digits [OF assms(1)] expand_digits [OF xe] x by (simp del: append.simps)
  ultimately show ?thesis unfolding p by (subst mod9710_ok) simp_all
qed

lemma fromBban_ok:
  assumes "list_all code_char b" "take 3 b = ''ETH'' \<and> length b = 16 \<or> length b = 30 \<or> length b = 31"
  shows "\<exists>h. fromBban b = Some (''XE'' @ h @ b) \<and> isValid (''XE'' @ h @ b) = Some True \<and> length h = 2 \<and> list_all dec_digit h"
proof -
  define v r where "v = dec_int (expand b) * 1000000 + 331400" and "r = (v + 0) mod 97"
  have r: "0 \<le> r" "r < 97" by (simp_all add: r_def)
  note c = check_digits [OF r]
  define h where "h = check_text (Some r)"
  have z: "list_all dec_digit ''00''" "length ''00'' = 2" "expand ''00'' = ''00''" "dec_int ''00'' = 0" by code_simp+
  have f: "fromBban b = Some (''XE'' @ h @ b)"
    using number_of [OF assms(1) z(1-3)] by (simp add: fromBban_def Let_def z(4) h_def v_def r_def)
  have "(v + (98 - r)) mod 97 = 1"
  proof -
    obtain q where "v - r = 97 * q" by (rule that [of "v div 97"]) (simp add: r_def minus_mod_eq_mult_div)
    then have e: "v + (98 - r) = 1 + 97 * (1 + q)" by (simp add: algebra_simps)
    show ?thesis unfolding e mod_mult_self2 by simp
  qed
  then have m: "mod9710 (iso13616Prepare (''XE'' @ h @ b)) = Some (Some 1)"
    using number_of [OF assms(1) c(2,1,4)] c(3,4) by (simp add: h_def v_def)
  have "iban_form (''XE'' @ h @ b)" using assms c(1,2) by (auto simp: iban_form_def h_def Let_def)
  then show ?thesis using f m c(1,2) by (auto simp: isValid_def h_def)
qed

text \<open>
  The block-wise remainder of a string of digits of any length is the remainder modulo 97 of the number it
  writes: the loop ends, though each round works on at most nine digits, and it returns that remainder.
\<close>

theorem mod9710_correct:
  assumes "list_all dec_char s" "s \<noteq> []"
  shows "mod9710 s = Some (Some (dec_int s mod 97))"
  using assms by (rule mod9710_ok)

theorem mod9710_correct_witness:
  "mod9710 ''112233445566778899001122331450'' = Some (Some (112233445566778899001122331450 mod 97))"
proof -
  have "dec_int ''112233445566778899001122331450'' = 112233445566778899001122331450" by code_simp
  moreover have "list_all dec_char ''112233445566778899001122331450''" by code_simp
  ultimately show ?thesis using mod9710_correct [of "''112233445566778899001122331450''"] by simp
qed



section \<open>Texts that are no numbers\<close>

lemma mod_loop_nan: "mod_loop s = Some r \<Longrightarrow> s \<noteq> ''NaN''"
proof (erule mod_loop.raw_induct [where P = "\<lambda>s r. s \<noteq> ''NaN''", rotated])
  fix f s r
  assume IH: "\<And>s r. f s = Some r \<Longrightarrow> s \<noteq> ''NaN''"
    and e: "(if length s > 2 then let block = take 9 s in f (rem_text (rem97 block) @ drop (length block) s) else Some s) = Some r"
  have n: "rem97 ''NaN'' = None" by code_simp
  show "s \<noteq> ''NaN''"
  proof
    assume s: "s = ''NaN''"
    have "f ''NaN'' = Some r" using e unfolding s by (simp add: Let_def n rem_text_def)
    then show False using IH by blast
  qed
qed

text \<open>One character that is neither a letter nor a digit, and the check digits are never found.\<close>

lemma fromBban_hangs: "fromBban ''?'' = None"
proof -
  have p: "iso13616Prepare (''XE'' @ ''00'' @ ''?'') = ''?331400''" by code_simp
  have n: "rem97 ''?331400'' = None" by code_simp
  have "mod_loop ''?331400'' = mod_loop ''NaN''" by (subst mod_loop.simps) (simp add: Let_def n rem_text_def)
  moreover have "mod_loop ''NaN'' = None" using mod_loop_nan by (cases "mod_loop ''NaN''") auto
  ultimately show ?thesis by (simp add: fromBban_def Let_def p [simplified] mod9710_def)
qed

end
