(* ===== verification/Sha3.thy ===== *)
theory Sha3
  imports Utf8
begin

text \<open>
  The hash of the web3 bundle (\<open>app/javascripts/web3.js\<close>): \<open>SHA3\<close> of crypto-js with the word arrays and the
  buffer it works on. A lane of 64 bits is a pair of Numbers, high and low; \<open>undefined\<close>, which the lanes and the
  array of words hold at first, counts as 0 for the bitwise operators. The second half states Keccak on
  \<open>64 word\<close> and shows that the code computes it.
\<close>

section \<open>Constants\<close>

type_synonym lane = "int \<times> int"

definition zero_lane :: lane where "zero_lane = (0, 0)"

definition lane_xor :: "lane \<Rightarrow> lane \<Rightarrow> lane" where
  "lane_xor a b = (js_xor (fst a) (fst b), js_xor (snd a) (snd b))"

fun rho_loop :: "nat \<Rightarrow> nat \<Rightarrow> nat \<Rightarrow> nat \<Rightarrow> nat list \<Rightarrow> nat list" where
  "rho_loop 0 t x y offsets = offsets"
| "rho_loop (Suc n) t x y offsets =
     (let offsets = offsets[x + 5 * y := (t + 1) * (t + 2) div 2 mod 64];
          newX = y mod 5; newY = (2 * x + 3 * y) mod 5
      in rho_loop n (t + 1) newX newY offsets)"

text \<open>Entry 0 is never set and never read.\<close>

definition RHO_OFFSETS :: "nat list" where
  "RHO_OFFSETS = rho_loop 24 0 1 0 (replicate 25 0)"

definition PI_INDEXES :: "nat list" where
  "PI_INDEXES = map (\<lambda>i. let x = i mod 5; y = i div 5 in y + (2 * x + 3 * y) mod 5 * 5) [0..<25]"

fun lfsr_loop :: "nat \<Rightarrow> int \<Rightarrow> int \<Rightarrow> lane \<Rightarrow> int \<times> lane" where
  "lfsr_loop 0 j LFSR c = (LFSR, c)"
| "lfsr_loop (Suc n) j LFSR c =
     (let c = (if js_and LFSR 0x01 \<noteq> 0
               then let bitPosition = js_shl 1 j - 1
                 in if bitPosition < 32 then (fst c, js_xor (snd c) (js_shl 1 bitPosition))
                    else (js_xor (fst c) (js_shl 1 (bitPosition - 32)), snd c)
               else c);
          LFSR = (if js_and LFSR 0x80 \<noteq> 0 then js_xor (js_shl LFSR 1) 0x71 else js_shl LFSR 1)
      in lfsr_loop n (j + 1) LFSR c)"

fun constants_loop :: "nat \<Rightarrow> int \<Rightarrow> lane list" where
  "constants_loop 0 LFSR = []"
| "constants_loop (Suc n) LFSR = (let (LFSR, c) = lfsr_loop 7 0 LFSR zero_lane in c # constants_loop n LFSR)"

definition ROUND_CONSTANTS :: "lane list" where
  "ROUND_CONSTANTS = constants_loop 24 0x01"

section \<open>The permutation\<close>

text \<open>The lanes are indexed by \<open>x + 5 * y\<close>.\<close>

definition column :: "lane list \<Rightarrow> nat \<Rightarrow> lane" where
  "column state x = fold (\<lambda>y t. lane_xor t (state ! (x + 5 * y))) [0, 1, 2, 3, 4] zero_lane"

definition theta_lane :: "lane list \<Rightarrow> nat \<Rightarrow> lane" where
  "theta_lane T x =
     (let Tx4 = T ! ((x + 4) mod 5); (Tx1Msw, Tx1Lsw) = T ! ((x + 1) mod 5)
      in (js_xor (fst Tx4) (js_or (js_shl Tx1Msw 1) (js_ushr Tx1Lsw 31)),
          js_xor (snd Tx4) (js_or (js_shl Tx1Lsw 1) (js_ushr Tx1Msw 31))))"

definition theta :: "lane list \<Rightarrow> lane list" where
  "theta state =
     (let T = map (column state) [0, 1, 2, 3, 4]
      in map (\<lambda>i. lane_xor (state ! i) (theta_lane T (i mod 5))) [0..<25])"

definition rotate_lane :: "nat \<Rightarrow> lane \<Rightarrow> lane" where
  "rotate_lane rhoOffset = (\<lambda>(laneMsw, laneLsw).
     let k = int rhoOffset
     in if k < 32
        then (js_or (js_shl laneMsw k) (js_ushr laneLsw (32 - k)), js_or (js_shl laneLsw k) (js_ushr laneMsw (32 - k)))
        else (js_or (js_shl laneLsw (k - 32)) (js_ushr laneMsw (64 - k)), js_or (js_shl laneMsw (k - 32)) (js_ushr laneLsw (64 - k))))"

definition rho_pi :: "lane list \<Rightarrow> lane list" where
  "rho_pi state =
     (fold (\<lambda>laneIndex T. T[PI_INDEXES ! laneIndex := rotate_lane (RHO_OFFSETS ! laneIndex) (state ! laneIndex)])
        [1..<25] (replicate 25 zero_lane))[0 := state ! 0]"

definition chi :: "lane list \<Rightarrow> lane list" where
  "chi T = map (\<lambda>laneIndex.
     let x = laneIndex mod 5; y = laneIndex div 5;
         TLane = T ! laneIndex; Tx1Lane = T ! ((x + 1) mod 5 + 5 * y); Tx2Lane = T ! ((x + 2) mod 5 + 5 * y)
     in (js_xor (fst TLane) (js_and (js_not (fst Tx1Lane)) (fst Tx2Lane)),
         js_xor (snd TLane) (js_and (js_not (snd Tx1Lane)) (snd Tx2Lane)))) [0..<25]"

definition iota :: "nat \<Rightarrow> lane list \<Rightarrow> lane list" where
  "iota i state = state[0 := lane_xor (state ! 0) (ROUND_CONSTANTS ! i)]"

definition keccak_round :: "nat \<Rightarrow> lane list \<Rightarrow> lane list" where
  "keccak_round i state = iota i (chi (rho_pi (theta state)))"

definition permute :: "lane list \<Rightarrow> lane list" where
  "permute state = fold keccak_round [0..<24] state"

section \<open>Word arrays and the buffer\<close>

record word_array =
  wwords :: "int list"
  sigBytes :: nat

text \<open>\<open>Latin1.parse\<close>: the codes of the characters, big-endian in the words.\<close>

fun latin1_loop :: "int list \<Rightarrow> nat \<Rightarrow> int list \<Rightarrow> int list" where
  "latin1_loop [] i ws = ws"
| "latin1_loop (c # cs) i ws =
     (let k = nat (js_ushr (int i) 2)
      in latin1_loop cs (Suc i)
           (js_set ws k (js_or (js_num ws k) (js_shl (js_and c 0xff) (24 - int i mod 4 * 8)))))"

definition latin1_parse :: "int list \<Rightarrow> word_array" where
  "latin1_parse codes = \<lparr>wwords = latin1_loop codes 0 [], sigBytes = length codes\<rparr>"

definition hex_stringify :: "word_array \<Rightarrow> string" where
  "hex_stringify w =
     concat (map (\<lambda>i. let bite = js_and (js_ushr (js_num (wwords w) (nat (js_ushr (int i) 2))) (24 - int i mod 4 * 8)) 0xff
       in num_str 16 (js_ushr bite 4) @ num_str 16 (js_and bite 0x0f)) [0..<sigBytes w])"

text \<open>The length of the array becomes the number of words that have a significant byte.\<close>

definition clamp_words :: "word_array \<Rightarrow> word_array" where
  "clamp_words w =
     (let n = sigBytes w; k = nat (js_ushr (int n) 2);
          ws = js_set (wwords w) k (js_and (js_num (wwords w) k) (js_shl 0xffffffff (32 - int n mod 4 * 8)));
          l = (n + 3) div 4
      in w\<lparr>wwords := take l ws @ replicate (l - length ws) 0\<rparr>)"

definition concat_words :: "word_array \<Rightarrow> word_array \<Rightarrow> word_array" where
  "concat_words this0 that =
     (let this = clamp_words this0; n = sigBytes this; m = sigBytes that;
          ws = (if n mod 4 \<noteq> 0
                then fold (\<lambda>i ws.
                    let thatByte = js_and (js_ushr (js_num (wwords that) (nat (js_ushr (int i) 2))) (24 - int i mod 4 * 8)) 0xff;
                        k = nat (js_ushr (int (n + i)) 2)
                    in js_set ws k (js_or (js_num ws k) (js_shl thatByte (24 - int (n + i) mod 4 * 8)))) [0..<m] (wwords this)
                else fold (\<lambda>i ws. js_set ws (nat (js_ushr (int (n + 4 * i)) 2)) (js_num (wwords that) (nat (js_ushr (int (4 * i)) 2))))
                  [0..<(m + 3) div 4] (wwords this))
      in this\<lparr>wwords := ws, sigBytes := n + m\<rparr>)"
section \<open>The hasher\<close>

record hasher =
  hstate :: "lane list"
  hdata :: word_array
  nDataBytes :: nat
  blockSize :: nat
  outputLength :: nat

definition hasher_init :: "nat \<Rightarrow> hasher" where
  "hasher_init out =
     \<lparr>hstate = replicate 25 zero_lane, hdata = \<lparr>wwords = [], sigBytes = 0\<rparr>, nDataBytes = 0,
      blockSize = (1600 - 2 * out) div 32, outputLength = out\<rparr>"

definition append_data :: "word_array \<Rightarrow> hasher \<Rightarrow> hasher" where
  "append_data d this = this\<lparr>hdata := concat_words (hdata this) d, nDataBytes := nDataBytes this + sigBytes d\<rparr>"

definition swap_endian :: "int \<Rightarrow> int" where
  "swap_endian w =
     js_or (js_and (js_or (js_shl w 8) (js_ushr w 24)) 0x00ff00ff) (js_and (js_or (js_shl w 24) (js_ushr w 8)) 0xff00ff00)"

definition absorb :: "int list \<Rightarrow> nat \<Rightarrow> nat \<Rightarrow> lane list \<Rightarrow> lane list" where
  "absorb M offset nBlockSizeLanes state =
     fold (\<lambda>i state. state[i := lane_xor (state ! i)
         (swap_endian (js_num M (offset + 2 * i + 1)), swap_endian (js_num M (offset + 2 * i)))])
       [0..<nBlockSizeLanes] state"

definition doProcessBlock :: "int list \<Rightarrow> nat \<Rightarrow> hasher \<Rightarrow> hasher" where
  "doProcessBlock M offset this =
     (let nBlockSizeLanes = blockSize this div 2
      in this\<lparr>hstate := permute (absorb M offset nBlockSizeLanes (hstate this))\<rparr>)"

text \<open>\<open>_process\<close> without flushing: the full blocks, which are then taken off the buffer.\<close>

definition process :: "hasher \<Rightarrow> hasher" where
  "process this =
     (let d = hdata this; blockSizeBytes = blockSize this * 4;
          nBlocksReady = sigBytes d div blockSizeBytes;
          nWordsReady = nBlocksReady * blockSize this;
          nBytesReady = min (nWordsReady * 4) (sigBytes d)
      in if nWordsReady \<noteq> 0
         then let this = fold (\<lambda>b this. doProcessBlock (wwords d) (b * blockSize this) this) [0..<nBlocksReady] this
           in this\<lparr>hdata := \<lparr>wwords = drop nWordsReady (wwords d), sigBytes = sigBytes d - nBytesReady\<rparr>\<rparr>
         else this)"

definition pad_words3 :: "nat \<Rightarrow> word_array \<Rightarrow> word_array" where
  "pad_words3 blockSizeBits d =
     (let nBitsLeft = sigBytes d * 8; dataWords = wwords d;
          i = nat (js_ushr (int nBitsLeft) 5);
          dataWords = js_set dataWords i (js_or (js_num dataWords i) (js_shl 0x1 (24 - int nBitsLeft mod 32)));
          k = nat (js_ushr (int ((nBitsLeft + 1 + (blockSizeBits - 1)) div blockSizeBits * blockSizeBits)) 5) - 1;
          dataWords = js_set dataWords k (js_or (js_num dataWords k) 0x80)
      in \<lparr>wwords = dataWords, sigBytes = length dataWords * 4\<rparr>)"

definition squeeze :: "nat \<Rightarrow> lane list \<Rightarrow> word_array" where
  "squeeze out state =
     (let outputLengthBytes = out div 8; outputLengthLanes = outputLengthBytes div 8
      in \<lparr>wwords = concat (map (\<lambda>i. [swap_endian (snd (state ! i)), swap_endian (fst (state ! i))]) [0..<outputLengthLanes]),
          sigBytes = outputLengthBytes\<rparr>)"

definition doFinalize :: "hasher \<Rightarrow> word_array" where
  "doFinalize this =
     (let this = process (this\<lparr>hdata := pad_words3 (blockSize this * 32) (hdata this)\<rparr>)
      in squeeze (outputLength this) (hstate this))"

text \<open>
  \<open>Utf8.parse\<close> of a text, the list of its code units: \<open>unescape(encodeURIComponent(s))\<close> of the standard library gives the
  bytes of its UTF-8 form and raises \<open>URIError\<close> where a surrogate stands alone.
\<close>

definition utf8_parse :: "int list \<Rightarrow> word_array result" where
  "utf8_parse units = (case utf8encode units of Inl _ \<Rightarrow> Inl ''URI malformed'' | Inr bytes \<Rightarrow> Inr (latin1_parse bytes))"

text \<open>An empty text is not appended.\<close>

definition finalize :: "int list \<Rightarrow> hasher \<Rightarrow> word_array result" where
  "finalize messageUpdate this =
     (if messageUpdate \<noteq> []
      then bind_result (utf8_parse messageUpdate) (\<lambda>d. Inr (doFinalize (append_data d this)))
      else Inr (doFinalize this))"

text \<open>\<open>sha3.js\<close>, for a text without the option \<open>encoding\<close>: 256 bits in hexadecimal.\<close>

definition sha3 :: "int list \<Rightarrow> string result" where
  "sha3 units = bind_result (finalize units (hasher_init 256)) (\<lambda>d. Inr (hex_stringify d))"

section \<open>Keccak on machine words\<close>

text \<open>The tables of FIPS 202: the offsets of \<open>rho\<close> at \<open>x + 5 * y\<close> and the constants of \<open>iota\<close>.\<close>

definition k_offsets :: "nat list" where
  "k_offsets = [0, 1, 62, 28, 27, 36, 44, 6, 55, 20, 3, 10, 43, 25, 39, 41, 45, 15, 21, 8, 18, 2, 61, 56, 14]"

definition k_constants :: "64 word list" where
  "k_constants =
     [0x0000000000000001, 0x0000000000008082, 0x800000000000808A, 0x8000000080008000, 0x000000000000808B, 0x0000000080000001,
      0x8000000080008081, 0x8000000000008009, 0x000000000000008A, 0x0000000000000088, 0x0000000080008009, 0x000000008000000A,
      0x000000008000808B, 0x800000000000008B, 0x8000000000008089, 0x8000000000008003, 0x8000000000008002, 0x8000000000000080,
      0x000000000000800A, 0x800000008000000A, 0x8000000080008081, 0x8000000000008080, 0x0000000080000001, 0x8000000080008008]"

definition k_column :: "64 word list \<Rightarrow> nat \<Rightarrow> 64 word" where
  "k_column A x = A ! x XOR A ! (x + 5) XOR A ! (x + 10) XOR A ! (x + 15) XOR A ! (x + 20)"

definition k_theta :: "64 word list \<Rightarrow> 64 word list" where
  "k_theta A = map (\<lambda>i. A ! i XOR (k_column A ((i mod 5 + 4) mod 5) XOR word_rotl 1 (k_column A ((i mod 5 + 1) mod 5)))) [0..<25]"

definition k_rho :: "64 word list \<Rightarrow> 64 word list" where
  "k_rho A = map (\<lambda>i. word_rotl (k_offsets ! i) (A ! i)) [0..<25]"

definition k_pi :: "64 word list \<Rightarrow> 64 word list" where
  "k_pi A = map (\<lambda>i. let x = i mod 5; y = i div 5 in A ! ((x + 3 * y) mod 5 + 5 * x)) [0..<25]"

definition k_chi :: "64 word list \<Rightarrow> 64 word list" where
  "k_chi A = map (\<lambda>i. let x = i mod 5; y = i div 5
     in A ! i XOR (NOT (A ! ((x + 1) mod 5 + 5 * y)) AND A ! ((x + 2) mod 5 + 5 * y))) [0..<25]"

definition k_round :: "nat \<Rightarrow> 64 word list \<Rightarrow> 64 word list" where
  "k_round r A = (let B = k_chi (k_pi (k_rho (k_theta A))) in B[0 := B ! 0 XOR k_constants ! r])"

definition keccak_f :: "64 word list \<Rightarrow> 64 word list" where
  "keccak_f A = fold k_round [0..<24] A"

section \<open>Lanes are words of 64 bits\<close>

definition lane64 :: "lane \<Rightarrow> 64 word" where
  "lane64 a = word_cat (w32 (fst a)) (w32 (snd a))"

lemma bit_lane64: "bit (lane64 a) n \<longleftrightarrow> n < 64 \<and> (if n < 32 then bit (w32 (snd a)) n else bit (w32 (fst a)) (n - 32))"
  unfolding lane64_def by (auto simp: bit_word_cat_iff)

lemma lane64_xor: "lane64 (lane_xor a b) = lane64 a XOR lane64 b"
  by (rule bit_word_eqI) (auto simp: bit_lane64 lane_xor_def w32_xor bit_xor_iff simp del: of_int_xor_eq)

lemma lane64_zero [simp]: "lane64 zero_lane = 0"
  by (rule bit_word_eqI) (simp add: bit_lane64 zero_lane_def)

lemma lane64_chi:
  "lane64 (js_xor (fst a) (js_and (js_not (fst b)) (fst c)), js_xor (snd a) (js_and (js_not (snd b)) (snd c)))
    = lane64 a XOR (NOT (lane64 b) AND lane64 c)"
  by (rule bit_word_eqI)
    (auto simp: bit_lane64 w32_xor w32_and w32_not bit_xor_iff bit_and_iff bit_not_iff simp del: of_int_xor_eq of_int_and_eq of_int_not_eq)

lemma bit_join:
  assumes "0 < k" "k < 32" "n < 32"
  shows "bit (w32 (js_or (js_shl x (int k)) (js_ushr y (32 - int k)))) n
    \<longleftrightarrow> (if n < k then bit (w32 y) (n + (32 - k)) else bit (w32 x) (n - k))"
proof -
  have "nat (32 - int k) = 32 - k" by simp
  then have "w32 (js_or (js_shl x (int k)) (js_ushr y (32 - int k))) = push_bit k (w32 x) OR drop_bit (32 - k) (w32 y)"
    using assms by (simp add: word_ops del: of_int_or_eq)
  then show ?thesis using assms
    by (cases "n < k") (auto simp: bit_or_iff bit_push_bit_iff bit_drop_bit_eq bit_w32 add.commute)
qed

lemma rotate_small:
  assumes "0 < k" "k < 32"
  shows "lane64 (js_or (js_shl h (int k)) (js_ushr l (32 - int k)), js_or (js_shl l (int k)) (js_ushr h (32 - int k))) = word_rotl k (lane64 (h, l))"
proof (rule bit_word_eqI)
  fix n assume "n < LENGTH(64)"
  then have n: "n < 64" by simp
  have i: "(n + (64 - k)) mod 64 = (if n < k then n + (64 - k) else n - k)" using n assms by (simp add: mod_if)
  note j = bit_join [OF assms]
  define a b where "a = js_or (js_shl h (int k)) (js_ushr l (32 - int k))" and "b = js_or (js_shl l (int k)) (js_ushr h (32 - int k))"
  have a: "bit (w32 a) m \<longleftrightarrow> (if m < k then bit (w32 l) (m + (32 - k)) else bit (w32 h) (m - k))"
    and b: "bit (w32 b) m \<longleftrightarrow> (if m < k then bit (w32 h) (m + (32 - k)) else bit (w32 l) (m - k))" if "m < 32" for m
    unfolding a_def b_def by (rule j [OF that])+
  have L: "bit (lane64 (a, b)) n = (if n < 32 then bit (w32 b) n else bit (w32 a) (n - 32))"
    using n by (simp add: bit_lane64 del: of_int_or_eq)
  have R: "bit (word_rotl k (lane64 (h, l))) n = bit (lane64 (h, l)) (if n < k then n + (64 - k) else n - k)"
    using n assms i by (simp add: bit_word_rotl_iff)
  have M: "bit (lane64 (h, l)) m = (if m < 32 then bit (w32 l) m else bit (w32 h) (m - 32))" if "m < 64" for m
    using that by (simp add: bit_lane64)
  consider "n < k" | "k \<le> n" "n < 32" | "32 \<le> n" "n < 32 + k" | "32 + k \<le> n" by linarith
  then have "bit (lane64 (a, b)) n = bit (word_rotl k (lane64 (h, l))) n"
  proof cases
    case 1
    then have "n + (64 - k) - 32 = n + (32 - k)" "\<not> n + (64 - k) < 32" using assms by simp_all
    then show ?thesis using 1 assms n unfolding L R by (simp add: M b)
  next
    case 2
    then have "n - k < 32" by simp
    then show ?thesis using 2 assms n unfolding L R by (simp add: M b)
  next
    case 3
    then have "n - 32 + (32 - k) = n - k" "n - k < 32" "n - 32 < k" using assms by simp_all
    then show ?thesis using 3 assms n unfolding L R by (simp add: M a)
  next
    case 4
    then have "n - k - 32 = n - 32 - k" "\<not> n - k < 32" "\<not> n - 32 < k" by simp_all
    then show ?thesis using 4 assms n unfolding L R by (simp add: M a)
  qed
  then show "bit (lane64 (js_or (js_shl h (int k)) (js_ushr l (32 - int k)), js_or (js_shl l (int k)) (js_ushr h (32 - int k)))) n = bit (word_rotl k (lane64 (h, l))) n"
    by (simp only: a_def b_def)
qed

lemma rotl_half: "word_rotl 32 (lane64 (h, l)) = lane64 (l, h)"
proof (rule bit_word_eqI)
  fix n assume "n < LENGTH(64)"
  then have n: "n < 64" by simp
  then have i: "(n + 32) mod 64 = (if n < 32 then n + 32 else n - 32)" by (simp add: mod_if)
  show "bit (word_rotl 32 (lane64 (h, l))) n = bit (lane64 (l, h)) n"
  proof (cases "n < 32")
    case False
    then have "n - 32 < 32" using n by simp
    then show ?thesis using n False i by (simp add: bit_word_rotl_iff bit_lane64)
  qed (use n in \<open>simp add: bit_word_rotl_iff bit_lane64\<close>)
qed

lemma rotl_rotl_half: "m < 32 \<Longrightarrow> word_rotl m (word_rotl 32 w) = word_rotl (m + 32) (w :: 64 word)"
proof (rule bit_word_eqI)
  fix n assume m: "m < 32" and "n < LENGTH(64)"
  then have n: "n < 64" by simp
  have "((n + (64 - m)) mod 64 + 32) mod 64 = (n + (64 - m) + 32) mod 64" by (simp add: mod_add_left_eq)
  also have "n + (64 - m) + 32 = (n + (32 - m)) + 64" using m by simp
  finally have "((n + (64 - m)) mod 64 + 32) mod 64 = (n + (32 - m)) mod 64" by simp
  then show "bit (word_rotl m (word_rotl 32 w)) n = bit (word_rotl (m + 32) w) n"
    using n m by (simp add: bit_word_rotl_iff)
qed

lemma rotate_lane_ok:
  assumes "0 < k" "k < 64" "k \<noteq> 32"
  shows "lane64 (rotate_lane k a) = word_rotl k (lane64 a)"
proof (cases "k < 32")
  case True
  then show ?thesis using assms rotate_small [of k "fst a" "snd a"] by (simp add: rotate_lane_def Let_def split_def)
next
  case False
  define m where "m = k - 32"
  have m: "0 < m" "m < 32" "int k - 32 = int m" "64 - int k = 32 - int m" "k = m + 32" using assms False by (simp_all add: m_def)
  have "rotate_lane k a = (js_or (js_shl (snd a) (int m)) (js_ushr (fst a) (32 - int m)), js_or (js_shl (fst a) (int m)) (js_ushr (snd a) (32 - int m)))"
    using False by (simp add: rotate_lane_def Let_def split_def m(3,4))
  then have "lane64 (rotate_lane k a) = word_rotl m (lane64 (snd a, fst a))" using rotate_small [OF m(1,2)] by simp
  also have "\<dots> = word_rotl m (word_rotl 32 (lane64 a))" using rotl_half [of "fst a" "snd a"] by simp
  also have "\<dots> = word_rotl k (lane64 a)" unfolding m(5) by (rule rotl_rotl_half [OF m(2)])
  finally show ?thesis .
qed

section \<open>The permutation is Keccak's\<close>

lemma upt_25: "[0..<25] = [0, 1, 2, 3, 4, 5, 6, 7, 8, 9, 10, 11, 12, 13, 14, 15, 16, 17, 18, 19, 20, 21, 22, 23, 24]"
  by code_simp

lemma keccak_tables: "RHO_OFFSETS = k_offsets"
  "PI_INDEXES = [0, 10, 20, 5, 15, 16, 1, 11, 21, 6, 7, 17, 2, 12, 22, 23, 8, 18, 3, 13, 14, 24, 9, 19, 4]"
  "map lane64 ROUND_CONSTANTS = k_constants"
  by code_simp+

lemma column_ok:
  assumes "x < 5" "length L = 25"
  shows "lane64 (column L x) = k_column (map lane64 L) x"
  using assms by (simp add: column_def k_column_def lane64_xor xor.assoc)

lemma theta_ok:
  assumes "length L = 25"
  shows "map lane64 (theta L) = k_theta (map lane64 L)"
proof -
  define T where "T = map (column L) [0, 1, 2, 3, 4]"
  have T: "T ! x = column L x" if "x < 5" for x
    using that by (auto simp: T_def less_Suc_eq numeral_eq_Suc)
  have "lane64 (theta_lane T x) = k_column (map lane64 L) ((x + 4) mod 5) XOR word_rotl 1 (k_column (map lane64 L) ((x + 1) mod 5))" for x
  proof -
    obtain h l where hl: "T ! ((x + 1) mod 5) = (h, l)" by (rule prod.exhaust)
    have "theta_lane T x = lane_xor (T ! ((x + 4) mod 5)) (js_or (js_shl h (int 1)) (js_ushr l (32 - int 1)), js_or (js_shl l (int 1)) (js_ushr h (32 - int 1)))"
      unfolding theta_lane_def Let_def hl by (simp add: lane_xor_def)
    then have "lane64 (theta_lane T x) = lane64 (T ! ((x + 4) mod 5)) XOR word_rotl 1 (lane64 (T ! ((x + 1) mod 5)))"
      using rotate_small [of 1 h l] by (simp only: lane64_xor hl)
    then show ?thesis by (simp add: T column_ok assms)
  qed
  moreover have "theta L = map (\<lambda>i. lane_xor (L ! i) (theta_lane T (i mod 5))) [0..<25]" by (simp only: theta_def Let_def T_def)
  ultimately show ?thesis using assms by (simp add: k_theta_def lane64_xor)
qed

lemma fold_update_nth:
  assumes "distinct (map p is)" "\<forall>i\<in>set is. p i < length T"
  shows "length (fold (\<lambda>i T. T[p i := f i]) is T) = length T \<and> (\<forall>i\<in>set is. fold (\<lambda>i T. T[p i := f i]) is T ! p i = f i)"
  using assms
proof (induction "is" rule: rev_induct)
  case (snoc k ks)
  then have IH: "length (fold (\<lambda>i T. T[p i := f i]) ks T) = length T"
      "\<And>i. i \<in> set ks \<Longrightarrow> fold (\<lambda>i T. T[p i := f i]) ks T ! p i = f i" "p k < length T"
    by simp_all
  have "p k \<notin> p ` set ks" using snoc.prems(1) by simp
  then have "\<forall>i\<in>set ks. p i \<noteq> p k" by (metis imageI)
  then show ?case using IH by (auto simp: nth_list_update)
qed simp

lemma rho_pi_ok:
  assumes "length L = 25"
  shows "map lane64 (rho_pi L) = k_pi (k_rho (map lane64 L))"
proof -
  have o: "RHO_OFFSETS ! i = k_offsets ! i" for i by (simp add: keccak_tables)
  have r: "lane64 (rotate_lane (k_offsets ! i) a) = word_rotl (k_offsets ! i) (lane64 a)" if "i \<in> set [1..<25]" for i a
  proof -
    have "\<forall>i\<in>set [1..<25]. 0 < k_offsets ! i \<and> k_offsets ! i < 64 \<and> k_offsets ! i \<noteq> 32" by code_simp
    then show ?thesis using that by (intro rotate_lane_ok) auto
  qed
  define f where "f i = rotate_lane (RHO_OFFSETS ! i) (L ! i)" for i
  have f: "lane64 (f i) = word_rotl (k_offsets ! i) (lane64 (L ! i))" if "i \<in> set [1..<25]" for i
    unfolding f_def o using r [OF that] .
  define T where "T = fold (\<lambda>i T. T[PI_INDEXES ! i := f i]) [1..<25] (replicate 25 zero_lane)"
  have rp: "rho_pi L = T[0 := L ! 0]" by (simp only: rho_pi_def T_def f_def)
  have "distinct (map ((!) PI_INDEXES) [1..<25])" "\<forall>i\<in>set [1..<25]. PI_INDEXES ! i < 25" by code_simp+
  then have T: "length T = 25" "\<And>i. i \<in> set [1..<25] \<Longrightarrow> T ! (PI_INDEXES ! i) = f i"
    using fold_update_nth [of "(!) PI_INDEXES" "[1..<25]" "replicate 25 zero_lane" f] unfolding T_def by simp_all
  define src where "src i = (let x = i mod 5; y = i div 5 in (x + 3 * y) mod 5 + 5 * x)" for i :: nat
  have s: "\<forall>i\<in>set [0..<25]. src i < 25 \<and> (0 < i \<longrightarrow> src i \<in> set [1..<25] \<and> PI_INDEXES ! src i = i)"
    unfolding src_def by code_simp
  show ?thesis
  proof (rule nth_equalityI)
    show "length (map lane64 (rho_pi L)) = length (k_pi (k_rho (map lane64 L)))" using T(1) by (simp add: rp k_pi_def)
    fix i assume "i < length (map lane64 (rho_pi L))"
    then have i: "i < 25" using T(1) by (simp add: rp)
    have k: "k_pi (k_rho (map lane64 L)) ! i = word_rotl (k_offsets ! src i) (lane64 (L ! src i))"
      using i s assms by (simp add: k_pi_def k_rho_def src_def Let_def)
    show "map lane64 (rho_pi L) ! i = k_pi (k_rho (map lane64 L)) ! i"
    proof (cases "i = 0")
      case True
      have "src 0 = 0" "k_offsets ! 0 = 0" by (simp_all add: src_def k_offsets_def)
      moreover have "word_rotl 0 w = w" for w :: "64 word" by (rule bit_word_eqI) (simp add: bit_word_rotl_iff)
      ultimately show ?thesis unfolding k using T(1) True by (simp add: rp)
    next
      case False
      then have q: "src i \<in> set [1..<25]" "PI_INDEXES ! src i = i" using s i by simp_all
      have "rho_pi L ! i = f (src i)" using T(2) [OF q(1)] False by (simp add: rp q(2))
      then show ?thesis unfolding k using f [OF q(1)] i T(1) by (simp add: rp)
    qed
  qed
qed

lemma chi_ok:
  assumes "length T = 25"
  shows "map lane64 (chi T) = k_chi (map lane64 T)"
proof -
  have "\<forall>i\<in>set [0..<25]. (i mod 5 + 1) mod 5 + 5 * (i div 5) < 25 \<and> (i mod 5 + 2) mod 5 + 5 * (i div 5) < (25 :: nat)"
    by code_simp
  then show ?thesis using assms by (auto simp: chi_def k_chi_def Let_def lane64_chi)
qed

lemma lengths25 [simp]: "length (theta L) = 25" "length (chi L) = 25" "length L = 25 \<Longrightarrow> length (rho_pi L) = 25"
proof -
  show "length (theta L) = 25" "length (chi L) = 25" by (simp_all add: theta_def chi_def Let_def)
  assume "length L = 25"
  have "length (map lane64 (rho_pi L)) = length (k_pi (k_rho (map lane64 L)))" unfolding rho_pi_ok [OF \<open>length L = 25\<close>] ..
  then show "length (rho_pi L) = 25" by (simp add: k_pi_def)
qed

lemma round_ok:
  assumes "length L = 25" "i < 24"
  shows "map lane64 (keccak_round i L) = k_round i (map lane64 L) \<and> length (keccak_round i L) = 25"
proof -
  have c: "lane64 (ROUND_CONSTANTS ! i) = k_constants ! i"
  proof -
    have "length ROUND_CONSTANTS = 24" by code_simp
    then show ?thesis using nth_map [of i ROUND_CONSTANTS lane64] assms(2) unfolding keccak_tables(3) by simp
  qed
  define B where "B = chi (rho_pi (theta L))"
  have B: "length B = 25" "map lane64 B = k_chi (k_pi (k_rho (k_theta (map lane64 L))))"
    unfolding B_def using assms(1) by (simp, subst chi_ok, simp, subst rho_pi_ok, simp, subst theta_ok, simp_all)
  have r: "keccak_round i L = B[0 := lane_xor (B ! 0) (ROUND_CONSTANTS ! i)]" by (simp add: keccak_round_def iota_def B_def)
  have "map lane64 (keccak_round i L) = (map lane64 B)[0 := lane64 (B ! 0) XOR k_constants ! i]"
    unfolding r map_update lane64_xor c by (rule refl)
  also have "lane64 (B ! 0) = map lane64 B ! 0" using B(1) by simp
  finally have "map lane64 (keccak_round i L) = k_round i (map lane64 L)" unfolding B(2) k_round_def Let_def .
  moreover have "length (keccak_round i L) = 25" using B(1) by (simp add: r)
  ultimately show ?thesis by blast
qed

lemma permute_ok:
  assumes "length L = 25"
  shows "map lane64 (permute L) = keccak_f (map lane64 L) \<and> length (permute L) = 25"
proof -
  have "map lane64 (fold keccak_round is L) = fold k_round is (map lane64 L) \<and> length (fold keccak_round is L) = 25"
    if "\<forall>i\<in>set is. i < 24" for "is"
    using that assms by (induction "is" arbitrary: L) (simp_all add: round_ok)
  then show ?thesis by (simp add: permute_def keccak_f_def)
qed

section \<open>The sponge on bytes\<close>

text \<open>
  Padding of Keccak: a one bit, zeros, a one bit, up to a multiple of the rate of 136 bytes. Lanes are read and
  written with the low byte first.
\<close>

definition k_pad :: "int list \<Rightarrow> int list" where
  "k_pad bs =
     (let q = 136 - length bs mod 136 in bs @ (if q = 1 then [0x81] else 0x01 # replicate (q - 2) 0 @ [0x80]))"

definition le_lane :: "int list \<Rightarrow> nat \<Rightarrow> 64 word" where
  "le_lane p i = word_of_int (val 256 (map (js_num p) [8 * i..<8 * i + 8]))"

definition k_absorb :: "int list \<Rightarrow> nat \<Rightarrow> 64 word list \<Rightarrow> 64 word list" where
  "k_absorb p b A = map (\<lambda>i. if i < 17 then A ! i XOR le_lane p (17 * b + i) else A ! i) [0..<25]"

definition lane_bytes :: "64 word \<Rightarrow> int list" where
  "lane_bytes w = map (\<lambda>j. uint w div 256 ^ j mod 256) [0..<8]"

definition keccak256 :: "int list \<Rightarrow> int list" where
  "keccak256 bs =
     (let p = k_pad bs; A = fold (\<lambda>b A. keccak_f (k_absorb p b A)) [0..<length p div 136] (replicate 25 0)
      in concat (map lane_bytes (take 4 A)))"

lemma bit_part:
  fixes x :: int
  shows "j < 8 \<Longrightarrow> bit (x div 2 ^ a mod 256) j \<longleftrightarrow> bit x (a + j)"
  using bit_take_bit_iff [of 8 "drop_bit a x" j] by (simp add: take_bit_eq_mod drop_bit_eq_div bit_drop_bit_eq flip: drop_bit_eq_div)

lemma bit_le_lane:
  assumes "is_bytes p" "n < 64"
  shows "bit (le_lane p i) n \<longleftrightarrow> bit (js_num p (8 * i + n div 8)) (n mod 8)"
proof -
  define ds where "ds = map (js_num p) [8 * i..<8 * i + 8]"
  have ds: "digits_in 256 ds" "length ds = 8" using is_bytes_nth [OF assms(1)] by (auto simp: ds_def digits_in_def)
  have q: "n div 8 < length ds" using assms(2) ds(2) by simp
  have "val 256 ds div 256 ^ (n div 8) mod 256 = ds ! (n div 8)" using radix256.val_nth [OF ds(1) q] by simp
  also have "(256 :: int) ^ (n div 8) = 2 ^ (8 * (n div 8))" using power_mult [of "2 :: int" 8 "n div 8"] by simp
  finally have "bit (ds ! (n div 8)) (n mod 8) \<longleftrightarrow> bit (val 256 ds) n"
    using bit_part [of "n mod 8" "val 256 ds" "8 * (n div 8)"] by simp
  moreover have "ds ! (n div 8) = js_num p (8 * i + n div 8)" using assms(2) by (simp add: ds_def)
  ultimately show ?thesis using assms(2) by (simp add: le_lane_def ds_def [symmetric] bit_word_of_int_iff)
qed

lemma bit_be_word:
  assumes "is_bytes p" "r < 4" "j < 8" "w32 m = w32 (be_word p k)"
  shows "bit (w32 m) (24 - 8 * r + j) \<longleftrightarrow> bit (js_num p (4 * k + r)) j"
  unfolding assms(4) using be_word_nth(1) [OF assms(1,2), of k] bit_part [OF assms(3), of "be_word p k" "24 - 8 * r"] assms(2,3)
  by (auto simp: bit_w32)

lemma swap_bits:
  assumes "r < 4" "j < 8"
  shows "bit (w32 (swap_endian x)) (8 * r + j) \<longleftrightarrow> bit (w32 x) (24 - 8 * r + j)"
proof -
  have w: "w32 (swap_endian x) = (word_rotl 8 (w32 x) AND 0x00ff00ff) OR (word_rotl 24 (w32 x) AND 0xff00ff00)"
    using w32_rotl [of 8 x] w32_rotl [of 24 x] by (simp add: swap_endian_def w32_or w32_and del: of_int_or_eq of_int_and_eq)
  have m: "\<forall>r\<in>set [0..<4]. \<forall>j\<in>set [0..<8]. bit (0x00ff00ff :: 32 word) (8 * r + j) = (r = 0 \<or> r = 2) \<and>
      bit (0xff00ff00 :: 32 word) (8 * r + j) = (r = 1 \<or> r = 3)"
    by code_simp
  have i: "\<forall>r\<in>set [0..<4]. \<forall>j\<in>set [0..<8]. (8 * r + j + (if r = 0 \<or> r = 2 then 24 else 8)) mod 32 = 24 - 8 * r + j" by code_simp
  have rj: "r \<in> set [0..<4]" "j \<in> set [0..<8]" using assms by simp_all
  have "r = 0 \<or> r = 1 \<or> r = 2 \<or> r = 3" using assms(1) by linarith
  then show ?thesis
    using bspec [OF bspec [OF m rj(1)] rj(2)] bspec [OF bspec [OF i rj(1)] rj(2)] assms unfolding w
    by (elim disjE) (simp_all add: bit_or_iff bit_and_iff bit_word_rotl_iff add.commute [of j])
qed

text \<open>One lane read from two words of the message.\<close>

lemma lane_of_words:
  assumes "is_bytes p" "w32 m0 = w32 (be_word p (2 * i))" "w32 m1 = w32 (be_word p (2 * i + 1))"
  shows "lane64 (swap_endian m1, swap_endian m0) = le_lane p i"
proof (rule bit_word_eqI)
  fix n assume "n < LENGTH(64)"
  then have n: "n < 64" by simp
  define r j where "r = n div 8 mod 4" and "j = n mod 8"
  have rj: "r < 4" "j < 8" by (simp_all add: r_def j_def)
  show "bit (lane64 (swap_endian m1, swap_endian m0)) n = bit (le_lane p i) n"
  proof (cases "n < 32")
    case True
    then have e: "n = 8 * r + j" "n div 8 = r" by (simp_all add: r_def j_def)
    have "bit (w32 (swap_endian m0)) n \<longleftrightarrow> bit (js_num p (4 * (2 * i) + r)) j"
      unfolding e(1) swap_bits [OF rj] by (rule bit_be_word [OF assms(1) rj assms(2)])
    then show ?thesis using n True bit_le_lane [OF assms(1) n, of i] by (simp add: bit_lane64 e(2) j_def [symmetric])
  next
    case False
    have e: "n - 32 = 8 * r + j" "n div 8 = 4 + r"
    proof -
      have "4 \<le> n div 8" "n div 8 < 8" using n False by simp_all
      then have "n div 8 = 4 \<or> n div 8 = 5 \<or> n div 8 = 6 \<or> n div 8 = 7" by linarith
      then have "n div 8 = 4 + r" unfolding r_def by (elim disjE) simp_all
      moreover have "n = 8 * (n div 8) + j" by (simp add: j_def)
      ultimately show "n - 32 = 8 * r + j" "n div 8 = 4 + r" by simp_all
    qed
    have "bit (w32 (swap_endian m1)) (n - 32) \<longleftrightarrow> bit (js_num p (4 * (2 * i + 1) + r)) j"
      unfolding e(1) swap_bits [OF rj] by (rule bit_be_word [OF assms(1) rj assms(3)])
    then show ?thesis using n False bit_le_lane [OF assms(1) n, of i] by (simp add: bit_lane64 e(2) j_def [symmetric] algebra_simps)
  qed
qed

lemma absorb_ok:
  assumes "is_bytes p" "length L = 25" "\<And>k. k < 34 \<Longrightarrow> w32 (js_num M (34 * b + k)) = w32 (be_word p (34 * b + k))"
  shows "map lane64 (absorb M (34 * b) 17 L) = k_absorb p b (map lane64 L) \<and> length (absorb M (34 * b) 17 L) = 25"
proof -
  define g where "g i = (swap_endian (js_num M (34 * b + 2 * i + 1)), swap_endian (js_num M (34 * b + 2 * i)))" for i
  have g: "lane64 (g i) = le_lane p (17 * b + i)" if "i < 17" for i
    unfolding g_def using assms(3) [of "2 * i"] assms(3) [of "2 * i + 1"] that
    by (intro lane_of_words [OF assms(1)]) (simp_all add: algebra_simps)
  have f: "length (fold (\<lambda>i L. L[i := lane_xor (L ! i) (g i)]) [0..<n] L) = 25 \<and>
      (\<forall>i<25. fold (\<lambda>i L. L[i := lane_xor (L ! i) (g i)]) [0..<n] L ! i = (if i < n then lane_xor (L ! i) (g i) else L ! i))" if "n \<le> 17" for n
    using that by (induction n) (auto simp: assms(2) nth_list_update less_Suc_eq)
  have a: "absorb M (34 * b) 17 L = fold (\<lambda>i L. L[i := lane_xor (L ! i) (g i)]) [0..<17] L" by (simp only: absorb_def g_def)
  have l: "length (absorb M (34 * b) 17 L) = 25" using f [of 17] by (simp only: a)
  have n: "absorb M (34 * b) 17 L ! i = (if i < 17 then lane_xor (L ! i) (g i) else L ! i)" if "i < 25" for i
    using f [of 17] that by (simp only: a)
  have "map lane64 (absorb M (34 * b) 17 L) = k_absorb p b (map lane64 L)"
    by (rule nth_equalityI) (simp_all add: l k_absorb_def n lane64_xor g assms(2))
  then show ?thesis using l by blast
qed

section \<open>Padding\<close>

lemma latin1_btw: "8 * (int i + int (length cs)) < 2 ^ 32 \<Longrightarrow> latin1_loop cs i ws = btw_loop cs (8 * int i) ws"
proof (induction cs i ws rule: latin1_loop.induct)
  case (2 c cs i ws)
  have "js_ushr (int i) 2 = js_ushr (8 * int i) 5" using "2.prems" by (simp add: js_ushr_div)
  moreover have "int i mod 4 * 8 = 8 * int i mod 32" using mult_mod_right [of 8 "int i" 4] by simp
  ultimately show ?case using 2 by (simp add: Let_def algebra_simps)
qed simp

lemma latin1_parse_ok: "length bs < 2 ^ 28 \<Longrightarrow> latin1_parse bs = \<lparr>wwords = bytesToWords bs, sigBytes = length bs\<rparr>"
  using latin1_btw [of 0 bs "[]"] by (simp add: latin1_parse_def bytesToWords_def)

lemma concat_empty:
  assumes "sigBytes d < 2 ^ 28" "length (wwords d) = (sigBytes d + 3) div 4"
  shows "concat_words \<lparr>wwords = [], sigBytes = 0\<rparr> d = \<lparr>wwords = wwords d, sigBytes = sigBytes d\<rparr>"
proof -
  have e: "js_ushr (int (4 * i)) 2 = int i" if "i < length (wwords d)" for i
    using that assms by (simp add: js_ushr_div)
  have "fold (\<lambda>i ws. js_set ws (nat (js_ushr (int (4 * i)) 2)) (js_num (wwords d) (nat (js_ushr (int (4 * i)) 2)))) [0..<n] [] = take n (wwords d)"
    if "n \<le> length (wwords d)" for n
    using that
  proof (induction n)
    case (Suc n)
    then show ?case using e [of n] by (simp add: js_set_def take_Suc_conv_app_nth)
  qed simp
  from this [of "length (wwords d)"] show ?thesis
    by (simp add: concat_words_def clamp_words_def Let_def assms(2) [symmetric])
qed

lemma k_pad_length:
  "length (k_pad bs) = 136 * (length bs div 136 + 1)"
proof -
  define m where "m = length bs mod 136"
  have m: "m < 136" "length bs = 136 * (length bs div 136) + m" by (simp_all add: m_def)
  show ?thesis
  proof (cases "136 - m = 1")
    case True
    then show ?thesis using m by (simp add: k_pad_def Let_def m_def [symmetric])
  next
    case False
    then have "136 - m = Suc (Suc (136 - m - 2))" using m(1) by simp
    then show ?thesis using m False by (simp add: k_pad_def Let_def m_def [symmetric])
  qed
qed

lemma k_pad_bytes: "is_bytes bs \<Longrightarrow> is_bytes (k_pad bs)"
  by (simp add: k_pad_def Let_def is_bytes_def digits_in_replicate0)

text \<open>Every byte is that of the message and the first one bit, the last byte has \<open>0x80\<close> added.\<close>

lemma k_pad_nth:
  assumes "i < length (k_pad bs)"
  shows "js_num (k_pad bs) i = js_num (bs @ [1]) i + (if Suc i = length (k_pad bs) then 0x80 else 0)"
proof -
  define m where "m = length bs mod 136"
  have m: "m < 136" "length bs = 136 * (length bs div 136) + m" by (simp_all add: m_def)
  have l: "length (k_pad bs) = 136 * (length bs div 136 + 1)" by (rule k_pad_length)
  show ?thesis
  proof (cases "136 - m = 1")
    case True
    then have p: "k_pad bs = bs @ [0x81]" by (simp add: k_pad_def Let_def m_def [symmetric])
    show ?thesis using assms unfolding p by (auto simp: js_num_def nth_append)
  next
    case False
    define z where "z = 136 - m - 2"
    have p: "k_pad bs = bs @ [1] @ replicate z 0 @ [0x80]" using False by (simp add: k_pad_def Let_def m_def [symmetric] z_def)
    have i: "i < length bs + 1 + z + 1" using assms unfolding p by simp
    consider "i < length bs" | "i = length bs" | "length bs < i" "i < length bs + 1 + z" | "i = length bs + 1 + z" using i by linarith
    then show ?thesis unfolding p
      by cases (auto simp: js_num_def nth_append nth_Cons')
  qed
qed

lemma or_0x80:
  assumes "0 \<le> A" "0 \<le> b" "b < 128"
  shows "(A * 256 + b) OR 0x80 = A * 256 + b + (0x80 :: int)"
proof -
  have b: "b OR 0x80 = b + 0x80" using or_eq_add [of b 7 1] assms(2,3) by (simp add: or.commute)
  have "A * 256 + b = (A * 2 ^ 8) OR b" using or_eq_add [of b 8 A] assms(2,3) by simp
  then have "(A * 256 + b) OR 0x80 = (A * 2 ^ 8) OR (b OR 0x80)" by (simp only: or.assoc)
  also have "\<dots> = A * 2 ^ 8 + (b + 0x80)" unfolding b using assms(2,3) by (intro or_eq_add) simp_all
  finally show ?thesis by simp
qed

lemma pad_words3_ok:
  assumes "is_bytes bs" "length bs < 2 ^ 28 - 136" "N = length bs div 136 + 1"
  defines "w \<equiv> pad_words3 1088 \<lparr>wwords = bytesToWords bs, sigBytes = length bs\<rparr>"
  shows "length (wwords w) = 34 * N" "sigBytes w = 136 * N"
    "\<And>k. k < 34 * N \<Longrightarrow> w32 (js_num (wwords w) k) = w32 (be_word (k_pad bs) k)"
proof -
  define L ws1 where "L = length bs" and "ws1 = bytesToWords (bs @ [1])"
  have L: "L < 2 ^ 28 - 136" "L = length bs" using assms(2) by (simp_all add: L_def)
  have i: "js_set (bytesToWords bs) (nat (js_ushr (int (L * 8)) 5))
      (js_or (js_num (bytesToWords bs) (nat (js_ushr (int (L * 8)) 5))) (js_shl 0x1 (24 - int (L * 8) mod 32))) = ws1"
    by (simp add: ws1_def bytesToWords_def btw_loop_append Let_def L_def js_and_mask_num mult.commute)
  have n: "(L * 8 + 1 + (1088 - 1)) div 1088 = N" using assms(3) by (simp add: L(2))
  have NL: "136 * N \<le> L + 136" using assms(3) by (simp add: L(2))
  then have Nb: "int (N * 1088) < 2 ^ 32" using L(1) by simp
  have k: "nat (js_ushr (int (N * 1088)) 5) - 1 = 34 * N - 1" using Nb by (subst js_ushr_div) simp_all
  have w: "wwords w = js_set ws1 (34 * N - 1) (js_or (js_num ws1 (34 * N - 1)) 0x80)"
    unfolding w_def pad_words3_def Let_def word_array.simps L(2) [symmetric] i n k ..
  have b1: "is_bytes (bs @ [1])" "length (bs @ [1]) < 2 ^ 29" using assms(1,2) by simp_all
  note u = bytesToWords_ok [OF b1, folded ws1_def]
  have N: "0 < N" "length bs + 1 \<le> 136 * N" using assms(3) by simp_all
  then have "length ws1 \<le> 34 * N" using u by simp
  then show l: "length (wwords w) = 34 * N" using N(1) by (simp add: w length_js_set)
  then show "sigBytes w = 136 * N" unfolding w_def pad_words3_def Let_def word_array.simps by simp
  fix k assume k: "k < 34 * N"
  have pl: "length (k_pad bs) = 136 * N" by (simp add: k_pad_length assms(3))
  have pb: "js_num (k_pad bs) i = js_num (bs @ [1]) i + (if Suc i = 136 * N then 0x80 else 0)" if "i < 136 * N" for i
    using k_pad_nth [of i bs] that by (simp add: pl)
  show "w32 (js_num (wwords w) k) = w32 (be_word (k_pad bs) k)"
  proof (cases "k = 34 * N - 1")
    case False
    have "be_word (k_pad bs) k = be_word (bs @ [1]) k" using k False by (simp add: be_word_def pb)
    then show ?thesis using u False by (simp add: w js_num_js_set) (metis w32_toUint32)
  next
    case True
    define x where "x = js_num (bs @ [1]) (4 * k + 3)"
    have q: "4 * k + 3 = 136 * N - 1" using True N(1) by simp
    have x: "0 \<le> x" "x < 128"
    proof -
      have "x = (if 136 * N = length bs + 1 then 1 else 0)" using N(2) unfolding x_def q by (auto simp: js_num_def nth_append)
      then show "0 \<le> x" "x < 128" by simp_all
    qed
    define A where "A = js_num (bs @ [1]) (4 * k) * 2 ^ 16 + js_num (bs @ [1]) (4 * k + 1) * 2 ^ 8 + js_num (bs @ [1]) (4 * k + 2)"
    have A: "0 \<le> A" "be_word (bs @ [1]) k = A * 256 + x"
      using is_bytes_nth [OF b1(1)] by (simp_all add: A_def x_def be_word_def)
    have p: "be_word (k_pad bs) k = A * 256 + x + 0x80" using True k N(1) by (simp add: be_word_def pb A_def x_def)
    have "toUint32 (js_or (js_num ws1 k) 0x80) = (A * 256 + x) OR toUint32 0x80" using u A(2) by (simp only: toUint32_or)
    also have "toUint32 0x80 = 0x80" by (simp add: toUint32_id)
    finally have "toUint32 (js_or (js_num ws1 k) 0x80) = be_word (k_pad bs) k" unfolding p using or_0x80 [OF A(1) x] by simp
    then show ?thesis using True by (simp add: w js_num_js_set del: of_int_or_eq) (metis w32_toUint32)
  qed
qed

section \<open>The hash\<close>

lemma process_ok:
  assumes "is_bytes p" "length p = 136 * N" "0 < N" "blockSize H = 34" "length (hstate H) = 25"
    "sigBytes (hdata H) = 136 * N" "\<And>k. k < 34 * N \<Longrightarrow> w32 (js_num (wwords (hdata H)) k) = w32 (be_word p k)"
  shows "map lane64 (hstate (process H)) = fold (\<lambda>b A. keccak_f (k_absorb p b A)) [0..<N] (map lane64 (hstate H))
    \<and> length (hstate (process H)) = 25 \<and> outputLength (process H) = outputLength H"
proof -
  define M where "M = wwords (hdata H)"
  define F where "F n = fold (\<lambda>b H. doProcessBlock M (b * blockSize H) H) [0..<n] H" for n
  have F: "map lane64 (hstate (F n)) = fold (\<lambda>b A. keccak_f (k_absorb p b A)) [0..<n] (map lane64 (hstate H))
      \<and> length (hstate (F n)) = 25 \<and> outputLength (F n) = outputLength H \<and> blockSize (F n) = 34" if "n \<le> N" for n
    using that
  proof (induction n)
    case (Suc n)
    then have IH: "map lane64 (hstate (F n)) = fold (\<lambda>b A. keccak_f (k_absorb p b A)) [0..<n] (map lane64 (hstate H))"
        "length (hstate (F n)) = 25" "outputLength (F n) = outputLength H" "blockSize (F n) = 34" "n < N"
      by simp_all
    have "w32 (js_num M (34 * n + k)) = w32 (be_word p (34 * n + k))" if "k < 34" for k
      unfolding M_def using that IH(5) by (intro assms(7)) linarith
    note a = absorb_ok [OF assms(1) IH(2) this]
    have "F (Suc n) = doProcessBlock M (34 * n) (F n)" using IH(4) by (simp add: F_def mult.commute)
    then show ?case using a permute_ok [of "absorb M (34 * n) 17 (hstate (F n))"] IH(1,3,4)
      by (simp add: doProcessBlock_def Let_def)
  qed (simp add: F_def assms(4,5))
  have "process H = (F N)\<lparr>hdata := \<lparr>wwords = drop (N * 34) M, sigBytes = 136 * N - min (N * 34 * 4) (136 * N)\<rparr>\<rparr>"
    using assms(3) by (simp add: process_def Let_def assms(4,6) M_def [symmetric] F_def)
  then show ?thesis using F [of N] by simp
qed

text \<open>The four words of output: each byte of the digest is one of the bytes of a lane.\<close>

lemma bit_lane_byte:
  assumes "j < 8" "r < 8"
  shows "bit (lane_bytes w ! r) j \<longleftrightarrow> bit w (8 * r + j)"
proof -
  have "(256 :: int) ^ r = 2 ^ (8 * r)" using power_mult [of "2 :: int" 8 r] by simp
  then show ?thesis using assms bit_part [of j "uint w" "8 * r"] by (simp add: lane_bytes_def bit_uint_iff)
qed

lemma lane_bytes_is_bytes: "is_bytes (lane_bytes w)"
  by (simp add: lane_bytes_def is_bytes_def digits_in_def)

lemma squeeze_byte:
  assumes "length st = 25" "i < 32"
  shows "js_and (js_ushr (js_num (wwords (squeeze 256 st)) (nat (js_ushr (int i) 2))) (24 - int i mod 4 * 8)) 0xff
    = lane_bytes (lane64 (st ! (i div 8))) ! (i mod 8)" (is "?b = _")
proof -
  define q r where "q = i div 8" and "r = i mod 4"
  have r: "r < 4" by (simp add: r_def)
  define half where "half = (if i mod 8 < 4 then snd (st ! q) else fst (st ! q))"
  have W: "wwords (squeeze 256 st) = [swap_endian (snd (st ! 0)), swap_endian (fst (st ! 0)), swap_endian (snd (st ! 1)), swap_endian (fst (st ! 1)),
      swap_endian (snd (st ! 2)), swap_endian (fst (st ! 2)), swap_endian (snd (st ! 3)), swap_endian (fst (st ! 3))]"
    by (simp add: squeeze_def Let_def upt_rec numeral_2_eq_2 numeral_3_eq_3)
  have u: "nat (js_ushr (int i) 2) = i div 4" using assms(2) by (subst js_ushr_div) (simp_all add: nat_div_distrib)
  have word: "js_num (wwords (squeeze 256 st)) (i div 4) = swap_endian half"
  proof -
    have "i div 4 < 8" using assms(2) by simp
    then have "i div 4 = 0 \<or> i div 4 = 1 \<or> i div 4 = 2 \<or> i div 4 = 3 \<or> i div 4 = 4 \<or> i div 4 = 5 \<or> i div 4 = 6 \<or> i div 4 = 7" by linarith
    moreover have "q = i div 4 div 2" by (simp add: q_def flip: div_mult2_eq)
    moreover have "i mod 8 < 4 \<longleftrightarrow> i div 4 mod 2 = 0" by presburger
    ultimately show ?thesis unfolding W half_def js_num_def by (elim disjE) simp_all
  qed
  have sh: "24 - int i mod 4 * 8 = int (24 - 8 * r)" "24 - 8 * r < 32" using r by (simp_all add: r_def zmod_int of_nat_diff)
  define s where "s = 3 - r"
  have s: "s < 4" "24 - 8 * r = 8 * s" "24 - 8 * s = 8 * r" using r by (simp_all add: s_def)
  have v: "?b = js_ushr (swap_endian half) (int (8 * s)) mod 256"
    unfolding u word sh(1) js_and_mask_num(7) s(2) ..
  have lb: "is_bytes (lane_bytes (lane64 (st ! q)))" by (rule lane_bytes_is_bytes)
  have byte: "0 \<le> lane_bytes w ! k \<and> lane_bytes w ! k < 256" if "k < 8" for w k
    using that by (simp add: lane_bytes_def)
  show ?thesis unfolding v
  proof (rule bit_eqI)
    fix j
    have k: "i mod 8 < 8" by simp
    have hi: "\<not> bit (x mod 256 :: int) j" if "8 \<le> j" for x
      using that bit_take_bit_iff [of 8 x j] by (simp add: take_bit_eq_mod)
    show "bit (js_ushr (swap_endian half) (int (8 * s)) mod 256) j = bit (lane_bytes (lane64 (st ! (i div 8))) ! (i mod 8)) j"
    proof (cases "j < 8")
      case False
      have "lane_bytes (lane64 (st ! (i div 8))) ! (i mod 8) mod 256 = lane_bytes (lane64 (st ! (i div 8))) ! (i mod 8)"
        using byte [OF k] by (simp add: mod_pos_pos_trivial)
      then show ?thesis using False hi [of "lane_bytes (lane64 (st ! (i div 8))) ! (i mod 8)"] hi by simp
    next
      case True
      have "bit (js_ushr (swap_endian half) (int (8 * s)) mod 256) j = bit (js_ushr (swap_endian half) (int (8 * s))) j"
        using bit_part [OF True, of _ 0] by simp
      also have "\<dots> = bit (w32 (js_ushr (swap_endian half) (int (8 * s)))) j" using True by (simp add: bit_w32)
      also have "\<dots> = bit (w32 (swap_endian half)) (8 * s + j)"
        using s(1) by (simp add: w32_ushr bit_drop_bit_eq nat_mult_distrib)
      also have "\<dots> = bit (w32 half) (8 * r + j)" using swap_bits [OF s(1) True] by (simp only: s(3))
      also have "\<dots> = bit (lane64 (st ! q)) (8 * (i mod 8) + j)"
      proof (cases "i mod 8 < 4")
        case True
        then have "i mod 8 = r" unfolding r_def by presburger
        then show ?thesis using True r \<open>j < 8\<close> by (simp add: half_def bit_lane64)
      next
        case False
        then have "i mod 8 = 4 + r" unfolding r_def by presburger
        then show ?thesis using False r \<open>j < 8\<close> by (simp add: half_def bit_lane64)
      qed
      also have "\<dots> = bit (lane_bytes (lane64 (st ! q)) ! (i mod 8)) j" using bit_lane_byte [OF True k] by simp
      finally show ?thesis by (simp only: q_def)
    qed
  qed
qed

lemma squeeze_hex:
  assumes "length st = 25"
  shows "hex_stringify (squeeze 256 st) = bytesToHex (concat (map lane_bytes (take 4 (map lane64 st))))"
proof -
  define bs where "bs = concat (map lane_bytes (take 4 (map lane64 st)))"
  have f: "length st = 25 \<Longrightarrow> take 4 (map lane64 st) = map (\<lambda>i. lane64 (st ! i)) [0, 1, 2, 3]"
    by (intro nth_equalityI) (auto simp: less_Suc_eq numeral_eq_Suc)
  have l8: "length (lane_bytes w) = 8" for w by (simp add: lane_bytes_def)
  have bs: "bs = lane_bytes (lane64 (st ! 0)) @ lane_bytes (lane64 (st ! 1)) @ lane_bytes (lane64 (st ! 2)) @ lane_bytes (lane64 (st ! 3))"
    unfolding bs_def f [OF assms] by simp
  have len: "length bs = 32" by (simp add: bs l8)
  have n: "bs ! i = lane_bytes (lane64 (st ! (i div 8))) ! (i mod 8)" if "i < 32" for i
  proof -
    have "i div 8 < 4" using that by simp
    then have "i div 8 = 0 \<or> i div 8 = 1 \<or> i div 8 = 2 \<or> i div 8 = 3" by linarith
    moreover have "i = 8 * (i div 8) + i mod 8" "i mod 8 < 8" by simp_all
    ultimately obtain q r where q: "i = 8 * q + r" "r < 8" "i div 8 = q" "i mod 8 = r" "q = 0 \<or> q = 1 \<or> q = 2 \<or> q = 3" by metis
    then show ?thesis unfolding q(3,4) unfolding bs q(1) by (elim disjE) (simp_all add: nth_append l8)
  qed
  have m: "map ((!) bs) [0..<32] = bs" using map_nth [of bs] by (simp only: len)
  have sb: "sigBytes (squeeze 256 st) = 32" by (simp add: squeeze_def Let_def)
  have "hex_stringify (squeeze 256 st) = concat (map (\<lambda>i. num_str 16 (js_ushr (bs ! i) 4) @ num_str 16 (js_and (bs ! i) 0xF)) [0..<32])"
    unfolding hex_stringify_def sb Let_def
    by (rule arg_cong [where f = concat], rule map_cong [OF refl]) (simp add: squeeze_byte [OF assms] n)
  also have "\<dots> = bytesToHex (map ((!) bs) [0..<32])" unfolding bytesToHex_def by (simp add: comp_def)
  finally show ?thesis unfolding m unfolding bs_def .
qed

lemma sha3_bytes_ok:
  assumes "is_bytes bs" "length bs < 2 ^ 28 - 136"
  shows "hex_stringify (doFinalize (append_data (latin1_parse bs) (hasher_init 256))) = bytesToHex (keccak256 bs)"
proof -
  define N where "N = length bs div 136 + 1"
  define w where "w = pad_words3 1088 \<lparr>wwords = bytesToWords bs, sigBytes = length bs\<rparr>"
  note p = pad_words3_ok [OF assms N_def, folded w_def]
  have b: "length bs < 2 ^ 28" "length bs < 2 ^ 29" using assms(2) by simp_all
  have c: "concat_words \<lparr>wwords = [], sigBytes = 0\<rparr> (latin1_parse bs) = \<lparr>wwords = bytesToWords bs, sigBytes = length bs\<rparr>"
    unfolding latin1_parse_ok [OF b(1)] using bytesToWords_ok [OF assms(1) b(2)] b(1) by (subst concat_empty) simp_all
  define H where "H = (append_data (latin1_parse bs) (hasher_init 256))\<lparr>hdata := w\<rparr>"
  have H: "blockSize H = 34" "outputLength H = 256" "hstate H = replicate 25 zero_lane" "hdata H = w"
    by (simp_all add: H_def append_data_def hasher_init_def)
  have "doFinalize (append_data (latin1_parse bs) (hasher_init 256)) = squeeze 256 (hstate (process H))
      \<and> map lane64 (hstate (process H)) = fold (\<lambda>b A. keccak_f (k_absorb (k_pad bs) b A)) [0..<N] (replicate 25 0)
      \<and> length (hstate (process H)) = 25"
  proof -
    have i: "doFinalize (append_data (latin1_parse bs) (hasher_init 256)) = squeeze (outputLength (process H)) (hstate (process H))"
      by (simp add: doFinalize_def Let_def H_def w_def append_data_def hasher_init_def c)
    have "map lane64 (hstate (process H)) = fold (\<lambda>b A. keccak_f (k_absorb (k_pad bs) b A)) [0..<N] (map lane64 (hstate H))
        \<and> length (hstate (process H)) = 25 \<and> outputLength (process H) = outputLength H"
      using p by (intro process_ok k_pad_bytes assms(1)) (simp_all add: H k_pad_length N_def)
    then show ?thesis unfolding i H(2,3) by simp
  qed
  moreover have "length (k_pad bs) div 136 = N" by (simp add: k_pad_length N_def)
  ultimately show ?thesis by (simp add: squeeze_hex keccak256_def Let_def)
qed

lemma append_empty: "append_data (latin1_parse []) (hasher_init 256) = hasher_init 256"
  by code_simp

lemma sha3_of_bytes:
  assumes "utf8encode s = Inr bs" "is_bytes bs" "length bs < 2 ^ 28 - 136"
  shows "sha3 s = Inr (bytesToHex (keccak256 bs))"
proof -
  have h: "hex_stringify (doFinalize (append_data (latin1_parse bs) (hasher_init 256))) = bytesToHex (keccak256 bs)"
    by (rule sha3_bytes_ok [OF assms(2,3)])
  show ?thesis
  proof (cases "s = []")
    case True
    then have "bs = []" using assms(1) by (simp add: utf8encode_def)
    then show ?thesis using h True by (simp add: sha3_def finalize_def append_empty)
  qed (simp add: sha3_def finalize_def utf8_parse_def assms(1) h)
qed

lemma keccak256_bytes: "is_bytes (keccak256 bs) \<and> length (keccak256 bs) = 32"
proof -
  have l: "length (fold (\<lambda>b A. keccak_f (k_absorb p b A)) bs A) = 25" if "length A = 25" for p bs A
  proof -
    have r: "length (fold k_round is B) = 25" if "length B = 25" for "is" and B
      using that by (induction "is" arbitrary: B) (simp_all add: k_round_def k_chi_def Let_def)
    show ?thesis using that by (induction bs arbitrary: A) (simp_all add: keccak_f_def r k_absorb_def)
  qed
  define A where "A = fold (\<lambda>b A. keccak_f (k_absorb (k_pad bs) b A)) [0..<length (k_pad bs) div 136] (replicate 25 (0 :: 64 word))"
  have k: "keccak256 bs = concat (map lane_bytes (take 4 A))" by (simp add: keccak256_def A_def Let_def)
  have "length A = 25" unfolding A_def by (rule l) simp
  moreover have "is_bytes (concat (map lane_bytes ws)) \<and> length (concat (map lane_bytes ws)) = 8 * length ws" for ws
    using lane_bytes_is_bytes by (induction ws) (auto simp: is_bytes_def digits_in_def, simp add: lane_bytes_def)
  ultimately show ?thesis unfolding k by simp
qed

lemma utf8_length:
  "is_units s \<Longrightarrow> length (concat (map utf8_spec (ucs2decode s))) \<le> 3 * length s"
proof (induction s rule: ucs2decode.induct)
  case (2 v)
  then show ?case by (simp add: is_units_def utf8_spec_def)
next
  case (3 v e s)
  have l: "length (utf8_spec c) \<le> 4" "c < 65536 \<Longrightarrow> length (utf8_spec c) \<le> 3" for c by (simp_all add: utf8_spec_def)
  have u: "is_units s" "is_units (e # s)" "v < 65536" using "3.prems" by (simp_all add: is_units_def)
  show ?case
  proof (cases "(v \<ge> 0xD800 \<and> v \<le> 0xDBFF) \<and> js_and e 0xFC00 = 0xDC00")
    case True
    then show ?thesis using "3.IH"(1) [OF _ _ u(1)] l(1) [of "js_shl (js_and v 0x3FF) 10 + js_and e 0x3FF + 0x10000"] by simp
  next
    case False
    then have "ucs2decode (v # e # s) = v # ucs2decode (e # s)" by auto
    moreover have "length (concat (map utf8_spec (ucs2decode (e # s)))) \<le> 3 * length (e # s)"
      using "3.IH"(2) [OF _ _ u(2)] "3.IH"(3) [OF _ u(2)] False by blast
    ultimately show ?thesis using l(2) [OF u(3)] by simp
  qed
qed simp

text \<open>
  C38: The hash of the web3 bundle is Keccak-256: on a text of less than \<open>2 ^ 26\<close> units, whatever its characters, the
  code's lanes of two 32-bit halves, its generated tables and its padding of words give the digest that the sponge
  on machine words of 64 bits with the published tables gives for the UTF-8 bytes of the text, written in
  hexadecimal. On a text with an unpaired surrogate the code raises.
\<close>

theorem sha3_keccak:
  assumes "is_units s" "length s < 2 ^ 26"
  shows "sha3 s =
    (if list_all scalar (ucs2decode s)
     then Inr (bytesToHex (keccak256 (concat (map utf8_spec (ucs2decode s))))) else Inl ''URI malformed'')"
proof (cases "list_all scalar (ucs2decode s)")
  case True
  define bs where "bs = concat (map utf8_spec (ucs2decode s))"
  have e: "utf8encode s = Inr bs" using True utf8encode_iff [OF assms(1)] by (simp add: bs_def)
  have b: "is_bytes bs" unfolding bs_def by (rule utf8_spec_list_bytes [OF True])
  have "length bs < 2 ^ 28 - 136" using utf8_length [OF assms(1)] assms(2) unfolding bs_def by simp
  then have "sha3 s = Inr (bytesToHex (keccak256 bs))" by (rule sha3_of_bytes [OF e b])
  then show ?thesis using True by (simp add: bs_def)
next
  case False
  then have "utf8encode s \<noteq> Inr b" for b using utf8encode_iff [OF assms(1)] by simp
  then obtain e where "utf8encode s = Inl e" by (cases "utf8encode s") auto
  moreover have "s \<noteq> []" using False by auto
  ultimately show ?thesis using False by (simp add: sha3_def finalize_def utf8_parse_def)
qed

text \<open>The text is an e with an acute accent, two bytes; the second one is half of a pair of surrogates.\<close>

theorem sha3_keccak_witness:
  "sha3 [0xE9] = Inr (bytesToHex (keccak256 [0xC3, 0xA9])) \<and> sha3 [0xD83D] = Inl ''URI malformed''"
proof -
  have u: "is_units [0xE9]" "is_units [0xD83D]" by (simp_all add: is_units_def)
  have e: "list_all scalar (ucs2decode [0xE9])" "concat (map utf8_spec (ucs2decode [0xE9])) = [0xC3, 0xA9]"
    "\<not> list_all scalar (ucs2decode [0xD83D])"
    by code_simp+
  have "sha3 [0xE9] = Inr (bytesToHex (keccak256 [0xC3, 0xA9]))"
    using sha3_keccak [OF u(1)] by (simp only: e if_True) simp
  moreover have "sha3 [0xD83D] = Inl ''URI malformed''" using sha3_keccak [OF u(2)] by (simp only: e if_False) simp
  ultimately show ?thesis by blast
qed

end
