(* ===== verification/Web3Utils.thy ===== *)
theory Web3Utils
  imports Sha3
begin

text \<open>
  The module \<open>utils.js\<close> of the web3 bundle (\<open>app/javascripts/web3.js\<close>), its functions on text: padding, the
  hexadecimal forms of texts, the names of contract functions, units of ether, and addresses with their checksum
  in the case of the letters. Hexadecimal text and names are \<open>string\<close>s; a text in any script is the list of its
  UTF-16 code units. Letters are changed in case as those of ASCII, which are the ones in an address.
\<close>

section \<open>Padding\<close>

text \<open>\<open>new Array(n).join(s)\<close> is \<open>s\<close> written \<open>n - 1\<close> times; a negative length raises. An empty sign counts as none.\<close>

definition pad_text :: "string \<Rightarrow> int \<Rightarrow> string option \<Rightarrow> string result" where
  "pad_text s chars sign =
     (let n = chars - int (length s) + 1
      in if n < 0 then Inl ''Invalid array length''
         else Inr (concat (replicate (nat n - 1) (case sign of None \<Rightarrow> ''0'' | Some z \<Rightarrow> if z = [] then ''0'' else z))))"

definition padLeft :: "string \<Rightarrow> int \<Rightarrow> string option \<Rightarrow> string result" where
  "padLeft s chars sign = bind_result (pad_text s chars sign) (\<lambda>p. Inr (p @ s))"

definition padRight :: "string \<Rightarrow> int \<Rightarrow> string option \<Rightarrow> string result" where
  "padRight s chars sign = bind_result (pad_text s chars sign) (\<lambda>p. Inr (s @ p))"

section \<open>Hexadecimal forms of a text\<close>

text \<open>\<open>String.fromCharCode\<close>; \<open>NaN\<close>, which \<open>parseInt\<close> gives for what is no number, counts as 0.\<close>

definition fromCharCode :: "int option \<Rightarrow> int" where
  "fromCharCode code = (case code of None \<Rightarrow> 0 | Some n \<Rightarrow> n mod 65536)"

fun utf8_loop :: "string \<Rightarrow> int list" where
  "utf8_loop [] = []"
| "utf8_loop (c # cs) =
     (let code = js_parseInt (take 2 (c # cs)) 16
      in if code = Some 0 then [] else fromCharCode code # utf8_loop (drop 1 cs))"

definition toUtf8 :: "string \<Rightarrow> int list result" where
  "toUtf8 hex = utf8decode (utf8_loop (if take 2 hex = ''0x'' then drop 2 hex else hex))"

fun ascii_loop :: "string \<Rightarrow> int list" where
  "ascii_loop [] = []"
| "ascii_loop (c # cs) = fromCharCode (js_parseInt (take 2 (c # cs)) 16) # ascii_loop (drop 1 cs)"

definition toAscii :: "string \<Rightarrow> int list" where
  "toAscii hex = ascii_loop (if take 2 hex = ''0x'' then drop 2 hex else hex)"

definition hex_code :: "int \<Rightarrow> string" where
  "hex_code code = (let n = num_str 16 code in if length n < 2 then CHR ''0'' # n else n)"

fun fromUtf8_loop :: "bool \<Rightarrow> int list \<Rightarrow> string" where
  "fromUtf8_loop allowZero [] = []"
| "fromUtf8_loop allowZero (code # str) =
     (if code = 0 then if allowZero then ''00'' @ fromUtf8_loop allowZero str else []
      else hex_code code @ fromUtf8_loop allowZero str)"

definition fromUtf8 :: "int list \<Rightarrow> bool \<Rightarrow> string result" where
  "fromUtf8 str allowZero = bind_result (utf8encode str) (\<lambda>str. Inr (''0x'' @ fromUtf8_loop allowZero str))"

definition fromAscii :: "int list \<Rightarrow> string" where
  "fromAscii str = ''0x'' @ concat (map hex_code str)"

section \<open>Names of functions\<close>

text \<open>The interface of a function: its name, and the types of its inputs where the field is there.\<close>

record abi_entry =
  abi_name :: string
  input_types :: "string list option"

fun join_comma :: "string list \<Rightarrow> string" where
  "join_comma [] = []"
| "join_comma [t] = t"
| "join_comma (t # ts) = t @ CHR '','' # join_comma ts"

definition transformToFullName :: "abi_entry \<Rightarrow> string result" where
  "transformToFullName json =
     (if index_of (CHR ''('') (abi_name json) \<noteq> -1 then Inr (abi_name json)
      else case input_types json of
          None \<Rightarrow> Inl ''Cannot read property map of undefined''
        | Some types \<Rightarrow> let typeName = join_comma types in Inr (abi_name json @ ''('' @ typeName @ '')''))"

definition extractDisplayName :: "string \<Rightarrow> string" where
  "extractDisplayName name =
     (let stBracket = index_of (CHR ''('') name; endBracket = index_of (CHR '')'') name
      in if stBracket \<noteq> -1 \<and> endBracket \<noteq> -1 then take (nat stBracket) name else name)"

text \<open>\<open>replace(' ', '')\<close> takes out the first blank.\<close>

definition remove_blank :: "string \<Rightarrow> string" where
  "remove_blank s = takeWhile (\<lambda>c. c \<noteq> CHR '' '') s @ drop 1 (dropWhile (\<lambda>c. c \<noteq> CHR '' '') s)"

definition extractTypeName :: "string \<Rightarrow> string" where
  "extractTypeName name =
     (let stBracket = index_of (CHR ''('') name; endBracket = index_of (CHR '')'') name
      in if stBracket \<noteq> -1 \<and> endBracket \<noteq> -1
         then remove_blank (take (nat (endBracket - stBracket - 1)) (drop (nat (stBracket + 1)) name))
         else [])"

section \<open>Units\<close>

definition lower :: "string \<Rightarrow> string" where
  "lower s = map to_lower_char s"

definition unitMap :: "(string \<times> string) list" where
  "unitMap =
     [(''noether'', ''0''), (''wei'', ''1''), (''kwei'', ''1000''), (''Kwei'', ''1000''), (''babbage'', ''1000''),
      (''femtoether'', ''1000''), (''mwei'', ''1000000''), (''Mwei'', ''1000000''), (''lovelace'', ''1000000''),
      (''picoether'', ''1000000''), (''gwei'', ''1000000000''), (''Gwei'', ''1000000000''), (''shannon'', ''1000000000''),
      (''nanoether'', ''1000000000''), (''nano'', ''1000000000''), (''szabo'', ''1000000000000''),
      (''microether'', ''1000000000000''), (''micro'', ''1000000000000''), (''finney'', ''1000000000000000''),
      (''milliether'', ''1000000000000000''), (''milli'', ''1000000000000000''), (''ether'', ''1000000000000000000''),
      (''kether'', ''1000000000000000000000''), (''grand'', ''1000000000000000000000''),
      (''mether'', ''1000000000000000000000000''), (''gether'', ''1000000000000000000000000000''),
      (''tether'', ''1000000000000000000000000000000'')]"

text \<open>
  What the \<open>BigNumber\<close> is made from: the text in the table, or the member of \<open>Object.prototype\<close> that the look-up
  finds under one of the two names without a capital letter.
\<close>

datatype unit_value = UnitText string | ObjectMember string

definition getValueOfUnit :: "string option \<Rightarrow> unit_value result" where
  "getValueOfUnit unit =
     (let unit = (case unit of None \<Rightarrow> ''ether'' | Some u \<Rightarrow> if u = [] then ''ether'' else lower u)
      in case map_of unitMap unit of
           Some t \<Rightarrow> Inr (UnitText t)
         | None \<Rightarrow> if unit \<in> {''constructor'', ''__proto__''} then Inr (ObjectMember unit)
             else Inl ''This unit doesn't exists, please use the one of the following units'')"

section \<open>Addresses\<close>

definition lower_hex :: "char \<Rightarrow> bool" where
  "lower_hex c \<longleftrightarrow> c \<in> set ''0123456789abcdef''"

definition upper_hexdigit :: "char \<Rightarrow> bool" where
  "upper_hexdigit c \<longleftrightarrow> c \<in> set ''0123456789ABCDEF''"

definition any_hex :: "char \<Rightarrow> bool" where
  "any_hex c \<longleftrightarrow> lower_hex c \<or> upper_hexdigit c"

text \<open>The expression \<open>^(0x)?[digits]{n}$\<close>; with the flag \<open>i\<close> the prefix may have a capital letter too.\<close>

definition hex_form :: "string list \<Rightarrow> (char \<Rightarrow> bool) \<Rightarrow> nat \<Rightarrow> string \<Rightarrow> bool" where
  "hex_form prefixes digit n s \<longleftrightarrow>
     list_ex (\<lambda>p. take (length p) s = p \<and> length s = length p + n \<and> list_all digit (drop (length p) s)) prefixes"

definition isStrictAddress :: "string \<Rightarrow> bool" where
  "isStrictAddress address = hex_form [''0x'', ''0X''] any_hex 40 address"

text \<open>\<open>replace('0x', '')\<close> takes out the first occurrence, wherever it is.\<close>

fun remove_0x :: "string \<Rightarrow> string" where
  "remove_0x (a # b # s) = (if a = CHR ''0'' \<and> b = CHR ''x'' then s else a # remove_0x (b # s))"
| "remove_0x s = s"

definition units_of :: "string \<Rightarrow> int list" where
  "units_of s = map of_char s"

definition above7 :: "string \<Rightarrow> nat \<Rightarrow> bool" where
  "above7 addressHash i =
     (i < length addressHash \<and> (case js_parseInt [addressHash ! i] 16 of None \<Rightarrow> False | Some d \<Rightarrow> d > 7))"

text \<open>The digits of the hash are numbers, so that one of the two tests reads \<open>address[i]\<close>, and raises past its end.\<close>

fun check_case :: "string \<Rightarrow> string \<Rightarrow> nat list \<Rightarrow> bool result" where
  "check_case addressHash address [] = Inr True"
| "check_case addressHash address (i # is) =
     (if i < length address
      then let c = address ! i
        in if (above7 addressHash i \<and> to_upper_char c \<noteq> c) \<or> (\<not> above7 addressHash i \<and> to_lower_char c \<noteq> c) then Inr False
           else check_case addressHash address is
      else Inl ''Cannot read property of undefined'')"

definition isChecksumAddress :: "string \<Rightarrow> bool result" where
  "isChecksumAddress address0 =
     (let address = remove_0x address0
      in bind_result (sha3 (units_of (lower address))) (\<lambda>addressHash. check_case addressHash address [0..<40]))"

definition isAddress :: "string \<Rightarrow> bool result" where
  "isAddress address =
     (if \<not> hex_form ['''', ''0x'', ''0X''] any_hex 40 address then Inr False
      else if hex_form ['''', ''0x''] lower_hex 40 address \<or> hex_form ['''', ''0x''] upper_hexdigit 40 address then Inr True
      else isChecksumAddress address)"

text \<open>\<open>None\<close> is \<open>undefined\<close>.\<close>

definition toChecksumAddress :: "string option \<Rightarrow> string result" where
  "toChecksumAddress address0 =
     (case address0 of None \<Rightarrow> Inr []
      | Some address0 \<Rightarrow>
          let address = remove_0x (lower address0)
          in bind_result (sha3 (units_of address)) (\<lambda>addressHash.
               Inr (''0x'' @ map (\<lambda>i. if above7 addressHash i then to_upper_char (address ! i) else address ! i) [0..<length address])))"

definition isBloom :: "string \<Rightarrow> bool" where
  "isBloom bloom =
     (if \<not> hex_form ['''', ''0x'', ''0X''] any_hex 512 bloom then False
      else hex_form ['''', ''0x''] lower_hex 512 bloom \<or> hex_form ['''', ''0x''] upper_hexdigit 512 bloom)"

definition isTopic :: "string \<Rightarrow> bool" where
  "isTopic topic =
     (if \<not> hex_form ['''', ''0x'', ''0X''] any_hex 64 topic then False
      else hex_form ['''', ''0x''] lower_hex 64 topic \<or> hex_form ['''', ''0x''] upper_hexdigit 64 topic)"

section \<open>The checksum of an address\<close>

lemma char_code: "0 \<le> (of_char c :: int)" "of_char c < (256 :: int)"
proof -
  have "(of_char c :: int) = int (of_char c)" by (simp only: of_nat_of_char)
  moreover have "of_char c < (256 :: nat)" by (rule nat_of_char_less_256)
  ultimately show "0 \<le> (of_char c :: int)" "of_char c < (256 :: int)" by linarith+
qed

lemma sha3_text:
  assumes "length s < 2 ^ 26" "\<forall>c\<in>set s. of_char c < (128 :: int)"
  shows "sha3 (units_of s) = Inr (bytesToHex (keccak256 (units_of s)))"
proof -
  have u: "is_bytes (units_of s)" unfolding units_of_def is_bytes_def digits_in_def by (auto simp: char_code)
  then have "is_units (units_of s)" "list_all scalar (units_of s)"
    by (auto simp: is_units_def is_bytes_def digits_in_def scalar_def list_all_iff)
  moreover have "concat (map utf8_spec (units_of s)) = units_of s"
    using assms(2) by (induction s) (simp_all add: units_of_def utf8_spec_def)
  ultimately have "utf8encode (units_of s) = Inr (units_of s)"
    using utf8encode_iff [of "units_of s"] ucs2decode_bytes [OF u] by simp
  then show ?thesis by (rule sha3_of_bytes [OF _ u]) (use assms(1) in \<open>simp add: units_of_def\<close>)
qed

text \<open>The digits of the hash, four bits each.\<close>

definition nibble :: "int list \<Rightarrow> nat \<Rightarrow> int" where
  "nibble bs i = (if even i then bs ! (i div 2) div 16 else bs ! (i div 2) mod 16)"

lemma above7_hex:
  assumes "is_bytes bs" "i < 2 * length bs"
  shows "above7 (bytesToHex bs) i \<longleftrightarrow> 8 \<le> nibble bs i"
  using assms
proof (induction bs arbitrary: i)
  case (Cons b bs)
  have b: "b \<in> set [0..255]" "is_bytes bs" using Cons.prems(1) by (simp_all add: is_bytes_tail)
  have "\<forall>b\<in>set [0..255]. case bytesToHex [b] of [c, d] \<Rightarrow> js_parseInt [c] 16 = Some (b div 16) \<and> js_parseInt [d] 16 = Some (b mod 16) | _ \<Rightarrow> False"
    by code_simp
  from bspec [OF this b(1)] obtain c d where cd: "bytesToHex [b] = [c, d]" "js_parseInt [c] 16 = Some (b div 16)" "js_parseInt [d] 16 = Some (b mod 16)"
    by (auto split: list.splits)
  have h: "bytesToHex (b # bs) = c # d # bytesToHex bs" using cd(1) by (simp add: bytesToHex_def)
  consider "i = 0" | "i = 1" | k where "i = Suc (Suc k)" by (metis One_nat_def not0_implies_Suc)
  then show ?case
  proof cases
    case (3 k)
    then have "k < 2 * length bs" using Cons.prems(2) by simp
    moreover have "nibble (b # bs) i = nibble bs k" by (simp add: 3 nibble_def)
    ultimately show ?thesis using Cons.IH [OF b(2), of k] by (simp add: 3 h above7_def)
  qed (use cd in \<open>auto simp: h above7_def nibble_def\<close>)
qed simp

lemma hex_digit_cases:
  assumes "any_hex c"
  shows "to_lower_char c \<noteq> CHR ''x''" "c \<noteq> CHR ''x''" "to_lower_char (to_lower_char c) = to_lower_char c"
    "to_upper_char (to_lower_char c) = to_upper_char c" "to_lower_char (to_upper_char c) = to_lower_char c"
    "lower_hex c \<longleftrightarrow> to_lower_char c = c" "upper_hexdigit c \<longleftrightarrow> to_upper_char c = c" "any_hex (to_lower_char c)" "any_hex (to_upper_char c)"
proof -
  have "\<forall>c\<in>set ''0123456789abcdefABCDEF''. to_lower_char c \<noteq> CHR ''x'' \<and> c \<noteq> CHR ''x'' \<and> to_lower_char (to_lower_char c) = to_lower_char c \<and>
      to_upper_char (to_lower_char c) = to_upper_char c \<and> to_lower_char (to_upper_char c) = to_lower_char c \<and>
      (lower_hex c \<longleftrightarrow> to_lower_char c = c) \<and> (upper_hexdigit c \<longleftrightarrow> to_upper_char c = c) \<and> any_hex (to_lower_char c) \<and> any_hex (to_upper_char c)"
    by code_simp
  moreover have "c \<in> set ''0123456789abcdefABCDEF''" using assms by (auto simp: any_hex_def lower_hex_def upper_hexdigit_def)
  ultimately show "to_lower_char c \<noteq> CHR ''x''" "c \<noteq> CHR ''x''" "to_lower_char (to_lower_char c) = to_lower_char c"
    "to_upper_char (to_lower_char c) = to_upper_char c" "to_lower_char (to_upper_char c) = to_lower_char c"
    "lower_hex c \<longleftrightarrow> to_lower_char c = c" "upper_hexdigit c \<longleftrightarrow> to_upper_char c = c" "any_hex (to_lower_char c)" "any_hex (to_upper_char c)"
    by blast+
qed

lemma remove_0x_none: "CHR ''x'' \<notin> set s \<Longrightarrow> remove_0x s = s"
  by (induction s rule: remove_0x.induct) auto

lemma remove_0x_prefix: "p = [] \<or> p = ''0x'' \<Longrightarrow> CHR ''x'' \<notin> set s \<Longrightarrow> remove_0x (p @ s) = s"
  by (auto simp: remove_0x_none)

lemma lower_prefix: "p = [] \<or> p = ''0x'' \<Longrightarrow> lower (p @ s) = p @ lower s"
  by (auto simp: lower_def to_lower_char_def)

definition case_form :: "string \<Rightarrow> string \<Rightarrow> string" where
  "case_form h e = map (\<lambda>i. if above7 h i then to_upper_char (e ! i) else e ! i) [0..<length e]"

lemma case_form_lower:
  assumes "list_all any_hex d"
  shows "lower (case_form h (lower d)) = lower d \<and> length (case_form h (lower d)) = length d \<and> list_all any_hex (case_form h (lower d))"
proof -
  have "any_hex (d ! i)" if "i < length d" for i using assms that by (simp add: list_all_length)
  note c = hex_digit_cases [OF this]
  have "lower (case_form h (lower d)) = lower d"
    by (rule nth_equalityI) (auto simp: lower_def case_form_def c hex_digit_cases(3,5) [OF c(8)])
  then show ?thesis by (auto simp: case_form_def lower_def list_all_length c hex_digit_cases(9) [OF c(8)])
qed

lemma check_case_ok:
  assumes "list_all any_hex d" "\<forall>i\<in>set is. i < length d"
  shows "check_case h d is = Inr (\<forall>i\<in>set is. d ! i = case_form h (lower d) ! i)"
  using assms(2)
proof (induction "is")
  case (Cons i "is")
  then have i: "i < length d" by simp
  then have "any_hex (d ! i)" using assms(1) by (simp add: list_all_length)
  note c = hex_digit_cases [OF this]
  have "d ! i = case_form h (lower d) ! i \<longleftrightarrow> (if above7 h i then to_upper_char (d ! i) = d ! i else to_lower_char (d ! i) = d ! i)"
    using i by (auto simp: case_form_def lower_def c)
  then show ?case using Cons i by (auto simp: Let_def)
qed simp

lemma digits_of_case:
  assumes "list_all any_hex d"
  shows "list_all lower_hex d \<longleftrightarrow> d = lower d" "list_all upper_hexdigit d \<longleftrightarrow> d = upper d"
  using assms by (auto simp: list_all_length lower_def upper_def list_eq_iff_nth_eq hex_digit_cases(6,7))

lemma hex_form_prefix:
  assumes "p = [] \<or> p = ''0x''" "list_all any_hex d"
  shows "hex_form ['''', ''0x''] lower_hex (length d) (p @ d) \<longleftrightarrow> list_all lower_hex d"
    "hex_form ['''', ''0x''] upper_hexdigit (length d) (p @ d) \<longleftrightarrow> list_all upper_hexdigit d"
    "hex_form ['''', ''0x'', ''0X''] any_hex (length d) (p @ d)"
  using assms by (auto simp: hex_form_def)

text \<open>The standard's writing of the digits: a letter is a capital where the digit of the hash is 8 or more.\<close>

definition eip55 :: "string \<Rightarrow> string" where
  "eip55 d = map (\<lambda>i. if 8 \<le> nibble (keccak256 (units_of (lower d))) i then to_upper_char (d ! i) else to_lower_char (d ! i)) [0..<length d]"

text \<open>
  C39: A checksum address is the standard's and is the only one of its kind: for forty hexadecimal digits, with or
  without the prefix \<open>0x\<close> and whatever the case of their letters, \<open>toChecksumAddress\<close> gives the prefix and the same
  digits with a capital letter exactly where the digit of the Keccak hash of the small ones is at least 8, and gives
  the same when it is applied to its result; \<open>isChecksumAddress\<close> holds of exactly that writing of the digits, and
  \<open>isAddress\<close> of it and of the ones all in one case.
\<close>

theorem checksum_address:
  assumes "list_all any_hex d" "length d = 40" "p = [] \<or> p = ''0x''"
  shows "toChecksumAddress (Some (p @ d)) = Inr (''0x'' @ eip55 d) \<and> lower (eip55 d) = lower d \<and>
    toChecksumAddress (Some (''0x'' @ eip55 d)) = Inr (''0x'' @ eip55 d) \<and>
    isChecksumAddress (p @ d) = Inr (d = eip55 d) \<and> isAddress (p @ d) = Inr (d = eip55 d \<or> d = lower d \<or> d = upper d)"
proof -
  define h where "h = bytesToHex (keccak256 (units_of (lower d)))"
  have "of_char (to_lower_char c) < (128 :: int)" if "any_hex c" for c
  proof -
    have "\<forall>c\<in>set ''0123456789abcdefABCDEF''. of_char (to_lower_char c) < (128 :: int)" by code_simp
    then show ?thesis using that by (auto simp: any_hex_def lower_hex_def upper_hexdigit_def)
  qed
  then have h: "sha3 (units_of (lower d)) = Inr h"
    unfolding h_def using assms(1,2) by (intro sha3_text) (auto simp: lower_def list_all_iff)
  define a where "a = case_form h (lower d)"
  have ea: "eip55 d = a"
  proof -
    have "above7 h i \<longleftrightarrow> 8 \<le> nibble (keccak256 (units_of (lower d))) i" if "i < 40" for i
      unfolding h_def using that keccak256_bytes [of "units_of (lower d)"] by (intro above7_hex) simp_all
    moreover have "to_upper_char (lower d ! i) = to_upper_char (d ! i)" if "i < 40" for i
      using that assms(1,2) by (simp add: lower_def list_all_length hex_digit_cases(4))
    ultimately show ?thesis using assms(2) by (simp add: eip55_def a_def case_form_def lower_def)
  qed
  have a: "lower a = lower d" "length a = 40" "list_all any_hex a" using case_form_lower [OF assms(1)] assms(2) by (simp_all add: a_def)
  have x: "CHR ''x'' \<notin> set e" "CHR ''x'' \<notin> set (lower e)" if "list_all any_hex e" for e
    using that hex_digit_cases(1,2) by (fastforce simp: list_all_iff lower_def)+
  have to: "toChecksumAddress (Some (q @ e)) = Inr (''0x'' @ a)" if "q = [] \<or> q = ''0x''" "list_all any_hex e" "lower e = lower d" for q e
    by (simp only: toChecksumAddress_def option.case Let_def lower_prefix [OF that(1)] that(3)
        remove_0x_prefix [OF that(1) x(2) [OF assms(1)]] h bind_result_simps case_form_def [symmetric] a_def)
  have e: "isChecksumAddress (p @ d) = Inr (d = a)"
  proof -
    have "isChecksumAddress (p @ d) = Inr (\<forall>i\<in>set [0..<40]. d ! i = a ! i)"
      unfolding isChecksumAddress_def Let_def remove_0x_prefix [OF assms(3) x(1) [OF assms(1)]] h bind_result_simps a_def
      using assms(2) by (intro check_case_ok [OF assms(1)]) simp
    also have "(\<forall>i\<in>set [0..<40]. d ! i = a ! i) \<longleftrightarrow> d = a" using assms(2) a(2) by (auto simp: list_eq_iff_nth_eq)
    finally show ?thesis .
  qed
  have "isAddress (p @ d) = Inr (d = a \<or> d = lower d \<or> d = upper d)"
    using hex_form_prefix [OF assms(3,1)] digits_of_case [OF assms(1)] by (auto simp: isAddress_def assms(2) e)
  then show ?thesis unfolding ea using to [OF assms(3,1) refl] to [OF _ a(3,1), of "''0x''"] a e by blast
qed

theorem checksum_address_witness:
  "\<exists>a. toChecksumAddress (Some ''0xd1220a0cf47c7b9be7a2e6ba89f429762e7b9adb'') = Inr (''0x'' @ a) \<and>
     toChecksumAddress (Some (''0x'' @ a)) = Inr (''0x'' @ a) \<and>
     isAddress ''0xd1220a0cf47c7b9be7a2e6ba89f429762e7b9adb'' = Inr True"
proof -
  define d where "d = ''d1220a0cf47c7b9be7a2e6ba89f429762e7b9adb''"
  have d: "list_all any_hex d" "length d = 40" "d = lower d" unfolding d_def by code_simp+
  define z where "z = ''0x''"
  have p: "''0xd1220a0cf47c7b9be7a2e6ba89f429762e7b9adb'' = z @ d" by (simp add: d_def z_def)
  have "z = [] \<or> z = ''0x''" by (simp add: z_def)
  from checksum_address [OF d(1,2) this] have "toChecksumAddress (Some (z @ d)) = Inr (z @ eip55 d)"
      "toChecksumAddress (Some (z @ eip55 d)) = Inr (z @ eip55 d)" "isAddress (z @ d) = Inr (d = eip55 d \<or> d = lower d \<or> d = upper d)"
    unfolding z_def [symmetric] by blast+
  then show ?thesis unfolding p z_def [symmetric] using d(3) by auto
qed

section \<open>Texts in hexadecimal\<close>

lemma hex_code_read:
  assumes "0 \<le> x" "x < 256"
  shows "\<exists>c d. hex_code x = [c, d] \<and> js_parseInt [c, d] 16 = Some x"
proof -
  have "\<forall>x\<in>set [0..255]. case hex_code x of [c, d] \<Rightarrow> js_parseInt [c, d] 16 = Some x | _ \<Rightarrow> False" by code_simp
  moreover have "x \<in> set [0..255]" using assms by simp
  ultimately show ?thesis by (fastforce split: list.splits)
qed

lemma loops_read:
  assumes "is_bytes bs"
  shows "ascii_loop (concat (map hex_code bs)) = bs" "0 \<notin> set bs \<Longrightarrow> utf8_loop (concat (map hex_code bs)) = bs"
proof -
  have "ascii_loop (concat (map hex_code bs)) = bs \<and> (0 \<notin> set bs \<longrightarrow> utf8_loop (concat (map hex_code bs)) = bs)"
    using assms
  proof (induction bs)
    case (Cons x bs)
    then have x: "0 \<le> x" "x < 256" by (simp_all add: is_bytes_tail)
    from hex_code_read [OF this] obtain c d where "hex_code x = [c, d]" "js_parseInt [c, d] 16 = Some x" by blast
    then show ?case using Cons x by (auto simp: is_bytes_tail fromCharCode_def Let_def)
  qed simp
  then show "ascii_loop (concat (map hex_code bs)) = bs" "0 \<notin> set bs \<Longrightarrow> utf8_loop (concat (map hex_code bs)) = bs" by simp_all
qed

lemma fromUtf8_loop_ok: "0 \<notin> set bs \<Longrightarrow> fromUtf8_loop z bs = concat (map hex_code bs)"
  by (induction bs) auto

lemma utf8_no_zero:
  assumes "is_units s" "list_all scalar (ucs2decode s)" "0 \<notin> set s"
  shows "0 \<notin> set (concat (map utf8_spec (ucs2decode s)))"
proof
  assume "0 \<in> set (concat (map utf8_spec (ucs2decode s)))"
  then obtain c where c: "c \<in> set (ucs2decode s)" "0 \<in> set (utf8_spec c)" by auto
  then have "0 \<le> c" using assms(2) by (auto simp: list_all_iff scalar_def)
  have n: "0 \<noteq> 128 + x mod 64" for x :: int using pos_mod_sign [of 64 x] by linarith
  have q: "0 \<noteq> 192 + c div 64" "0 \<noteq> 224 + c div 4096" "0 \<noteq> 240 + c div 262144"
    using \<open>0 \<le> c\<close> by (simp_all add: pos_imp_zdiv_nonneg_iff add_pos_nonneg less_imp_neq)
  have "c = 0" using c(2) n q by (auto simp: utf8_spec_def split: if_splits)
  then have "0 \<in> set (ucs2encode (ucs2decode s))" using c(1) by (force simp: ucs2encode_def ucs2_units_def)
  then show False using ucs2encode_decode [OF assms(1)] assms(3) by simp
qed

text \<open>
  C40: Texts survive their hexadecimal form. \<open>toAscii\<close> gives back every string of bytes that \<open>fromAscii\<close> wrote, and
  \<open>toUtf8\<close> every text without the zero character and without unpaired surrogates that \<open>fromUtf8\<close> wrote, in both of
  its modes. In what \<open>toUtf8\<close> reads, a zero is the end.
\<close>

theorem hex_text_roundtrip:
  assumes "is_bytes s" "is_units t" "list_all scalar (ucs2decode t)" "0 \<notin> set t"
  shows "toAscii (fromAscii s) = s \<and> (\<exists>h. fromUtf8 t allowZero = Inr h \<and> toUtf8 h = Inr t \<and> toUtf8 (h @ ''00'' @ r) = Inr t)"
proof -
  define b where "b = concat (map utf8_spec (ucs2decode t))"
  have b: "is_bytes b" "0 \<notin> set b" "utf8encode t = Inr b" "utf8decode b = Inr t"
    using utf8_spec_list_bytes [OF assms(3)] utf8_no_zero [OF assms(2,3,4)] utf8encode_iff [OF assms(2), of b] assms(3)
      utf8decode_iff [of b t] ucs2encode_decode [OF assms(2)]
    by (auto simp: b_def)
  have z: "js_parseInt ''00'' 16 = Some 0" by code_simp
  have l: "utf8_loop (concat (map hex_code bs) @ ''00'' @ r) = bs" if "is_bytes bs" "0 \<notin> set bs" for bs
    using that
  proof (induction bs)
    case (Cons x bs)
    then have x: "0 \<le> x" "x < 256" by (simp_all add: is_bytes_tail)
    from hex_code_read [OF this] obtain c d where "hex_code x = [c, d]" "js_parseInt [c, d] 16 = Some x" by blast
    then show ?case using Cons x by (auto simp: is_bytes_tail fromCharCode_def Let_def)
  qed (simp add: z)
  have "fromUtf8 t allowZero = Inr (''0x'' @ concat (map hex_code b))" by (simp add: fromUtf8_def b(3) fromUtf8_loop_ok b(2))
  moreover have "toUtf8 (''0x'' @ concat (map hex_code b)) = Inr t" by (simp add: toUtf8_def loops_read(2) [OF b(1,2)] b(4))
  moreover have "toUtf8 ((''0x'' @ concat (map hex_code b)) @ ''00'' @ r) = Inr t" using l [OF b(1,2)] by (simp add: toUtf8_def b(4))
  moreover have "toAscii (fromAscii s) = s" by (simp add: toAscii_def fromAscii_def loops_read(1) [OF assms(1)])
  ultimately show ?thesis by blast
qed

theorem hex_text_roundtrip_witness:
  "toAscii (fromAscii [0, 7, 255]) = [0, 7, 255] \<and> (\<exists>h. fromUtf8 [0x20AC] False = Inr h \<and> toUtf8 h = Inr [0x20AC] \<and> toUtf8 (h @ ''00'' @ ''61'') = Inr [0x20AC])"
  by (rule hex_text_roundtrip) (simp_all add: is_bytes_def digits_in_def is_units_def scalar_def)

section \<open>Names\<close>

lemma index_of_app: "c \<notin> set s \<Longrightarrow> index_of c (s @ c # t) = int (length s)"
proof -
  assume "c \<notin> set s"
  then have "takeWhile (\<lambda>d. d \<noteq> c) (s @ c # t) = s" by (subst takeWhile_append2) auto
  then show ?thesis by (simp add: index_of_def)
qed

lemma index_of_none: "c \<notin> set s \<Longrightarrow> index_of c s = -1"
proof -
  assume "c \<notin> set s"
  then have t: "takeWhile (\<lambda>d. d \<noteq> c) s = s" by (subst takeWhile_eq_all_conv) auto
  show ?thesis unfolding index_of_def t by simp
qed

lemma join_chars: "c \<noteq> CHR '','' \<Longrightarrow> c \<in> set (join_comma ts) \<longleftrightarrow> (\<exists>t\<in>set ts. c \<in> set t)"
  by (induction ts rule: join_comma.induct) auto

lemma remove_blank_none: "CHR '' '' \<notin> set s \<Longrightarrow> remove_blank s = s"
  unfolding remove_blank_def by (subst takeWhile_eq_all_conv [THEN iffD2], blast, subst dropWhile_eq_Nil_conv [THEN iffD2], auto)

lemma full_name_parts:
  assumes "CHR ''('' \<notin> set n" "CHR '')'' \<notin> set n" "\<forall>t\<in>set ts. CHR '')'' \<notin> set t \<and> CHR '' '' \<notin> set t"
  shows "\<exists>f. transformToFullName \<lparr>abi_name = n, input_types = Some ts\<rparr> = Inr f \<and> extractDisplayName f = n \<and>
    extractTypeName f = join_comma ts \<and> transformToFullName \<lparr>abi_name = f, input_types = None\<rparr> = Inr f"
proof -
  define j where "j = join_comma ts"
  have j: "CHR '')'' \<notin> set j" "CHR '' '' \<notin> set j" using assms(3) by (auto simp: j_def join_chars)
  define f where "f = n @ ''('' @ j @ '')''"
  have t: "transformToFullName \<lparr>abi_name = n, input_types = Some ts\<rparr> = Inr f"
    using index_of_none [OF assms(1)] by (simp add: transformToFullName_def f_def j_def Let_def)
  have s: "index_of (CHR ''('') f = int (length n)" using index_of_app [OF assms(1)] by (simp add: f_def)
  have e: "index_of (CHR '')'') f = int (length n + 1 + length j)"
    using index_of_app [of "CHR '')''" "n @ ''('' @ j" "[]"] assms(2) j(1) by (simp add: f_def)
  have "extractDisplayName f = n" by (simp add: extractDisplayName_def Let_def s e) (simp add: f_def)
  moreover have "extractTypeName f = j"
  proof -
    have a: "nat (int (length n + 1 + length j) - int (length n) - 1) = length j" "nat (int (length n) + 1) = Suc (length n)" by simp_all
    have "extractTypeName f = remove_blank (take (length j) (drop (Suc (length n)) f))"
      unfolding extractTypeName_def Let_def s e a by simp
    also have "drop (Suc (length n)) f = j @ '')''" by (simp add: f_def)
    finally show ?thesis by (simp add: remove_blank_none j(2))
  qed
  moreover have "transformToFullName \<lparr>abi_name = f, input_types = None\<rparr> = Inr f" by (simp add: transformToFullName_def s)
  ultimately show ?thesis using t unfolding j_def by blast
qed

lemma pad_lengths:
  assumes "int (length s) \<le> n" "length z = 1"
  shows "\<exists>l r. padLeft s n (Some z) = Inr l \<and> padRight s n (Some z) = Inr r \<and> int (length l) = n \<and> int (length r) = n \<and>
    drop (length l - length s) l = s \<and> take (length s) r = s"
proof -
  obtain c where z: "z = [c]" using assms(2) by (cases z) auto
  have "n - int (length s) + 1 \<ge> 0" "nat (n - int (length s) + 1) - 1 = nat n - length s" using assms(1) by simp_all
  then have "pad_text s n (Some z) = Inr (replicate (nat n - length s) c)"
    by (simp add: pad_text_def z Let_def)
  then show ?thesis using assms(1) by (simp add: padLeft_def padRight_def)
qed

lemma pad_too_long: "n + 1 < int (length s) \<Longrightarrow> padLeft s n z = Inl ''Invalid array length'' \<and> padRight s n z = Inl ''Invalid array length''"
  by (simp add: padLeft_def padRight_def pad_text_def Let_def)

end
